(* ===== verification/GoPrelude.thy ===== *)
theory GoPrelude
  imports Main "HOL-Library.Monad_Syntax" "HOL-Library.Multiset"
begin

section \<open>What the components share\<close>

text \<open>
  The fragment of Go the repository's packages use, and the lemmas on it.

  \<^item> A Go panic (an index out of range, an explicit \<open>panic(...)\<close>) ends the process: a
    function that may panic returns an \<open>option\<close>, with \<open>None\<close> for the panic, and is
    composed with the \<open>do\<close> notation of the option monad.
  \<^item> Go's \<open>int\<close> and \<open>int64\<close> are modelled by \<open>int\<close> where the code only counts
    (terms, log indices, sequence numbers: one increment per election, command or request,
    so 64 bits are never exhausted); packages that compute with bits use \<open>64 word\<close> and
    \<open>32 word\<close>.
  \<^item> A slice is a list. The operations below take Go's \<open>int\<close> index and fail exactly
    where Go's run-time check does.
  \<^item> A map is an association list whose order stands for the order in which a
    \<open>for ... range\<close> happens to visit the keys (Go leaves it unspecified).
\<close>

named_theorems go_simps \<open>rewrite rules for the Go run-time operations\<close>

subsection \<open>Slices\<close>

definition go_at :: "'a list \<Rightarrow> int \<Rightarrow> 'a option" where
  "go_at xs i = (if 0 \<le> i \<and> i < int (length xs) then Some (xs ! nat i) else None)"

definition go_upd :: "'a list \<Rightarrow> int \<Rightarrow> 'a \<Rightarrow> 'a list option" where
  "go_upd xs i v = (if 0 \<le> i \<and> i < int (length xs) then Some (xs[nat i := v]) else None)"

text \<open>\<open>xs[lo:]\<close> and \<open>xs[:hi]\<close>. Go also accepts an \<open>hi\<close> between the length and
  the capacity of the slice; no caller in the repository passes one.\<close>

definition go_from :: "'a list \<Rightarrow> int \<Rightarrow> 'a list option" where
  "go_from xs lo = (if 0 \<le> lo \<and> lo \<le> int (length xs) then Some (drop (nat lo) xs) else None)"

definition go_upto :: "'a list \<Rightarrow> int \<Rightarrow> 'a list option" where
  "go_upto xs hi = (if 0 \<le> hi \<and> hi \<le> int (length xs) then Some (take (nat hi) xs) else None)"

definition go_len :: "'a list \<Rightarrow> int" where
  "go_len xs = int (length xs)"

lemma go_len_nonneg [simp]: "0 \<le> go_len xs"
  by (simp add: go_len_def)

lemma go_len_append [simp]: "go_len (xs @ ys) = go_len xs + go_len ys"
  by (simp add: go_len_def)

lemma go_len_Cons [simp]: "go_len (x # xs) = 1 + go_len xs"
  by (simp add: go_len_def)

lemma go_len_Nil [simp]: "go_len [] = 0"
  by (simp add: go_len_def)

lemma go_at_eq_Some [go_simps]:
  "go_at xs i = Some x \<longleftrightarrow> 0 \<le> i \<and> i < go_len xs \<and> x = xs ! nat i"
  by (auto simp: go_at_def go_len_def)

lemma go_at_eq_None [go_simps]: "go_at xs i = None \<longleftrightarrow> i < 0 \<or> go_len xs \<le> i"
  by (auto simp: go_at_def go_len_def)

lemma go_at_in_range: "0 \<le> i \<Longrightarrow> i < go_len xs \<Longrightarrow> go_at xs i = Some (xs ! nat i)"
  by (simp add: go_at_def go_len_def)

lemma go_at_int [simp]: "k < length xs \<Longrightarrow> go_at xs (int k) = Some (xs ! k)"
  by (simp add: go_at_def)

lemma go_upd_eq_Some [go_simps]:
  "go_upd xs i v = Some ys \<longleftrightarrow> 0 \<le> i \<and> i < go_len xs \<and> ys = xs[nat i := v]"
  by (auto simp: go_upd_def go_len_def)

lemma go_upd_length: "go_upd xs i v = Some ys \<Longrightarrow> length ys = length xs"
  by (auto simp: go_simps)

lemma go_at_go_upd:
  "go_upd xs i v = Some ys \<Longrightarrow> go_at ys j = (if i = j then Some v else go_at xs j)"
  by (auto simp: go_upd_def go_at_def split: if_splits)

lemma go_from_eq_Some [go_simps]:
  "go_from xs lo = Some ys \<longleftrightarrow> 0 \<le> lo \<and> lo \<le> go_len xs \<and> ys = drop (nat lo) xs"
  by (auto simp: go_from_def go_len_def)

lemma go_upto_eq_Some [go_simps]:
  "go_upto xs hi = Some ys \<longleftrightarrow> 0 \<le> hi \<and> hi \<le> go_len xs \<and> ys = take (nat hi) xs"
  by (auto simp: go_upto_def go_len_def)

lemma bind_eq_SomeD:
  "Option.bind m f = Some y \<Longrightarrow> \<exists>x. m = Some x \<and> f x = Some y"
  by (cases m) auto

subsection \<open>Decimal formatting, \<open>strconv.Itoa\<close> and \<open>%d\<close>\<close>

definition digit_char :: "nat \<Rightarrow> char" where
  "digit_char d = char_of (48 + d)"

fun nat_digits :: "nat \<Rightarrow> string" where
  "nat_digits n = (if n < 10 then [digit_char n] else nat_digits (n div 10) @ [digit_char (n mod 10)])"

declare nat_digits.simps [simp del]

definition itoa :: "int \<Rightarrow> string" where
  "itoa i = (if i < 0 then CHR ''-'' # nat_digits (nat (- i)) else nat_digits (nat i))"

text \<open>Reading the digits back, so that formatting is seen to lose nothing.\<close>

definition char_digit :: "char \<Rightarrow> nat" where
  "char_digit c = of_char c - 48"

definition digits_val :: "string \<Rightarrow> nat" where
  "digits_val s = foldl (\<lambda>a c. 10 * a + char_digit c) 0 s"

lemma char_digit_digit_char: "d < 10 \<Longrightarrow> char_digit (digit_char d) = d"
  by (simp add: char_digit_def digit_char_def)

lemma digits_val_nat_digits: "digits_val (nat_digits n) = n"
proof (induction n rule: nat_digits.induct)
  case (1 n)
  show ?case
  proof (cases "n < 10")
    case True
    then show ?thesis
      by (simp add: nat_digits.simps [of n] digits_val_def char_digit_digit_char)
  next
    case False
    with "1.IH" have "digits_val (nat_digits (n div 10)) = n div 10" by simp
    with False show ?thesis
      by (simp add: nat_digits.simps [of n] digits_val_def char_digit_digit_char)
  qed
qed

lemma nat_digits_inj: "nat_digits m = nat_digits n \<longleftrightarrow> m = n"
  by (metis digits_val_nat_digits)

lemma nat_digits_range: "c \<in> set (nat_digits n) \<Longrightarrow> \<exists>d < 10. c = digit_char d"
proof (induction n rule: nat_digits.induct)
  case (1 n)
  show ?case
  proof (cases "n < 10")
    case True
    with "1.prems" show ?thesis by (auto simp: nat_digits.simps [of n])
  next
    case False
    with "1.prems" have "c \<in> set (nat_digits (n div 10)) \<or> c = digit_char (n mod 10)"
      by (auto simp: nat_digits.simps [of n])
    then show ?thesis
      using "1.IH" [OF False] by (metis mod_less_divisor zero_less_numeral)
  qed
qed

lemma of_char_digit_char: "d < 10 \<Longrightarrow> of_char (digit_char d) = (48 + d :: nat)"
  by (simp add: digit_char_def)

lemma digit_char_not_minus: "d < 10 \<Longrightarrow> digit_char d \<noteq> CHR ''-''"
proof
  assume "d < 10" and "digit_char d = CHR ''-''"
  then have "(48 + d :: nat) = of_char (CHR ''-'')"
    by (metis of_char_digit_char)
  then show False by simp
qed

lemma digit_char_plain:
  assumes "d < 10"
  shows "digit_char d \<noteq> CHR ''.''" "digit_char d \<noteq> CHR ''/''" "digit_char d \<noteq> CHR ''-''"
proof -
  have "of_char (digit_char d) = (48 + d :: nat)" by (rule of_char_digit_char [OF assms])
  then show "digit_char d \<noteq> CHR ''.''" "digit_char d \<noteq> CHR ''/''" "digit_char d \<noteq> CHR ''-''" by auto
qed

lemma itoa_chars:
  "CHR ''.'' \<notin> set (itoa i)" "CHR ''/'' \<notin> set (itoa i)" "0 \<le> i \<Longrightarrow> CHR ''-'' \<notin> set (itoa i)"
proof -
  have d: "c \<notin> set (nat_digits n)" if "c = CHR ''.'' \<or> c = CHR ''/'' \<or> c = CHR ''-''" for c n
    using nat_digits_range [of c n] digit_char_plain that by blast
  show "CHR ''.'' \<notin> set (itoa i)" "CHR ''/'' \<notin> set (itoa i)" "0 \<le> i \<Longrightarrow> CHR ''-'' \<notin> set (itoa i)"
    using d by (simp_all add: itoa_def)
qed

lemma itoa_inj: "0 \<le> i \<Longrightarrow> 0 \<le> j \<Longrightarrow> itoa i = itoa j \<longleftrightarrow> i = j"
  by (auto simp: itoa_def nat_digits_inj)

lemma split_at_char:
  assumes "c \<notin> set u" and "c \<notin> set u'"
  shows "u @ c # v = u' @ c # v' \<longleftrightarrow> u = u' \<and> v = v'"
proof
  assume e: "u @ c # v = u' @ c # v'"
  have "takeWhile (\<lambda>x. x \<noteq> c) (u @ c # v) = u" "takeWhile (\<lambda>x. x \<noteq> c) (u' @ c # v') = u'"
    using assms by (auto simp: takeWhile_append takeWhile_eq_all_conv)
  with e show "u = u' \<and> v = v'" by simp
qed simp

subsection \<open>Sorting, \<open>sort.Ints\<close>\<close>

text \<open>\<open>sort\<close> is the library's stable sort; on integers every sort returns the same list.\<close>

lemma sorted_ge_count:
  fixes xs :: "int list"
  assumes "sorted xs" and "k < length xs"
  shows "length xs - k \<le> length (filter (\<lambda>x. xs ! k \<le> x) xs)"
proof -
  have "\<forall>x \<in> set (drop k xs). xs ! k \<le> x"
    using assms by (auto simp: in_set_conv_nth sorted_nth_mono)
  then have "filter (\<lambda>x. xs ! k \<le> x) (drop k xs) = drop k xs"
    by (simp add: filter_id_conv)
  moreover have "filter (\<lambda>x. xs ! k \<le> x) xs
      = filter (\<lambda>x. xs ! k \<le> x) (take k xs) @ filter (\<lambda>x. xs ! k \<le> x) (drop k xs)"
    by (metis append_take_drop_id filter_append)
  ultimately show ?thesis by simp
qed

lemma length_filter_mset_eq:
  "mset xs = mset ys \<Longrightarrow> length (filter P xs) = length (filter P ys)"
  by (metis mset_filter size_mset)

end
