(* ===== verification/Raft_Log.thy ===== *)
theory Raft_Log
  imports GoPrelude
begin

section \<open>The compacted log, \<open>raft/raft_log.go\<close>\<close>

text \<open>
  A log whose prefix up to \<open>snapLastIdx\<close> has been replaced by a snapshot. \<open>tailLog\<close>
  starts with a dummy entry that carries the term of the last snapshotted index, followed by
  the entries after it; every operation takes logical indices. The type of commands is
  \<open>'c\<close> (\<open>interface{}\<close> in the source, \<open>None\<close> for \<open>nil\<close>) and a snapshot is a
  list over \<open>'s\<close> (\<open>[]byte\<close>, where the source never tells nil from empty).

  The operations come first, in the order of the file; then the well-formedness invariant they
  keep, and the interface \<open>compacted_log\<close> the Raft peer relies on, with an interpretation
  on these operations.
\<close>

subsection \<open>Data\<close>

record 'c LogEntry =
  leTerm :: int
  leCommandValid :: bool
  leCommand :: "'c option"

record ('c, 's) RaftLog =
  snapLastIdx :: int
  snapLastTerm :: int
  snapshot :: "'s list"
  tailLog :: "'c LogEntry list"

text \<open>\<open>LogEntry{Term: t}\<close>, the other fields at their zero values.\<close>

definition termEntry :: "int \<Rightarrow> 'c LogEntry" where
  "termEntry t = \<lparr>leTerm = t, leCommandValid = False, leCommand = None\<rparr>"

text \<open>
  What \<open>labgob\<close> (a wrapper of the standard library's \<open>encoding/gob\<close>) writes: a stream of
  typed values. Decoding takes the values off in order and fails at the end of the stream or
  on a value of another type.
\<close>

datatype 'c gob = GInt int | GLog "'c LogEntry list"

fun decode_int :: "'c gob list \<Rightarrow> (int \<times> 'c gob list) option" where
  "decode_int (GInt i # d) = Some (i, d)"
| "decode_int _ = None"

fun decode_log :: "'c gob list \<Rightarrow> ('c LogEntry list \<times> 'c gob list) option" where
  "decode_log (GLog es # d) = Some (es, d)"
| "decode_log _ = None"

subsection \<open>Operations\<close>

definition NewLog :: "int \<Rightarrow> int \<Rightarrow> 's list \<Rightarrow> 'c LogEntry list \<Rightarrow> ('c, 's) RaftLog" where
  "NewLog lastIdx lastTerm snap entries =
     \<lparr>snapLastIdx = lastIdx, snapLastTerm = lastTerm, snapshot = snap,
      tailLog = [termEntry lastTerm] @ entries\<rparr>"

text \<open>\<open>readPersist\<close> returns its error, if any; what it decoded before the error stays.\<close>

definition log_readPersist :: "'c gob list \<Rightarrow> ('c, 's) RaftLog \<Rightarrow> string option \<times> ('c, 's) RaftLog" where
  "log_readPersist d rl =
     (case decode_int d of
        None \<Rightarrow> (Some ''decode last include index failed'', rl)
      | Some (lastIdx, d1) \<Rightarrow>
          (let rl1 = rl\<lparr>snapLastIdx := lastIdx\<rparr> in
           case decode_int d1 of
             None \<Rightarrow> (Some ''decode last include term failed'', rl1)
           | Some (lastTerm, d2) \<Rightarrow>
               (let rl2 = rl1\<lparr>snapLastTerm := lastTerm\<rparr> in
                case decode_log d2 of
                  None \<Rightarrow> (Some ''decode log failed'', rl2)
                | Some (es, d3) \<Rightarrow> (None, rl2\<lparr>tailLog := es\<rparr>))))"

definition log_persist :: "('c, 's) RaftLog \<Rightarrow> 'c gob list \<Rightarrow> 'c gob list" where
  "log_persist rl e = e @ [GInt (snapLastIdx rl), GInt (snapLastTerm rl), GLog (tailLog rl)]"

definition log_size :: "('c, 's) RaftLog \<Rightarrow> int" where
  "log_size rl = snapLastIdx rl + go_len (tailLog rl)"

definition log_idx :: "('c, 's) RaftLog \<Rightarrow> int \<Rightarrow> int option" where
  "log_idx rl logicIdx =
     (if logicIdx < snapLastIdx rl \<or> logicIdx \<ge> log_size rl then None
      else Some (logicIdx - snapLastIdx rl))"

definition log_at :: "('c, 's) RaftLog \<Rightarrow> int \<Rightarrow> 'c LogEntry option" where
  "log_at rl logicIdx = do { i \<leftarrow> log_idx rl logicIdx; go_at (tailLog rl) i }"

text \<open>\<open>String\<close>: the runs of equal terms. The loop carries \<open>prevTerm\<close>, \<open>prevStart\<close> and
  the text built so far.\<close>

fun log_String_loop ::
  "'c LogEntry list \<Rightarrow> int \<Rightarrow> int \<Rightarrow> int \<Rightarrow> string \<Rightarrow> int \<times> int \<times> string" where
  "log_String_loop [] i prevTerm prevStart terms = (prevTerm, prevStart, terms)"
| "log_String_loop (e # es) i prevTerm prevStart terms =
     (if leTerm e \<noteq> prevTerm
      then log_String_loop es (i + 1) (leTerm e) i
             (terms @ '' ['' @ itoa prevStart @ '', '' @ itoa (i - 1) @ '']T'' @ itoa prevTerm)
      else log_String_loop es (i + 1) prevTerm prevStart terms)"

definition log_String :: "('c, 's) RaftLog \<Rightarrow> string" where
  "log_String rl =
     (let (prevTerm, prevStart, terms) =
            log_String_loop (tailLog rl) 0 (snapLastTerm rl) (snapLastIdx rl) ''''
      in terms @ ''['' @ itoa prevStart @ '', '' @ itoa (go_len (tailLog rl) - 1) @ '']T''
           @ itoa prevTerm)"

definition log_last :: "('c, 's) RaftLog \<Rightarrow> (int \<times> int) option" where
  "log_last rl = do {
     e \<leftarrow> go_at (tailLog rl) (go_len (tailLog rl) - 1);
     Some (log_size rl - 1, leTerm e) }"

definition log_tail :: "('c, 's) RaftLog \<Rightarrow> int \<Rightarrow> 'c LogEntry list option" where
  "log_tail rl startIdx =
     (if startIdx \<ge> log_size rl then Some []
      else do { i \<leftarrow> log_idx rl startIdx; go_from (tailLog rl) i })"

definition log_append :: "('c, 's) RaftLog \<Rightarrow> 'c LogEntry \<Rightarrow> ('c, 's) RaftLog" where
  "log_append rl e = rl\<lparr>tailLog := tailLog rl @ [e]\<rparr>"

definition log_appendFrom ::
  "('c, 's) RaftLog \<Rightarrow> int \<Rightarrow> 'c LogEntry list \<Rightarrow> ('c, 's) RaftLog option" where
  "log_appendFrom rl prevIdx entries = do {
     i \<leftarrow> log_idx rl prevIdx;
     keep \<leftarrow> go_upto (tailLog rl) (i + 1);
     Some (rl\<lparr>tailLog := keep @ entries\<rparr>) }"

definition log_Str :: "('c, 's) RaftLog \<Rightarrow> string option" where
  "log_Str rl = do {
     (lastIdx, lastTerm) \<leftarrow> log_last rl;
     Some (''['' @ itoa (snapLastIdx rl) @ '']T'' @ itoa (snapLastTerm rl) @ ''~[''
             @ itoa lastIdx @ '']T'' @ itoa lastTerm) }"

definition log_doSnapshot ::
  "('c, 's) RaftLog \<Rightarrow> int \<Rightarrow> 's list \<Rightarrow> ('c, 's) RaftLog option" where
  "log_doSnapshot rl index snap = do {
     i \<leftarrow> log_idx rl index;
     e \<leftarrow> go_at (tailLog rl) i;
     rest \<leftarrow> go_from (tailLog rl) (i + 1);
     Some (rl\<lparr>snapLastIdx := index, snapLastTerm := leTerm e, snapshot := snap,
             tailLog := [termEntry (leTerm e)] @ rest\<rparr>) }"

definition log_installSnapshot ::
  "('c, 's) RaftLog \<Rightarrow> int \<Rightarrow> int \<Rightarrow> 's list \<Rightarrow> ('c, 's) RaftLog" where
  "log_installSnapshot rl index trm snap =
     rl\<lparr>snapLastIdx := index, snapLastTerm := trm, snapshot := snap,
        tailLog := [termEntry trm]\<rparr>"

subsection \<open>Well-formedness and views\<close>

text \<open>The invariant of the type: the dummy entry is there and carries the snapshot's term.\<close>

definition log_wf :: "('c, 's) RaftLog \<Rightarrow> bool" where
  "log_wf rl \<longleftrightarrow> tailLog rl \<noteq> [] \<and> leTerm (hd (tailLog rl)) = snapLastTerm rl"

text \<open>The term recorded at a logical index, and the entries after the dummy one.\<close>

definition log_term_at :: "('c, 's) RaftLog \<Rightarrow> int \<Rightarrow> int option" where
  "log_term_at rl i = map_option leTerm (log_at rl i)"

definition log_first :: "('c, 's) RaftLog \<Rightarrow> int" where
  "log_first rl = snapLastIdx rl"

named_theorems raft_log_defs \<open>unfolding the log operations\<close>

declare log_size_def [raft_log_defs] log_idx_def [raft_log_defs] log_at_def [raft_log_defs]
  log_last_def [raft_log_defs] log_tail_def [raft_log_defs] log_append_def [raft_log_defs]
  log_appendFrom_def [raft_log_defs] log_doSnapshot_def [raft_log_defs]
  log_installSnapshot_def [raft_log_defs] NewLog_def [raft_log_defs]
  termEntry_def [raft_log_defs] log_first_def [raft_log_defs]

lemma log_wf_len: "log_wf rl \<Longrightarrow> 0 < go_len (tailLog rl)"
  by (cases "tailLog rl") (auto simp: log_wf_def go_len_def)

lemma log_wf_size: "log_wf rl \<Longrightarrow> snapLastIdx rl < log_size rl"
  using log_wf_len [of rl] by (simp add: log_size_def)

lemma log_at_eq:
  "log_at rl i = (if snapLastIdx rl \<le> i \<and> i < log_size rl
                  then Some (tailLog rl ! nat (i - snapLastIdx rl)) else None)"
  by (auto simp: raft_log_defs go_at_def go_len_def)

lemma log_at_defined: "log_at rl i \<noteq> None \<longleftrightarrow> snapLastIdx rl \<le> i \<and> i < log_size rl"
  by (simp add: log_at_eq)

lemma log_at_snap: "log_wf rl \<Longrightarrow> log_at rl (snapLastIdx rl) = Some (hd (tailLog rl))"
  by (simp add: log_at_eq log_wf_size) (simp add: log_wf_def hd_conv_nth)

lemma log_wf_NewLog: "log_wf (NewLog i t s es)"
  by (simp add: log_wf_def raft_log_defs)

lemma log_wf_append: "log_wf rl \<Longrightarrow> log_wf (log_append rl e)"
  by (auto simp: log_wf_def raft_log_defs)

lemma log_wf_installSnapshot: "log_wf (log_installSnapshot rl i t s)"
  by (simp add: log_wf_def raft_log_defs)

lemma log_appendFrom_eq:
  "log_appendFrom rl prev es =
     (if snapLastIdx rl \<le> prev \<and> prev < log_size rl
      then Some (rl\<lparr>tailLog := take (nat (prev - snapLastIdx rl) + 1) (tailLog rl) @ es\<rparr>)
      else None)"
  by (auto simp: raft_log_defs go_upto_def go_len_def nat_add_distrib)

lemma log_doSnapshot_eq:
  "log_doSnapshot rl i s =
     (if snapLastIdx rl \<le> i \<and> i < log_size rl
      then let e = tailLog rl ! nat (i - snapLastIdx rl) in
           Some (rl\<lparr>snapLastIdx := i, snapLastTerm := leTerm e, snapshot := s,
                   tailLog := termEntry (leTerm e)
                                # drop (nat (i - snapLastIdx rl) + 1) (tailLog rl)\<rparr>)
      else None)"
  by (auto simp: log_doSnapshot_def log_idx_def log_size_def go_at_def go_from_def go_len_def
      nat_add_distrib Let_def)

lemma log_wf_appendFrom:
  assumes "log_wf rl" and "log_appendFrom rl prev es = Some rl'"
  shows "log_wf rl'"
  using assms by (cases "tailLog rl") (auto simp: log_appendFrom_eq log_wf_def split: if_splits)

lemma log_wf_doSnapshot: "log_doSnapshot rl i s = Some rl' \<Longrightarrow> log_wf rl'"
  by (auto simp: log_doSnapshot_eq log_wf_def Let_def termEntry_def split: if_splits)

lemma log_last_eq:
  "log_wf rl \<Longrightarrow> log_last rl = Some (log_size rl - 1, leTerm (last (tailLog rl)))"
  by (auto simp: log_last_def log_wf_def go_at_def go_len_def last_conv_nth nat_diff_distrib
      Suc_le_eq)

lemma log_tail_eq:
  "snapLastIdx rl \<le> i \<Longrightarrow> log_tail rl i = Some (drop (nat (i - snapLastIdx rl)) (tailLog rl))"
  by (auto simp: raft_log_defs go_from_def go_len_def)

subsection \<open>The interface the Raft peer relies on\<close>

text \<open>
  \<open>compacted_log\<close> is what \<open>raft.go\<close> and the RPC handlers use of a log: a window
  \<open>[first, size)\<close> of logical indices with a term at each, appended to at the end,
  overwritten after a match point, and compacted from the left. None of the client facts
  below looks inside the representation.
\<close>

locale compacted_log =
  fixes wf :: "'l \<Rightarrow> bool"
    and first :: "'l \<Rightarrow> int"
    and size_of :: "'l \<Rightarrow> int"
    and term_at :: "'l \<Rightarrow> int \<Rightarrow> int option"
    and snoc :: "'l \<Rightarrow> 'e \<Rightarrow> 'l"
    and replace :: "'l \<Rightarrow> int \<Rightarrow> 'e list \<Rightarrow> 'l option"
    and compact :: "'l \<Rightarrow> int \<Rightarrow> 'b \<Rightarrow> 'l option"
    and term_of :: "'e \<Rightarrow> int"
  assumes first_less: "wf l \<Longrightarrow> first l < size_of l"
    and defined: "wf l \<Longrightarrow> term_at l i \<noteq> None \<longleftrightarrow> first l \<le> i \<and> i < size_of l"
    and snoc_wf: "wf l \<Longrightarrow> wf (snoc l e)"
    and snoc_view: "wf l \<Longrightarrow> first (snoc l e) = first l \<and> size_of (snoc l e) = size_of l + 1
          \<and> term_at (snoc l e) = (term_at l)(size_of l := Some (term_of e))"
    and replace_defined: "wf l \<Longrightarrow> replace l p es \<noteq> None \<longleftrightarrow> first l \<le> p \<and> p < size_of l"
    and replace_wf: "wf l \<Longrightarrow> replace l p es = Some l' \<Longrightarrow> wf l'"
    and replace_view: "wf l \<Longrightarrow> replace l p es = Some l' \<Longrightarrow>
          first l' = first l \<and> size_of l' = p + 1 + int (length es)"
    and replace_keeps: "wf l \<Longrightarrow> replace l p es = Some l' \<Longrightarrow> i \<le> p \<Longrightarrow> term_at l' i = term_at l i"
    and replace_new: "wf l \<Longrightarrow> replace l p es = Some l' \<Longrightarrow> k < length es \<Longrightarrow>
          term_at l' (p + 1 + int k) = Some (term_of (es ! k))"
    and compact_defined: "wf l \<Longrightarrow> compact l i b \<noteq> None \<longleftrightarrow> first l \<le> i \<and> i < size_of l"
    and compact_wf: "wf l \<Longrightarrow> compact l i b = Some l' \<Longrightarrow> wf l'"
    and compact_view: "wf l \<Longrightarrow> compact l i b = Some l' \<Longrightarrow> first l' = i \<and> size_of l' = size_of l"
    and compact_keeps: "wf l \<Longrightarrow> compact l i b = Some l' \<Longrightarrow> i \<le> j \<Longrightarrow> term_at l' j = term_at l j"
begin

lemma last_defined: "wf l \<Longrightarrow> term_at l (size_of l - 1) \<noteq> None"
  using first_less [of l] defined [of l "size_of l - 1"] by simp

text \<open>Compaction is invisible to a peer that compares last entries.\<close>

lemma compact_last:
  assumes "wf l" and "compact l i b = Some l'"
  shows "size_of l' - 1 = size_of l - 1 \<and> term_at l' (size_of l' - 1) = term_at l (size_of l - 1)"
proof -
  have "i < size_of l"
    using assms compact_defined by blast
  then show ?thesis
    using compact_view [OF assms] compact_keeps [OF assms, of "size_of l - 1"] by simp
qed

text \<open>Two logs overwritten by the same request agree from the match point on, whatever
  followed the match point before.\<close>

lemma replace_agree:
  assumes "wf l1" and "wf l2"
    and r1: "replace l1 p es = Some l1'" and r2: "replace l2 p es = Some l2'"
    and "term_at l1 p = term_at l2 p" and "p \<le> i"
  shows "size_of l1' = size_of l2' \<and> term_at l1' i = term_at l2' i"
proof -
  have size: "size_of l1' = p + 1 + int (length es)" "size_of l2' = p + 1 + int (length es)"
    using replace_view assms by blast+
  consider "i = p" | k where "i = p + 1 + int k" "k < length es" | "size_of l1' \<le> i"
    using \<open>p \<le> i\<close> size(1) that(2) [of "nat (i - p - 1)"] by force
  then have "term_at l1' i = term_at l2' i"
  proof cases
    case 1
    then show ?thesis
      using replace_keeps [OF assms(1) r1, of p] replace_keeps [OF assms(2) r2, of p] assms(5)
      by simp
  next
    case 2
    then show ?thesis
      using replace_new [OF assms(1) r1] replace_new [OF assms(2) r2] by simp
  next
    case 3
    moreover have "wf l1'" "wf l2'"
      using replace_wf assms by blast+
    ultimately have "term_at l1' i = None" "term_at l2' i = None"
      using defined [of l1' i] defined [of l2' i] size by auto
    then show ?thesis by simp
  qed
  then show ?thesis using size by simp
qed

text \<open>A request that is delivered twice in a row changes nothing the second time.\<close>

lemma replace_again:
  assumes "wf l" and r: "replace l p es = Some l'"
  shows "\<exists>l''. replace l' p es = Some l'' \<and> size_of l'' = size_of l'
           \<and> (\<forall>i. term_at l'' i = term_at l' i)"
proof -
  have wf': "wf l'" and view: "first l' = first l" "size_of l' = p + 1 + int (length es)"
    using replace_wf replace_view assms by blast+
  have "first l \<le> p"
    using replace_defined [OF assms(1), of p es] r by simp
  then obtain l'' where r': "replace l' p es = Some l''"
    using replace_defined [OF wf', of p es] view by auto
  have "term_at l'' i = term_at l' i" for i
  proof (cases "i \<le> p")
    case True
    then show ?thesis using replace_keeps [OF wf' r'] by simp
  next
    case False
    then show ?thesis
      using replace_agree [OF wf' assms(1) r' r] replace_keeps [OF assms(1) r, of p] by simp
  qed
  moreover have "size_of l'' = size_of l'"
    using replace_view [OF wf' r'] view by simp
  ultimately show ?thesis using r' by blast
qed

end

lemma log_term_at_eq:
  "log_term_at rl i = (if snapLastIdx rl \<le> i \<and> i < log_size rl
                       then Some (leTerm (tailLog rl ! nat (i - snapLastIdx rl))) else None)"
  by (simp add: log_term_at_def log_at_eq)

lemma log_append_view:
  "log_size (log_append rl e) = log_size rl + 1"
  "log_at (log_append rl e) i = (if i = log_size rl \<and> snapLastIdx rl \<le> i then Some e else log_at rl i)"
  by (auto simp: log_size_def log_append_def log_at_eq nth_append go_len_def)

lemma log_appendFrom_view:
  assumes "log_appendFrom rl p es = Some rl'"
  shows "snapLastIdx rl' = snapLastIdx rl" "log_size rl' = p + 1 + go_len es"
    and "snapLastTerm rl' = snapLastTerm rl" "snapshot rl' = snapshot rl"
    and "i \<le> p \<Longrightarrow> log_at rl' i = log_at rl i"
    and "k < length es \<Longrightarrow> log_at rl' (p + 1 + int k) = Some (es ! k)"
  using assms
  by (auto simp: log_appendFrom_eq log_at_eq log_size_def go_len_def nth_append nat_diff_distrib
      nat_add_distrib min_def split: if_splits intro!: arg_cong [of _ _ "(!) es"])

lemma log_doSnapshot_view:
  assumes "log_doSnapshot rl i s = Some rl'"
  shows "snapLastIdx rl' = i" "log_size rl' = log_size rl" "snapshot rl' = s"
    and "log_term_at rl' i = log_term_at rl i"
    and "i < j \<Longrightarrow> log_at rl' j = log_at rl j"
  using assms
  by (auto simp: log_doSnapshot_eq log_at_eq log_term_at_eq log_size_def go_len_def Let_def
      nth_Cons' termEntry_def split: if_splits intro!: arg_cong [of _ _ "(!) (tailLog rl)"])

interpretation raftlog: compacted_log log_wf log_first log_size log_term_at log_append
  log_appendFrom log_doSnapshot leTerm
proof (unfold_locales, goal_cases)
  case (1 l) then show ?case by (simp add: log_first_def log_wf_size)
next
  case (2 l i) then show ?case by (simp add: log_first_def log_term_at_eq)
next
  case (3 l e) then show ?case by (rule log_wf_append)
next
  case (4 l e) then show ?case
    using log_wf_size [of l]
    by (auto simp: log_first_def log_append_view log_term_at_def fun_eq_iff) (simp add: log_append_def)
next
  case (5 l p es) then show ?case by (simp add: log_appendFrom_eq log_first_def)
next
  case (6 l p es l') then show ?case by (rule log_wf_appendFrom)
next
  case (7 l p es l') then show ?case
    using log_appendFrom_view(1,2) by (fastforce simp: log_first_def go_len_def)
next
  case (8 l p es l' i) then show ?case by (simp add: log_term_at_def log_appendFrom_view(5))
next
  case (9 l p es l' k) then show ?case by (simp add: log_term_at_def log_appendFrom_view(6))
next
  case (10 l i b) then show ?case by (simp add: log_doSnapshot_eq log_first_def Let_def)
next
  case (11 l i b l') then show ?case using log_wf_doSnapshot by blast
next
  case (12 l i b l') then show ?case by (simp add: log_first_def log_doSnapshot_view(1,2))
next
  case (13 l i b l' j) then show ?case
    by (cases "i = j") (simp_all add: log_doSnapshot_view(4), simp add: log_term_at_def log_doSnapshot_view(5))
qed

end
