(* ===== verification/Raft_State.thy ===== *)
theory Raft_State
  imports Raft_Log
begin

section \<open>The state of a Raft peer, \<open>raft/raft.go\<close>, \<open>raft_persistence.go\<close>, \<open>persister.go\<close>\<close>

text \<open>
  The persister, the peer's record and the operations of \<open>raft.go\<close>: the three role changes,
  \<open>Start\<close>, \<open>Kill\<close>, \<open>Make\<close>, and saving and restoring the durable state.

  Correspondence to the struct \<open>Raft\<close>: \<open>peers\<close> keeps the number of end points (the
  calls on them are the messages of theory \<open>Raft_Cluster\<close>), the mutex disappears because
  every operation here is one critical section, and \<open>applyWaiting\<close> tells whether the
  \<open>applicationTicker\<close> goroutine is parked in \<open>applyCond.Wait()\<close>, which is all a
  \<open>Signal\<close> can see of it. A reading of the clock and of the random generator is an argument
  (\<open>clock\<close>); an operation that resets the election timer twice under one lock uses one
  reading, of which only the last could be observed.
\<close>

subsection \<open>Persister\<close>

record ('c, 's) Persister =
  ps_raftstate :: "'c gob list"
  ps_snapshot :: "'s list"

definition MakePersister :: "('c, 's) Persister" where
  "MakePersister = \<lparr>ps_raftstate = [], ps_snapshot = []\<rparr>"

text \<open>\<open>clone\<close> allocates a slice of the same length and copies the elements into it.\<close>

definition clone :: "'a list \<Rightarrow> 'a list" where
  "clone orig = take (length orig) orig"

definition ps_Copy :: "('c, 's) Persister \<Rightarrow> ('c, 's) Persister" where
  "ps_Copy ps = MakePersister\<lparr>ps_raftstate := ps_raftstate ps, ps_snapshot := ps_snapshot ps\<rparr>"

definition ReadRaftState :: "('c, 's) Persister \<Rightarrow> 'c gob list" where
  "ReadRaftState ps = clone (ps_raftstate ps)"

text \<open>The number of bytes depends on \<open>gob\<close>'s wire format: \<open>bytes\<close> stands for it.\<close>

definition RaftStateSize :: "('c gob list \<Rightarrow> int) \<Rightarrow> ('c, 's) Persister \<Rightarrow> int" where
  "RaftStateSize bytes ps = bytes (ps_raftstate ps)"

definition Save :: "'c gob list \<Rightarrow> 's list \<Rightarrow> ('c, 's) Persister \<Rightarrow> ('c, 's) Persister" where
  "Save raftstate snap ps = ps\<lparr>ps_raftstate := clone raftstate, ps_snapshot := clone snap\<rparr>"

definition ReadSnapshot :: "('c, 's) Persister \<Rightarrow> 's list" where
  "ReadSnapshot ps = clone (ps_snapshot ps)"

definition SnapshotSize :: "('c, 's) Persister \<Rightarrow> int" where
  "SnapshotSize ps = go_len (ps_snapshot ps)"

subsection \<open>The peer\<close>

datatype Role = Follower | Candidate | Leader

definition InvalidTerm :: int where "InvalidTerm = 0"
definition InvalidIndex :: int where "InvalidIndex = 0"

definition millisecond :: int where "millisecond = 1000000"
definition electionTimeoutLowerBound :: int where "electionTimeoutLowerBound = 250 * millisecond"
definition electionTimeoutUpperBound :: int where "electionTimeoutUpperBound = 400 * millisecond"
definition replicationInterval :: int where "replicationInterval = 30 * millisecond"

record ('c, 's) ApplyMsg =
  CommandValid :: bool
  Command :: "'c option"
  CommandIndex :: int
  SnapshotValid :: bool
  Snapshot :: "'s list"
  SnapshotTerm :: int
  SnapshotIndex :: int

record ('c, 's) Raft =
  peers :: int
  persister :: "('c, 's) Persister"
  me :: int
  dead :: int
  role :: Role
  currentTerm :: int
  votedFor :: int
  electionStart :: int
  electionTimeout :: int
  rlog :: "('c, 's) RaftLog"
  nextIndex :: "int list"
  matchIndex :: "int list"
  commitIndex :: int
  lastApplied :: int
  applyWaiting :: bool
  snapPending :: bool

text \<open>One reading of \<open>time.Now()\<close> and of \<open>rand.Int63()\<close> (a non-negative number).\<close>

record clock =
  now :: int
  rnd :: int

definition resetElectionTimerLocked :: "clock \<Rightarrow> ('c, 's) Raft \<Rightarrow> ('c, 's) Raft" where
  "resetElectionTimerLocked clk rf =
     (let randRange = electionTimeoutUpperBound - electionTimeoutLowerBound
      in rf\<lparr>electionStart := now clk,
            electionTimeout := electionTimeoutLowerBound + rnd clk mod randRange\<rparr>)"

text \<open>\<open>applyCond.Signal()\<close> wakes the goroutine if it waits and is forgotten otherwise.\<close>

definition applyCond_Signal :: "('c, 's) Raft \<Rightarrow> ('c, 's) Raft" where
  "applyCond_Signal rf = rf\<lparr>applyWaiting := False\<rparr>"

subsection \<open>Persistence\<close>

definition encodeState :: "('c, 's) Raft \<Rightarrow> 'c gob list" where
  "encodeState rf = log_persist (rlog rf) ([GInt (currentTerm rf)] @ [GInt (votedFor rf)])"

definition persistLocked :: "('c, 's) Raft \<Rightarrow> ('c, 's) Raft" where
  "persistLocked rf =
     rf\<lparr>persister := Save (encodeState rf) (snapshot (rlog rf)) (persister rf)\<rparr>"

definition readPersist :: "'c gob list \<Rightarrow> ('c, 's) Raft \<Rightarrow> ('c, 's) Raft" where
  "readPersist data rf =
     (if data = [] then rf
      else case decode_int data of
        None \<Rightarrow> rf
      | Some (ct, d1) \<Rightarrow>
          (let rf1 = rf\<lparr>currentTerm := ct\<rparr> in
           case decode_int d1 of
             None \<Rightarrow> rf1
           | Some (vf, d2) \<Rightarrow>
               (let rf2 = rf1\<lparr>votedFor := vf\<rparr> in
                case log_readPersist d2 (rlog rf2) of
                  (Some err, rl) \<Rightarrow> rf2\<lparr>rlog := rl\<rparr>
                | (None, rl) \<Rightarrow>
                    (let rf3 = rf2\<lparr>rlog := rl\<lparr>snapshot := ReadSnapshot (persister rf2)\<rparr>\<rparr> in
                     if snapLastIdx (rlog rf3) > commitIndex rf3
                     then rf3\<lparr>commitIndex := snapLastIdx (rlog rf3),
                              lastApplied := snapLastIdx (rlog rf3)\<rparr>
                     else rf3))))"

subsection \<open>Role changes\<close>

definition becomeFollowerLocked :: "clock \<Rightarrow> int \<Rightarrow> ('c, 's) Raft \<Rightarrow> ('c, 's) Raft" where
  "becomeFollowerLocked clk trm rf =
     (if currentTerm rf > trm then rf
      else let shouldPersist = (currentTerm rf \<noteq> trm);
               rf1 = (if trm > currentTerm rf then rf\<lparr>votedFor := -1\<rparr> else rf);
               rf2 = rf1\<lparr>role := Follower, currentTerm := trm\<rparr>;
               rf3 = (if shouldPersist then persistLocked rf2 else rf2)
           in resetElectionTimerLocked clk rf3)"

definition becomeCandidateLocked :: "clock \<Rightarrow> ('c, 's) Raft \<Rightarrow> ('c, 's) Raft" where
  "becomeCandidateLocked clk rf =
     (if role rf = Leader then rf
      else let rf1 = rf\<lparr>role := Candidate, currentTerm := currentTerm rf + 1, votedFor := me rf\<rparr>
           in resetElectionTimerLocked clk (persistLocked rf1))"

text \<open>The loop of \<open>becomeLeaderLocked\<close> over the peers; a store outside the slices panics.\<close>

fun initPeers :: "int list \<Rightarrow> ('c, 's) Raft \<Rightarrow> ('c, 's) Raft option" where
  "initPeers [] rf = Some rf"
| "initPeers (peer # ps) rf = do {
     ni \<leftarrow> go_upd (nextIndex rf) peer (log_size (rlog rf));
     mi \<leftarrow> go_upd (matchIndex rf) peer 0;
     initPeers ps (rf\<lparr>nextIndex := ni, matchIndex := mi\<rparr>) }"

definition becomeLeaderLocked :: "clock \<Rightarrow> ('c, 's) Raft \<Rightarrow> ('c, 's) Raft option" where
  "becomeLeaderLocked clk rf =
     (if role rf \<noteq> Candidate then Some rf
      else do {
        rf1 \<leftarrow> initPeers [0..peers rf - 1] (rf\<lparr>role := Leader\<rparr>);
        Some (resetElectionTimerLocked clk rf1) })"

definition contextLostLocked :: "Role \<Rightarrow> int \<Rightarrow> ('c, 's) Raft \<Rightarrow> bool" where
  "contextLostLocked r trm rf \<longleftrightarrow> role rf \<noteq> r \<or> currentTerm rf \<noteq> trm"

subsection \<open>The API of \<open>raft.go\<close>\<close>

definition GetState :: "('c, 's) Raft \<Rightarrow> int \<times> bool" where
  "GetState rf = (currentTerm rf, role rf = Leader)"

definition GetRaftStateSize :: "('c gob list \<Rightarrow> int) \<Rightarrow> ('c, 's) Raft \<Rightarrow> int" where
  "GetRaftStateSize bytes rf = RaftStateSize bytes (persister rf)"

definition Start :: "'c \<Rightarrow> ('c, 's) Raft \<Rightarrow> (int \<times> int \<times> bool) \<times> ('c, 's) Raft" where
  "Start command rf =
     (if role rf \<noteq> Leader then ((0, 0, False), rf)
      else let rf1 = rf\<lparr>rlog := log_append (rlog rf)
                         \<lparr>leTerm = currentTerm rf, leCommandValid = True, leCommand = Some command\<rparr>\<rparr>;
               rf2 = persistLocked rf1
           in ((log_size (rlog rf2) - 1, currentTerm rf2, True), rf2))"

definition Kill :: "('c, 's) Raft \<Rightarrow> ('c, 's) Raft" where
  "Kill rf = rf\<lparr>dead := 1\<rparr>"

definition killed :: "('c, 's) Raft \<Rightarrow> bool" where
  "killed rf \<longleftrightarrow> dead rf = 1"

definition Make :: "int \<Rightarrow> int \<Rightarrow> ('c, 's) Persister \<Rightarrow> ('c, 's) Raft" where
  "Make npeers i ps =
     readPersist (ReadRaftState ps)
       \<lparr>peers = npeers, persister = ps, me = i, dead = 0,
        role = Follower, currentTerm = 0, votedFor = -1, electionStart = 0, electionTimeout = 0,
        rlog = NewLog InvalidIndex InvalidTerm [] [],
        nextIndex = replicate (nat npeers) 0, matchIndex = replicate (nat npeers) 0,
        commitIndex = 0, lastApplied = 0, applyWaiting = False, snapPending = False\<rparr>"

subsection \<open>Invariants of a peer\<close>

text \<open>
  \<open>rf_wf\<close>: the log is well formed and the leader's slices have one cell per peer.
  \<open>durable\<close> is what a restart must bring back; \<open>persisted\<close> says that it would, were the
  process to crash now and \<open>Make\<close> to run on its persister.
\<close>

definition rf_wf :: "('c, 's) Raft \<Rightarrow> bool" where
  "rf_wf rf \<longleftrightarrow> log_wf (rlog rf) \<and> 0 \<le> me rf \<and> me rf < peers rf
     \<and> go_len (nextIndex rf) = peers rf \<and> go_len (matchIndex rf) = peers rf"

definition durable :: "('c, 's) Raft \<Rightarrow> int \<times> int \<times> ('c, 's) RaftLog" where
  "durable rf = (currentTerm rf, votedFor rf, rlog rf)"

definition persisted :: "('c, 's) Raft \<Rightarrow> bool" where
  "persisted rf \<longleftrightarrow> durable (Make (peers rf) (me rf) (persister rf)) = durable rf"

named_theorems raft_state_defs \<open>unfolding the peer's small operations\<close>

declare contextLostLocked_def [raft_state_defs] durable_def [raft_state_defs]
  Let_def [raft_state_defs]

lemma clone_id [simp]: "clone xs = xs"
  by (simp add: clone_def)

text \<open>What \<open>Make\<close> reads back of a persister that \<open>persistLocked\<close> has written.\<close>

lemma log_read_persist:
  "log_readPersist (log_persist rl []) rl0
     = (None, rl0\<lparr>snapLastIdx := snapLastIdx rl, snapLastTerm := snapLastTerm rl,
                 tailLog := tailLog rl\<rparr>)"
  by (simp add: log_readPersist_def log_persist_def)

lemma Make_saved:
  assumes "ps_raftstate ps = encodeState rf" and "ps_snapshot ps = snapshot (rlog rf)"
  shows "durable (Make n i ps) = durable rf"
  using assms
  by (simp add: Make_def readPersist_def encodeState_def log_persist_def log_readPersist_def
      ReadRaftState_def ReadSnapshot_def raft_state_defs)

lemma Make_fixed:
  "peers (Make n i ps) = n" "me (Make n i ps) = i" "role (Make n i ps) = Follower"
  "persister (Make n i ps) = ps" "nextIndex (Make n i ps) = replicate (nat n) 0"
  "matchIndex (Make n i ps) = replicate (nat n) 0" "snapPending (Make n i ps) = False"
  by (simp_all add: Make_def readPersist_def raft_state_defs split: option.split prod.split)

lemma persisted_Make: "persisted (Make n i ps)"
  by (simp add: persisted_def Make_fixed)

lemma persisted_persistLocked [simp]: "persisted (persistLocked rf)"
  unfolding persisted_def
  by (rule Make_saved) (simp_all add: persistLocked_def Save_def encodeState_def)

lemma Make_durable_indep: "durable (Make n i ps) = durable (Make m j ps)"
  by (auto simp: Make_def readPersist_def raft_state_defs split: option.split prod.split)

lemma persisted_cong:
  "durable rf' = durable rf \<Longrightarrow> persister rf' = persister rf \<Longrightarrow> persisted rf \<Longrightarrow> persisted rf'"
  unfolding persisted_def by (metis Make_durable_indep)

lemma persistLocked_sel [simp]:
  "peers (persistLocked rf) = peers rf"
  "me (persistLocked rf) = me rf"
  "dead (persistLocked rf) = dead rf"
  "role (persistLocked rf) = role rf"
  "currentTerm (persistLocked rf) = currentTerm rf"
  "votedFor (persistLocked rf) = votedFor rf"
  "rlog (persistLocked rf) = rlog rf"
  "nextIndex (persistLocked rf) = nextIndex rf"
  "matchIndex (persistLocked rf) = matchIndex rf"
  "commitIndex (persistLocked rf) = commitIndex rf"
  "lastApplied (persistLocked rf) = lastApplied rf"
  "applyWaiting (persistLocked rf) = applyWaiting rf"
  "snapPending (persistLocked rf) = snapPending rf"
  "electionStart (persistLocked rf) = electionStart rf"
  "electionTimeout (persistLocked rf) = electionTimeout rf"
  by (simp_all add: persistLocked_def)

lemma resetElectionTimerLocked_sel [simp]:
  "peers (resetElectionTimerLocked clk rf) = peers rf"
  "me (resetElectionTimerLocked clk rf) = me rf"
  "dead (resetElectionTimerLocked clk rf) = dead rf"
  "role (resetElectionTimerLocked clk rf) = role rf"
  "currentTerm (resetElectionTimerLocked clk rf) = currentTerm rf"
  "votedFor (resetElectionTimerLocked clk rf) = votedFor rf"
  "rlog (resetElectionTimerLocked clk rf) = rlog rf"
  "nextIndex (resetElectionTimerLocked clk rf) = nextIndex rf"
  "matchIndex (resetElectionTimerLocked clk rf) = matchIndex rf"
  "commitIndex (resetElectionTimerLocked clk rf) = commitIndex rf"
  "lastApplied (resetElectionTimerLocked clk rf) = lastApplied rf"
  "applyWaiting (resetElectionTimerLocked clk rf) = applyWaiting rf"
  "snapPending (resetElectionTimerLocked clk rf) = snapPending rf"
  "persister (resetElectionTimerLocked clk rf) = persister rf"
  by (simp_all add: resetElectionTimerLocked_def Let_def)

lemma applyCond_Signal_sel [simp]:
  "peers (applyCond_Signal rf) = peers rf"
  "me (applyCond_Signal rf) = me rf"
  "dead (applyCond_Signal rf) = dead rf"
  "role (applyCond_Signal rf) = role rf"
  "currentTerm (applyCond_Signal rf) = currentTerm rf"
  "votedFor (applyCond_Signal rf) = votedFor rf"
  "rlog (applyCond_Signal rf) = rlog rf"
  "nextIndex (applyCond_Signal rf) = nextIndex rf"
  "matchIndex (applyCond_Signal rf) = matchIndex rf"
  "commitIndex (applyCond_Signal rf) = commitIndex rf"
  "lastApplied (applyCond_Signal rf) = lastApplied rf"
  "snapPending (applyCond_Signal rf) = snapPending rf"
  "persister (applyCond_Signal rf) = persister rf"
  "electionStart (applyCond_Signal rf) = electionStart rf"
  "electionTimeout (applyCond_Signal rf) = electionTimeout rf"
  by (simp_all add: applyCond_Signal_def)

lemma persisted_volatile [simp]:
  "persisted (resetElectionTimerLocked clk rf) = persisted rf"
  "persisted (applyCond_Signal rf) = persisted rf"
  "persisted (rf\<lparr>role := r\<rparr>) = persisted rf"
  "persisted (rf\<lparr>nextIndex := ni\<rparr>) = persisted rf"
  "persisted (rf\<lparr>matchIndex := ni\<rparr>) = persisted rf"
  "persisted (rf\<lparr>commitIndex := i\<rparr>) = persisted rf"
  "persisted (rf\<lparr>lastApplied := i\<rparr>) = persisted rf"
  "persisted (rf\<lparr>snapPending := b\<rparr>) = persisted rf"
  "persisted (rf\<lparr>applyWaiting := b\<rparr>) = persisted rf"
  by (rule iffI; erule persisted_cong [rotated 2]; simp add: durable_def)+

subsection \<open>The contract of an operation\<close>

text \<open>
  What every operation of a peer promises, whichever branch it takes: the identity of the peer
  and its well-formedness are kept, nothing durable changes without being saved, terms and
  commit indices never go back, and a vote cast in a term is never changed in that term.
\<close>

definition evolves :: "('c, 's) Raft \<Rightarrow> ('c, 's) Raft \<Rightarrow> bool" where
  "evolves rf rf' \<longleftrightarrow>
     peers rf' = peers rf \<and> me rf' = me rf
     \<and> (rf_wf rf \<longrightarrow> rf_wf rf') \<and> (persisted rf \<longrightarrow> persisted rf')
     \<and> currentTerm rf \<le> currentTerm rf' \<and> commitIndex rf \<le> commitIndex rf'
     \<and> (currentTerm rf' = currentTerm rf \<and> votedFor rf \<noteq> -1 \<longrightarrow> votedFor rf' = votedFor rf)"

lemma evolves_refl [simp, intro]: "evolves rf rf"
  by (simp add: evolves_def)

lemma evolves_trans [trans]: "evolves a b \<Longrightarrow> evolves b c \<Longrightarrow> evolves a c"
  by (auto simp: evolves_def)

text \<open>An update of volatile fields only.\<close>

lemma evolves_volatile:
  assumes "durable rf' = durable rf" "persister rf' = persister rf" "peers rf' = peers rf"
    and "me rf' = me rf" "go_len (nextIndex rf') = go_len (nextIndex rf)"
    and "go_len (matchIndex rf') = go_len (matchIndex rf)" "commitIndex rf \<le> commitIndex rf'"
  shows "evolves rf rf'"
  using assms persisted_cong [of rf' rf] by (auto simp: evolves_def rf_wf_def durable_def)

text \<open>An update of durable fields that is saved before the lock is released.\<close>

lemma evolves_saved:
  assumes "persisted rf'" "peers rf' = peers rf" "me rf' = me rf"
    and "go_len (nextIndex rf') = go_len (nextIndex rf)"
    and "go_len (matchIndex rf') = go_len (matchIndex rf)" "commitIndex rf \<le> commitIndex rf'"
    and "log_wf (rlog rf) \<Longrightarrow> log_wf (rlog rf')"
    and "currentTerm rf < currentTerm rf'
         \<or> currentTerm rf' = currentTerm rf \<and> (votedFor rf = -1 \<or> votedFor rf' = votedFor rf)"
  shows "evolves rf rf'"
  using assms by (auto simp: evolves_def rf_wf_def)

locale peer_operation =
  fixes f :: "('c, 's) Raft \<Rightarrow> ('c, 's) Raft option"
  assumes evolves: "f rf = Some rf' \<Longrightarrow> evolves rf rf'"
begin

lemma keeps_wf: "f rf = Some rf' \<Longrightarrow> rf_wf rf \<Longrightarrow> rf_wf rf'"
  using evolves by (auto simp: evolves_def)

text \<open>A crash right after the operation loses nothing that a restart should know.\<close>

lemma crash_recovers:
  assumes "f rf = Some rf'" and "persisted rf"
  shows "durable (Make (peers rf) (me rf) (persister rf')) = durable rf'"
  using evolves [OF assms(1)] assms(2) by (auto simp: evolves_def persisted_def)

lemma one_vote_per_term:
  assumes "f rf = Some rf'" and "votedFor rf \<noteq> -1" and "votedFor rf' \<noteq> votedFor rf"
  shows "currentTerm rf < currentTerm rf'"
  using evolves [OF assms(1)] assms(2,3) by (auto simp: evolves_def)

lemma term_mono: "f rf = Some rf' \<Longrightarrow> currentTerm rf \<le> currentTerm rf'"
  using evolves by (auto simp: evolves_def)

lemma commit_mono: "f rf = Some rf' \<Longrightarrow> commitIndex rf \<le> commitIndex rf'"
  using evolves by (auto simp: evolves_def)

end

lemma evolves_resetElectionTimerLocked: "evolves rf (resetElectionTimerLocked clk rf)"
  by (rule evolves_volatile) (simp_all add: raft_state_defs)

lemma evolves_applyCond_Signal: "evolves rf (applyCond_Signal rf)"
  by (rule evolves_volatile) (simp_all add: raft_state_defs)

lemma becomeFollowerLocked_sel [simp]:
  "peers (becomeFollowerLocked clk t rf) = peers rf"
  "me (becomeFollowerLocked clk t rf) = me rf"
  "dead (becomeFollowerLocked clk t rf) = dead rf"
  "rlog (becomeFollowerLocked clk t rf) = rlog rf"
  "nextIndex (becomeFollowerLocked clk t rf) = nextIndex rf"
  "matchIndex (becomeFollowerLocked clk t rf) = matchIndex rf"
  "commitIndex (becomeFollowerLocked clk t rf) = commitIndex rf"
  "lastApplied (becomeFollowerLocked clk t rf) = lastApplied rf"
  "applyWaiting (becomeFollowerLocked clk t rf) = applyWaiting rf"
  "snapPending (becomeFollowerLocked clk t rf) = snapPending rf"
  by (simp_all add: becomeFollowerLocked_def Let_def)

lemma becomeFollowerLocked_newer:
  assumes "currentTerm rf \<le> t"
  shows "currentTerm (becomeFollowerLocked clk t rf) = t"
    "role (becomeFollowerLocked clk t rf) = Follower"
    "votedFor (becomeFollowerLocked clk t rf) = (if currentTerm rf < t then -1 else votedFor rf)"
  using assms by (simp_all add: becomeFollowerLocked_def Let_def)

lemma becomeFollowerLocked_older [simp]: "t < currentTerm rf \<Longrightarrow> becomeFollowerLocked clk t rf = rf"
  by (simp add: becomeFollowerLocked_def)

lemma evolves_becomeFollowerLocked [simp]: "evolves rf (becomeFollowerLocked clk t rf)"
proof (cases "currentTerm rf < t")
  case True
  then show ?thesis
    unfolding becomeFollowerLocked_def Let_def
    by (auto intro!: evolves_saved simp: raft_state_defs)
next
  case False
  then show ?thesis
    unfolding becomeFollowerLocked_def Let_def
    by (auto intro!: evolves_volatile simp: raft_state_defs)
qed

lemma evolves_becomeCandidateLocked: "evolves rf (becomeCandidateLocked clk rf)"
  unfolding becomeCandidateLocked_def Let_def
  by (auto intro!: evolves_saved simp: raft_state_defs)

text \<open>The loop over the peers, on slices of the right length, fills both of them.\<close>

lemma initPeers_same:
  "initPeers ps rf = Some rf' \<Longrightarrow>
     \<exists>ni mi. rf' = rf\<lparr>nextIndex := ni, matchIndex := mi\<rparr>
       \<and> length ni = length (nextIndex rf) \<and> length mi = length (matchIndex rf)"
proof (induction ps arbitrary: rf)
  case Nil
  then show ?case by (intro exI [of _ "nextIndex rf"] exI [of _ "matchIndex rf"]) simp
next
  case (Cons p ps)
  then obtain ni mi where upd: "go_upd (nextIndex rf) p (log_size (rlog rf)) = Some ni"
    "go_upd (matchIndex rf) p 0 = Some mi"
    and rec: "initPeers ps (rf\<lparr>nextIndex := ni, matchIndex := mi\<rparr>) = Some rf'"
    by (auto dest!: bind_eq_SomeD)
  from Cons.IH [OF rec] obtain ni' mi' where
    "rf' = rf\<lparr>nextIndex := ni', matchIndex := mi'\<rparr>" "length ni' = length ni" "length mi' = length mi"
    by auto
  with upd show ?case
    by (intro exI [of _ ni'] exI [of _ mi']) (simp add: go_upd_length)
qed

lemma becomeLeaderLocked_same:
  assumes "becomeLeaderLocked clk rf = Some rf'" and "role rf = Candidate"
  shows "\<exists>ni mi. rf' = resetElectionTimerLocked clk (rf\<lparr>role := Leader, nextIndex := ni, matchIndex := mi\<rparr>)
       \<and> length ni = length (nextIndex rf) \<and> length mi = length (matchIndex rf)"
  using assms by (fastforce simp: becomeLeaderLocked_def dest!: bind_eq_SomeD initPeers_same)

lemma evolves_becomeLeaderLocked:
  assumes "becomeLeaderLocked clk rf = Some rf'"
  shows "evolves rf rf'"
proof (cases "role rf = Candidate")
  case True
  with becomeLeaderLocked_same [OF assms] show ?thesis
    by (auto intro!: evolves_volatile simp: raft_state_defs go_len_def)
next
  case False
  with assms show ?thesis by (simp add: becomeLeaderLocked_def)
qed

lemma evolves_Start: "evolves rf (snd (Start c rf))"
  unfolding Start_def Let_def
  by (auto intro!: evolves_saved intro: log_wf_append
      simp: raft_state_defs)

end
