(* ===== verification/Raft_Election.thy ===== *)
theory Raft_Election
  imports Raft_State
begin

section \<open>Leader election, \<open>raft/raft_election.go\<close>\<close>

text \<open>
  The ticker that starts an election, the election itself, the handler of \<open>RequestVote\<close>
  and the closure \<open>askVoteFromPeer\<close> that counts the replies. A goroutine that sends an RPC
  is cut at the call: \<open>startElection\<close> returns the requests it spawns, and
  \<open>handleVoteReply\<close> is the code after the call returns. The captured variable \<open>votes\<close>
  is passed in and out.
\<close>

subsection \<open>RPC arguments, \<open>raft/raft_rpc.go\<close>\<close>

record RequestVoteArgs =
  rvTerm :: int
  rvCandidateId :: int
  rvLastLogIndex :: int
  rvLastLogTerm :: int

record RequestVoteReply =
  rvrTerm :: int
  rvrVoteGranted :: bool

subsection \<open>Which log is more up to date\<close>

text \<open>The position of a log's last entry. Positions are compared by term first.\<close>

datatype logpos = LogPos (lpTerm: int) (lpIndex: int)

instantiation logpos :: linorder
begin

definition less_eq_logpos :: "logpos \<Rightarrow> logpos \<Rightarrow> bool" where
  "less_eq_logpos a b \<longleftrightarrow> lpTerm a < lpTerm b \<or> lpTerm a = lpTerm b \<and> lpIndex a \<le> lpIndex b"

definition less_logpos :: "logpos \<Rightarrow> logpos \<Rightarrow> bool" where
  "less_logpos a b \<longleftrightarrow> lpTerm a < lpTerm b \<or> lpTerm a = lpTerm b \<and> lpIndex a < lpIndex b"

instance
  by standard (auto simp: less_eq_logpos_def less_logpos_def logpos.expand)

end

definition isMoreUptoDateLocked :: "('c, 's) Raft \<Rightarrow> int \<Rightarrow> int \<Rightarrow> bool option" where
  "isMoreUptoDateLocked rf candidateIndex candidateTerm = do {
     (lastIndex, lastTerm) \<leftarrow> log_last (rlog rf);
     Some (if lastTerm \<noteq> candidateTerm then lastTerm > candidateTerm
           else lastIndex > candidateIndex) }"

subsection \<open>Starting an election\<close>

definition isElectionTimeout :: "clock \<Rightarrow> ('c, 's) Raft \<Rightarrow> bool" where
  "isElectionTimeout clk rf \<longleftrightarrow> now clk - electionStart rf > electionTimeout rf"

text \<open>One iteration of \<open>electionTicker\<close>: \<open>None\<close> when the loop is left because the
  peer was killed; otherwise the term of the election to start in a new goroutine, if any.\<close>

definition electionTicker :: "clock \<Rightarrow> ('c, 's) Raft \<Rightarrow> (int option \<times> ('c, 's) Raft) option" where
  "electionTicker clk rf =
     (if killed rf then None
      else if role rf \<noteq> Leader \<and> isElectionTimeout clk rf
      then let rf1 = resetElectionTimerLocked clk (becomeCandidateLocked clk rf)
           in Some (Some (currentTerm rf1), rf1)
      else Some (None, rf))"

fun electionLoop ::
  "int list \<Rightarrow> ('c, 's) Raft \<Rightarrow> int \<Rightarrow> int \<Rightarrow> int \<Rightarrow> int \<times> (int \<times> RequestVoteArgs) list" where
  "electionLoop [] rf lastIdx lastTerm votes = (votes, [])"
| "electionLoop (peer # ps) rf lastIdx lastTerm votes =
     (if peer = me rf then electionLoop ps rf lastIdx lastTerm (votes + 1)
      else let args = \<lparr>rvTerm = currentTerm rf, rvCandidateId = me rf,
                       rvLastLogIndex = lastIdx, rvLastLogTerm = lastTerm\<rparr>;
               (v, reqs) = electionLoop ps rf lastIdx lastTerm votes
           in (v, (peer, args) # reqs))"

text \<open>The votes counted so far and the requests sent; none when the context was lost.\<close>

definition startElection ::
  "int \<Rightarrow> ('c, 's) Raft \<Rightarrow> (int \<times> (int \<times> RequestVoteArgs) list) option" where
  "startElection trm rf =
     (if contextLostLocked Candidate trm rf then Some (0, [])
      else do {
        (lastIdx, lastTerm) \<leftarrow> log_last (rlog rf);
        Some (electionLoop [0..peers rf - 1] rf lastIdx lastTerm 0) })"

subsection \<open>Counting the replies\<close>

text \<open>The closure after \<open>sendRequestVote\<close> returns: the new count of votes, the new state, and
  whether a \<open>replicationTicker\<close> goroutine is started.\<close>

definition handleVoteReply ::
  "clock \<Rightarrow> int \<Rightarrow> bool \<Rightarrow> RequestVoteReply \<Rightarrow> int \<Rightarrow> ('c, 's) Raft
     \<Rightarrow> (int \<times> ('c, 's) Raft \<times> bool) option" where
  "handleVoteReply clk trm ok reply votes rf =
     (if \<not> ok then Some (votes, rf, False)
      else if rvrTerm reply > currentTerm rf
      then Some (votes, becomeFollowerLocked clk (rvrTerm reply) rf, False)
      else if contextLostLocked Candidate trm rf then Some (votes, rf, False)
      else if rvrVoteGranted reply then
        (let votes1 = votes + 1 in
         if votes1 > peers rf div 2
         then do { rf1 \<leftarrow> becomeLeaderLocked clk rf; Some (votes1, rf1, True) }
         else Some (votes1, rf, False))
      else Some (votes, rf, False))"

subsection \<open>The handler of \<open>RequestVote\<close>\<close>

definition RequestVote ::
  "clock \<Rightarrow> RequestVoteArgs \<Rightarrow> ('c, 's) Raft \<Rightarrow> (RequestVoteReply \<times> ('c, 's) Raft) option" where
  "RequestVote clk args rf =
     (let reply = \<lparr>rvrTerm = currentTerm rf, rvrVoteGranted = False\<rparr> in
      if rvTerm args < currentTerm rf then Some (reply, rf)
      else
        (let rf1 = (if rvTerm args > currentTerm rf
                    then becomeFollowerLocked clk (rvTerm args) rf else rf) in
         if votedFor rf1 \<noteq> -1 \<and> votedFor rf1 \<noteq> rvCandidateId args then Some (reply, rf1)
         else do {
           more \<leftarrow> isMoreUptoDateLocked rf1 (rvLastLogIndex args) (rvLastLogTerm args);
           if more then Some (reply, rf1)
           else Some (reply\<lparr>rvrVoteGranted := True\<rparr>,
                      resetElectionTimerLocked clk
                        (persistLocked (rf1\<lparr>votedFor := rvCandidateId args\<rparr>))) }))"

subsection \<open>The contract, and what a vote means\<close>

lemma evolves_electionTicker:
  "electionTicker clk rf = Some (t, rf') \<Longrightarrow> evolves rf rf'"
  by (auto simp: electionTicker_def Let_def split: if_splits
      intro: evolves_trans evolves_becomeCandidateLocked evolves_resetElectionTimerLocked)

lemma evolves_handleVoteReply:
  "handleVoteReply clk t ok r v rf = Some (v', rf', b) \<Longrightarrow> evolves rf rf'"
  by (auto simp: handleVoteReply_def Let_def split: if_splits dest!: bind_eq_SomeD
      intro: evolves_becomeFollowerLocked evolves_becomeLeaderLocked)

lemma evolves_RequestVote:
  assumes "RequestVote clk args rf = Some (r, rf')"
  shows "evolves rf rf'"
proof -
  define rf1 where "rf1 = (if rvTerm args > currentTerm rf
                    then becomeFollowerLocked clk (rvTerm args) rf else rf)"
  have rf1: "evolves rf rf1"
    by (simp add: rf1_def evolves_becomeFollowerLocked)
  have "votedFor rf1 = -1 \<or> votedFor rf1 = c \<Longrightarrow>
      evolves rf1 (resetElectionTimerLocked clk (persistLocked (rf1\<lparr>votedFor := c\<rparr>)))" for c
    by (rule evolves_saved) auto
  then have "evolves rf1 rf' \<or> rf' = rf"
    using assms unfolding RequestVote_def rf1_def [symmetric] Let_def
    by (auto split: if_splits dest!: bind_eq_SomeD)
  then show ?thesis using rf1 evolves_trans by blast
qed

interpretation electionTicker: peer_operation "\<lambda>rf. map_option snd (electionTicker clk rf)"
  by unfold_locales (auto dest: evolves_electionTicker)

interpretation handleVoteReply: peer_operation
  "\<lambda>rf. map_option (fst \<circ> snd) (handleVoteReply clk t ok r v rf)"
  by unfold_locales (auto dest: evolves_handleVoteReply)

interpretation RequestVote: peer_operation "\<lambda>rf. map_option snd (RequestVote clk args rf)"
  by unfold_locales (auto dest: evolves_RequestVote)

end
