(* ===== verification/Raft_Replication.thy ===== *)
theory Raft_Replication
  imports Raft_State
begin

section \<open>Log replication, \<open>raft/raft_replication.go\<close>\<close>

text \<open>
  The leader's replication round, the handler of \<open>AppendEntries\<close>, and the closure
  \<open>replicateToPeer\<close> after its call returns (\<open>handleAppendReply\<close>): backing off on a
  mismatch, advancing \<open>matchIndex\<close> and the commit index on success. A round returns the
  requests whose goroutines it spawns. \<open>Entries\<close> is modelled by its value when the
  request is built; in the source it aliases the leader's \<open>tailLog\<close> until the call has
  encoded it.
\<close>

subsection \<open>RPC arguments, \<open>raft/raft_rpc.go\<close>\<close>

record 'c AppendEntriesArgs =
  aeTerm :: int
  aeLeaderId :: int
  aePrevLogIndex :: int
  aePrevLogTerm :: int
  aeEntries :: "'c LogEntry list"
  aeLeaderCommit :: int

record AppendEntriesReply =
  aerTerm :: int
  aerSuccess :: bool

record 's InstallSnapshotArgs =
  isTerm :: int
  isLeaderId :: int
  isLastIncludedIndex :: int
  isLastIncludedTerm :: int
  isSnapshot :: "'s list"

record InstallSnapshotReply =
  isrTerm :: int

datatype ('c, 's) request = SendAppend int "'c AppendEntriesArgs" | SendInstall int "'s InstallSnapshotArgs"

subsection \<open>The handler of \<open>AppendEntries\<close>\<close>

definition AppendEntries ::
  "clock \<Rightarrow> 'c AppendEntriesArgs \<Rightarrow> ('c, 's) Raft \<Rightarrow> (AppendEntriesReply \<times> ('c, 's) Raft) option" where
  "AppendEntries clk args rf =
     (let reply = \<lparr>aerTerm = currentTerm rf, aerSuccess = False\<rparr> in
      if aeTerm args < currentTerm rf then Some (reply, rf)
      else
        (let rf1 = becomeFollowerLocked clk (aeTerm args) rf in
         if aePrevLogIndex args \<ge> log_size (rlog rf1) then Some (reply, rf1)
         else if aePrevLogIndex args < snapLastIdx (rlog rf1) then Some (reply, rf1)
         else do {
           e \<leftarrow> log_at (rlog rf1) (aePrevLogIndex args);
           if leTerm e \<noteq> aePrevLogTerm args then Some (reply, rf1)
           else do {
             rl \<leftarrow> log_appendFrom (rlog rf1) (aePrevLogIndex args) (aeEntries args);
             let rf2 = persistLocked (rf1\<lparr>rlog := rl\<rparr>);
                 rf3 = (if aeLeaderCommit args > commitIndex rf2
                        then applyCond_Signal (rf2\<lparr>commitIndex := aeLeaderCommit args\<rparr>) else rf2)
             in Some (reply\<lparr>aerSuccess := True\<rparr>, resetElectionTimerLocked clk rf3) } }))"

subsection \<open>A replication round\<close>

definition getMajorityIndexLocked :: "('c, 's) Raft \<Rightarrow> int option" where
  "getMajorityIndexLocked rf =
     (let n = nat (peers rf);
          tempIndexes = take n (matchIndex rf) @ replicate (n - length (matchIndex rf)) 0;
          majorityIdx = (peers rf - 1) div 2
      in go_at (sort tempIndexes) majorityIdx)"

fun replicationLoop ::
  "int list \<Rightarrow> ('c, 's) Raft \<Rightarrow> (('c, 's) Raft \<times> ('c, 's) request list) option" where
  "replicationLoop [] rf = Some (rf, [])"
| "replicationLoop (peer # ps) rf =
     (if peer = me rf then do {
        mi \<leftarrow> go_upd (matchIndex rf) peer (log_size (rlog rf) - 1);
        ni \<leftarrow> go_upd (nextIndex rf) peer (log_size (rlog rf));
        replicationLoop ps (rf\<lparr>matchIndex := mi, nextIndex := ni\<rparr>) }
      else do {
        ni \<leftarrow> go_at (nextIndex rf) peer;
        let prevIdx = ni - 1 in
        if prevIdx < snapLastIdx (rlog rf) then do {
          let args = \<lparr>isTerm = currentTerm rf, isLeaderId = me rf,
                      isLastIncludedIndex = snapLastIdx (rlog rf),
                      isLastIncludedTerm = snapLastTerm (rlog rf),
                      isSnapshot = snapshot (rlog rf)\<rparr>;
          (rf', reqs) \<leftarrow> replicationLoop ps rf;
          Some (rf', SendInstall peer args # reqs) }
        else do {
          e \<leftarrow> log_at (rlog rf) prevIdx;
          entries \<leftarrow> log_tail (rlog rf) (prevIdx + 1);
          let args = \<lparr>aeTerm = currentTerm rf, aeLeaderId = me rf, aePrevLogIndex = prevIdx,
                      aePrevLogTerm = leTerm e, aeEntries = entries,
                      aeLeaderCommit = commitIndex rf\<rparr>;
          (rf', reqs) \<leftarrow> replicationLoop ps rf;
          Some (rf', SendAppend peer args # reqs) } })"

definition startReplication ::
  "int \<Rightarrow> ('c, 's) Raft \<Rightarrow> (bool \<times> ('c, 's) Raft \<times> ('c, 's) request list) option" where
  "startReplication trm rf =
     (if contextLostLocked Leader trm rf then Some (False, rf, [])
      else do {
        (rf', reqs) \<leftarrow> replicationLoop [0..peers rf - 1] rf;
        Some (True, rf', reqs) })"

text \<open>One iteration of \<open>replicationTicker\<close>: whether it goes on, the state, the requests.\<close>

definition replicationTicker ::
  "int \<Rightarrow> ('c, 's) Raft \<Rightarrow> (bool \<times> ('c, 's) Raft \<times> ('c, 's) request list) option" where
  "replicationTicker trm rf = (if killed rf then Some (False, rf, []) else startReplication trm rf)"

subsection \<open>The reply\<close>

text \<open>\<open>for idx >= snapLastIdx && at(idx).Term == term { idx-- }\<close>\<close>

function backoff :: "('c, 's) RaftLog \<Rightarrow> int \<Rightarrow> int \<Rightarrow> int option" where
  "backoff rl trm idx =
     (if idx \<ge> snapLastIdx rl then
        (case log_at rl idx of
           None \<Rightarrow> None
         | Some e \<Rightarrow> if leTerm e = trm then backoff rl trm (idx - 1) else Some idx)
      else Some idx)"
  by pat_completeness auto
termination
  by (relation "measure (\<lambda>(rl, trm, idx). nat (idx - snapLastIdx rl + 1))") auto

declare backoff.simps [simp del]

definition handleAppendReply ::
  "clock \<Rightarrow> int \<Rightarrow> int \<Rightarrow> 'c AppendEntriesArgs \<Rightarrow> bool \<Rightarrow> AppendEntriesReply \<Rightarrow> ('c, 's) Raft
     \<Rightarrow> ('c, 's) Raft option" where
  "handleAppendReply clk trm peer args ok reply rf =
     (if \<not> ok then Some rf
      else if aerTerm reply > currentTerm rf then Some (becomeFollowerLocked clk (aerTerm reply) rf)
      else if contextLostLocked Leader trm rf then Some rf
      else if \<not> aerSuccess reply then do {
        ni \<leftarrow> go_at (nextIndex rf) peer;
        let idx = ni - 1 in
        if idx < snapLastIdx (rlog rf) then do {
          ni1 \<leftarrow> go_upd (nextIndex rf) peer (snapLastIdx (rlog rf) + 1);
          Some (rf\<lparr>nextIndex := ni1\<rparr>) }
        else do {
          e \<leftarrow> log_at (rlog rf) idx;
          idx1 \<leftarrow> backoff (rlog rf) (leTerm e) idx;
          ni1 \<leftarrow> go_upd (nextIndex rf) peer (idx1 + 1);
          nextPrevTerm \<leftarrow> (if idx1 \<ge> snapLastIdx (rlog rf)
                          then map_option leTerm (log_at (rlog rf) idx1) else Some InvalidTerm);
          Some (rf\<lparr>nextIndex := ni1\<rparr>) } }
      else do {
        let matched = aePrevLogIndex args + go_len (aeEntries args);
        mi \<leftarrow> go_upd (matchIndex rf) peer matched;
        ni \<leftarrow> go_upd (nextIndex rf) peer (matched + 1);
        let rf1 = rf\<lparr>matchIndex := mi, nextIndex := ni\<rparr>;
        majorityMatched \<leftarrow> getMajorityIndexLocked rf1;
        if majorityMatched > commitIndex rf1 then do {
          e \<leftarrow> log_at (rlog rf1) majorityMatched;
          if leTerm e = currentTerm rf1
          then Some (applyCond_Signal (rf1\<lparr>commitIndex := majorityMatched\<rparr>))
          else Some rf1 }
        else Some rf1 })"

subsection \<open>The contract\<close>

text \<open>The three outcomes of \<open>AppendEntries\<close>.\<close>

lemma AppendEntries_cases:
  assumes "AppendEntries clk args rf = Some (r, rf')"
  obtains (stale) "aeTerm args < currentTerm rf" "rf' = rf" "\<not> aerSuccess r"
  | (mismatch) "currentTerm rf \<le> aeTerm args" "rf' = becomeFollowerLocked clk (aeTerm args) rf"
      "\<not> aerSuccess r"
  | (match) e rl rf2 where "currentTerm rf \<le> aeTerm args"
      "log_at (rlog rf) (aePrevLogIndex args) = Some e" "leTerm e = aePrevLogTerm args"
      "log_appendFrom (rlog rf) (aePrevLogIndex args) (aeEntries args) = Some rl"
      "rf2 = persistLocked (becomeFollowerLocked clk (aeTerm args) rf\<lparr>rlog := rl\<rparr>)"
      "rf' = resetElectionTimerLocked clk
               (if commitIndex rf < aeLeaderCommit args
                then applyCond_Signal (rf2\<lparr>commitIndex := aeLeaderCommit args\<rparr>) else rf2)"
      "aerSuccess r"
proof (cases "aeTerm args < currentTerm rf")
  case True
  with assms show thesis by (intro stale) (auto simp: AppendEntries_def)
next
  case newer: False
  show thesis
  proof (cases "\<exists>e. log_at (rlog rf) (aePrevLogIndex args) = Some e \<and> leTerm e = aePrevLogTerm args")
    case False
    with assms newer show thesis
      by (intro mismatch) (auto simp: AppendEntries_def Let_def log_at_eq split: if_splits)
  next
    case True
    then obtain e where e: "log_at (rlog rf) (aePrevLogIndex args) = Some e" "leTerm e = aePrevLogTerm args"
      by blast
    then have range: "\<not> log_size (rlog rf) \<le> aePrevLogIndex args" "\<not> aePrevLogIndex args < snapLastIdx (rlog rf)"
      by (auto simp: log_at_eq split: if_splits)
    from assms newer e range obtain rl where
      rl: "log_appendFrom (rlog rf) (aePrevLogIndex args) (aeEntries args) = Some rl"
      by (auto simp: log_appendFrom_eq)
    with assms newer e range show thesis
      by (intro match [of e rl]) (auto simp: AppendEntries_def Let_def)
  qed
qed

lemma evolves_AppendEntries:
  assumes "AppendEntries clk args rf = Some (r, rf')"
  shows "evolves rf rf'"
  using assms
proof (cases rule: AppendEntries_cases)
  case (match e rl rf2)
  have "evolves (becomeFollowerLocked clk (aeTerm args) rf) rf'"
    using match(4) unfolding match(5,6)
    by (intro evolves_saved) (auto elim: log_wf_appendFrom)
  then show ?thesis
    using evolves_becomeFollowerLocked evolves_trans by blast
qed simp_all

lemma replicationLoop_same:
  "replicationLoop ps rf = Some (rf', reqs) \<Longrightarrow>
     \<exists>ni mi. rf' = rf\<lparr>nextIndex := ni, matchIndex := mi\<rparr>
       \<and> length ni = length (nextIndex rf) \<and> length mi = length (matchIndex rf)"
proof (induction ps arbitrary: rf reqs)
  case Nil
  then show ?case by (intro exI [of _ "nextIndex rf"] exI [of _ "matchIndex rf"]) simp
next
  case (Cons p ps)
  show ?case
  proof (cases "p = me rf")
    case True
    with Cons.prems obtain ni mi where upd: "go_upd (matchIndex rf) p (log_size (rlog rf) - 1) = Some mi"
      "go_upd (nextIndex rf) p (log_size (rlog rf)) = Some ni"
      and rec: "replicationLoop ps (rf\<lparr>matchIndex := mi, nextIndex := ni\<rparr>) = Some (rf', reqs)"
      by (auto dest!: bind_eq_SomeD)
    from Cons.IH [OF rec] obtain ni' mi' where
      "rf' = rf\<lparr>nextIndex := ni', matchIndex := mi'\<rparr>" "length ni' = length ni" "length mi' = length mi"
      by auto
    with upd show ?thesis
      by (intro exI [of _ ni'] exI [of _ mi']) (simp add: go_upd_length)
  next
    case False
    with Cons.prems obtain reqs' where "replicationLoop ps rf = Some (rf', reqs')"
      by (auto simp: Let_def split: if_splits dest!: bind_eq_SomeD)
    then show ?thesis by (rule Cons.IH)
  qed
qed

lemma evolves_startReplication:
  "startReplication t rf = Some (b, rf', reqs) \<Longrightarrow> evolves rf rf'"
  by (auto simp: startReplication_def raft_state_defs go_len_def split: if_splits
      dest!: bind_eq_SomeD replicationLoop_same intro!: evolves_volatile)

lemma evolves_handleAppendReply:
  assumes "handleAppendReply clk t p args ok r rf = Some rf'"
  shows "evolves rf rf'"
proof (cases "ok \<and> aerTerm r > currentTerm rf")
  case True
  with assms show ?thesis by (auto simp: handleAppendReply_def)
next
  case False
  with assms show ?thesis
    by (auto simp: handleAppendReply_def raft_state_defs go_len_def split: if_splits
        dest!: bind_eq_SomeD go_upd_length intro!: evolves_volatile)
qed

interpretation AppendEntries: peer_operation "\<lambda>rf. map_option snd (AppendEntries clk args rf)"
  by unfold_locales (auto dest: evolves_AppendEntries)

interpretation startReplication: peer_operation
  "\<lambda>rf. map_option (fst \<circ> snd) (startReplication t rf)"
  by unfold_locales (auto dest: evolves_startReplication)

interpretation handleAppendReply: peer_operation "handleAppendReply clk t p args ok r"
  by unfold_locales (rule evolves_handleAppendReply)

end
