(* ===== verification/Raft_Compaction.thy ===== *)
theory Raft_Compaction
  imports Raft_Replication
begin

section \<open>Snapshots, \<open>raft/raft_compaction.go\<close>, and applying entries, \<open>raft_application.go\<close>\<close>

text \<open>
  Taking a snapshot for the service, installing one that the leader sent, the leader's
  closure after \<open>InstallSnapshot\<close> returns, and the loop of \<open>applicationTicker\<close>. One
  iteration of that loop is cut where the source releases the lock: \<open>applyWait\<close> parks the
  goroutine, \<open>applyCollect\<close> is the first critical section after it is woken,
  \<open>applySend\<close> the messages put on \<open>applyCh\<close> without the lock (they read the peer's
  fields at that moment), \<open>applyFinish\<close> the second critical section.
\<close>

subsection \<open>Snapshots\<close>

definition Raft_Snapshot :: "int \<Rightarrow> 's list \<Rightarrow> ('c, 's) Raft \<Rightarrow> ('c, 's) Raft option" where
  "Raft_Snapshot index snap rf =
     (if index > commitIndex rf then Some rf
      else if index \<le> snapLastIdx (rlog rf) then Some rf
      else do {
        rl \<leftarrow> log_doSnapshot (rlog rf) index snap;
        Some (persistLocked (rf\<lparr>rlog := rl\<rparr>)) })"

definition InstallSnapshot ::
  "clock \<Rightarrow> 's InstallSnapshotArgs \<Rightarrow> ('c, 's) Raft \<Rightarrow> InstallSnapshotReply \<times> ('c, 's) Raft" where
  "InstallSnapshot clk args rf =
     (let reply = \<lparr>isrTerm = currentTerm rf\<rparr> in
      if isTerm args < currentTerm rf then (reply, rf)
      else
        (let rf1 = becomeFollowerLocked clk (isTerm args) rf in
         if snapLastIdx (rlog rf1) \<ge> isLastIncludedIndex args then (reply, rf1)
         else
           (let rl = log_installSnapshot (rlog rf1) (isLastIncludedIndex args)
                       (isLastIncludedTerm args) (isSnapshot args);
                rf2 = persistLocked (rf1\<lparr>rlog := rl\<rparr>)
            in (reply, applyCond_Signal (rf2\<lparr>snapPending := True\<rparr>)))))"

definition handleInstallReply ::
  "clock \<Rightarrow> int \<Rightarrow> int \<Rightarrow> 's InstallSnapshotArgs \<Rightarrow> bool \<Rightarrow> InstallSnapshotReply \<Rightarrow> ('c, 's) Raft
     \<Rightarrow> ('c, 's) Raft option" where
  "handleInstallReply clk trm peer args ok reply rf =
     (if \<not> ok then Some rf
      else if isrTerm reply > currentTerm rf then Some (becomeFollowerLocked clk (isrTerm reply) rf)
      else if contextLostLocked Leader trm rf then Some rf
      else do {
        m \<leftarrow> go_at (matchIndex rf) peer;
        if isLastIncludedIndex args > m then do {
          mi \<leftarrow> go_upd (matchIndex rf) peer (isLastIncludedIndex args);
          ni \<leftarrow> go_upd (nextIndex rf) peer (isLastIncludedIndex args + 1);
          Some (rf\<lparr>matchIndex := mi, nextIndex := ni\<rparr>) }
        else Some rf })"

subsection \<open>Applying\<close>

text \<open>What one iteration carries from its first critical section to the second.\<close>

record 'c applying =
  snapPendingApply :: bool
  entries :: "'c LogEntry list"

definition applyWait :: "('c, 's) Raft \<Rightarrow> ('c, 's) Raft" where
  "applyWait rf = rf\<lparr>applyWaiting := True\<rparr>"

definition applyCollect :: "('c, 's) Raft \<Rightarrow> ('c applying \<times> ('c, 's) Raft) option" where
  "applyCollect rf =
     (if snapPending rf then Some (\<lparr>snapPendingApply = True, entries = []\<rparr>, rf)
      else
        (let rf1 = (if lastApplied rf < snapLastIdx (rlog rf)
                    then rf\<lparr>lastApplied := snapLastIdx (rlog rf)\<rparr> else rf);
             start = lastApplied rf1 + 1;
             e = (if commitIndex rf1 \<ge> log_size (rlog rf1) then log_size (rlog rf1) - 1
                  else commitIndex rf1)
         in do {
           es \<leftarrow> those (map (log_at (rlog rf1)) [start..e]);
           Some (\<lparr>snapPendingApply = False, entries = es\<rparr>, rf1) }))"

definition commandMsg :: "('c, 's) Raft \<Rightarrow> int \<Rightarrow> 'c LogEntry \<Rightarrow> ('c, 's) ApplyMsg" where
  "commandMsg rf i entry =
     \<lparr>CommandValid = leCommandValid entry, Command = leCommand entry,
      CommandIndex = lastApplied rf + 1 + i,
      SnapshotValid = False, Snapshot = [], SnapshotTerm = 0, SnapshotIndex = 0\<rparr>"

definition snapshotMsg :: "('c, 's) Raft \<Rightarrow> ('c, 's) ApplyMsg" where
  "snapshotMsg rf =
     \<lparr>CommandValid = False, Command = None, CommandIndex = 0, SnapshotValid = True,
      Snapshot = snapshot (rlog rf), SnapshotTerm = snapLastTerm (rlog rf),
      SnapshotIndex = snapLastIdx (rlog rf)\<rparr>"

definition applySend :: "'c applying \<Rightarrow> ('c, 's) Raft \<Rightarrow> ('c, 's) ApplyMsg list" where
  "applySend ap rf =
     (if \<not> snapPendingApply ap
      then map (\<lambda>(i, e). commandMsg rf i e) (zip [0..go_len (entries ap) - 1] (entries ap))
      else [snapshotMsg rf])"

definition applyFinish :: "'c applying \<Rightarrow> ('c, 's) Raft \<Rightarrow> ('c, 's) Raft" where
  "applyFinish ap rf =
     (if \<not> snapPendingApply ap then rf\<lparr>lastApplied := lastApplied rf + go_len (entries ap)\<rparr>
      else
        (let rf1 = rf\<lparr>lastApplied := snapLastIdx (rlog rf)\<rparr>;
             rf2 = (if commitIndex rf1 < lastApplied rf1
                    then rf1\<lparr>commitIndex := lastApplied rf1\<rparr> else rf1)
         in rf2\<lparr>snapPending := False\<rparr>))"

subsection \<open>The contract\<close>

lemma evolves_Raft_Snapshot: "Raft_Snapshot i s rf = Some rf' \<Longrightarrow> evolves rf rf'"
  by (auto simp: Raft_Snapshot_def split: if_splits dest!: bind_eq_SomeD intro!: evolves_saved
      intro: log_wf_doSnapshot)

lemma evolves_InstallSnapshot: "evolves rf (snd (InstallSnapshot clk args rf))"
proof -
  define rf1 where "rf1 = becomeFollowerLocked clk (isTerm args) rf"
  have rf1: "evolves rf rf1"
    by (simp add: rf1_def evolves_becomeFollowerLocked)
  have "evolves rf1 (snd (InstallSnapshot clk args rf)) \<or> snd (InstallSnapshot clk args rf) = rf"
    unfolding InstallSnapshot_def rf1_def [symmetric] Let_def
    by (auto intro!: evolves_saved log_wf_installSnapshot)
  then show ?thesis using rf1 by (auto intro: evolves_trans)
qed

lemma evolves_handleInstallReply:
  assumes "handleInstallReply clk t p args ok r rf = Some rf'"
  shows "evolves rf rf'"
proof (cases "ok \<and> isrTerm r > currentTerm rf")
  case True
  with assms show ?thesis by (auto simp: handleInstallReply_def)
next
  case False
  with assms show ?thesis
    by (auto simp: handleInstallReply_def raft_state_defs go_len_def split: if_splits
        dest!: bind_eq_SomeD go_upd_length intro!: evolves_volatile)
qed

lemma evolves_applyWait: "evolves rf (applyWait rf)"
  by (rule evolves_volatile) (simp_all add: applyWait_def durable_def)

lemma evolves_applyCollect: "applyCollect rf = Some (ap, rf') \<Longrightarrow> evolves rf rf'"
  by (auto simp: applyCollect_def Let_def durable_def split: if_splits dest!: bind_eq_SomeD
      intro!: evolves_volatile)

lemma evolves_applyFinish: "evolves rf (applyFinish ap rf)"
  by (rule evolves_volatile) (simp_all add: applyFinish_def Let_def durable_def)

interpretation Raft_Snapshot: peer_operation "Raft_Snapshot i s"
  by unfold_locales (rule evolves_Raft_Snapshot)

interpretation InstallSnapshot: peer_operation "\<lambda>rf. Some (snd (InstallSnapshot clk args rf))"
  by unfold_locales (auto simp: evolves_InstallSnapshot)

interpretation handleInstallReply: peer_operation "handleInstallReply clk t p args ok r"
  by unfold_locales (rule evolves_handleInstallReply)

interpretation applyCollect: peer_operation "\<lambda>rf. map_option snd (applyCollect rf)"
  by unfold_locales (auto dest: evolves_applyCollect)

interpretation applyFinish: peer_operation "\<lambda>rf. Some (applyFinish ap rf)"
  by unfold_locales (auto simp: evolves_applyFinish)

end
