(* ===== verification/Raft_Cluster.thy ===== *)
theory Raft_Cluster
  imports Raft_Election Raft_Compaction
begin

section \<open>A cluster of Raft peers\<close>

text \<open>
  The peers of one Raft group, the goroutines they have spawned and the calls in flight
  between them. A state is explored by a sequence of actions, each of which is one critical
  section of the source or one event of the network:

  \<^item> a call (\<open>sendRequestVote\<close>, \<open>sendAppendEntries\<close>, \<open>sendInstallSnapshot\<close>) is in
    \<open>net\<close> from the moment its goroutine is spawned. \<open>Exec\<close> runs the handler at the
    server, at most once per call; \<open>Return\<close> hands the outcome to the closure that follows
    the call. Calls are picked in any order, may never be executed, and their replies may be
    lost: this is what \<open>labrpc\<close> promises;
  \<^item> \<open>Tick\<close> is an iteration of \<open>electionTicker\<close>, \<open>Elect\<close> the body of a spawned
    \<open>startElection\<close>, \<open>Replicate\<close> an iteration of a \<open>replicationTicker\<close>;
  \<^item> \<open>ClientStart\<close> and \<open>TakeSnapshot\<close> are calls of the service above; the four
    \<open>Apply\<close> actions are the sections of \<open>applicationTicker\<close>;
  \<^item> \<open>Restart\<close> is a crash: only the persister survives, and \<open>Make\<close> runs on it. A
    reply to a call made before the crash may still reach the restarted peer, which is more
    than the code allows.

  A step that panics in the source has no successor (the process is gone; \<open>Restart\<close>
  remains possible).
\<close>

datatype ('c, 's) rpc =
    RV int int int RequestVoteArgs "RequestVoteReply option"
  | AE int int int "'c AppendEntriesArgs" "AppendEntriesReply option"
  | IS int int int "'s InstallSnapshotArgs" "InstallSnapshotReply option"

text \<open>The fields of a call: the caller, its term when it made the call, the server called, the
  arguments, and the reply once the handler has run.\<close>

text \<open>Where the \<open>applicationTicker\<close> goroutine of a peer stands.\<close>

datatype 'c apply_pc = AtHead | Parked | Collected "'c applying" | Sent "'c applying"

record ('c, 's) cluster =
  csize :: int
  node :: "int \<Rightarrow> ('c, 's) Raft"
  elections :: "(int \<times> int) list"
  votes :: "int \<times> int \<Rightarrow> int"
  replicators :: "(int \<times> int) list"
  net :: "('c, 's) rpc list"
  applier :: "int \<Rightarrow> 'c apply_pc"
  delivered :: "int \<Rightarrow> ('c, 's) ApplyMsg list"

datatype ('c, 's) action =
    Tick int clock
  | Elect nat
  | Replicate nat
  | Exec nat clock
  | Return nat bool clock
  | ClientStart int 'c
  | TakeSnapshot int int "'s list"
  | ApplyWait int
  | ApplyCollect int
  | ApplySend int
  | ApplyFinish int
  | Restart int

definition remove_nth :: "nat \<Rightarrow> 'a list \<Rightarrow> 'a list" where
  "remove_nth k xs = take k xs @ drop (Suc k) xs"

definition is_server :: "('c, 's) cluster \<Rightarrow> int \<Rightarrow> bool" where
  "is_server s i \<longleftrightarrow> 0 \<le> i \<and> i < csize s"

definition set_node :: "int \<Rightarrow> ('c, 's) Raft \<Rightarrow> ('c, 's) cluster \<Rightarrow> ('c, 's) cluster" where
  "set_node i rf s = s\<lparr>node := (node s)(i := rf)\<rparr>"

fun call_of :: "int \<Rightarrow> int \<Rightarrow> ('c, 's) request \<Rightarrow> ('c, 's) rpc" where
  "call_of i trm (SendAppend p args) = AE i trm p args None"
| "call_of i trm (SendInstall p args) = IS i trm p args None"

subsection \<open>Running the handler of a call\<close>

fun exec_call :: "clock \<Rightarrow> ('c, 's) cluster \<Rightarrow> ('c, 's) rpc \<Rightarrow> (('c, 's) rpc \<times> int \<times> ('c, 's) Raft) option" where
  "exec_call clk s (RV c t p args None) = do {
     (r, rf) \<leftarrow> RequestVote clk args (node s p);
     Some (RV c t p args (Some r), p, rf) }"
| "exec_call clk s (AE c t p args None) = do {
     (r, rf) \<leftarrow> AppendEntries clk args (node s p);
     Some (AE c t p args (Some r), p, rf) }"
| "exec_call clk s (IS c t p args None) =
     (let (r, rf) = InstallSnapshot clk args (node s p) in Some (IS c t p args (Some r), p, rf))"
| "exec_call clk s _ = None"

subsection \<open>Handing the outcome of a call to its caller\<close>

text \<open>A failed call leaves the reply variable at its zero value.\<close>

fun return_call :: "bool \<Rightarrow> clock \<Rightarrow> ('c, 's) cluster \<Rightarrow> ('c, 's) rpc \<Rightarrow> ('c, 's) cluster option" where
  "return_call ok clk s (RV c t p args rep) =
     (if ok \<and> rep = None then None
      else let r = (if ok then the rep else \<lparr>rvrTerm = 0, rvrVoteGranted = False\<rparr>) in do {
        (v, rf, started) \<leftarrow> handleVoteReply clk t ok r (votes s (c, t)) (node s c);
        Some ((set_node c rf s)\<lparr>votes := (votes s)((c, t) := v),
                replicators := replicators s @ (if started then [(c, t)] else [])\<rparr>) })"
| "return_call ok clk s (AE c t p args rep) =
     (if ok \<and> rep = None then None
      else let r = (if ok then the rep else \<lparr>aerTerm = 0, aerSuccess = False\<rparr>) in do {
        rf \<leftarrow> handleAppendReply clk t p args ok r (node s c);
        Some (set_node c rf s) })"
| "return_call ok clk s (IS c t p args rep) =
     (if ok \<and> rep = None then None
      else let r = (if ok then the rep else \<lparr>isrTerm = 0\<rparr>) in do {
        rf \<leftarrow> handleInstallReply clk t p args ok r (node s c);
        Some (set_node c rf s) })"

subsection \<open>Actions\<close>

fun exec :: "('c, 's) cluster \<Rightarrow> ('c, 's) action \<Rightarrow> ('c, 's) cluster option" where
  "exec s (Tick i clk) =
     (if \<not> is_server s i then None
      else do {
        (trm, rf) \<leftarrow> electionTicker clk (node s i);
        Some ((set_node i rf s)\<lparr>elections := elections s @
                (case trm of None \<Rightarrow> [] | Some t \<Rightarrow> [(i, t)])\<rparr>) })"
| "exec s (Elect k) =
     (if length (elections s) \<le> k then None
      else let (i, t) = elections s ! k in do {
        (v, reqs) \<leftarrow> startElection t (node s i);
        Some (s\<lparr>elections := remove_nth k (elections s), votes := (votes s)((i, t) := v),
                net := net s @ map (\<lambda>(p, a). RV i t p a None) reqs\<rparr>) })"
| "exec s (Replicate k) =
     (if length (replicators s) \<le> k then None
      else let (i, t) = replicators s ! k in do {
        (goon, rf, reqs) \<leftarrow> replicationTicker t (node s i);
        Some ((set_node i rf s)\<lparr>replicators := (if goon then replicators s else remove_nth k (replicators s)),
                net := net s @ map (call_of i t) reqs\<rparr>) })"
| "exec s (Exec k clk) =
     (if length (net s) \<le> k then None
      else do {
        (c, p, rf) \<leftarrow> exec_call clk s (net s ! k);
        Some ((set_node p rf s)\<lparr>net := (net s)[k := c]\<rparr>) })"
| "exec s (Return k ok clk) =
     (if length (net s) \<le> k then None
      else do {
        s1 \<leftarrow> return_call ok clk s (net s ! k);
        Some (s1\<lparr>net := remove_nth k (net s)\<rparr>) })"
| "exec s (ClientStart i c) =
     (if \<not> is_server s i then None else Some (set_node i (snd (Start c (node s i))) s))"
| "exec s (TakeSnapshot i index snap) =
     (if \<not> is_server s i then None
      else do { rf \<leftarrow> Raft_Snapshot index snap (node s i); Some (set_node i rf s) })"
| "exec s (ApplyWait i) =
     (if \<not> is_server s i \<or> killed (node s i) \<or> applier s i \<noteq> AtHead then None
      else Some ((set_node i (applyWait (node s i)) s)\<lparr>applier := (applier s)(i := Parked)\<rparr>))"
| "exec s (ApplyCollect i) =
     (if \<not> is_server s i \<or> applyWaiting (node s i) \<or> applier s i \<noteq> Parked then None
      else do {
        (ap, rf) \<leftarrow> applyCollect (node s i);
        Some ((set_node i rf s)\<lparr>applier := (applier s)(i := Collected ap)\<rparr>) })"
| "exec s (ApplySend i) =
     (if \<not> is_server s i then None
      else case applier s i of
        Collected ap \<Rightarrow>
          Some (s\<lparr>delivered := (delivered s)(i := delivered s i @ applySend ap (node s i)),
                  applier := (applier s)(i := Sent ap)\<rparr>)
      | _ \<Rightarrow> None)"
| "exec s (ApplyFinish i) =
     (if \<not> is_server s i then None
      else case applier s i of
        Sent ap \<Rightarrow>
          Some ((set_node i (applyFinish ap (node s i)) s)\<lparr>applier := (applier s)(i := AtHead)\<rparr>)
      | _ \<Rightarrow> None)"
| "exec s (Restart i) =
     (if \<not> is_server s i then None
      else Some ((set_node i (Make (csize s) i (persister (node s i))) s)
                  \<lparr>applier := (applier s)(i := AtHead)\<rparr>))"

definition init_cluster :: "int \<Rightarrow> ('c, 's) cluster" where
  "init_cluster n =
     \<lparr>csize = n, node = (\<lambda>i. Make n i MakePersister), elections = [], votes = (\<lambda>_. 0),
      replicators = [], net = [], applier = (\<lambda>_. AtHead), delivered = (\<lambda>_. [])\<rparr>"

fun exec_all :: "('c, 's) cluster \<Rightarrow> ('c, 's) action list \<Rightarrow> ('c, 's) cluster option" where
  "exec_all s [] = Some s"
| "exec_all s (a # as) = do { s1 \<leftarrow> exec s a; exec_all s1 as }"

inductive cstep :: "('c, 's) cluster \<Rightarrow> ('c, 's) cluster \<Rightarrow> bool" where
  act: "exec s a = Some s' \<Longrightarrow> cstep s s'"

inductive csteps :: "('c, 's) cluster \<Rightarrow> ('c, 's) cluster \<Rightarrow> bool" where
  refl: "csteps s s"
| snoc: "csteps s t \<Longrightarrow> cstep t u \<Longrightarrow> csteps s u"

inductive_cases cstepE: "cstep s s'"

lemma exec_all_csteps: "csteps r s \<Longrightarrow> exec_all s as = Some t \<Longrightarrow> csteps r t"
proof (induction as arbitrary: s)
  case (Cons a as)
  then show ?case by (auto dest!: bind_eq_SomeD) (meson cstep.act csteps.snoc)
qed simp

lemma csteps_trans: "csteps t u \<Longrightarrow> csteps s t \<Longrightarrow> csteps s u"
  by (induction rule: csteps.induct) (auto intro: csteps.snoc)

end
