(* ===== verification/Raft_Safety.thy ===== *)
theory Raft_Safety
  imports Raft_Cluster
begin

section \<open>Election safety\<close>

text \<open>
  At most one peer is ever the leader of a term, at whatever two moments of a run one looks,
  through crashes and restarts and with any loss, delay and reordering of calls. The invariant
  speaks of two ghosts: \<open>V i t\<close>, the candidate peer \<open>i\<close> voted for in term \<open>t\<close>, and
  \<open>C (c, t)\<close>, the peers whose votes candidate \<open>c\<close> has counted in term \<open>t\<close>. A step
  extends \<open>V\<close> and never changes a vote: that is the contract \<open>evolves\<close> of the peer's
  operations. Majorities meet: that is the locale \<open>quorum_system\<close>.
\<close>

subsection \<open>Quorums\<close>

locale quorum_system =
  fixes quorum :: "'a set \<Rightarrow> bool"
  assumes meet: "quorum P \<Longrightarrow> quorum Q \<Longrightarrow> P \<inter> Q \<noteq> {}"
begin

lemma not_empty: "quorum P \<Longrightarrow> P \<noteq> {}"
  using meet by blast

text \<open>Two values chosen by quorums that vote once are the same.\<close>

lemma unique_choice:
  assumes "quorum P" and "quorum Q"
    and "\<And>p. p \<in> P \<Longrightarrow> v p = Some a" and "\<And>q. q \<in> Q \<Longrightarrow> v q = Some b"
  shows "a = b"
  using meet [OF assms(1,2)] assms(3,4) by fastforce

end

text \<open>\<open>votes > len(rf.peers)/2\<close>\<close>

definition majority :: "int \<Rightarrow> int set \<Rightarrow> bool" where
  "majority n Q \<longleftrightarrow> 0 \<le> n \<and> Q \<subseteq> {0..<n} \<and> n div 2 < int (card Q)"

lemma majority_mono: "majority n P \<Longrightarrow> P \<subseteq> Q \<Longrightarrow> Q \<subseteq> {0..<n} \<Longrightarrow> majority n Q"
  using card_mono [of Q P] finite_subset [of Q "{0..<n}"] by (force simp: majority_def)

lemma majority_meet:
  assumes "majority n P" and "majority n Q"
  shows "P \<inter> Q \<noteq> {}"
proof
  assume disj: "P \<inter> Q = {}"
  have fin: "finite P" "finite Q" and sub: "P \<union> Q \<subseteq> {0..<n}"
    using assms finite_subset [of P "{0..<n}"] finite_subset [of Q "{0..<n}"]
    by (auto simp: majority_def)
  have "card P + card Q = card (P \<union> Q)"
    using disj fin by (simp add: card_Un_disjoint)
  also have "\<dots> \<le> nat n"
    using card_mono [OF _ sub] by simp
  finally have "int (card P) + int (card Q) \<le> max 0 n" by linarith
  with assms show False by (auto simp: majority_def)
qed

interpretation majority: quorum_system "majority n"
  by unfold_locales (rule majority_meet)

subsection \<open>Votes\<close>

definition cast :: "('c, 's) Raft \<Rightarrow> int option" where
  "cast rf = (if votedFor rf = -1 then None else Some (votedFor rf))"

definition votes_ok :: "(int \<Rightarrow> int \<Rightarrow> int option) \<Rightarrow> int \<Rightarrow> ('c, 's) Raft \<Rightarrow> bool" where
  "votes_ok V i rf \<longleftrightarrow> V i (currentTerm rf) = cast rf \<and> (\<forall>t > currentTerm rf. V i t = None)"

definition record_vote ::
  "(int \<Rightarrow> int \<Rightarrow> int option) \<Rightarrow> int \<Rightarrow> ('c, 's) Raft \<Rightarrow> int \<Rightarrow> int \<Rightarrow> int option" where
  "record_vote V i rf = V(i := (V i)(currentTerm rf := cast rf))"

definition extends :: "(int \<Rightarrow> int \<Rightarrow> int option) \<Rightarrow> (int \<Rightarrow> int \<Rightarrow> int option) \<Rightarrow> bool" where
  "extends V V' \<longleftrightarrow> (\<forall>i t c. V i t = Some c \<longrightarrow> V' i t = Some c)"

lemma extends_refl [simp]: "extends V V"
  by (simp add: extends_def)

lemma extends_trans: "extends U V \<Longrightarrow> extends V W \<Longrightarrow> extends U W"
  by (simp add: extends_def)

text \<open>The part of the contract of a peer's operation that a restart keeps too, and what it
  means for the history of votes.\<close>

definition loyal :: "('c, 's) Raft \<Rightarrow> ('c, 's) Raft \<Rightarrow> bool" where
  "loyal rf rf' \<longleftrightarrow> peers rf' = peers rf \<and> me rf' = me rf \<and> rf_wf rf' \<and> persisted rf'
     \<and> currentTerm rf \<le> currentTerm rf'
     \<and> (currentTerm rf' = currentTerm rf \<and> votedFor rf \<noteq> -1 \<longrightarrow> votedFor rf' = votedFor rf)"

lemma evolves_loyal: "evolves rf rf' \<Longrightarrow> rf_wf rf \<Longrightarrow> persisted rf \<Longrightarrow> loyal rf rf'"
  by (auto simp: loyal_def evolves_def)

lemma loyal_votes:
  assumes "votes_ok V i rf" and "loyal rf rf'"
  shows "extends V (record_vote V i rf')" "votes_ok (record_vote V i rf') i rf'"
    "j \<noteq> i \<Longrightarrow> votes_ok V j rfj \<Longrightarrow> votes_ok (record_vote V i rf') j rfj"
  using assms by (auto simp: extends_def record_vote_def votes_ok_def loyal_def cast_def
      dest: order_le_imp_less_or_eq split: if_splits)

text \<open>Operations that promote nobody.\<close>

definition quiet :: "('c, 's) Raft \<Rightarrow> ('c, 's) Raft \<Rightarrow> bool" where
  "quiet rf rf' \<longleftrightarrow> evolves rf rf'
     \<and> (role rf' = Follower \<or> role rf' = role rf \<and> currentTerm rf' = currentTerm rf)"

lemma quiet_becomeFollowerLocked [simp]: "quiet rf (becomeFollowerLocked clk t rf)"
  using becomeFollowerLocked_newer [of rf t clk] by (cases "t < currentTerm rf") (auto simp: quiet_def)

lemma quiet_refl [simp]: "quiet rf rf"
  by (simp add: quiet_def)

lemma quiet_RequestVote:
  assumes "RequestVote clk args rf = Some (r, rf')"
  shows "quiet rf rf'"
proof -
  have "role rf' = Follower \<or> role rf' = role rf \<and> currentTerm rf' = currentTerm rf"
    using assms becomeFollowerLocked_newer(2) [of rf "rvTerm args" clk]
    by (auto simp: RequestVote_def Let_def split: if_splits dest!: bind_eq_SomeD)
  with evolves_RequestVote [OF assms] show ?thesis by (simp add: quiet_def)
qed

lemma quiet_AppendEntries:
  assumes "AppendEntries clk args rf = Some (r, rf')"
  shows "quiet rf rf'"
proof -
  from assms have "role rf' = Follower \<or> rf' = rf"
    by (cases rule: AppendEntries_cases) (auto simp: becomeFollowerLocked_newer)
  with evolves_AppendEntries [OF assms] show ?thesis by (auto simp: quiet_def)
qed

lemma quiet_InstallSnapshot: "quiet rf (snd (InstallSnapshot clk args rf))"
  using becomeFollowerLocked_newer(2) [of rf "isTerm args" clk]
    evolves_InstallSnapshot [of rf clk args]
  by (auto simp: quiet_def InstallSnapshot_def Let_def)

lemma quiet_handleAppendReply:
  assumes "handleAppendReply clk t p args ok r rf = Some rf'"
  shows "quiet rf rf'"
proof (cases "ok \<and> aerTerm r > currentTerm rf")
  case True
  with assms show ?thesis by (auto simp: handleAppendReply_def)
next
  case False
  with assms have "role rf' = role rf \<and> currentTerm rf' = currentTerm rf"
    by (auto simp: handleAppendReply_def Let_def split: if_splits dest!: bind_eq_SomeD)
  with evolves_handleAppendReply [OF assms] show ?thesis by (simp add: quiet_def)
qed

lemma quiet_handleInstallReply:
  assumes "handleInstallReply clk t p args ok r rf = Some rf'"
  shows "quiet rf rf'"
proof (cases "ok \<and> isrTerm r > currentTerm rf")
  case True
  with assms show ?thesis by (auto simp: handleInstallReply_def)
next
  case False
  with assms have "role rf' = role rf \<and> currentTerm rf' = currentTerm rf"
    by (auto simp: handleInstallReply_def Let_def split: if_splits dest!: bind_eq_SomeD)
  with evolves_handleInstallReply [OF assms] show ?thesis by (simp add: quiet_def)
qed

lemma quiet_replicationTicker:
  "replicationTicker t rf = Some (b, rf', reqs) \<Longrightarrow> quiet rf rf'"
  by (auto simp: quiet_def replicationTicker_def intro: evolves_startReplication split: if_splits)
    (auto simp: startReplication_def split: if_splits dest!: bind_eq_SomeD replicationLoop_same)

lemma quiet_Start: "quiet rf (snd (Start c rf))"
  using evolves_Start [of rf c] by (auto simp: quiet_def Start_def Let_def)

lemma quiet_Raft_Snapshot: "Raft_Snapshot i snap rf = Some rf' \<Longrightarrow> quiet rf rf'"
  by (auto simp: quiet_def intro: evolves_Raft_Snapshot)
    (auto simp: Raft_Snapshot_def split: if_splits dest!: bind_eq_SomeD)

lemma quiet_apply:
  "quiet rf (applyWait rf)" "quiet rf (applyFinish ap rf)"
  "applyCollect rf = Some (ap', rf') \<Longrightarrow> quiet rf rf'"
  using evolves_applyWait [of rf] evolves_applyFinish [of rf ap]
  by (auto simp: quiet_def applyWait_def applyFinish_def Let_def intro: evolves_applyCollect)
    (auto simp: applyCollect_def Let_def split: if_splits dest!: bind_eq_SomeD)

text \<open>A restart: the commit index may go back, votes and terms do not.\<close>

lemma Make_restores:
  assumes "persisted rf"
  shows "currentTerm (Make (peers rf) (me rf) (persister rf)) = currentTerm rf"
    "votedFor (Make (peers rf) (me rf) (persister rf)) = votedFor rf"
    "rlog (Make (peers rf) (me rf) (persister rf)) = rlog rf"
  using assms by (auto simp: persisted_def durable_def)

lemma loyal_Make:
  assumes "persisted rf" and "rf_wf rf"
  shows "loyal rf (Make (peers rf) (me rf) (persister rf))"
  using assms by (simp add: loyal_def Make_restores persisted_Make Make_fixed rf_wf_def go_len_def)

subsection \<open>The invariant\<close>

fun rv_key :: "('c, 's) rpc \<Rightarrow> (int \<times> int \<times> int) list" where
  "rv_key (RV c t p a r) = [(c, t, p)]"
| "rv_key _ = []"

definition rv_keys :: "('c, 's) rpc list \<Rightarrow> (int \<times> int \<times> int) list" where
  "rv_keys cs = concat (map rv_key cs)"

fun addressed :: "('c, 's) cluster \<Rightarrow> ('c, 's) rpc \<Rightarrow> bool" where
  "addressed s (RV c t p a r) \<longleftrightarrow> is_server s c \<and> is_server s p"
| "addressed s (AE c t p a r) \<longleftrightarrow> is_server s c \<and> is_server s p"
| "addressed s (IS c t p a r) \<longleftrightarrow> is_server s c \<and> is_server s p"

definition nodes_ok :: "('c, 's) cluster \<Rightarrow> bool" where
  "nodes_ok s \<longleftrightarrow> (\<forall>i. is_server s i \<longrightarrow> me (node s i) = i \<and> peers (node s i) = csize s
     \<and> rf_wf (node s i) \<and> persisted (node s i))"

definition supporters :: "(int \<Rightarrow> int \<Rightarrow> int option) \<Rightarrow> int \<Rightarrow> int \<Rightarrow> int \<Rightarrow> int set" where
  "supporters V n t c = {p. 0 \<le> p \<and> p < n \<and> V p t = Some c}"

text \<open>What a vote request in flight tells: who asks whom in which term, that the vote is not
  counted yet, and, once granted, that it is recorded.\<close>

definition rv_ok ::
  "(int \<Rightarrow> int \<Rightarrow> int option) \<Rightarrow> (int \<times> int \<Rightarrow> int set) \<Rightarrow> ('c, 's) cluster \<Rightarrow> ('c, 's) rpc \<Rightarrow> bool" where
  "rv_ok V C s call \<longleftrightarrow> (\<forall>c t p a r. call = RV c t p a r \<longrightarrow>
     rvTerm a = t \<and> rvCandidateId a = c \<and> t \<le> currentTerm (node s c) \<and> p \<notin> C (c, t) \<and> c \<in> C (c, t)
     \<and> (\<forall>rep. r = Some rep \<and> rvrVoteGranted rep \<longrightarrow> V p t = Some c))"

definition counted_ok ::
  "(int \<Rightarrow> int \<Rightarrow> int option) \<Rightarrow> (int \<times> int \<Rightarrow> int set) \<Rightarrow> ('c, 's) cluster \<Rightarrow> bool" where
  "counted_ok V C s \<longleftrightarrow> (\<forall>c t. C (c, t) \<subseteq> supporters V (csize s) t c
     \<and> votes s (c, t) = int (card (C (c, t))) \<and> (C (c, t) \<noteq> {} \<longrightarrow> c \<in> C (c, t)))"

definition elections_ok :: "(int \<times> int \<Rightarrow> int set) \<Rightarrow> ('c, 's) cluster \<Rightarrow> bool" where
  "elections_ok C s \<longleftrightarrow> distinct (elections s)
     \<and> (\<forall>i t. (i, t) \<in> set (elections s) \<longrightarrow> is_server s i \<and> t \<le> currentTerm (node s i)
          \<and> C (i, t) = {} \<and> (\<forall>p. (i, t, p) \<notin> set (rv_keys (net s))))"

definition roles_ok :: "(int \<Rightarrow> int \<Rightarrow> int option) \<Rightarrow> ('c, 's) cluster \<Rightarrow> bool" where
  "roles_ok V s \<longleftrightarrow> (\<forall>i. is_server s i \<longrightarrow>
     (role (node s i) \<noteq> Follower \<longrightarrow> votedFor (node s i) = i)
     \<and> (role (node s i) = Leader \<longrightarrow> majority (csize s) (supporters V (csize s) (currentTerm (node s i)) i)))"

definition election_inv ::
  "(int \<Rightarrow> int \<Rightarrow> int option) \<Rightarrow> (int \<times> int \<Rightarrow> int set) \<Rightarrow> ('c, 's) cluster \<Rightarrow> bool" where
  "election_inv V C s \<longleftrightarrow> 0 \<le> csize s \<and> nodes_ok s
     \<and> (\<forall>i. is_server s i \<longrightarrow> votes_ok V i (node s i))
     \<and> (\<forall>call \<in> set (net s). addressed s call \<and> rv_ok V C s call)
     \<and> distinct (rv_keys (net s)) \<and> counted_ok V C s \<and> elections_ok C s \<and> roles_ok V s
     \<and> (\<forall>(i, t) \<in> set (replicators s). is_server s i)"

lemma election_invD:
  assumes "election_inv V C s"
  shows "0 \<le> csize s" "nodes_ok s" "is_server s i \<Longrightarrow> votes_ok V i (node s i)"
    "call \<in> set (net s) \<Longrightarrow> addressed s call" "call \<in> set (net s) \<Longrightarrow> rv_ok V C s call"
    "distinct (rv_keys (net s))" "counted_ok V C s" "elections_ok C s" "roles_ok V s"
    "(i, t) \<in> set (replicators s) \<Longrightarrow> is_server s i"
  using assms by (auto simp: election_inv_def)

lemma nodes_okD:
  assumes "nodes_ok s" and "is_server s i"
  shows "me (node s i) = i" "peers (node s i) = csize s" "rf_wf (node s i)" "persisted (node s i)"
  using assms by (auto simp: nodes_ok_def)

lemma supporters_mono: "extends V V' \<Longrightarrow> supporters V n t c \<subseteq> supporters V' n t c"
  by (auto simp: supporters_def extends_def)

lemma majority_supporters_mono:
  "extends V V' \<Longrightarrow> majority n (supporters V n t c) \<Longrightarrow> majority n (supporters V' n t c)"
  by (rule majority_mono [OF _ supporters_mono]) (auto simp: supporters_def)

subsection \<open>One peer moves\<close>

lemma is_server_cong: "csize s' = csize s \<Longrightarrow> is_server s' = is_server s"
  by (auto simp: is_server_def fun_eq_iff)

lemma rv_key_iff: "(c, t, p) \<in> set (rv_key call) \<longleftrightarrow> (\<exists>a r. call = RV c t p a r)"
  by (cases call) auto

lemma rv_keys_iff: "(c, t, p) \<in> set (rv_keys cs) \<longleftrightarrow> (\<exists>a r. RV c t p a r \<in> set cs)"
  by (auto simp: rv_keys_def rv_key_iff)

lemma rv_ok_mono:
  assumes "rv_ok V C s call" and "extends V V'"
    and "\<And>c. currentTerm (node s c) \<le> currentTerm (node s' c)"
  shows "rv_ok V' C s' call"
proof (cases call)
  case (RV c t p a r)
  show ?thesis
    using assms(1,2) order_trans [OF _ assms(3), of _ c] by (simp add: RV rv_ok_def extends_def)
qed (simp_all add: rv_ok_def)

text \<open>Peer \<open>i\<close> changes as the contract allows. What is left to show is about the counts, the
  elections that are pending, the calls, and the role of \<open>i\<close>.\<close>

lemma election_inv_step:
  fixes s s' :: "('c, 's) cluster"
  assumes inv: "election_inv V C s" and i: "is_server s i" and loyal: "loyal (node s i) rf'"
    and s': "csize s' = csize s" "node s' = (node s)(i := rf')"
    and V': "V' = record_vote V i rf'"
    and role: "role rf' \<noteq> Follower \<Longrightarrow> votedFor rf' = i"
      "role rf' = Leader \<Longrightarrow> majority (csize s) (supporters V' (csize s) (currentTerm rf') i)"
    and repl: "\<And>j t. (j, t) \<in> set (replicators s') \<Longrightarrow> is_server s j"
    and addr: "\<And>call. call \<in> set (net s') \<Longrightarrow> addressed s call"
    and calls: "\<And>call. call \<in> set (net s') \<Longrightarrow> rv_ok V' C' s' call"
    and keys: "distinct (rv_keys (net s'))"
    and counted: "counted_ok V' C' s'" and elect: "elections_ok C' s'"
  shows "election_inv V' C' s'"
proof -
  note D = election_invD [OF inv]
  have srv: "is_server s' = is_server s"
    using s'(1) by (rule is_server_cong)
  have ext: "extends V V'" and vi: "votes_ok V' i rf'"
    using loyal_votes(1,2) [OF D(3) [OF i] loyal] by (simp_all add: V')
  have "nodes_ok s'"
    using D(2) loyal i by (auto simp: nodes_ok_def srv s' loyal_def)
  moreover have "votes_ok V' j (node s' j)" if "is_server s j" for j
    using vi loyal_votes(3) [OF D(3) [OF i] loyal _ D(3) [OF that]] by (auto simp: s' V')
  moreover have "addressed s' call" if "call \<in> set (net s')" for call
    using addr [OF that] by (cases call) (auto simp: srv)
  moreover have "roles_ok V' s'"
    using D(9) role majority_supporters_mono [OF ext] by (auto simp: roles_ok_def srv s')
  ultimately show ?thesis
    using D(1) calls keys counted elect repl by (auto simp: election_inv_def srv s'(1))
qed

text \<open>A step that counts no vote, starts no election and promotes nobody.\<close>

lemma election_inv_quiet:
  fixes s s' :: "('c, 's) cluster"
  assumes inv: "election_inv V C s" and i: "is_server s i" and loyal: "loyal (node s i) rf'"
    and role: "role rf' = Follower \<or> role rf' = role (node s i) \<and> currentTerm rf' = currentTerm (node s i)"
    and s': "csize s' = csize s" "node s' = (node s)(i := rf')" "elections s' = elections s"
      "votes s' = votes s"
    and V': "V' = record_vote V i rf'"
    and repl: "\<And>j t. (j, t) \<in> set (replicators s') \<Longrightarrow> is_server s j"
    and addr: "\<And>call. call \<in> set (net s') \<Longrightarrow> addressed s call"
    and calls: "\<And>c t p a r. RV c t p a r \<in> set (net s') \<Longrightarrow>
      (\<exists>r0. RV c t p a r0 \<in> set (net s)) \<and>
      (\<forall>rep. r = Some rep \<and> rvrVoteGranted rep \<longrightarrow> V' p t = Some c)"
    and keys: "distinct (rv_keys (net s'))"
  shows "election_inv V' C s'"
proof (rule election_inv_step [OF inv i loyal s'(1,2) V' _ _ repl addr _ keys])
  note D = election_invD [OF inv]
  have ext: "extends V V'"
    using loyal_votes(1) [OF D(3) [OF i] loyal] by (simp add: V')
  have term_mono: "currentTerm (node s c) \<le> currentTerm (node s' c)" for c
    using loyal by (auto simp: s' loyal_def)
  have old: "role (node s i) \<noteq> Follower \<longrightarrow> votedFor (node s i) = i"
    "role (node s i) = Leader \<longrightarrow> majority (csize s) (supporters V (csize s) (currentTerm (node s i)) i)"
    using D(9) i by (auto simp: roles_ok_def)
  show "votedFor rf' = i" if "role rf' \<noteq> Follower"
    using that role loyal old i by (auto simp: loyal_def is_server_def)
  show "majority (csize s) (supporters V' (csize s) (currentTerm rf') i)" if "role rf' = Leader"
    using that role old(2) majority_supporters_mono [OF ext] by auto
  show "rv_ok V' C s' call" if call: "call \<in> set (net s')" for call
    unfolding rv_ok_def
  proof (intro allI impI)
    fix c t p a r assume eq: "call = RV c t p a r"
    from calls [OF call [unfolded eq]] obtain r0 where r0: "RV c t p a r0 \<in> set (net s)"
      and g: "\<forall>rep. r = Some rep \<and> rvrVoteGranted rep \<longrightarrow> V' p t = Some c" by blast
    then have "rv_ok V' C s' (RV c t p a r0)"
      using rv_ok_mono [OF D(5) [OF r0] ext] term_mono by blast
    with g show "rvTerm a = t \<and> rvCandidateId a = c
        \<and> t \<le> currentTerm (node s' c) \<and> p \<notin> C (c, t) \<and> c \<in> C (c, t)
        \<and> (\<forall>rep. r = Some rep \<and> rvrVoteGranted rep \<longrightarrow> V' p t = Some c)"
      by (fastforce simp: rv_ok_def)
  qed
  show "counted_ok V' C s'"
    using D(7) supporters_mono [OF ext] by (fastforce simp: counted_ok_def s')
  show "elections_ok C s'"
    unfolding elections_ok_def
  proof (intro conjI allI impI)
    fix j t assume "(j, t) \<in> set (elections s')"
    then have e: "is_server s j" "t \<le> currentTerm (node s j)" "C (j, t) = {}"
      "\<And>p. (j, t, p) \<notin> set (rv_keys (net s))"
      using D(8) by (auto simp: elections_ok_def s')
    then show "is_server s' j" "t \<le> currentTerm (node s' j)" "C (j, t) = {}"
      using term_mono [of j] is_server_cong [OF s'(1)] by auto
    show "(j, t, p) \<notin> set (rv_keys (net s'))" for p
      using e(4) [of p] calls by (metis rv_keys_iff)
  qed (use D(8) s' in \<open>auto simp: elections_ok_def\<close>)
qed

lemma record_vote_same: "votes_ok V i rf \<Longrightarrow> record_vote V i rf = V"
  by (auto simp: record_vote_def votes_ok_def fun_eq_iff)

lemma loyal_refl: "rf_wf rf \<Longrightarrow> persisted rf \<Longrightarrow> loyal rf rf"
  by (simp add: loyal_def)

lemma counted_ok_mono:
  assumes "counted_ok V C s" and "extends V V'" and "votes s' = votes s" "csize s' = csize s"
  shows "counted_ok V' C s'"
  using assms supporters_mono [OF assms(2)] by (fastforce simp: counted_ok_def)

subsection \<open>An election starts\<close>

lemma electionTicker_candidate:
  assumes "electionTicker clk rf = Some (Some t, rf')"
  shows "t = currentTerm rf + 1" "currentTerm rf' = t" "role rf' = Candidate" "votedFor rf' = me rf"
  using assms by (auto simp: electionTicker_def becomeCandidateLocked_def Let_def split: if_splits)

lemma electionTicker_idle: "electionTicker clk rf = Some (None, rf') \<Longrightarrow> rf' = rf"
  by (auto simp: electionTicker_def Let_def split: if_splits)

lemma election_inv_Tick:
  assumes inv: "election_inv V C s" and i: "is_server s i"
    and tick: "electionTicker clk (node s i) = Some (Some t, rf')"
    and s': "s' = (set_node i rf' s)\<lparr>elections := elections s @ [(i, t)]\<rparr>"
  shows "election_inv (record_vote V i rf') C s'"
proof -
  note D = election_invD [OF inv] and N = nodes_okD [OF election_invD(2) [OF inv] i]
  note new = electionTicker_candidate [OF tick]
  have loyal: "loyal (node s i) rf'"
    using evolves_loyal [OF evolves_electionTicker [OF tick]] N by blast
  let ?V = "record_vote V i rf'"
  have ext: "extends V ?V"
    using loyal_votes(1) [OF D(3) [OF i] loyal] .
  have mono: "currentTerm (node s c) \<le> currentTerm (node s' c)" for c
    using new by (simp add: s' set_node_def)
  have none: "V i t = None"
    using D(3) [OF i] new(1) by (simp add: votes_ok_def)
  show ?thesis
  proof (rule election_inv_step [OF inv i loyal])
    show "elections_ok C s'"
    proof -
      have "C (i, t) = {}"
        using D(7) none by (fastforce simp: counted_ok_def supporters_def)
      moreover have "(i, t, p) \<notin> set (rv_keys (net s))" for p
        using D(5) new(1) by (fastforce simp: rv_keys_iff rv_ok_def)
      moreover have "(i, t) \<notin> set (elections s)"
        using D(8) new(1) by (fastforce simp: elections_ok_def)
      ultimately show ?thesis
        using D(8) i new(1,2) mono by (fastforce simp: elections_ok_def s' set_node_def is_server_def)
    qed
    show "counted_ok ?V C s'"
      by (rule counted_ok_mono [OF D(7) ext]) (simp_all add: s' set_node_def)
    show "rv_ok ?V C s' call" if "call \<in> set (net s')" for call
      using rv_ok_mono [OF D(5) ext mono] that by (simp add: s' set_node_def)
  qed (use D new N in \<open>auto simp: s' set_node_def\<close>)
qed

text \<open>What \<open>startElection\<close> sends: the same request to every other peer; it counts its own
  vote.\<close>

lemma electionLoop_eq:
  "electionLoop ps rf li lt v =
     (v + int (length (filter (\<lambda>p. p = me rf) ps)),
      map (\<lambda>p. (p, \<lparr>rvTerm = currentTerm rf, rvCandidateId = me rf, rvLastLogIndex = li, rvLastLogTerm = lt\<rparr>))
        (filter (\<lambda>p. p \<noteq> me rf) ps))"
  by (induction ps arbitrary: v) (simp_all add: Let_def)

lemma filter_upto_one:
  assumes "a \<le> i" and "i \<le> b"
  shows "filter (\<lambda>p. p = i) [a..b] = [i :: int]"
proof -
  have "[a..b] = [a..i - 1] @ i # [i + 1..b]"
    using assms upto_split2 [of a i b] upto_rec2 [of a i] by simp
  moreover have "filter (\<lambda>p. p = i) [a..i - 1] = []" "filter (\<lambda>p. p = i) [i + 1..b] = []"
    by (auto simp: filter_empty_conv)
  ultimately show ?thesis by simp
qed

lemma startElection_cases:
  assumes "startElection t rf = Some (v, reqs)" and "0 \<le> me rf" "me rf < peers rf"
  obtains (lost) "contextLostLocked Candidate t rf" "v = 0" "reqs = []"
  | (sent) li lt where "\<not> contextLostLocked Candidate t rf" "v = 1" "log_last (rlog rf) = Some (li, lt)"
      "reqs = map (\<lambda>p. (p, \<lparr>rvTerm = t, rvCandidateId = me rf, rvLastLogIndex = li, rvLastLogTerm = lt\<rparr>))
                (filter (\<lambda>p. p \<noteq> me rf) [0..peers rf - 1])"
  using assms by (auto simp: startElection_def electionLoop_eq filter_upto_one contextLostLocked_def
      split: if_splits dest!: bind_eq_SomeD)

lemma remove_nth_split: "k < length xs \<Longrightarrow> xs = take k xs @ xs ! k # drop (Suc k) xs"
  by (rule id_take_nth_drop)

lemma set_remove_nth_subset: "set (remove_nth k xs) \<subseteq> set xs"
  by (auto simp: remove_nth_def dest: in_set_takeD in_set_dropD)

lemma distinct_remove_nth:
  assumes "distinct xs" and "k < length xs"
  shows "distinct (remove_nth k xs)" "set (remove_nth k xs) = set xs - {xs ! k}"
proof -
  have "distinct (take k xs @ xs ! k # drop (Suc k) xs)"
    using assms remove_nth_split by metis
  moreover have "set xs = set (take k xs @ xs ! k # drop (Suc k) xs)"
    using assms remove_nth_split by metis
  ultimately show "distinct (remove_nth k xs)" "set (remove_nth k xs) = set xs - {xs ! k}"
    by (auto simp: remove_nth_def)
qed

lemma rv_keys_append: "rv_keys (xs @ ys) = rv_keys xs @ rv_keys ys"
  by (simp add: rv_keys_def)

lemma rv_keys_requests: "rv_keys (map (\<lambda>(p, a). RV i t p a None) reqs) = map (\<lambda>(p, a). (i, t, p)) reqs"
  by (induction reqs) (auto simp: rv_keys_def)

lemma election_inv_Elect:
  assumes inv: "election_inv V C s" and k: "k < length (elections s)" "elections s ! k = (i, t)"
    and start: "startElection t (node s i) = Some (v, reqs)"
    and s': "s' = s\<lparr>elections := remove_nth k (elections s), votes := (votes s)((i, t) := v),
                net := net s @ map (\<lambda>(p, a). RV i t p a None) reqs\<rparr>"
  shows "\<exists>C'. election_inv V C' s'"
proof -
  note D = election_invD [OF inv]
  have el: "(i, t) \<in> set (elections s)"
    using k by (metis nth_mem)
  have i: "is_server s i" and empty: "C (i, t) = {}"
    and nokey: "\<And>p. (i, t, p) \<notin> set (rv_keys (net s))"
    using D(8) el by (auto simp: elections_ok_def)
  note N = nodes_okD [OF D(2) i]
  have V: "V = record_vote V i (node s i)"
    using record_vote_same [OF D(3) [OF i]] by simp
  have sub: "distinct (remove_nth k (elections s))" "set (remove_nth k (elections s)) = set (elections s) - {(i, t)}"
    using distinct_remove_nth [of "elections s" k] D(8) k by (auto simp: elections_ok_def)
  have rng: "0 \<le> me (node s i)" "me (node s i) < peers (node s i)"
    using i N by (auto simp: is_server_def)
  from start rng show ?thesis
  proof (cases rule: startElection_cases)
    case lost
    have "counted_ok V C s'"
      using D(7) empty lost(2) by (auto simp: counted_ok_def s')
    moreover have "elections_ok C s'"
      using D(8) sub lost(3) by (auto simp: elections_ok_def s' is_server_def)
    moreover have "rv_ok V C s' call" if "call \<in> set (net s)" for call
      using D(5) [OF that] by (simp add: rv_ok_def s')
    ultimately have "election_inv V C s'"
      using D(1,2,3,4,6,9,10) lost(3)
      by (intro election_inv_step [OF inv i loyal_refl _ _ V]) (auto simp: s' N roles_ok_def i)
    then show ?thesis by blast
  next
    case (sent li lt)
    let ?C = "C((i, t) := {i})"
    have cand: "role (node s i) = Candidate" "currentTerm (node s i) = t"
      using sent(1) by (auto simp: contextLostLocked_def)
    then have "votedFor (node s i) = i"
      using D(9) i by (auto simp: roles_ok_def)
    then have self: "V i t = Some i"
      using D(3) [OF i] cand i by (auto simp: votes_ok_def cast_def is_server_def)
    have newkeys: "rv_keys (net s') = rv_keys (net s) @ map (\<lambda>p. (i, t, p)) (filter (\<lambda>p. p \<noteq> i) [0..csize s - 1])"
      using N by (simp add: s' rv_keys_append rv_keys_requests) (simp add: sent(4) comp_def)
    have keys: "distinct (rv_keys (net s'))"
      using D(6) nokey unfolding newkeys by (auto simp: distinct_map inj_on_def)
    have other: "c \<noteq> i \<or> t' \<noteq> t" if "RV c t' p a r \<in> set (net s)" for c t' p a r
      using nokey that by (auto simp: rv_keys_iff)
    have "counted_ok V ?C s'"
      using D(7) self i sent(2) by (auto simp: counted_ok_def s' supporters_def is_server_def)
    moreover have "elections_ok ?C s'"
      using D(8) sub unfolding elections_ok_def newkeys by (auto simp: s' is_server_def)
    moreover have "rv_ok V ?C s' call" if c: "call \<in> set (net s')" for call
    proof (cases "call \<in> set (net s)")
      case True
      then show ?thesis
        using D(5) [OF True] other by (auto simp: rv_ok_def s')
    next
      case False
      then show ?thesis
        using c cand N by (auto simp: s' rv_ok_def sent(4))
    qed
    moreover have "addressed s call" if "call \<in> set (net s')" for call
      using that D(4) i N by (auto simp: s' sent(4) is_server_def)
    ultimately have "election_inv V ?C s'"
      using D(9,10) keys
      by (intro election_inv_step [OF inv i loyal_refl _ _ V]) (auto simp: s' N roles_ok_def i)
    then show ?thesis by blast
  qed
qed

subsection \<open>A vote is counted\<close>

lemma handleVoteReply_cases:
  assumes "handleVoteReply clk t ok r v rf = Some (v', rf', b)"
  obtains (quiet) "v' = v" "quiet rf rf'" "\<not> b"
  | (count) "ok" "rvrVoteGranted r" "role rf = Candidate" "currentTerm rf = t" "v' = v + 1"
      "\<not> peers rf div 2 < v'" "rf' = rf" "\<not> b"
  | (win) "ok" "rvrVoteGranted r" "role rf = Candidate" "currentTerm rf = t" "v' = v + 1"
      "peers rf div 2 < v'" "becomeLeaderLocked clk rf = Some rf'" "b"
  using assms by (auto simp: handleVoteReply_def Let_def contextLostLocked_def split: if_splits
      dest!: bind_eq_SomeD)

lemma rv_keys_remove:
  assumes "k < length cs" and "distinct (rv_keys cs)" and "cs ! k = RV c t p a r"
  shows "distinct (rv_keys (remove_nth k cs))" "(c, t, p) \<notin> set (rv_keys (remove_nth k cs))"
proof -
  have "rv_keys cs = rv_keys (take k cs @ cs ! k # drop (Suc k) cs)"
    using assms(1) remove_nth_split by metis
  then have "rv_keys cs = rv_keys (take k cs) @ (c, t, p) # rv_keys (drop (Suc k) cs)"
    using assms(3) by (simp add: rv_keys_def)
  with assms(2) show "distinct (rv_keys (remove_nth k cs))"
    "(c, t, p) \<notin> set (rv_keys (remove_nth k cs))"
    by (auto simp: remove_nth_def rv_keys_append)
qed

lemma election_inv_count:
  assumes inv: "election_inv V C s" and k: "k < length (net s)" "net s ! k = RV c t p a (Some r)"
    and granted: "rvrVoteGranted r" and cand: "role (node s c) = Candidate" "currentTerm (node s c) = t"
    and loyal: "loyal (node s c) rf'" "currentTerm rf' = t"
    and role: "role rf' = Candidate \<or> role rf' = Leader \<and> csize s div 2 < votes s (c, t) + 1"
    and s': "csize s' = csize s" "node s' = (node s)(c := rf')" "elections s' = elections s"
      "votes s' = (votes s)((c, t) := votes s (c, t) + 1)" "net s' = remove_nth k (net s)"
      "\<And>j t. (j, t) \<in> set (replicators s') \<Longrightarrow> is_server s j"
  shows "election_inv (record_vote V c rf') (C((c, t) := insert p (C (c, t)))) s'"
proof -
  note D = election_invD [OF inv]
  have call: "RV c t p a (Some r) \<in> set (net s)"
    using k by (metis nth_mem)
  have srv: "is_server s c" "is_server s p"
    using D(4) [OF call] by auto
  have rv: "p \<notin> C (c, t)" "c \<in> C (c, t)" "V p t = Some c"
    using D(5) [OF call] granted by (auto simp: rv_ok_def)
  have cnt: "C (c, t) \<subseteq> supporters V (csize s) t c" "votes s (c, t) = int (card (C (c, t)))"
    using D(7) by (auto simp: counted_ok_def)
  have fin: "finite (C (c, t))"
    using cnt(1) by (rule finite_subset) (auto simp: supporters_def intro: finite_subset [of _ "{0..<csize s}"])
  let ?V = "record_vote V c rf'" and ?C = "C((c, t) := insert p (C (c, t)))"
  have ext: "extends V ?V"
    using loyal_votes(1) [OF D(3) [OF srv(1)] loyal(1)] .
  have counted: "insert p (C (c, t)) \<subseteq> supporters ?V (csize s) t c"
    using cnt(1) rv(3) srv(2) ext by (auto simp: supporters_def is_server_def extends_def)
  have card: "int (card (insert p (C (c, t)))) = votes s (c, t) + 1"
    using fin rv(1) cnt(2) by simp
  have keys: "distinct (rv_keys (net s'))" "(c, t, p) \<notin> set (rv_keys (net s'))"
    using rv_keys_remove [OF k(1) D(6) k(2)] by (simp_all add: s')
  have mono: "currentTerm (node s j) \<le> currentTerm (node s' j)" for j
    using cand loyal(2) by (simp add: s')
  have sub: "set (net s') \<subseteq> set (net s)"
    by (simp add: s' set_remove_nth_subset)
  have voted: "votedFor (node s c) = c" "c \<noteq> -1"
    using D(9) srv(1) cand by (auto simp: roles_ok_def is_server_def)
  show ?thesis
  proof (rule election_inv_step [OF inv srv(1) loyal(1) s'(1,2) HOL.refl])
    show "votedFor rf' = c"
      using loyal cand voted by (simp add: loyal_def)
    show "majority (csize s) (supporters ?V (csize s) (currentTerm rf') c)" if "role rf' = Leader"
      unfolding loyal(2)
    proof (rule majority_mono [OF _ counted])
      show "majority (csize s) (insert p (C (c, t)))"
        using D(1) that role card counted by (auto simp: majority_def supporters_def)
    qed (auto simp: supporters_def)
    show "rv_ok ?V ?C s' call" if c: "call \<in> set (net s')" for call
    proof -
      have "rv_ok ?V C s' call"
        using rv_ok_mono [OF D(5) ext mono] c sub by blast
      moreover have "\<not> (\<exists>a r. call = RV c t p a r)"
        using keys(2) c by (auto simp: rv_keys_iff)
      ultimately show ?thesis by (auto simp: rv_ok_def)
    qed
    show "counted_ok ?V ?C s'"
      using counted_ok_mono [OF D(7) ext, of s] counted card rv by (auto simp: counted_ok_def s')
    show "elections_ok ?C s'"
      unfolding elections_ok_def s'(3)
    proof (intro conjI allI impI)
      fix j u assume "(j, u) \<in> set (elections s)"
      then have e: "is_server s j" "u \<le> currentTerm (node s j)" "C (j, u) = {}"
        "\<And>q. (j, u, q) \<notin> set (rv_keys (net s))"
        using D(8) by (auto simp: elections_ok_def)
      then show "is_server s' j" "u \<le> currentTerm (node s' j)"
        using mono [of j] is_server_cong [OF s'(1)] by auto
      show "?C (j, u) = {}" using e(3) rv(2) by auto
      show "(j, u, q) \<notin> set (rv_keys (net s'))" for q
        using e(4) [of q] sub by (auto simp: rv_keys_iff)
    qed (use D(8) in \<open>simp add: elections_ok_def\<close>)
  qed (use D(4) sub s'(6) keys(1) in auto)
qed

subsection \<open>Every action\<close>

lemma election_inv_still:
  fixes s s' :: "('c, 's) cluster"
  assumes inv: "election_inv V C s" and i: "is_server s i" and loyal: "loyal (node s i) rf'"
    and role: "role rf' = Follower \<or> role rf' = role (node s i) \<and> currentTerm rf' = currentTerm (node s i)"
    and s': "csize s' = csize s" "node s' = (node s)(i := rf')" "elections s' = elections s"
      "votes s' = votes s"
    and repl: "\<And>j t. (j, t) \<in> set (replicators s') \<Longrightarrow> is_server s j"
    and addr: "\<And>call. call \<in> set (net s') \<Longrightarrow> addressed s call"
    and calls: "\<And>c t p a r. RV c t p a r \<in> set (net s') \<Longrightarrow> RV c t p a r \<in> set (net s)"
    and keys: "distinct (rv_keys (net s'))"
  shows "\<exists>V' C'. election_inv V' C' s' \<and> extends V V'"
proof -
  note D = election_invD [OF inv]
  have ext: "extends V (record_vote V i rf')"
    using loyal_votes(1) [OF D(3) [OF i] loyal] .
  have "election_inv (record_vote V i rf') C s'"
  proof (rule election_inv_quiet [OF inv i loyal role s' HOL.refl repl addr _ keys])
    fix c t p a r assume r: "RV c t p a r \<in> set (net s')"
    show "(\<exists>r0. RV c t p a r0 \<in> set (net s)) \<and>
      (\<forall>rep. r = Some rep \<and> rvrVoteGranted rep \<longrightarrow> record_vote V i rf' p t = Some c)"
      using calls [OF r] D(5) [OF calls [OF r]] ext by (auto simp: rv_ok_def extends_def)
  qed
  with ext show ?thesis by blast
qed

lemma quiet_loyal:
  assumes "nodes_ok s" and "is_server s i" and "quiet (node s i) rf'"
  shows "loyal (node s i) rf'"
    "role rf' = Follower \<or> role rf' = role (node s i) \<and> currentTerm rf' = currentTerm (node s i)"
  using assms evolves_loyal nodes_okD [OF assms(1,2)] by (auto simp: quiet_def)

text \<open>The common case: the calls and the goroutines stay, peer \<open>i\<close> changes quietly.\<close>

lemma election_inv_local:
  assumes inv: "election_inv V C s" and i: "is_server s i" and q: "quiet (node s i) rf'"
    and s': "csize s' = csize s" "node s' = (node s)(i := rf')" "elections s' = elections s"
      "votes s' = votes s" "replicators s' = replicators s" "net s' = net s"
  shows "\<exists>V' C'. election_inv V' C' s' \<and> extends V V'"
  using election_invD [OF inv]
  by (intro election_inv_still [OF inv i quiet_loyal [OF election_invD(2) [OF inv] i q] s'(1-4)])
    (auto simp: s')

lemma RequestVote_granted:
  assumes "RequestVote clk args rf = Some (r, rf')" and "rvrVoteGranted r"
  shows "currentTerm rf' = rvTerm args" "votedFor rf' = rvCandidateId args"
  using assms becomeFollowerLocked_newer(1) [of rf "rvTerm args" clk]
  by (auto simp: RequestVote_def Let_def split: if_splits dest!: bind_eq_SomeD)

lemma rv_keys_update: "rv_key y = rv_key (cs ! k) \<Longrightarrow> rv_keys (cs[k := y]) = rv_keys cs"
  unfolding rv_keys_def by (metis list_update_id map_update)

lemma rv_keys_other: "(\<And>call. call \<in> set cs \<Longrightarrow> rv_key call = []) \<Longrightarrow> rv_keys cs = []"
  by (simp add: rv_keys_def)

lemma exec_call_cases:
  assumes "exec_call clk s call = Some (c', p', rf')"
  obtains (vote) c t p a r where "call = RV c t p a None" "RequestVote clk a (node s p) = Some (r, rf')"
      "c' = RV c t p a (Some r)" "p' = p"
  | (append) c t p a r where "call = AE c t p a None" "AppendEntries clk a (node s p) = Some (r, rf')"
      "c' = AE c t p a (Some r)" "p' = p"
  | (install) c t p a r where "call = IS c t p a None" "InstallSnapshot clk a (node s p) = (r, rf')"
      "c' = IS c t p a (Some r)" "p' = p"
proof (cases call)
  case (RV c t p a rep)
  with assms have "rep = None" by (cases rep) auto
  with assms RV show thesis by (auto dest!: bind_eq_SomeD intro: vote)
next
  case (AE c t p a rep)
  with assms have "rep = None" by (cases rep) auto
  with assms AE show thesis by (auto dest!: bind_eq_SomeD intro: append)
next
  case (IS c t p a rep)
  with assms have "rep = None" by (cases rep) auto
  with assms IS show thesis
    by (cases "InstallSnapshot clk a (node s p)") (auto intro: install)
qed

lemma return_call_cases:
  assumes "return_call ok clk s call = Some s1"
  obtains (vote) c t p a rep r v rf b where "call = RV c t p a rep" "ok \<Longrightarrow> rep = Some r"
      "handleVoteReply clk t ok r (votes s (c, t)) (node s c) = Some (v, rf, b)"
      "s1 = (set_node c rf s)\<lparr>votes := (votes s)((c, t) := v),
              replicators := replicators s @ (if b then [(c, t)] else [])\<rparr>"
  | (append) c t p a rep r rf where "call = AE c t p a rep" "ok \<Longrightarrow> rep = Some r"
      "handleAppendReply clk t p a ok r (node s c) = Some rf" "s1 = set_node c rf s"
  | (install) c t p a rep r rf where "call = IS c t p a rep" "ok \<Longrightarrow> rep = Some r"
      "handleInstallReply clk t p a ok r (node s c) = Some rf" "s1 = set_node c rf s"
proof (cases call)
  case (RV c t p a rep)
  then show thesis
    using assms vote [OF RV, of "if ok then the rep else \<lparr>rvrTerm = 0, rvrVoteGranted = False\<rparr>"]
    by (auto simp: Let_def split: if_splits dest!: bind_eq_SomeD)
next
  case (AE c t p a rep)
  then show thesis
    using assms append [OF AE, of "if ok then the rep else \<lparr>aerTerm = 0, aerSuccess = False\<rparr>"]
    by (auto simp: Let_def split: if_splits dest!: bind_eq_SomeD)
next
  case (IS c t p a rep)
  then show thesis
    using assms install [OF IS, of "if ok then the rep else \<lparr>isrTerm = 0\<rparr>"]
    by (auto simp: Let_def split: if_splits dest!: bind_eq_SomeD)
qed

lemma election_inv_Exec:
  assumes inv: "election_inv V C s" and k: "k < length (net s)"
    and ex: "exec_call clk s (net s ! k) = Some (c', p', rf')"
    and s': "s' = (set_node p' rf' s)\<lparr>net := (net s)[k := c']\<rparr>"
  shows "\<exists>V' C'. election_inv V' C' s' \<and> extends V V'"
proof -
  note D = election_invD [OF inv]
  have call: "net s ! k \<in> set (net s)" using k by simp
  have p': "is_server s p'" and key: "rv_key c' = rv_key (net s ! k)" and adr: "addressed s c'"
    using D(4) [OF call] by (auto intro: exec_call_cases [OF ex])
  from ex have q: "quiet (node s p') rf'"
  proof (cases rule: exec_call_cases)
    case (install c t p a r)
    then show ?thesis by (metis quiet_InstallSnapshot snd_conv)
  qed (auto intro: quiet_RequestVote quiet_AppendEntries)
  note L = quiet_loyal [OF D(2) p' q]
  have ext: "extends V (record_vote V p' rf')"
    using loyal_votes(1) [OF D(3) [OF p'] L(1)] .
  have sub: "set (net s') \<subseteq> insert c' (set (net s))"
    by (simp add: s' set_update_subset_insert)
  have "election_inv (record_vote V p' rf') C s'"
  proof (rule election_inv_quiet [OF inv p' L _ _ _ _ HOL.refl])
    fix c t p a r assume r: "RV c t p a r \<in> set (net s')"
    show "(\<exists>r0. RV c t p a r0 \<in> set (net s)) \<and>
      (\<forall>rep. r = Some rep \<and> rvrVoteGranted rep \<longrightarrow> record_vote V p' rf' p t = Some c)"
    proof (cases "RV c t p a r \<in> set (net s)")
      case True
      with D(5) [OF True] ext show ?thesis by (fastforce simp: rv_ok_def extends_def)
    next
      case False
      with r sub have "c' = RV c t p a r" by auto
      with ex obtain rep where old: "net s ! k = RV c t p a None" and rep: "r = Some rep" "p' = p"
        and req: "RequestVote clk a (node s p) = Some (rep, rf')"
        by (auto elim: exec_call_cases)
      have "rvTerm a = t" "rvCandidateId a = c" "is_server s c"
        using D(4,5) [OF call] unfolding old by (auto simp: rv_ok_def)
      with RequestVote_granted [OF req] have "rvrVoteGranted rep \<longrightarrow> record_vote V p rf' p t = Some c"
        by (auto simp: record_vote_def cast_def is_server_def)
      then show ?thesis
        using call old rep by auto
    qed
  qed (use D adr sub rv_keys_update [OF key] in \<open>auto simp: s' set_node_def\<close>)
  with ext show ?thesis by blast
qed

lemma distinct_rv_keys_remove: "distinct (rv_keys cs) \<Longrightarrow> distinct (rv_keys (remove_nth k cs))"
proof (cases "k < length cs")
  case True
  assume "distinct (rv_keys cs)"
  moreover have "rv_keys cs = rv_keys (take k cs @ cs ! k # drop (Suc k) cs)"
    using True remove_nth_split by metis
  ultimately show ?thesis by (auto simp: remove_nth_def rv_keys_def)
qed (simp add: remove_nth_def)

lemma election_inv_Return:
  assumes inv: "election_inv V C s" and k: "k < length (net s)"
    and ret: "return_call ok clk s (net s ! k) = Some s1"
    and s': "s' = s1\<lparr>net := remove_nth k (net s)\<rparr>"
  shows "\<exists>V' C'. election_inv V' C' s' \<and> extends V V'"
proof -
  note D = election_invD [OF inv]
  have call: "net s ! k \<in> set (net s)" using k by simp
  have sub: "set (remove_nth k (net s)) \<subseteq> set (net s)" by (rule set_remove_nth_subset)
  note keys = distinct_rv_keys_remove [OF D(6), of k]
  have quiet_case: ?thesis if "is_server s c" "quiet (node s c) rf'"
    "csize s1 = csize s" "node s1 = (node s)(c := rf')" "elections s1 = elections s"
    "votes s1 = votes s" "replicators s1 = replicators s" for c rf'
    using that D(4,10) sub keys
    by (intro election_inv_still [OF inv that(1) quiet_loyal [OF D(2) that(1,2)]]) (auto simp: s')
  from ret show ?thesis
  proof (cases rule: return_call_cases)
    case (append c t p a rep r rf)
    with D(4) [OF call] show ?thesis
      by (intro quiet_case [of c rf] quiet_handleAppendReply) (auto simp: set_node_def)
  next
    case (install c t p a rep r rf)
    with D(4) [OF call] show ?thesis
      by (intro quiet_case [of c rf] quiet_handleInstallReply) (auto simp: set_node_def)
  next
    case (vote c t p a rep r v rf b)
    have c: "is_server s c" using D(4) [OF call] vote(1) by simp
    note N = nodes_okD [OF D(2) c]
    have counting: ?thesis if g: "ok" "rvrVoteGranted r" "role (node s c) = Candidate"
      "currentTerm (node s c) = t" "v = votes s (c, t) + 1" "evolves (node s c) rf" "currentTerm rf = t"
      "role rf = Candidate \<or> role rf = Leader \<and> csize s div 2 < votes s (c, t) + 1"
    proof -
      have L: "loyal (node s c) rf"
        using evolves_loyal [OF g(6)] N by blast
      have "election_inv (record_vote V c rf) (C((c, t) := insert p (C (c, t)))) s'"
        using vote D(10) c g
        by (intro election_inv_count [OF inv k _ g(2) g(3,4) L g(7,8)]) (auto simp: s' set_node_def split: if_splits)
      then show ?thesis using loyal_votes(1) [OF D(3) [OF c] L] by blast
    qed
    from vote(3) show ?thesis
    proof (cases rule: handleVoteReply_cases)
      case quiet
      then show ?thesis
        using vote c by (intro quiet_case [of c rf]) (auto simp: set_node_def)
    next
      case count
      then show ?thesis by (intro counting) auto
    next
      case win
      then show ?thesis
        using becomeLeaderLocked_same [OF win(7,3)] evolves_becomeLeaderLocked [OF win(7)] N
        by (intro counting) auto
    qed
  qed
qed

fun target :: "('c, 's) request \<Rightarrow> int" where
  "target (SendAppend p a) = p"
| "target (SendInstall p a) = p"

lemma replicationLoop_targets:
  "replicationLoop ps rf = Some (rf', reqs) \<Longrightarrow> target ` set reqs \<subseteq> set ps"
proof (induction ps arbitrary: rf reqs)
  case (Cons p ps)
  show ?case
  proof (cases "p = me rf")
    case True
    with Cons.prems obtain ni mi where
      "replicationLoop ps (rf\<lparr>matchIndex := mi, nextIndex := ni\<rparr>) = Some (rf', reqs)"
      by (auto dest!: bind_eq_SomeD)
    with Cons.IH show ?thesis by auto
  next
    case False
    with Cons.prems obtain req reqs' where "replicationLoop ps rf = Some (rf', reqs')"
      "reqs = req # reqs'" "target req = p"
      by (auto simp: Let_def split: if_splits dest!: bind_eq_SomeD)
    with Cons.IH show ?thesis by auto
  qed
qed simp

lemma replicationTicker_targets:
  "replicationTicker t rf = Some (b, rf', reqs) \<Longrightarrow> req \<in> set reqs \<Longrightarrow> target req \<in> {0..<peers rf}"
  using replicationLoop_targets
  by (fastforce simp: replicationTicker_def startReplication_def split: if_splits dest!: bind_eq_SomeD)

lemma election_inv_Replicate:
  assumes inv: "election_inv V C s" and k: "k < length (replicators s)" "replicators s ! k = (i, t)"
    and tick: "replicationTicker t (node s i) = Some (b, rf, reqs)"
    and s': "s' = (set_node i rf s)\<lparr>replicators := (if b then replicators s else remove_nth k (replicators s)),
                net := net s @ map (call_of i t) reqs\<rparr>"
  shows "\<exists>V' C'. election_inv V' C' s' \<and> extends V V'"
proof -
  note D = election_invD [OF inv]
  have i: "is_server s i"
    using D(10) k nth_mem by metis
  note N = nodes_okD [OF D(2) i]
  have adr: "addressed s (call_of i t req)" if "req \<in> set reqs" for req
    using replicationTicker_targets [OF tick that] i N by (cases req) (auto simp: is_server_def)
  have norv: "rv_key (call_of i t req) = []" for req :: "('a, 'b) request"
    by (cases req) auto
  then have keys: "rv_keys (map (call_of i t) reqs) = []"
    by (intro rv_keys_other) auto
  have "RV c' t' p' a' r' \<noteq> call_of i t req" for c' t' p' a' r' and req :: "('a, 'b) request"
    by (cases req) auto
  then show ?thesis
    using adr keys D set_remove_nth_subset [of k "replicators s"]
    by (intro election_inv_still [OF inv i quiet_loyal [OF D(2) i quiet_replicationTicker [OF tick]]])
      (auto simp: s' set_node_def rv_keys_append split: if_splits)
qed

lemma election_inv_exec:
  assumes inv: "election_inv V C s" and ex: "exec s a = Some s'"
  shows "\<exists>V' C'. election_inv V' C' s' \<and> extends V V'"
proof (cases a)
  case (Tick i clk)
  with ex obtain trm rf where i: "is_server s i" and tick: "electionTicker clk (node s i) = Some (trm, rf)"
    and s': "s' = (set_node i rf s)\<lparr>elections := elections s @ (case trm of None \<Rightarrow> [] | Some t \<Rightarrow> [(i, t)])\<rparr>"
    by (auto split: if_splits dest!: bind_eq_SomeD)
  show ?thesis
  proof (cases trm)
    case None
    with tick electionTicker_idle have "rf = node s i" by blast
    with None s' show ?thesis
      by (intro election_inv_local [OF inv i quiet_refl]) (auto simp: set_node_def)
  next
    case (Some t)
    have "loyal (node s i) rf"
      using evolves_loyal [OF evolves_electionTicker [OF tick]] nodes_okD [OF election_invD(2) [OF inv] i] by blast
    with Some s' election_inv_Tick [OF inv i tick [unfolded Some]] show ?thesis
      using loyal_votes(1) [OF election_invD(3) [OF inv i]] by auto
  qed
next
  case (Elect k)
  with ex obtain i t v reqs where "k < length (elections s)" "elections s ! k = (i, t)"
    "startElection t (node s i) = Some (v, reqs)"
    "s' = s\<lparr>elections := remove_nth k (elections s), votes := (votes s)((i, t) := v),
            net := net s @ map (\<lambda>(p, a). RV i t p a None) reqs\<rparr>"
    by (auto simp: Let_def split: if_splits prod.splits dest!: bind_eq_SomeD)
  then show ?thesis using election_inv_Elect [OF inv] extends_refl by blast
next
  case (Replicate k)
  with ex obtain i t b rf reqs where "k < length (replicators s)" "replicators s ! k = (i, t)"
    "replicationTicker t (node s i) = Some (b, rf, reqs)"
    "s' = (set_node i rf s)\<lparr>replicators := (if b then replicators s else remove_nth k (replicators s)),
            net := net s @ map (call_of i t) reqs\<rparr>"
    by (auto simp: Let_def split: if_splits prod.splits dest!: bind_eq_SomeD)
  then show ?thesis by (rule election_inv_Replicate [OF inv])
next
  case (Exec k clk)
  with ex obtain c p rf where "k < length (net s)" "exec_call clk s (net s ! k) = Some (c, p, rf)"
    "s' = (set_node p rf s)\<lparr>net := (net s)[k := c]\<rparr>"
    by (auto split: if_splits dest!: bind_eq_SomeD)
  then show ?thesis by (rule election_inv_Exec [OF inv])
next
  case (Return k ok clk)
  with ex obtain s1 where "k < length (net s)" "return_call ok clk s (net s ! k) = Some s1"
    "s' = s1\<lparr>net := remove_nth k (net s)\<rparr>"
    by (auto split: if_splits dest!: bind_eq_SomeD)
  then show ?thesis by (rule election_inv_Return [OF inv])
next
  case (ClientStart i c)
  with ex show ?thesis
    by (intro election_inv_local [OF inv _ quiet_Start [of "node s i" c]]) (auto simp: set_node_def split: if_splits)
next
  case (TakeSnapshot i index snap)
  with ex obtain rf where "is_server s i" "Raft_Snapshot index snap (node s i) = Some rf"
    "s' = set_node i rf s"
    by (auto split: if_splits dest!: bind_eq_SomeD)
  then show ?thesis
    by (intro election_inv_local [OF inv _ quiet_Raft_Snapshot]) (auto simp: set_node_def)
next
  case (ApplyWait i)
  with ex show ?thesis
    by (intro election_inv_local [OF inv _ quiet_apply(1) [of "node s i"]]) (auto simp: set_node_def split: if_splits)
next
  case (ApplyCollect i)
  with ex obtain ap rf where "is_server s i" "applyCollect (node s i) = Some (ap, rf)"
    "s' = (set_node i rf s)\<lparr>applier := (applier s)(i := Collected ap)\<rparr>"
    by (auto split: if_splits dest!: bind_eq_SomeD)
  then show ?thesis
    by (intro election_inv_local [OF inv _ quiet_apply(3)]) (auto simp: set_node_def)
next
  case (ApplySend i)
  with ex show ?thesis
    by (intro election_inv_local [OF inv _ quiet_refl [of "node s i"]]) (auto split: if_splits apply_pc.splits)
next
  case (ApplyFinish i)
  with ex obtain ap where "is_server s i"
    "s' = (set_node i (applyFinish ap (node s i)) s)\<lparr>applier := (applier s)(i := AtHead)\<rparr>"
    by (auto split: if_splits apply_pc.splits)
  then show ?thesis
    by (intro election_inv_local [OF inv _ quiet_apply(2) [of "node s i" ap]]) (auto simp: set_node_def)
next
  case (Restart i)
  with ex have i: "is_server s i" and s': "s' = (set_node i (Make (csize s) i (persister (node s i))) s)
      \<lparr>applier := (applier s)(i := AtHead)\<rparr>"
    by (auto split: if_splits)
  note N = nodes_okD [OF election_invD(2) [OF inv] i]
  have "loyal (node s i) (Make (csize s) i (persister (node s i)))"
    using loyal_Make [of "node s i"] N by simp
  then show ?thesis
    using election_invD [OF inv]
    by (intro election_inv_still [OF inv i]) (auto simp: s' set_node_def Make_fixed)
qed

subsection \<open>Every run\<close>

lemma Make_fresh:
  "currentTerm (Make n i MakePersister) = 0" "votedFor (Make n i MakePersister) = -1"
  "rlog (Make n i MakePersister) = NewLog 0 0 [] []"
  by (simp_all add: Make_def readPersist_def ReadRaftState_def MakePersister_def InvalidIndex_def
      InvalidTerm_def)

lemma election_inv_init:
  assumes "0 \<le> n"
  shows "election_inv (\<lambda>_ _. None) (\<lambda>_. {}) (init_cluster n)"
  using assms
  by (auto simp: election_inv_def init_cluster_def nodes_ok_def is_server_def votes_ok_def cast_def
      rv_keys_def counted_ok_def supporters_def elections_ok_def roles_ok_def Make_fixed Make_fresh
      persisted_Make rf_wf_def go_len_def log_wf_NewLog)

lemma election_inv_steps:
  assumes "csteps s s'" and "election_inv V C s"
  shows "\<exists>V' C'. election_inv V' C' s' \<and> extends V V'"
  using assms
proof (induction rule: csteps.induct)
  case (snoc s t u)
  from snoc.IH [OF snoc.prems] obtain V1 C1 where "election_inv V1 C1 t" "extends V V1" by blast
  moreover obtain a where "exec t a = Some u" using snoc.hyps(2) by (rule cstepE)
  ultimately show ?case by (meson election_inv_exec extends_trans)
qed auto

definition leads :: "('c, 's) cluster \<Rightarrow> int \<Rightarrow> int \<Rightarrow> bool" where
  "leads s i t \<longleftrightarrow> is_server s i \<and> role (node s i) = Leader \<and> currentTerm (node s i) = t"

lemma exec_csize: "exec s a = Some s' \<Longrightarrow> csize s' = csize s"
  by (cases a) (auto simp: set_node_def Let_def split: if_splits prod.splits apply_pc.splits
      dest!: bind_eq_SomeD elim!: return_call_cases)

lemma csteps_csize: "csteps s s' \<Longrightarrow> csize s' = csize s"
  by (induction rule: csteps.induct) (auto elim!: cstepE dest: exec_csize)

lemma one_leader_per_term:
  assumes "0 \<le> n" and "csteps (init_cluster n) s" and "csteps s s'"
    and "leads s i t" and "leads s' j t"
  shows "i = j"
proof -
  obtain V C where inv: "election_inv V C s"
    using election_inv_steps [OF assms(2) election_inv_init [OF assms(1)]] by blast
  obtain V' C' where inv': "election_inv V' C' s'" and ext: "extends V V'"
    using election_inv_steps [OF assms(3) inv] by blast
  have "majority (csize s) (supporters V (csize s) t i)"
    using election_invD(9) [OF inv] assms(4) by (auto simp: roles_ok_def leads_def)
  then have 1: "majority (csize s) (supporters V' (csize s) t i)"
    by (rule majority_supporters_mono [OF ext])
  have 2: "majority (csize s) (supporters V' (csize s) t j)"
    using election_invD(9) [OF inv'] assms(5) csteps_csize [OF assms(3)]
    by (auto simp: roles_ok_def leads_def)
  show ?thesis
    by (rule majority.unique_choice [OF 1 2, of "\<lambda>p. V' p t"]) (auto simp: supporters_def)
qed

end
