(* ===== verification/Raft_Matching.thy ===== *)
theory Raft_Matching
  imports Raft_Safety
begin

section \<open>Log matching and leader append-only\<close>

text \<open>
  If two peers hold an entry with the same index and term, their logs agree on every index up
  to it. The invariant speaks of two more ghosts: \<open>L i\<close>, the whole log of peer \<open>i\<close> from
  index 1 on, of which the code keeps only the part after its snapshot, and \<open>H t\<close>, the
  log of the leader of term \<open>t\<close> as far as it has grown. Every log is built from pieces of
  leaders' logs: an entry of term \<open>t\<close> at index \<open>k\<close> stands for the first \<open>k\<close> entries
  of \<open>H t\<close>.
\<close>

subsection \<open>Whole logs\<close>

definition idx_term :: "'c LogEntry list \<Rightarrow> int \<Rightarrow> int" where
  "idx_term es k = (if k \<le> 0 then 0 else leTerm (es ! (nat k - 1)))"

definition represents :: "('c, 's) RaftLog \<Rightarrow> 'c LogEntry list \<Rightarrow> bool" where
  "represents rl es \<longleftrightarrow> 0 \<le> snapLastIdx rl \<and> snapLastIdx rl \<le> go_len es
     \<and> snapLastTerm rl = idx_term es (snapLastIdx rl)
     \<and> (\<exists>d. leTerm d = snapLastTerm rl \<and> tailLog rl = d # drop (nat (snapLastIdx rl)) es)"

lemma represents_size: "represents rl es \<Longrightarrow> log_size rl = go_len es + 1"
  by (auto simp: represents_def log_size_def go_len_def)

lemma represents_at:
  assumes "represents rl es" and "snapLastIdx rl < k" "k \<le> go_len es"
  shows "log_at rl k = Some (es ! (nat k - 1))"
proof -
  obtain d where "tailLog rl = d # drop (nat (snapLastIdx rl)) es" "0 \<le> snapLastIdx rl"
    using assms by (auto simp: represents_def)
  then show ?thesis
    using assms represents_size [OF assms(1)]
    by (auto simp: log_at_eq nth_Cons' go_len_def nat_diff_distrib intro!: arg_cong [of _ _ "(!) es"])
qed

lemma represents_term:
  assumes "represents rl es" and "log_at rl k = Some e"
  shows "leTerm e = idx_term es k" "0 \<le> k" "k \<le> go_len es" "snapLastIdx rl \<le> k"
proof -
  have k: "snapLastIdx rl \<le> k" "k < go_len es + 1"
    using assms(2) represents_size [OF assms(1)] by (auto simp: log_at_eq split: if_splits)
  then show "0 \<le> k" "k \<le> go_len es" "snapLastIdx rl \<le> k"
    using assms(1) by (auto simp: represents_def)
  show "leTerm e = idx_term es k"
  proof (cases "k = snapLastIdx rl")
    case True
    with assms show ?thesis by (auto simp: represents_def log_at_eq split: if_splits)
  next
    case False
    with assms k represents_at [OF assms(1), of k] show ?thesis
      by (auto simp: idx_term_def represents_def)
  qed
qed

lemma represents_NewLog: "represents (NewLog 0 0 snap []) []"
  by (simp add: represents_def NewLog_def termEntry_def idx_term_def)

lemma idx_term_append: "k \<le> go_len es \<Longrightarrow> idx_term (es @ xs) k = idx_term es k"
  by (auto simp: idx_term_def nth_append go_len_def)

lemma idx_term_take: "k \<le> int n \<Longrightarrow> idx_term (take n es) k = idx_term es k"
  by (auto simp: idx_term_def)

lemma represents_append:
  assumes "represents rl es"
  shows "represents (log_append rl e) (es @ [e])"
  using assms by (auto simp: represents_def log_append_def idx_term_append) (auto simp: go_len_def)

lemma represents_appendFrom:
  assumes rep: "represents rl es" and app: "log_appendFrom rl prev ents = Some rl'"
  shows "represents rl' (take (nat prev) es @ ents)"
proof -
  have p: "snapLastIdx rl \<le> prev" "prev \<le> go_len es" "0 \<le> snapLastIdx rl"
    using app rep represents_size [OF rep] by (auto simp: log_appendFrom_eq represents_def split: if_splits)
  obtain d where d: "leTerm d = snapLastTerm rl" "tailLog rl = d # drop (nat (snapLastIdx rl)) es"
    using rep by (auto simp: represents_def)
  have rl': "rl' = rl\<lparr>tailLog := take (nat (prev - snapLastIdx rl) + 1) (tailLog rl) @ ents\<rparr>"
    using app by (auto simp: log_appendFrom_eq split: if_splits)
  have len: "length (take (nat prev) es) = nat prev"
    using p by (simp add: go_len_def)
  have "take (nat (prev - snapLastIdx rl) + 1) (tailLog rl) @ ents
      = d # drop (nat (snapLastIdx rl)) (take (nat prev) es @ ents)"
    using p len by (simp add: d(2) take_drop drop_append nat_diff_distrib)
  moreover have "idx_term (take (nat prev) es @ ents) (snapLastIdx rl) = idx_term es (snapLastIdx rl)"
    using p len idx_term_append [of "snapLastIdx rl" "take (nat prev) es" ents]
    by (simp add: idx_term_take go_len_def)
  ultimately show ?thesis
    using rep p len d(1) by (auto simp: represents_def rl' go_len_def)
qed

lemma represents_doSnapshot:
  assumes rep: "represents rl es" and snap: "log_doSnapshot rl i b = Some rl'"
  shows "represents rl' es"
proof -
  have i: "snapLastIdx rl \<le> i" "i < log_size rl"
    using snap by (auto simp: log_doSnapshot_eq split: if_splits)
  then obtain e where e: "log_at rl i = Some e" by (auto simp: log_at_eq)
  obtain d where d: "tailLog rl = d # drop (nat (snapLastIdx rl)) es" "0 \<le> snapLastIdx rl"
    using rep by (auto simp: represents_def)
  have "rl' = rl\<lparr>snapLastIdx := i, snapLastTerm := leTerm e, snapshot := b,
      tailLog := termEntry (leTerm e) # drop (nat i) es\<rparr>"
    using snap i e d by (auto simp: log_doSnapshot_eq log_at_eq Let_def nat_diff_distrib)
  then show ?thesis
    using represents_term [OF rep e] by (auto simp: represents_def termEntry_def)
qed

lemma represents_installSnapshot:
  assumes "0 \<le> i" "i \<le> go_len h" "trm = idx_term h i"
  shows "represents (log_installSnapshot rl i trm b) (take (nat i) h)"
  using assms by (auto simp: represents_def log_installSnapshot_def termEntry_def idx_term_take go_len_def)

lemma represents_tail:
  assumes rep: "represents rl es" and "snapLastIdx rl \<le> prev" and "log_tail rl (prev + 1) = Some ents"
  shows "ents = drop (nat prev) es"
proof -
  obtain d where "tailLog rl = d # drop (nat (snapLastIdx rl)) es" "0 \<le> snapLastIdx rl"
    using rep by (auto simp: represents_def)
  then show ?thesis
    using assms log_tail_eq [of rl "prev + 1"]
    by (auto simp: drop_Cons' nat_diff_distrib nat_add_distrib split: if_splits)
qed

subsection \<open>Logs made of leaders' logs\<close>

definition matched :: "(int \<Rightarrow> 'c LogEntry list option) \<Rightarrow> 'c LogEntry list \<Rightarrow> bool" where
  "matched H es \<longleftrightarrow> (\<forall>k < length es. \<exists>h. H (leTerm (es ! k)) = Some h \<and> Suc k \<le> length h
     \<and> take (Suc k) es = take (Suc k) h)"

definition hist_ext ::
  "(int \<Rightarrow> 'c LogEntry list option) \<Rightarrow> (int \<Rightarrow> 'c LogEntry list option) \<Rightarrow> bool" where
  "hist_ext H H' \<longleftrightarrow> (\<forall>t h. H t = Some h \<longrightarrow> (\<exists>x. H' t = Some (h @ x)))"

lemma hist_ext_refl [simp]: "hist_ext H H"
  by (auto simp: hist_ext_def intro: exI [of _ "[]"])

lemma hist_ext_trans:
  assumes "hist_ext G H" and "hist_ext H K"
  shows "hist_ext G K"
  unfolding hist_ext_def
proof (intro allI impI)
  fix t h assume "G t = Some h"
  then obtain x where "H t = Some (h @ x)" using assms(1) by (auto simp: hist_ext_def)
  then obtain y where "K t = Some ((h @ x) @ y)" using assms(2) unfolding hist_ext_def by blast
  then show "\<exists>x. K t = Some (h @ x)" by auto
qed

lemma matched_Nil [simp]: "matched H []"
  by (simp add: matched_def)

lemma matched_take: "matched H es \<Longrightarrow> matched H (take n es)"
  by (auto simp: matched_def min_def Suc_le_eq)

lemma matched_ext:
  assumes "matched H es" and "hist_ext H H'"
  shows "matched H' es"
  unfolding matched_def
proof (intro allI impI)
  fix k assume "k < length es"
  then obtain h where "H (leTerm (es ! k)) = Some h" "Suc k \<le> length h" "take (Suc k) es = take (Suc k) h"
    using assms(1) unfolding matched_def by blast
  moreover then obtain x where "H' (leTerm (es ! k)) = Some (h @ x)"
    using assms(2) unfolding hist_ext_def by blast
  ultimately show "\<exists>h. H' (leTerm (es ! k)) = Some h \<and> Suc k \<le> length h \<and> take (Suc k) es = take (Suc k) h"
    by auto
qed

lemma matched_agree:
  assumes "matched H a" "matched H b" "n \<le> length a" "n \<le> length b"
    and "idx_term a (int n) = idx_term b (int n)"
  shows "take n a = take n b"
proof (cases n)
  case (Suc k)
  then have t: "leTerm (a ! k) = leTerm (b ! k)" and k: "k < length a" "k < length b"
    using assms(3-5) by (auto simp: idx_term_def nat_add_distrib)
  obtain h where "H (leTerm (a ! k)) = Some h" "take (Suc k) a = take (Suc k) h"
    using assms(1) k(1) unfolding matched_def by blast
  moreover obtain h' where "H (leTerm (b ! k)) = Some h'" "take (Suc k) b = take (Suc k) h'"
    using assms(2) k(2) unfolding matched_def by blast
  ultimately show ?thesis using t Suc by simp
qed simp

text \<open>An append request carries a slice of the leader's log; a log that passes its check becomes
  a prefix of that log.\<close>

definition slice :: "'c LogEntry list \<Rightarrow> 'c AppendEntriesArgs \<Rightarrow> bool" where
  "slice h args \<longleftrightarrow> 0 \<le> aePrevLogIndex args
     \<and> nat (aePrevLogIndex args) + length (aeEntries args) \<le> length h
     \<and> aeEntries args = take (length (aeEntries args)) (drop (nat (aePrevLogIndex args)) h)
     \<and> aePrevLogTerm args = idx_term h (aePrevLogIndex args)"

lemma slice_append:
  assumes "slice h args" and "matched H h" "matched H es"
    and "aePrevLogIndex args \<le> go_len es" "idx_term es (aePrevLogIndex args) = aePrevLogTerm args"
  shows "take (nat (aePrevLogIndex args)) es @ aeEntries args
           = take (nat (aePrevLogIndex args) + length (aeEntries args)) h"
proof -
  let ?n = "nat (aePrevLogIndex args)"
  have "take ?n es = take ?n h"
    using assms by (intro matched_agree) (auto simp: slice_def go_len_def)
  moreover have "take (?n + length (aeEntries args)) h
      = take ?n h @ take (length (aeEntries args)) (drop ?n h)"
    by (rule take_add)
  ultimately show ?thesis using assms(1) by (simp add: slice_def)
qed

lemma slice_ext: "slice h args \<Longrightarrow> slice (h @ x) args"
  by (auto simp: slice_def idx_term_append go_len_def)

subsection \<open>The invariant\<close>

definition covers :: "'c LogEntry list \<Rightarrow> 's InstallSnapshotArgs \<Rightarrow> bool" where
  "covers h args \<longleftrightarrow> 0 \<le> isLastIncludedIndex args \<and> isLastIncludedIndex args \<le> go_len h
     \<and> isLastIncludedTerm args = idx_term h (isLastIncludedIndex args)"

fun call_ok :: "(int \<Rightarrow> 'c LogEntry list option) \<Rightarrow> ('c, 's) rpc \<Rightarrow> bool" where
  "call_ok H (RV c t p a r) \<longleftrightarrow> True"
| "call_ok H (AE c t p a r) \<longleftrightarrow> (\<exists>h. H (aeTerm a) = Some h \<and> slice h a)"
| "call_ok H (IS c t p a r) \<longleftrightarrow> (\<exists>h. H (isTerm a) = Some h \<and> covers h a)"

text \<open>The one peer that leads, or has led, term \<open>t\<close>.\<close>

definition owner :: "(int \<Rightarrow> int \<Rightarrow> int option) \<Rightarrow> ('c, 's) cluster \<Rightarrow> int \<Rightarrow> int \<Rightarrow> bool" where
  "owner V s t c \<longleftrightarrow> is_server s c \<and> majority (csize s) (supporters V (csize s) t c)
     \<and> t \<le> currentTerm (node s c) \<and> \<not> (role (node s c) = Candidate \<and> currentTerm (node s c) = t)"

definition log_inv ::
  "(int \<Rightarrow> int \<Rightarrow> int option) \<Rightarrow> (int \<Rightarrow> 'c LogEntry list option) \<Rightarrow> (int \<Rightarrow> 'c LogEntry list)
     \<Rightarrow> ('c, 's) cluster \<Rightarrow> bool" where
  "log_inv V H L s \<longleftrightarrow>
     (\<forall>i. is_server s i \<longrightarrow> represents (rlog (node s i)) (L i) \<and> matched H (L i))
   \<and> (\<forall>i t. leads s i t \<longrightarrow> H t = Some (L i))
   \<and> (\<forall>t h. H t = Some h \<longrightarrow> matched H h \<and> (\<exists>c. owner V s t c))
   \<and> (\<forall>call \<in> set (net s). call_ok H call)"

lemma log_invD:
  assumes "log_inv V H L s"
  shows "is_server s i \<Longrightarrow> represents (rlog (node s i)) (L i)" "is_server s i \<Longrightarrow> matched H (L i)"
    "leads s i t \<Longrightarrow> H t = Some (L i)" "H t = Some h \<Longrightarrow> matched H h"
    "H t = Some h \<Longrightarrow> \<exists>c. owner V s t c" "call \<in> set (net s) \<Longrightarrow> call_ok H call"
  using assms by (auto simp: log_inv_def)

lemma call_ok_ext:
  assumes "call_ok H call" and "hist_ext H H'"
  shows "call_ok H' call"
proof (cases call)
  case (AE c t p a r)
  with assms(1) obtain h where h: "H (aeTerm a) = Some h" "slice h a" by auto
  then obtain x where "H' (aeTerm a) = Some (h @ x)" using assms(2) by (auto simp: hist_ext_def)
  with h AE show ?thesis by (auto intro: slice_ext)
next
  case (IS c t p a r)
  with assms(1) obtain h where h: "H (isTerm a) = Some h" "covers h a" by auto
  then obtain x where "H' (isTerm a) = Some (h @ x)" using assms(2) by (auto simp: hist_ext_def)
  with h IS show ?thesis by (auto simp: covers_def idx_term_append) (simp add: go_len_def)
qed simp

lemma leads_supported:
  "election_inv V C s \<Longrightarrow> leads s i t \<Longrightarrow> majority (csize s) (supporters V (csize s) t i)"
  by (auto dest!: election_invD(9) simp: roles_ok_def leads_def)

lemma supported_unique:
  "majority n (supporters V n t i) \<Longrightarrow> majority n (supporters V n t j) \<Longrightarrow> i = j"
  by (rule majority.unique_choice [of n "supporters V n t i" "supporters V n t j" "\<lambda>p. V p t"])
    (auto simp: supporters_def)

text \<open>Peer \<open>i\<close> changes. If it leads now, its whole log is the log of its term.\<close>

lemma log_inv_step:
  fixes s s' :: "('c, 's) cluster"
  assumes inv: "log_inv V H L s" and el': "election_inv V' C' s'" and ext: "extends V V'"
    and i: "is_server s i" and s': "csize s' = csize s" "node s' = (node s)(i := rf')"
    and mono: "currentTerm (node s i) \<le> currentTerm rf'"
    and cand: "role rf' = Candidate \<Longrightarrow> role (node s i) = Candidate \<and> currentTerm (node s i) = currentTerm rf'
                 \<or> currentTerm (node s i) < currentTerm rf'"
    and rep: "represents (rlog rf') es'"
    and H': "H' = (if role rf' = Leader then H(currentTerm rf' := Some es') else H)"
    and hist: "hist_ext H H'" and mat: "matched H' es'"
    and calls: "\<And>call. call \<in> set (net s') \<Longrightarrow> call_ok H' call"
  shows "log_inv V' H' (L(i := es')) s'"
proof -
  note D = log_invD [OF inv]
  have srv: "is_server s' = is_server s" using s'(1) by (rule is_server_cong)
  have leader: "H' t = Some ((L(i := es')) j)" if l: "leads s' j t" for j t
  proof (cases "j = i")
    case True
    with l show ?thesis by (auto simp: leads_def s' H')
  next
    case False
    with l have "leads s j t" by (auto simp: leads_def s' srv)
    then have "H t = Some (L j)" by (rule D(3))
    moreover have "\<not> (role rf' = Leader \<and> currentTerm rf' = t)"
    proof
      assume "role rf' = Leader \<and> currentTerm rf' = t"
      then have "leads s' i t" using i by (simp add: leads_def s' srv)
      with l False show False using leads_supported [OF el'] supported_unique by blast
    qed
    ultimately show ?thesis using False by (auto simp: H')
  qed
  have own: "\<exists>c. owner V' s' t c" if h: "H' t = Some h" for t h
  proof (cases "role rf' = Leader \<and> currentTerm rf' = t")
    case True
    then have "leads s' i t" using i by (simp add: leads_def s' srv)
    then have "owner V' s' t i"
      using leads_supported [OF el'] by (auto simp: owner_def leads_def)
    then show ?thesis ..
  next
    case False
    with h have "H t = Some h" by (auto simp: H' split: if_splits)
    then obtain c where "owner V s t c" using D(5) by blast
    then have "owner V' s' t c"
      using mono cand majority_supporters_mono [OF ext] by (auto simp: owner_def s' srv)
    then show ?thesis ..
  qed
  have "matched H' h" if "H' t = Some h" for t h
  proof (cases "role rf' = Leader \<and> currentTerm rf' = t")
    case True
    with that mat show ?thesis by (simp add: H')
  next
    case False
    with that have "H t = Some h" by (auto simp: H' split: if_splits)
    then show ?thesis using D(4) matched_ext [OF _ hist] by blast
  qed
  moreover have "represents (rlog (node s' j)) ((L(i := es')) j) \<and> matched H' ((L(i := es')) j)"
    if "is_server s j" for j
    using rep mat D(1,2) [OF that] matched_ext [OF _ hist] by (simp add: s')
  ultimately show ?thesis
    using leader own calls by (simp add: log_inv_def srv)
qed

text \<open>The log stays, and nobody is promoted.\<close>

lemma log_inv_still:
  fixes s s' :: "('c, 's) cluster"
  assumes inv: "log_inv V H L s" and el': "election_inv V' C' s'" and ext: "extends V V'"
    and i: "is_server s i" and s': "csize s' = csize s" "node s' = (node s)(i := rf')"
    and mono: "currentTerm (node s i) \<le> currentTerm rf'"
    and role: "role rf' = Follower \<or> role rf' = role (node s i) \<and> currentTerm rf' = currentTerm (node s i)
                 \<or> role rf' = Candidate \<and> currentTerm (node s i) < currentTerm rf'"
    and rep: "represents (rlog rf') (L i)"
    and calls: "\<And>call. call \<in> set (net s') \<Longrightarrow> call_ok H call"
  shows "\<exists>H' L'. log_inv V' H' L' s' \<and> hist_ext H H'"
proof -
  note D = log_invD [OF inv]
  have "(if role rf' = Leader then H(currentTerm rf' := Some (L i)) else H) = H"
    using role D(3) [of i "currentTerm rf'"] i by (auto simp: leads_def)
  then have "log_inv V' H (L(i := L i)) s'"
    using role calls D(2) [OF i]
    by (intro log_inv_step [OF inv el' ext i s' mono _ rep]) auto
  then show ?thesis using hist_ext_refl by blast
qed

subsection \<open>What the operations do to the log\<close>

lemma rlog_electionTicker: "electionTicker clk rf = Some (t, rf') \<Longrightarrow> rlog rf' = rlog rf"
  by (auto simp: electionTicker_def becomeCandidateLocked_def Let_def split: if_splits)

lemma rlog_RequestVote:
  assumes "RequestVote clk args rf = Some (r, rf')"
  shows "rlog rf' = rlog rf"
  using assms by (auto simp: RequestVote_def Let_def split: if_splits dest!: bind_eq_SomeD)

lemma rlog_handleVoteReply:
  assumes "handleVoteReply clk t ok r v rf = Some (v', rf', b)"
  shows "rlog rf' = rlog rf"
  using assms
  by (auto simp: handleVoteReply_def Let_def contextLostLocked_def split: if_splits
      dest!: bind_eq_SomeD becomeLeaderLocked_same)

lemma rlog_handleAppendReply:
  assumes "handleAppendReply clk t p args ok r rf = Some rf'"
  shows "rlog rf' = rlog rf"
  using assms by (auto simp: handleAppendReply_def Let_def split: if_splits dest!: bind_eq_SomeD)

lemma rlog_handleInstallReply:
  assumes "handleInstallReply clk t p args ok r rf = Some rf'"
  shows "rlog rf' = rlog rf"
  using assms by (auto simp: handleInstallReply_def Let_def split: if_splits dest!: bind_eq_SomeD)

lemma rlog_replicationTicker:
  assumes "replicationTicker t rf = Some (b, rf', reqs)"
  shows "rlog rf' = rlog rf"
  using assms
  by (auto simp: replicationTicker_def startReplication_def split: if_splits
      dest!: bind_eq_SomeD replicationLoop_same)

lemma rlog_apply:
  "rlog (applyWait rf) = rlog rf" "rlog (applyFinish ap rf) = rlog rf"
  "applyCollect rf = Some (ap', rf') \<Longrightarrow> rlog rf' = rlog rf"
  by (simp add: applyWait_def, simp add: applyFinish_def Let_def)
    (auto simp: applyCollect_def Let_def split: if_splits dest!: bind_eq_SomeD)

lemma represents_Raft_Snapshot:
  "represents (rlog rf) es \<Longrightarrow> Raft_Snapshot i snap rf = Some rf' \<Longrightarrow> represents (rlog rf') es"
  by (auto simp: Raft_Snapshot_def split: if_splits dest!: bind_eq_SomeD intro: represents_doSnapshot)

lemma InstallSnapshot_cases:
  assumes "InstallSnapshot clk args rf = (r, rf')"
  obtains (same) "rlog rf' = rlog rf"
  | (installed) "currentTerm rf \<le> isTerm args" "role rf' = Follower"
      "rlog rf' = log_installSnapshot (rlog rf) (isLastIncludedIndex args) (isLastIncludedTerm args)
                    (isSnapshot args)"
  using assms by (auto simp: InstallSnapshot_def Let_def becomeFollowerLocked_newer split: if_splits)

text \<open>The requests of a replication round carry pieces of the sender's log.\<close>

fun request_ok :: "int \<Rightarrow> 'c LogEntry list \<Rightarrow> ('c, 's) request \<Rightarrow> bool" where
  "request_ok t es (SendAppend p a) \<longleftrightarrow> aeTerm a = t \<and> slice es a"
| "request_ok t es (SendInstall p a) \<longleftrightarrow> isTerm a = t \<and> covers es a"

lemma slice_tail:
  assumes "represents rl es" and "log_at rl prev = Some e" and "log_tail rl (prev + 1) = Some ents"
  shows "slice es \<lparr>aeTerm = t, aeLeaderId = l, aePrevLogIndex = prev, aePrevLogTerm = leTerm e,
                    aeEntries = ents, aeLeaderCommit = c\<rparr>"
  using represents_term [OF assms(1,2)] represents_tail [OF assms(1) _ assms(3)]
  by (auto simp: slice_def go_len_def)

lemma replicationLoop_requests:
  assumes "replicationLoop ps rf = Some (rf', reqs)" and "represents (rlog rf) es"
  shows "\<forall>req \<in> set reqs. request_ok (currentTerm rf) es req"
  using assms
proof (induction ps arbitrary: rf reqs)
  case (Cons p ps)
  show ?case
  proof (cases "p = me rf")
    case True
    with Cons.prems obtain ni mi where
      "replicationLoop ps (rf\<lparr>matchIndex := mi, nextIndex := ni\<rparr>) = Some (rf', reqs)"
      by (auto dest!: bind_eq_SomeD)
    with Cons.IH Cons.prems(2) show ?thesis by fastforce
  next
    case False
    with Cons.prems(1) obtain req reqs' where "replicationLoop ps rf = Some (rf', reqs')"
      and "reqs = req # reqs'" and "request_ok (currentTerm rf) es req"
      using slice_tail [OF Cons.prems(2)] Cons.prems(2)
      by (auto simp: Let_def covers_def represents_def split: if_splits dest!: bind_eq_SomeD)
    with Cons.IH Cons.prems(2) show ?thesis by auto
  qed
qed simp

lemma replicationTicker_requests:
  assumes "replicationTicker t rf = Some (b, rf', reqs)" and "represents (rlog rf) es"
    and "req \<in> set reqs"
  shows "request_ok t es req \<and> role rf = Leader \<and> currentTerm rf = t"
proof -
  from assms(1,3) have ctx: "role rf = Leader" "currentTerm rf = t"
    and loop: "replicationLoop [0..peers rf - 1] rf = Some (rf', reqs)"
    by (auto simp: replicationTicker_def startReplication_def contextLostLocked_def
        split: if_splits dest!: bind_eq_SomeD)
  with replicationLoop_requests [OF loop assms(2)] assms(3) show ?thesis by blast
qed

subsection \<open>Every action keeps the invariant\<close>

text \<open>The running assumptions: the invariants before the step, and the election invariant
  after it.\<close>

lemma log_inv_quiet:
  assumes "log_inv V H L s" and "election_inv V' C' s'" and "extends V V'"
    and i: "is_server s i" and "csize s' = csize s" "node s' = (node s)(i := rf')"
    and q: "quiet (node s i) rf'" and rep: "represents (rlog rf') (L i)"
    and calls: "\<And>call. call \<in> set (net s') \<Longrightarrow> call_ok H call"
  shows "\<exists>H' L'. log_inv V' H' L' s' \<and> hist_ext H H'"
  using q by (intro log_inv_still [OF assms(1-6) _ _ rep calls]) (auto simp: quiet_def evolves_def)

lemma log_inv_Tick:
  assumes inv: "log_inv V H L s" and el': "election_inv V' C' s'" and ext: "extends V V'"
    and i: "is_server s i" and tick: "electionTicker clk (node s i) = Some (trm, rf')"
    and s': "csize s' = csize s" "node s' = (node s)(i := rf')" "net s' = net s"
  shows "\<exists>H' L'. log_inv V' H' L' s' \<and> hist_ext H H'"
proof (cases trm)
  case None
  with tick electionTicker_idle have "rf' = node s i" by blast
  with log_invD [OF inv] i show ?thesis
    by (intro log_inv_quiet [OF inv el' ext i s'(1,2)]) (auto simp: s')
next
  case (Some t)
  then have new: "currentTerm rf' = currentTerm (node s i) + 1" "role rf' = Candidate"
    using electionTicker_candidate [OF tick [unfolded Some]] by auto
  with log_invD [OF inv] i rlog_electionTicker [OF tick] show ?thesis
    by (intro log_inv_still [OF inv el' ext i s'(1,2)]) (auto simp: s')
qed

lemma log_inv_Start:
  assumes inv: "log_inv V H L s" and el': "election_inv V' C' s'" and ext: "extends V V'"
    and i: "is_server s i" and s': "s' = set_node i (snd (Start c (node s i))) s"
  shows "\<exists>H' L'. log_inv V' H' L' s' \<and> hist_ext H H'"
proof (cases "role (node s i) = Leader")
  case False
  then have "snd (Start c (node s i)) = node s i" by (simp add: Start_def)
  with log_invD [OF inv] i s' show ?thesis
    by (intro log_inv_quiet [OF inv el' ext i _ _ quiet_refl]) (auto simp: set_node_def)
next
  case True
  note D = log_invD [OF inv]
  let ?t = "currentTerm (node s i)" and ?rf = "snd (Start c (node s i))"
  let ?e = "\<lparr>leTerm = ?t, leCommandValid = True, leCommand = Some c\<rparr>"
  let ?H = "H(?t := Some (L i @ [?e]))"
  have rf: "rlog ?rf = log_append (rlog (node s i)) ?e" "role ?rf = Leader" "currentTerm ?rf = ?t"
    using True by (simp_all add: Start_def Let_def)
  have "H ?t = Some (L i)" using D(3) [of i ?t] True i by (simp add: leads_def)
  then have hist: "hist_ext H ?H"
    by (auto simp: hist_ext_def)
  have "matched ?H (L i @ [?e])"
    using matched_ext [OF D(2) [OF i] hist] by (auto simp: matched_def nth_append less_Suc_eq)
  then have "log_inv V' ?H (L(i := L i @ [?e])) s'"
    using rf represents_append [OF D(1) [OF i]] hist call_ok_ext [OF D(6) hist]
    by (intro log_inv_step [OF inv el' ext i, where rf' = ?rf]) (auto simp: s' set_node_def)
  then show ?thesis using hist by blast
qed

lemma log_inv_win:
  assumes inv: "log_inv V H L s" and el': "election_inv V' C' s'" and ext: "extends V V'"
    and i: "is_server s i" and s': "csize s' = csize s" "node s' = (node s)(i := rf')"
      "set (net s') \<subseteq> set (net s)"
    and cand: "role (node s i) = Candidate" and rf': "role rf' = Leader"
      "currentTerm rf' = currentTerm (node s i)" "rlog rf' = rlog (node s i)"
  shows "\<exists>H' L'. log_inv V' H' L' s' \<and> hist_ext H H'"
proof -
  note D = log_invD [OF inv]
  let ?t = "currentTerm (node s i)" let ?H = "H(?t := Some (L i))"
  have "leads s' i ?t"
    using i rf' s' is_server_cong [OF s'(1)] by (simp add: leads_def)
  then have sup: "majority (csize s) (supporters V' (csize s) ?t i)"
    using leads_supported [OF el'] s'(1) by fastforce
  have "H ?t = None"
  proof (rule ccontr)
    assume "H ?t \<noteq> None"
    then obtain c where c: "owner V s ?t c" using D(5) by blast
    then have "majority (csize s) (supporters V' (csize s) ?t c)"
      using majority_supporters_mono [OF ext] by (simp add: owner_def)
    with sup have "c = i" using supported_unique by blast
    with c cand show False by (simp add: owner_def)
  qed
  then have hist: "hist_ext H ?H"
    by (auto simp: hist_ext_def)
  then have "log_inv V' ?H (L(i := L i)) s'"
    using rf' D(1,2) [OF i] matched_ext [OF D(2) [OF i] hist] call_ok_ext [OF D(6) hist] s'(3)
    by (intro log_inv_step [OF inv el' ext i s'(1,2)]) auto
  then show ?thesis using hist by blast
qed

lemma log_inv_AppendEntries:
  assumes inv: "log_inv V H L s" and el': "election_inv V' C' s'" and ext: "extends V V'"
    and p: "is_server s p" and ok: "call_ok H (AE c t p a None :: ('c, 's) rpc)"
    and ae: "AppendEntries clk a (node s p) = Some (r, rf')"
    and s': "csize s' = csize s" "node s' = (node s)(p := rf')"
      "\<And>call. call \<in> set (net s') \<Longrightarrow> call_ok H call"
  shows "\<exists>H' L'. log_inv V' H' L' (s' :: ('c, 's) cluster) \<and> hist_ext H H'"
proof -
  note D = log_invD [OF inv] and Dp = log_invD(1,2) [OF inv p]
  note q = quiet_AppendEntries [OF ae]
  from ae show ?thesis
  proof (cases rule: AppendEntries_cases)
    case (match e rl rf2)
    obtain h where h: "H (aeTerm a) = Some h" "slice h a" using ok by auto
    have rep: "represents rl (take (nat (aePrevLogIndex a)) (L p) @ aeEntries a)"
      by (rule represents_appendFrom [OF Dp(1) match(4)])
    have eq: "take (nat (aePrevLogIndex a)) (L p) @ aeEntries a
        = take (nat (aePrevLogIndex a) + length (aeEntries a)) h"
      using represents_term [OF Dp(1) match(2)] match(3) D(4) [OF h(1)] Dp(2)
      by (intro slice_append [OF h(2)]) auto
    have "rlog rf' = rl" "role rf' = Follower" "currentTerm (node s p) \<le> currentTerm rf'"
      using match(1) unfolding match(5,6) by (auto simp: becomeFollowerLocked_newer)
    then have "log_inv V' H (L(p := take (nat (aePrevLogIndex a) + length (aeEntries a)) h)) s'"
      using rep eq matched_take [OF D(4) [OF h(1)]] s'(3)
      by (intro log_inv_step [OF inv el' ext p s'(1,2)]) auto
    then show ?thesis using hist_ext_refl by blast
  next
    case stale
    with Dp s'(3) show ?thesis by (intro log_inv_quiet [OF inv el' ext p s'(1,2) q]) auto
  next
    case mismatch
    with Dp s'(3) show ?thesis by (intro log_inv_quiet [OF inv el' ext p s'(1,2) q]) auto
  qed
qed

lemma log_inv_InstallSnapshot:
  assumes inv: "log_inv V H L s" and el': "election_inv V' C' s'" and ext: "extends V V'"
    and p: "is_server s p" and ok: "call_ok H (IS c t p a None :: ('c, 's) rpc)"
    and inst: "InstallSnapshot clk a (node s p) = (r, rf')"
    and s': "csize s' = csize s" "node s' = (node s)(p := rf')"
      "\<And>call. call \<in> set (net s') \<Longrightarrow> call_ok H call"
  shows "\<exists>H' L'. log_inv V' H' L' (s' :: ('c, 's) cluster) \<and> hist_ext H H'"
proof -
  note D = log_invD [OF inv] and Dp = log_invD(1,2) [OF inv p]
  have q: "quiet (node s p) rf'"
    using quiet_InstallSnapshot [of "node s p" clk a] inst by simp
  from inst show ?thesis
  proof (cases rule: InstallSnapshot_cases)
    case same
    with Dp s'(3) show ?thesis by (intro log_inv_quiet [OF inv el' ext p s'(1,2) q]) auto
  next
    case installed
    obtain h where h: "H (isTerm a) = Some h" "covers h a" using ok by auto
    have "represents (rlog rf') (take (nat (isLastIncludedIndex a)) h)"
      using h(2) unfolding installed(3) by (intro represents_installSnapshot) (auto simp: covers_def)
    then have "log_inv V' H (L(p := take (nat (isLastIncludedIndex a)) h)) s'"
      using installed(2) q matched_take [OF D(4) [OF h(1)]] s'(3)
      by (intro log_inv_step [OF inv el' ext p s'(1,2)]) (auto simp: quiet_def evolves_def)
    then show ?thesis using hist_ext_refl by blast
  qed
qed

lemma log_inv_Exec:
  assumes inv: "log_inv V H L s" and el: "election_inv V C s" "election_inv V' C' s'" "extends V V'"
    and k: "k < length (net s)" and ex: "exec_call clk s (net s ! k) = Some (c', p', rf')"
    and s': "s' = (set_node p' rf' s)\<lparr>net := (net s)[k := c']\<rparr>"
  shows "\<exists>H' L'. log_inv V' H' L' s' \<and> hist_ext H H'"
proof -
  note D = log_invD [OF inv]
  have call: "net s ! k \<in> set (net s)" using k by simp
  note adr = election_invD(4) [OF el(1) call] and ok = D(6) [OF call]
  have new: "csize s' = csize s" "node s' = (node s)(p' := rf')"
    by (simp_all add: s' set_node_def)
  have calls: "call_ok H cl" if "call_ok H c'" "cl \<in> set (net s')" for cl
    using that D(6) set_update_subset_insert [of "net s" k c'] by (auto simp: s')
  from ex show ?thesis
  proof (cases rule: exec_call_cases)
    case (vote c t p a r)
    then show ?thesis
      using adr calls D(1) rlog_RequestVote [OF vote(2)]
      by (intro log_inv_quiet [OF inv el(2,3) _ new]) (auto intro: quiet_RequestVote)
  next
    case (append c t p a r)
    with adr ok calls new show ?thesis
      by (intro log_inv_AppendEntries [OF inv el(2,3) _ _ append(2)]) auto
  next
    case (install c t p a r)
    with adr ok calls new show ?thesis
      by (intro log_inv_InstallSnapshot [OF inv el(2,3) _ _ install(2)]) auto
  qed
qed

lemma log_inv_Return:
  assumes inv: "log_inv V H L s" and el: "election_inv V C s" "election_inv V' C' s'" "extends V V'"
    and k: "k < length (net s)" and ret: "return_call ok clk s (net s ! k) = Some s1"
    and s': "s' = s1\<lparr>net := remove_nth k (net s)\<rparr>"
  shows "\<exists>H' L'. log_inv V' H' L' s' \<and> hist_ext H H'"
proof -
  note D = log_invD [OF inv]
  have call: "net s ! k \<in> set (net s)" using k by simp
  note adr = election_invD(4) [OF el(1) call]
  have sub: "set (net s') \<subseteq> set (net s)" by (simp add: s' set_remove_nth_subset)
  have quiet_case: ?thesis if "is_server s c" "quiet (node s c) rf'" "rlog rf' = rlog (node s c)"
    "csize s1 = csize s" "node s1 = (node s)(c := rf')" for c rf'
    using that D sub by (intro log_inv_quiet [OF inv el(2,3) that(1)]) (auto simp: s')
  from ret show ?thesis
  proof (cases rule: return_call_cases)
    case (append c t p a rep r rf)
    with adr show ?thesis
      by (intro quiet_case [of c rf] quiet_handleAppendReply rlog_handleAppendReply)
        (auto simp: set_node_def)
  next
    case (install c t p a rep r rf)
    with adr show ?thesis
      by (intro quiet_case [of c rf] quiet_handleInstallReply rlog_handleInstallReply)
        (auto simp: set_node_def)
  next
    case (vote c t p a rep r v rf b)
    have c: "is_server s c" using adr vote(1) by simp
    note same = rlog_handleVoteReply [OF vote(3)]
    from vote(3) show ?thesis
    proof (cases rule: handleVoteReply_cases)
      case quiet
      with c vote same show ?thesis by (intro quiet_case [of c rf]) (auto simp: set_node_def)
    next
      case count
      with c vote same show ?thesis by (intro quiet_case [of c rf]) (auto simp: set_node_def)
    next
      case win
      with c vote same sub becomeLeaderLocked_same [OF win(7,3)] show ?thesis
        by (intro log_inv_win [OF inv el(2,3) c, where rf' = rf]) (auto simp: s' set_node_def)
    qed
  qed
qed

lemma log_inv_Replicate:
  assumes inv: "log_inv V H L s" and el: "election_inv V C s" "election_inv V' C' s'" "extends V V'"
    and k: "k < length (replicators s)" "replicators s ! k = (i, t)"
    and tick: "replicationTicker t (node s i) = Some (b, rf, reqs)"
    and s': "csize s' = csize s" "node s' = (node s)(i := rf)" "net s' = net s @ map (call_of i t) reqs"
  shows "\<exists>H' L'. log_inv V' H' L' s' \<and> hist_ext H H'"
proof -
  note D = log_invD [OF inv]
  have i: "is_server s i" using election_invD(10) [OF el(1)] k nth_mem by metis
  have "call_ok H (call_of i t req)" if "req \<in> set reqs" for req
    using replicationTicker_requests [OF tick D(1) [OF i] that] D(3) [of i t] i
    by (cases req) (auto simp: leads_def)
  then show ?thesis
    using D i rlog_replicationTicker [OF tick]
    by (intro log_inv_quiet [OF inv el(2,3) i s'(1,2) quiet_replicationTicker [OF tick]])
      (auto simp: s'(3))
qed

lemma log_inv_exec:
  assumes inv: "log_inv V H L s" and el: "election_inv V C s" "election_inv V' C' s'" "extends V V'"
    and ex: "exec s a = Some s'"
  shows "\<exists>H' L'. log_inv V' H' L' s' \<and> hist_ext H H'"
proof -
  note D = log_invD [OF inv]
  note quietly = log_inv_quiet [OF inv el(2,3)]
  show ?thesis
  proof (cases a)
    case (Tick i clk)
    with ex obtain trm rf where "is_server s i" "electionTicker clk (node s i) = Some (trm, rf)"
      "s' = (set_node i rf s)\<lparr>elections := elections s @ (case trm of None \<Rightarrow> [] | Some t \<Rightarrow> [(i, t)])\<rparr>"
      by (auto split: if_splits dest!: bind_eq_SomeD)
    then show ?thesis by (intro log_inv_Tick [OF inv el(2,3)]) (auto simp: set_node_def)
  next
    case (Elect k)
    with ex obtain i t v reqs where k: "k < length (elections s)" "elections s ! k = (i, t)"
      and "s' = s\<lparr>elections := remove_nth k (elections s), votes := (votes s)((i, t) := v),
              net := net s @ map (\<lambda>(p, a). RV i t p a None) reqs\<rparr>"
      by (auto simp: Let_def split: if_splits prod.splits dest!: bind_eq_SomeD)
    moreover have "is_server s i"
      using election_invD(8) [OF el(1)] k nth_mem unfolding elections_ok_def by metis
    ultimately show ?thesis using D
      by (intro quietly [OF _ _ _ quiet_refl [of "node s i"]]) auto
  next
    case (Replicate k)
    with ex obtain i t b rf reqs where "k < length (replicators s)" "replicators s ! k = (i, t)"
      "replicationTicker t (node s i) = Some (b, rf, reqs)"
      "csize s' = csize s" "node s' = (node s)(i := rf)" "net s' = net s @ map (call_of i t) reqs"
      by (auto simp: set_node_def Let_def split: if_splits prod.splits dest!: bind_eq_SomeD)
    then show ?thesis by (rule log_inv_Replicate [OF inv el])
  next
    case (Exec k clk)
    with ex obtain c p rf where "k < length (net s)" "exec_call clk s (net s ! k) = Some (c, p, rf)"
      "s' = (set_node p rf s)\<lparr>net := (net s)[k := c]\<rparr>"
      by (auto split: if_splits dest!: bind_eq_SomeD)
    then show ?thesis by (rule log_inv_Exec [OF inv el])
  next
    case (Return k ok clk)
    with ex obtain s1 where "k < length (net s)" "return_call ok clk s (net s ! k) = Some s1"
      "s' = s1\<lparr>net := remove_nth k (net s)\<rparr>"
      by (auto split: if_splits dest!: bind_eq_SomeD)
    then show ?thesis by (rule log_inv_Return [OF inv el])
  next
    case (ClientStart i c)
    with ex have "is_server s i" "s' = set_node i (snd (Start c (node s i))) s" by (auto split: if_splits)
    then show ?thesis by (rule log_inv_Start [OF inv el(2,3)])
  next
    case (TakeSnapshot i index snap)
    with ex obtain rf where "is_server s i" "Raft_Snapshot index snap (node s i) = Some rf"
      "s' = set_node i rf s"
      by (auto split: if_splits dest!: bind_eq_SomeD)
    with D show ?thesis
      by (intro quietly [OF _ _ _ quiet_Raft_Snapshot represents_Raft_Snapshot]) (auto simp: set_node_def)
  next
    case (ApplyWait i)
    with ex D show ?thesis
      by (intro quietly [OF _ _ _ quiet_apply(1) [of "node s i"]])
        (auto simp: set_node_def rlog_apply split: if_splits)
  next
    case (ApplyCollect i)
    with ex obtain ap rf where "is_server s i" "applyCollect (node s i) = Some (ap, rf)"
      "s' = (set_node i rf s)\<lparr>applier := (applier s)(i := Collected ap)\<rparr>"
      by (auto split: if_splits dest!: bind_eq_SomeD)
    with D rlog_apply(3) [of "node s i" ap rf] show ?thesis
      by (intro quietly [OF _ _ _ quiet_apply(3)]) (auto simp: set_node_def)
  next
    case (ApplySend i)
    with ex D show ?thesis
      by (intro quietly [OF _ _ _ quiet_refl [of "node s i"]]) (auto split: if_splits apply_pc.splits)
  next
    case (ApplyFinish i)
    with ex obtain ap where "is_server s i"
      "s' = (set_node i (applyFinish ap (node s i)) s)\<lparr>applier := (applier s)(i := AtHead)\<rparr>"
      by (auto split: if_splits apply_pc.splits)
    with D show ?thesis
      by (intro quietly [OF _ _ _ quiet_apply(2) [of "node s i" ap]]) (auto simp: set_node_def rlog_apply)
  next
    case (Restart i)
    with ex have i: "is_server s i" and s': "s' = (set_node i (Make (csize s) i (persister (node s i))) s)
        \<lparr>applier := (applier s)(i := AtHead)\<rparr>"
      by (auto split: if_splits)
    note N = nodes_okD [OF election_invD(2) [OF el(1)] i]
    note M = Make_restores [OF N(4)]
    show ?thesis
      using i D M N by (intro log_inv_still [OF inv el(2,3) i]) (auto simp: s' set_node_def Make_fixed)
  qed
qed

subsection \<open>Every run\<close>

lemma log_inv_init: "log_inv V (\<lambda>_. None) (\<lambda>_. []) (init_cluster n)"
  by (simp add: log_inv_def init_cluster_def Make_fresh represents_NewLog leads_def Make_fixed)

lemma log_inv_steps:
  assumes "csteps s s'" and "election_inv V C s" "log_inv V H L s"
  shows "\<exists>V' C' H' L'. election_inv V' C' s' \<and> log_inv V' H' L' s' \<and> extends V V' \<and> hist_ext H H'"
  using assms
proof (induction rule: csteps.induct)
  case (refl s)
  then show ?case using extends_refl hist_ext_refl by blast
next
  case (snoc s t u)
  from snoc.IH [OF snoc.prems] obtain V1 C1 H1 L1 where
    1: "election_inv V1 C1 t" "log_inv V1 H1 L1 t" "extends V V1" "hist_ext H H1" by blast
  obtain a where a: "exec t a = Some u" using snoc.hyps(2) by (rule cstepE)
  obtain V2 C2 where 2: "election_inv V2 C2 u" "extends V1 V2" using election_inv_exec [OF 1(1) a] by blast
  obtain H2 L2 where "log_inv V2 H2 L2 u" "hist_ext H1 H2"
    using log_inv_exec [OF 1(2,1) 2 a] by blast
  with 1 2 show ?case by (meson extends_trans hist_ext_trans)
qed

lemma log_inv_run:
  assumes "0 \<le> n" and "csteps (init_cluster n) s"
  obtains V C H L where "election_inv V C s" "log_inv V H L s"
  using log_inv_steps [OF assms(2) election_inv_init [OF assms(1)] log_inv_init] by blast

lemma matched_nth:
  assumes "take n a = take n b" and "0 < k" "k \<le> int n"
  shows "a ! (nat k - 1) = b ! (nat k - 1)"
  using assms by (metis One_nat_def Suc_le_eq nat_0_iff nat_le_iff nat_less_eq_zless
      diff_Suc_less diff_less less_le_trans nth_take zero_less_nat_eq zero_less_one)

text \<open>Two peers whose entries at \<open>k\<close> have the same term hold the same entry wherever both
  still have one up to \<open>k\<close>.\<close>

lemma logs_match:
  assumes run: "0 \<le> n" "csteps (init_cluster n) s" and srv: "is_server s i" "is_server s j"
    and same: "log_term_at (rlog (node s i)) k = Some t" "log_term_at (rlog (node s j)) k = Some t"
    and m: "m \<le> k" "snapLastIdx (rlog (node s i)) < m" "snapLastIdx (rlog (node s j)) < m"
  shows "log_at (rlog (node s i)) m = log_at (rlog (node s j)) m \<and> log_at (rlog (node s i)) m \<noteq> None"
proof -
  obtain V C H L where inv: "log_inv V H L s" using log_inv_run [OF run] by blast
  note Di = log_invD(1,2) [OF inv srv(1)] and Dj = log_invD(1,2) [OF inv srv(2)]
  obtain ei ej where e: "log_at (rlog (node s i)) k = Some ei" "leTerm ei = t"
    "log_at (rlog (node s j)) k = Some ej" "leTerm ej = t"
    using same by (auto simp: log_term_at_def)
  note Ri = represents_term [OF Di(1) e(1)] and Rj = represents_term [OF Dj(1) e(3)]
  have "take (nat k) (L i) = take (nat k) (L j)"
    using Ri Rj e by (intro matched_agree [OF Di(2) Dj(2)]) (auto simp: go_len_def)
  moreover have "0 < m" using m(2) Di(1) by (auto simp: represents_def)
  ultimately have "L i ! (nat m - 1) = L j ! (nat m - 1)"
    using m(1) by (intro matched_nth) auto
  then show ?thesis
    using represents_at [OF Di(1), of m] represents_at [OF Dj(1), of m] m Ri Rj by simp
qed

text \<open>While a peer leads a term its log only grows, snapshots aside.\<close>

lemma leader_log_grows:
  assumes run: "0 \<le> n" "csteps (init_cluster n) s" and later: "csteps s s'"
    and lead: "leads s i t" "leads s' i t"
  shows "log_size (rlog (node s i)) \<le> log_size (rlog (node s' i))
    \<and> (\<forall>m. snapLastIdx (rlog (node s i)) < m \<and> snapLastIdx (rlog (node s' i)) < m
           \<and> m < log_size (rlog (node s i))
           \<longrightarrow> log_at (rlog (node s' i)) m = log_at (rlog (node s i)) m)"
proof -
  obtain V C H L where inv: "election_inv V C s" "log_inv V H L s" using log_inv_run [OF run] by blast
  obtain V' C' H' L' where inv': "log_inv V' H' L' s'" and hist: "hist_ext H H'"
    using log_inv_steps [OF later inv] by blast
  obtain x where x: "L' i = L i @ x"
    using log_invD(3) [OF inv(2) lead(1)] log_invD(3) [OF inv' lead(2)] hist
    unfolding hist_ext_def by (metis option.inject)
  have srv: "is_server s i" "is_server s' i" using lead by (auto simp: leads_def)
  note R = log_invD(1) [OF inv(2) srv(1)] and R' = log_invD(1) [OF inv' srv(2)]
  note size = represents_size [OF R] represents_size [OF R']
  have "log_at (rlog (node s' i)) m = log_at (rlog (node s i)) m"
    if m: "snapLastIdx (rlog (node s i)) < m" "snapLastIdx (rlog (node s' i)) < m"
      "m < log_size (rlog (node s i))" for m
  proof -
    have "0 < m" using m(1) R by (auto simp: represents_def)
    then show ?thesis
      using represents_at [OF R m(1)] represents_at [OF R' m(2)] m(3) size x
      by (auto simp: nth_append go_len_def)
  qed
  then show ?thesis using size x by simp
qed

end
