(* ===== verification/Raft_Properties.thy ===== *)
theory Raft_Properties
  imports Raft_Matching
begin

section \<open>Properties of the Raft group\<close>

text \<open>
  What the peers of one group promise together, in every run of theory \<open>Raft_Cluster\<close>
  (crashes, lost and reordered calls included), and what the single handlers compute. The
  proofs rest on the invariants of \<open>Raft_Safety\<close> and \<open>Raft_Matching\<close> and on the
  contract \<open>peer_operation\<close>.
\<close>

subsection \<open>Runs to evaluate\<close>

text \<open>Peer 0 of three wins the election of term 1 with the vote of peer 1.\<close>

definition at_ms :: "int \<Rightarrow> clock" where
  "at_ms n = \<lparr>now = n * millisecond, rnd = 7\<rparr>"

definition elected :: "(string, nat) action list" where
  "elected = [Tick 0 (at_ms 1000), Elect 0, Exec 0 (at_ms 1001), Return 0 True (at_ms 1002)]"

text \<open>Then two commands are replicated to peer 1, in two requests of which the second is
  delivered.\<close>

definition replicated :: "(string, nat) action list" where
  "replicated = elected @
     [ClientStart 0 ''x'', Replicate 0, ClientStart 0 ''y'', Replicate 0, ApplyWait 0,
      Exec 3 (at_ms 1010), Return 3 True (at_ms 1011)]"

definition state_after :: "(string, nat) action list \<Rightarrow> (string, nat) cluster" where
  "state_after as = the (exec_all (init_cluster 3) as)"

lemma state_after_run:
  "exec_all (init_cluster 3) as \<noteq> None \<Longrightarrow> csteps (init_cluster 3) (state_after as)"
  by (auto simp: state_after_def intro: exec_all_csteps csteps.refl)

lemma exec_all_append:
  "exec_all s (as @ bs) = Option.bind (exec_all s as) (\<lambda>t. exec_all t bs)"
  by (induction as arbitrary: s) (auto split: Option.bind_split)

lemma state_after_later:
  assumes "exec_all (init_cluster 3) (as @ bs) \<noteq> None"
  shows "csteps (state_after as) (state_after (as @ bs))"
  using assms
  by (auto simp: state_after_def exec_all_append split: Option.bind_splits
      intro: exec_all_csteps csteps.refl)

subsection \<open>Elections\<close>

text \<open>C1: at most one peer ever leads a term. Whatever two moments of a run one looks at, through
  crashes, restarts, lost, delayed and reordered calls, two leaders of one term are the same
  peer.\<close>

theorem election_safety:
  assumes "0 \<le> n" and "csteps (init_cluster n) s" and "csteps s s'"
    and "leads s i t" and "leads s' j t"
  shows "i = j"
  using one_leader_per_term [OF assms] .

theorem election_safety_witness:
  "leads (state_after elected) 0 1 \<and> leads (state_after replicated) 0 1 \<and> (0 :: int) = 0"
proof -
  have l: "leads (state_after elected) 0 1" "leads (state_after replicated) 0 1" by code_simp+
  have r: "exec_all (init_cluster 3) elected \<noteq> None" "exec_all (init_cluster 3) replicated \<noteq> None"
    by code_simp+
  have "(0 :: int) = 0"
    using l state_after_run [OF r(1)] state_after_later [OF r(2) [unfolded replicated_def]]
    by (intro election_safety [of 3 "state_after elected" "state_after replicated" 0 1 0])
      (simp_all add: replicated_def)
  with l show ?thesis by simp
qed



text \<open>The position of a log's last entry.\<close>

definition last_pos :: "('c, 's) RaftLog \<Rightarrow> logpos" where
  "last_pos rl = LogPos (leTerm (last (tailLog rl))) (log_size rl - 1)"

lemma isMoreUptoDateLocked_eq:
  "log_wf (rlog rf) \<Longrightarrow> isMoreUptoDateLocked rf i t = Some (LogPos t i < last_pos (rlog rf))"
  by (auto simp: isMoreUptoDateLocked_def log_last_eq last_pos_def less_logpos_def)

text \<open>C11: the handler of \<open>RequestVote\<close> never panics on a well-formed peer and grants a vote exactly
  when the request's term is not old, no other candidate has the vote of that term, and the
  candidate's last entry is at least as recent as the peer's; it moves to the newer of the two
  terms, forgets the vote of an older one, and leaves the log alone.\<close>

theorem RequestVote_decision:
  assumes "rf_wf rf"
  shows "\<exists>r rf'. RequestVote clk args rf = Some (r, rf')
    \<and> rvrTerm r = currentTerm rf
    \<and> (rvrVoteGranted r \<longleftrightarrow> currentTerm rf \<le> rvTerm args
         \<and> (currentTerm rf < rvTerm args \<or> votedFor rf = -1 \<or> votedFor rf = rvCandidateId args)
         \<and> last_pos (rlog rf) \<le> LogPos (rvLastLogTerm args) (rvLastLogIndex args))
    \<and> currentTerm rf' = max (currentTerm rf) (rvTerm args)
    \<and> votedFor rf' = (if rvrVoteGranted r then rvCandidateId args
                      else if currentTerm rf < rvTerm args then -1 else votedFor rf)
    \<and> rlog rf' = rlog rf"
proof -
  have wf: "log_wf (rlog rf)" using assms by (simp add: rf_wf_def)
  consider "rvTerm args < currentTerm rf" | "rvTerm args = currentTerm rf" | "currentTerm rf < rvTerm args"
    by linarith
  then show ?thesis
  proof cases
    case 1
    then show ?thesis by (simp add: RequestVote_def)
  next
    case 2
    then show ?thesis
      using isMoreUptoDateLocked_eq [OF wf, of "rvLastLogIndex args" "rvLastLogTerm args"]
      by (auto simp: RequestVote_def Let_def)
  next
    case 3
    let ?rf = "becomeFollowerLocked clk (rvTerm args) rf"
    have "isMoreUptoDateLocked ?rf (rvLastLogIndex args) (rvLastLogTerm args)
        = Some (LogPos (rvLastLogTerm args) (rvLastLogIndex args) < last_pos (rlog rf))"
      using isMoreUptoDateLocked_eq [of ?rf] wf by simp
    with 3 show ?thesis
      by (auto simp: RequestVote_def Let_def becomeFollowerLocked_newer)
  qed
qed

definition follower0 :: "(string, nat) Raft" where
  "follower0 = Make 3 0 MakePersister"

lemma follower0_wf: "rf_wf follower0"
  by (simp add: follower0_def rf_wf_def Make_fixed Make_fresh log_wf_NewLog go_len_def)

theorem RequestVote_decision_witness:
  "\<exists>r rf'. RequestVote (at_ms 5) \<lparr>rvTerm = 1, rvCandidateId = 2, rvLastLogIndex = 0, rvLastLogTerm = 0\<rparr> follower0
     = Some (r, rf') \<and> rvrVoteGranted r \<and> votedFor rf' = 2"
proof -
  have "currentTerm follower0 = 0" "last_pos (rlog follower0) = LogPos 0 0" by code_simp+
  then show ?thesis
    using RequestVote_decision [OF follower0_wf, of "at_ms 5"
        "\<lparr>rvTerm = 1, rvCandidateId = 2, rvLastLogIndex = 0, rvLastLogTerm = 0\<rparr>"] by auto
qed

subsection \<open>Logs\<close>



text \<open>C8: a leader never overwrites or removes an entry of its own log: between two moments at
  which a peer leads the same term its log has only grown, except for what its snapshots
  replace.\<close>

theorem leader_append_only:
  assumes "0 \<le> n" and "csteps (init_cluster n) s" and "csteps s s'"
    and "leads s i t" and "leads s' i t"
  shows "log_size (rlog (node s i)) \<le> log_size (rlog (node s' i))
    \<and> (\<forall>m. snapLastIdx (rlog (node s i)) < m \<and> snapLastIdx (rlog (node s' i)) < m
           \<and> m < log_size (rlog (node s i))
           \<longrightarrow> log_at (rlog (node s' i)) m = log_at (rlog (node s i)) m)"
  using leader_log_grows [OF assms] .

theorem leader_append_only_witness:
  "log_size (rlog (node (state_after elected) 0)) \<le> log_size (rlog (node (state_after replicated) 0))
   \<and> log_size (rlog (node (state_after elected) 0)) = 1"
proof -
  have l: "leads (state_after elected) 0 1" "leads (state_after replicated) 0 1"
    "log_size (rlog (node (state_after elected) 0)) = 1" by code_simp+
  have r: "exec_all (init_cluster 3) elected \<noteq> None" "exec_all (init_cluster 3) replicated \<noteq> None"
    by code_simp+
  show ?thesis
    using l state_after_run [OF r(1)] state_after_later [OF r(2) [unfolded replicated_def]]
      leader_append_only [of 3 "state_after elected" "state_after replicated" 0 1]
    by (simp add: replicated_def)
qed

text \<open>C10: a crash at any moment of any run loses nothing that Raft must remember: \<open>Make\<close> on the
  persister of a peer brings back its term, its vote, and its whole log with the snapshot.\<close>

theorem crash_recovery:
  assumes "0 \<le> n" and "csteps (init_cluster n) s" and "is_server s i"
  shows "let rf = node s i; rf' = Make n i (persister rf) in
    currentTerm rf' = currentTerm rf \<and> votedFor rf' = votedFor rf \<and> rlog rf' = rlog rf"
proof -
  obtain V C where "election_inv V C s"
    using election_inv_steps [OF assms(2) election_inv_init [OF assms(1)]] by blast
  then have "nodes_ok s" by (rule election_invD(2))
  moreover have "csize s = n" using csteps_csize [OF assms(2)] by (simp add: init_cluster_def)
  ultimately show ?thesis
    using nodes_okD [of s i] Make_restores [of "node s i"] assms(3) by (simp add: Let_def)
qed

theorem crash_recovery_witness:
  "rlog (Make 3 1 (persister (node (state_after replicated) 1))) = rlog (node (state_after replicated) 1)
   \<and> log_size (rlog (node (state_after replicated) 1)) = 3"
proof -
  have f: "exec_all (init_cluster 3) replicated \<noteq> None" "is_server (state_after replicated) 1"
    "log_size (rlog (node (state_after replicated) 1)) = 3" by code_simp+
  show ?thesis using crash_recovery [OF _ state_after_run [OF f(1)] f(2)] f(3) by (simp add: Let_def)
qed

subsection \<open>Replication\<close>

text \<open>C12: the handler of \<open>AppendEntries\<close> never panics on a well-formed peer. It succeeds exactly when
  the term is not old and the peer has an entry of the given term at \<open>PrevLogIndex\<close>; then the log
  keeps its entries up to that index, continues with the leader's entries and ends with them, and
  the commit index rises to the leader's. Otherwise log and commit index stay. A request that
  is not old makes the peer a follower of its term.\<close>

theorem AppendEntries_effect:
  assumes "rf_wf rf"
  shows "\<exists>r rf'. AppendEntries clk args rf = Some (r, rf')
    \<and> (aerSuccess r \<longleftrightarrow> currentTerm rf \<le> aeTerm args
         \<and> log_term_at (rlog rf) (aePrevLogIndex args) = Some (aePrevLogTerm args))
    \<and> (if aerSuccess r
       then log_size (rlog rf') = aePrevLogIndex args + 1 + go_len (aeEntries args)
          \<and> (\<forall>i \<le> aePrevLogIndex args. log_at (rlog rf') i = log_at (rlog rf) i)
          \<and> (\<forall>k < length (aeEntries args).
               log_at (rlog rf') (aePrevLogIndex args + 1 + int k) = Some (aeEntries args ! k))
          \<and> commitIndex rf' = max (commitIndex rf) (aeLeaderCommit args)
       else rlog rf' = rlog rf \<and> commitIndex rf' = commitIndex rf)
    \<and> currentTerm rf' = max (currentTerm rf) (aeTerm args)
    \<and> (currentTerm rf \<le> aeTerm args \<longrightarrow> role rf' = Follower)"
proof (cases "currentTerm rf \<le> aeTerm args")
  case False
  then show ?thesis by (simp add: AppendEntries_def)
next
  case newer: True
  let ?rf1 = "becomeFollowerLocked clk (aeTerm args) rf"
  show ?thesis
  proof (cases "\<exists>e. log_at (rlog rf) (aePrevLogIndex args) = Some e \<and> leTerm e = aePrevLogTerm args")
    case False
    then have "AppendEntries clk args rf = Some (\<lparr>aerTerm = currentTerm rf, aerSuccess = False\<rparr>, ?rf1)"
      using newer by (auto simp: AppendEntries_def Let_def log_at_eq)
    with False newer show ?thesis
      by (auto simp: becomeFollowerLocked_newer log_term_at_def)
  next
    case True
    then obtain e where e: "log_at (rlog rf) (aePrevLogIndex args) = Some e" "leTerm e = aePrevLogTerm args"
      by blast
    then have range: "aePrevLogIndex args < log_size (rlog rf)" "snapLastIdx (rlog rf) \<le> aePrevLogIndex args"
      by (auto simp: log_at_eq split: if_splits)
    then obtain rl where rl: "log_appendFrom (rlog rf) (aePrevLogIndex args) (aeEntries args) = Some rl"
      by (auto simp: log_appendFrom_eq)
    note view = log_appendFrom_view [OF rl]
    define rf2 where "rf2 = persistLocked (?rf1\<lparr>rlog := rl\<rparr>)"
    define rf3 where "rf3 = (if aeLeaderCommit args > commitIndex rf2
                        then applyCond_Signal (rf2\<lparr>commitIndex := aeLeaderCommit args\<rparr>) else rf2)"
    have ae: "AppendEntries clk args rf
        = Some (\<lparr>aerTerm = currentTerm rf, aerSuccess = True\<rparr>, resetElectionTimerLocked clk rf3)"
      using newer e rl range by (simp add: AppendEntries_def Let_def rf2_def rf3_def)
    have "rlog rf3 = rl" "commitIndex rf3 = max (commitIndex rf) (aeLeaderCommit args)"
      "currentTerm rf3 = aeTerm args" "role rf3 = Follower"
      using newer by (auto simp: rf3_def rf2_def becomeFollowerLocked_newer)
    with ae newer e view show ?thesis by (simp add: log_term_at_def)
  qed
qed

theorem AppendEntries_effect_witness:
  "\<exists>r rf'. AppendEntries (at_ms 5)
      \<lparr>aeTerm = 1, aeLeaderId = 2, aePrevLogIndex = 0, aePrevLogTerm = 0,
       aeEntries = [\<lparr>leTerm = 1, leCommandValid = True, leCommand = Some ''x''\<rparr>], aeLeaderCommit = 0\<rparr> follower0
     = Some (r, rf') \<and> aerSuccess r \<and> log_size (rlog rf') = 2"
proof -
  have "currentTerm follower0 = 0" "log_term_at (rlog follower0) 0 = Some 0" by code_simp+
  then show ?thesis
    using AppendEntries_effect [OF follower0_wf, of "at_ms 5"
      "\<lparr>aeTerm = 1, aeLeaderId = 2, aePrevLogIndex = 0, aePrevLogTerm = 0,
       aeEntries = [\<lparr>leTerm = 1, leCommandValid = True, leCommand = Some ''x''\<rparr>], aeLeaderCommit = 0\<rparr>"]
    by (auto split: if_splits)
qed

text \<open>Two peers that accept the same request agree from \<open>PrevLogIndex\<close> on, whatever their
  logs held after it before, and a request delivered again changes no entry.\<close>

theorem AppendEntries_agree:
  fixes rf1 rf2 :: "('c, 's) Raft"
  assumes "rf_wf rf1" "rf_wf rf2"
    and "AppendEntries clk1 args rf1 = Some (r1, rf1')" "aerSuccess r1"
    and "AppendEntries clk2 args rf2 = Some (r2, rf2')" "aerSuccess r2"
    and "aePrevLogIndex args \<le> i"
  shows "log_size (rlog rf1') = log_size (rlog rf2')
    \<and> log_term_at (rlog rf1') i = log_term_at (rlog rf2') i
    \<and> (\<exists>l''. log_appendFrom (rlog rf1') (aePrevLogIndex args) (aeEntries args) = Some l''
           \<and> log_size l'' = log_size (rlog rf1') \<and> (\<forall>j. log_term_at l'' j = log_term_at (rlog rf1') j))"
proof -
  have wf: "log_wf (rlog rf1)" "log_wf (rlog rf2)" using assms(1,2) by (auto simp: rf_wf_def)
  from assms(3,4) obtain e1 where 1: "log_at (rlog rf1) (aePrevLogIndex args) = Some e1"
    "leTerm e1 = aePrevLogTerm args"
    "log_appendFrom (rlog rf1) (aePrevLogIndex args) (aeEntries args) = Some (rlog rf1')"
    by (auto elim!: AppendEntries_cases)
  from assms(5,6) obtain e2 where 2: "log_at (rlog rf2) (aePrevLogIndex args) = Some e2"
    "leTerm e2 = aePrevLogTerm args"
    "log_appendFrom (rlog rf2) (aePrevLogIndex args) (aeEntries args) = Some (rlog rf2')"
    by (auto elim!: AppendEntries_cases)
  have "log_term_at (rlog rf1) (aePrevLogIndex args) = log_term_at (rlog rf2) (aePrevLogIndex args)"
    using 1 2 by (simp add: log_term_at_def)
  then show ?thesis
    using raftlog.replace_agree [OF wf 1(3) 2(3) _ assms(7)] raftlog.replace_again [OF wf(1) 1(3)] by auto
qed

definition append_x :: "string AppendEntriesArgs" where
  "append_x = \<lparr>aeTerm = 1, aeLeaderId = 2, aePrevLogIndex = 0, aePrevLogTerm = 0,
     aeEntries = [\<lparr>leTerm = 1, leCommandValid = True, leCommand = Some ''x''\<rparr>], aeLeaderCommit = 0\<rparr>"

theorem AppendEntries_agree_witness:
  "log_size (rlog (snd (the (AppendEntries (at_ms 5) append_x follower0)))) =
     log_size (rlog (snd (the (AppendEntries (at_ms 9) append_x
        (snd (the (AppendEntries (at_ms 6) (append_x\<lparr>aeEntries := []\<rparr>) follower0)))))))"
  (is "log_size (rlog (snd (the ?a))) = log_size (rlog (snd (the ?b)))")
proof -
  let ?rf = "snd (the (AppendEntries (at_ms 6) (append_x\<lparr>aeEntries := []\<rparr>) follower0))"
  have some: "?a \<noteq> None" "aerSuccess (fst (the ?a))" "?b \<noteq> None" "aerSuccess (fst (the ?b))"
    "AppendEntries (at_ms 6) (append_x\<lparr>aeEntries := []\<rparr>) follower0 \<noteq> None"
    by code_simp+
  have "evolves follower0 ?rf"
    using some(5) by (auto intro: evolves_AppendEntries [of "at_ms 6" "append_x\<lparr>aeEntries := []\<rparr>"])
  then have "rf_wf ?rf" using follower0_wf by (auto simp: evolves_def)
  then show ?thesis
    using AppendEntries_agree [OF follower0_wf, of ?rf "at_ms 5" append_x "fst (the ?a)" "snd (the ?a)"
        "at_ms 9" "fst (the ?b)" "snd (the ?b)" 0] some
    by (auto simp: append_x_def)
qed

text \<open>The number of peers known to hold the log up to \<open>m\<close>.\<close>

definition holders :: "('c, 's) Raft \<Rightarrow> int \<Rightarrow> int" where
  "holders rf m = int (length (filter (\<lambda>x. m \<le> x) (matchIndex rf)))"

lemma sorted_gt_count:
  fixes xs :: "int list"
  assumes "sorted xs" and "k < length xs" and "xs ! k < m"
  shows "length (filter (\<lambda>x. m \<le> x) xs) \<le> length xs - Suc k"
proof -
  have "\<forall>x \<in> set (take (Suc k) xs). x \<le> xs ! k"
    using assms(1,2) by (auto simp: in_set_conv_nth sorted_nth_mono)
  then have none: "filter (\<lambda>x. m \<le> x) (take (Suc k) xs) = []"
    using assms(3) by (force simp: filter_empty_conv)
  have "filter (\<lambda>x. m \<le> x) xs
      = filter (\<lambda>x. m \<le> x) (take (Suc k) xs) @ filter (\<lambda>x. m \<le> x) (drop (Suc k) xs)"
    by (metis append_take_drop_id filter_append)
  with none have "filter (\<lambda>x. m \<le> x) xs = filter (\<lambda>x. m \<le> x) (drop (Suc k) xs)" by simp
  then show ?thesis
    using length_filter_le [of "\<lambda>x. m \<le> x" "drop (Suc k) xs"] by simp
qed

text \<open>C13: the index by which the leader advances the commit index is the largest one that a
  majority of the peers is known to hold: \<open>getMajorityIndexLocked\<close> returns \<open>m\<close> with more than
  half of the match indices at or above it, and no larger index has that.\<close>

theorem majority_index:
  assumes "rf_wf rf"
  shows "\<exists>m. getMajorityIndexLocked rf = Some m \<and> peers rf div 2 < holders rf m
           \<and> (\<forall>m'. peers rf div 2 < holders rf m' \<longrightarrow> m' \<le> m)"
proof -
  let ?xs = "sort (matchIndex rf)" and ?k = "nat ((peers rf - 1) div 2)"
  have len: "int (length ?xs) = peers rf" and pos: "0 < peers rf"
    using assms by (auto simp: rf_wf_def go_len_def)
  have k: "?k < length ?xs" using len pos by linarith
  have "getMajorityIndexLocked rf = Some (?xs ! ?k)"
    using k len pos by (auto simp: getMajorityIndexLocked_def go_at_def Let_def)
  moreover have cnt: "holders rf m = int (length (filter (\<lambda>x. m \<le> x) ?xs))" for m
    unfolding holders_def by (simp add: length_filter_mset_eq [of "matchIndex rf" ?xs])
  moreover have "peers rf div 2 < int (length (filter (\<lambda>x. ?xs ! ?k \<le> x) ?xs))"
    using sorted_ge_count [OF sorted_sort k] len pos by linarith
  moreover have "m' \<le> ?xs ! ?k" if "peers rf div 2 < int (length (filter (\<lambda>x. m' \<le> x) ?xs))" for m'
    using sorted_gt_count [OF sorted_sort k, of m'] that len pos by linarith
  ultimately show ?thesis by auto
qed

theorem majority_index_witness:
  "\<exists>m. getMajorityIndexLocked (follower0\<lparr>matchIndex := [7, 0, 4]\<rparr>) = Some m
     \<and> 1 < holders (follower0\<lparr>matchIndex := [7, 0, 4]\<rparr>) m \<and> 4 \<le> m"
proof -
  let ?rf = "follower0\<lparr>matchIndex := [7, 0, 4]\<rparr>"
  have wf: "rf_wf ?rf" using follower0_wf by (simp add: rf_wf_def follower0_def Make_fixed go_len_def)
  have "peers ?rf div 2 = 1" "1 < holders ?rf 4" by code_simp+
  then show ?thesis using majority_index [OF wf] by auto
qed

text \<open>\<open>backoff\<close> ends below the run of entries of the given term.\<close>

lemma backoff_result:
  assumes "log_wf rl" "idx < log_size rl" "backoff rl t idx = Some i"
  shows "i \<le> idx \<and> (\<forall>j. i < j \<and> j \<le> idx \<longrightarrow> log_term_at rl j = Some t)
     \<and> (i < snapLastIdx rl \<or> log_term_at rl i \<noteq> Some t)
     \<and> (idx \<ge> snapLastIdx rl \<longrightarrow> snapLastIdx rl - 1 \<le> i)"
  using assms
proof (induction rl t idx rule: backoff.induct)
  case (1 rl t idx)
  show ?case
  proof (cases "snapLastIdx rl \<le> idx \<and> log_term_at rl idx = Some t")
    case True
    then obtain e where e: "log_at rl idx = Some e" "leTerm e = t" by (auto simp: log_term_at_def)
    with True 1 have "backoff rl t (idx - 1) = Some i" by (simp add: backoff.simps [of rl t idx])
    with 1 True e have IH: "i \<le> idx - 1 \<and> (\<forall>j. i < j \<and> j \<le> idx - 1 \<longrightarrow> log_term_at rl j = Some t)
     \<and> (i < snapLastIdx rl \<or> log_term_at rl i \<noteq> Some t)
     \<and> (idx - 1 \<ge> snapLastIdx rl \<longrightarrow> snapLastIdx rl - 1 \<le> i)" by auto
    have "log_term_at rl j = Some t" if "i < j" "j \<le> idx" for j
      using IH True that by (cases "j = idx") auto
    moreover have "snapLastIdx rl - 1 \<le> i"
    proof (cases "snapLastIdx rl \<le> idx - 1")
      case False
      with True have "idx - 1 < snapLastIdx rl" "idx = snapLastIdx rl" by auto
      then have "backoff rl t (idx - 1) = Some (idx - 1)" by (simp add: backoff.simps)
      with \<open>backoff rl t (idx - 1) = Some i\<close> \<open>idx = snapLastIdx rl\<close> show ?thesis by simp
    qed (use IH in simp)
    ultimately show ?thesis using IH by auto
  next
    case False
    then have "i = idx"
      using "1.prems" by (auto simp: backoff.simps [of rl t idx] log_term_at_def split: if_splits option.splits)
    with False show ?thesis by auto
  qed
qed

lemma backoff_total: "log_wf rl \<Longrightarrow> idx < log_size rl \<Longrightarrow> \<exists>i. backoff rl t idx = Some i"
proof (induction rl t idx rule: backoff.induct)
  case (1 rl t idx)
  then show ?case
    by (cases "log_at rl idx") (auto simp: backoff.simps [of rl t idx] log_at_eq split: if_splits)
qed



subsection \<open>Snapshots and application\<close>

text \<open>C15: taking a snapshot is invisible to the other peers. The log keeps its size, its entries
  after the snapshot and the term at the snapshot's index, so the peer judges candidates as before,
  and what it persists restores all of it.\<close>

theorem Snapshot_transparent:
  assumes "rf_wf rf" and "persisted rf" and "Raft_Snapshot index snap rf = Some rf'"
  shows "log_size (rlog rf') = log_size (rlog rf)
    \<and> isMoreUptoDateLocked rf' li lt = isMoreUptoDateLocked rf li lt
    \<and> (\<forall>j. snapLastIdx (rlog rf') \<le> j \<longrightarrow> log_term_at (rlog rf') j = log_term_at (rlog rf) j)
    \<and> (\<forall>j. snapLastIdx (rlog rf') < j \<longrightarrow> log_at (rlog rf') j = log_at (rlog rf) j)
    \<and> persisted rf'"
proof (cases "rlog rf' = rlog rf")
  case True
  moreover have "persisted rf'"
    using evolves_Raft_Snapshot [OF assms(3)] assms(1,2) by (auto simp: evolves_def)
  ultimately show ?thesis by (simp add: isMoreUptoDateLocked_def)
next
  case False
  with assms(3) have snap: "log_doSnapshot (rlog rf) index snap = Some (rlog rf')"
    by (auto simp: Raft_Snapshot_def split: if_splits dest!: bind_eq_SomeD)
  have wf: "log_wf (rlog rf)" using assms(1) by (simp add: rf_wf_def)
  note last = raftlog.compact_last [OF wf snap] and view = log_doSnapshot_view [OF snap]
  have wf': "log_wf (rlog rf')" by (rule raftlog.compact_wf [OF wf snap])
  have last_term: "log_term_at rl (log_size rl - 1) = Some (leTerm (last (tailLog rl)))"
    if "log_wf rl" for rl :: "('a, 'b) RaftLog"
    using that log_wf_len [OF that] by (auto simp: log_term_at_eq log_size_def go_len_def last_conv_nth log_wf_def
        intro!: arg_cong [of _ _ leTerm] arg_cong [of _ _ "(!) (tailLog rl)"])
  have "last_pos (rlog rf') = last_pos (rlog rf)"
    using last last_term [OF wf] last_term [OF wf'] by (auto simp: last_pos_def)
  then have "isMoreUptoDateLocked rf' li lt = isMoreUptoDateLocked rf li lt"
    using isMoreUptoDateLocked_eq [OF wf] isMoreUptoDateLocked_eq [OF wf'] by simp
  moreover have "persisted rf'"
    using evolves_Raft_Snapshot [OF assms(3)] assms(1,2) by (auto simp: evolves_def)
  ultimately show ?thesis
    using view raftlog.compact_keeps [OF wf snap] by simp
qed

theorem Snapshot_transparent_witness:
  "\<exists>rf'. Raft_Snapshot 1 [5] (node (state_after replicated) 0) = Some rf'
     \<and> log_size (rlog rf') = 3 \<and> persisted rf'"
proof -
  let ?rf = "node (state_after replicated) 0"
  have f: "log_wf (rlog ?rf)" "peers ?rf = 3" "me ?rf = 0" "length (nextIndex ?rf) = 3"
    "length (matchIndex ?rf) = 3" "log_size (rlog ?rf) = 3" "Raft_Snapshot 1 [5] ?rf \<noteq> None"
    "persisted ?rf"
    by code_simp+
  then have wf: "rf_wf ?rf" by (simp add: rf_wf_def go_len_def)
  obtain rf' where "Raft_Snapshot 1 [5] ?rf = Some rf'" using f(7) by blast
  with Snapshot_transparent [OF wf f(8) this] f(6) show ?thesis by auto
qed

lemma those_map_Some: "(\<And>x. x \<in> set xs \<Longrightarrow> f x = Some (g x)) \<Longrightarrow> those (map f xs) = Some (map g xs)"
  by (induction xs) auto

lemma zip_upto_map:
  "map (\<lambda>(i, e). f (a + i) e) (zip [0..int (length es) - 1] es)
     = map (\<lambda>(i, e). f i e) (zip [a..a + int (length es) - 1] es)"
proof -
  have "[a..a + n - 1] = map (\<lambda>i. a + i) [0..n - 1]" for n :: int
    by (rule nth_equalityI) auto
  then show ?thesis by (simp add: zip_map1 split_def comp_def)
qed

text \<open>The last index an iteration of \<open>applicationTicker\<close> may deliver.\<close>

definition applicable :: "('c, 's) Raft \<Rightarrow> int" where
  "applicable rf = min (commitIndex rf) (log_size (rlog rf) - 1)"



subsection \<open>What the group does not promise\<close>

lemma replicationLoop_wedged:
  assumes "replicationLoop ps rf = Some (rf', reqs)"
    and "go_at (nextIndex rf) p = Some 0" "snapLastIdx (rlog rf) = 0" "p \<noteq> me rf"
  shows "go_at (nextIndex rf') p = Some 0 \<and> go_at (matchIndex rf') p = go_at (matchIndex rf) p
    \<and> (\<forall>req \<in> set reqs. target req = p \<longrightarrow> (\<exists>a. req = SendInstall p a \<and> isLastIncludedIndex a = 0))"
  using assms
proof (induction ps arbitrary: rf reqs)
  case (Cons q ps)
  show ?case
  proof (cases "q = me rf")
    case True
    with Cons.prems obtain ni mi where upd: "go_upd (matchIndex rf) q (log_size (rlog rf) - 1) = Some mi"
      "go_upd (nextIndex rf) q (log_size (rlog rf)) = Some ni"
      and rec: "replicationLoop ps (rf\<lparr>matchIndex := mi, nextIndex := ni\<rparr>) = Some (rf', reqs)"
      by (auto dest!: bind_eq_SomeD)
    with True Cons.prems have "go_at ni p = Some 0" "go_at mi p = go_at (matchIndex rf) p"
      using go_at_go_upd [OF upd(1), of p] go_at_go_upd [OF upd(2), of p] by auto
    with Cons.IH [OF rec] Cons.prems show ?thesis by simp
  next
    case False
    with Cons.prems obtain req reqs' where "replicationLoop ps rf = Some (rf', reqs')"
      and "reqs = req # reqs'" and "target req = q"
      and "q = p \<longrightarrow> (\<exists>a. req = SendInstall p a \<and> isLastIncludedIndex a = 0)"
      by (cases "q = p") (auto simp: Let_def split: if_splits dest!: bind_eq_SomeD)
    with Cons.IH Cons.prems(2-4) show ?thesis by auto
  qed
qed simp

text \<open>A leader that has no snapshot and whose \<open>nextIndex\<close> for a peer has fallen to 0 sends that
  peer no entry any more: every round sends it \<open>InstallSnapshot\<close> with index 0, which leaves the
  receiver's log as it is, and the answer leaves \<open>nextIndex\<close> at 0.\<close>

theorem wedged_peer:
  fixes rf :: "('c, 's) Raft"
  assumes "startReplication t rf = Some (b, rf1, reqs)" and "req \<in> set reqs" and "target req = p"
    and "go_at (nextIndex rf) p = Some 0" and "snapLastIdx (rlog rf) = 0" and "p \<noteq> me rf"
    and "go_at (matchIndex rf) p = Some m" and "0 \<le> m"
  shows "\<exists>a. req = SendInstall p a
    \<and> (\<forall>clk (rfp :: ('c, 's) Raft). 0 \<le> snapLastIdx (rlog rfp) \<longrightarrow> rlog (snd (InstallSnapshot clk a rfp)) = rlog rfp)
    \<and> (\<forall>clk r rf2. handleInstallReply clk t p a True r rf1 = Some rf2 \<longrightarrow> go_at (nextIndex rf2) p = Some 0)"
proof -
  from assms(1,2) have "replicationLoop [0..peers rf - 1] rf = Some (rf1, reqs)"
    by (auto simp: startReplication_def split: if_splits dest!: bind_eq_SomeD)
  from replicationLoop_wedged [OF this assms(4-6)] assms(2,3,7) obtain a where
    a: "req = SendInstall p a" "isLastIncludedIndex a = 0" and
    rf1: "go_at (nextIndex rf1) p = Some 0" "go_at (matchIndex rf1) p = Some m" by auto
  have "rlog (snd (InstallSnapshot clk a rfp)) = rlog rfp" if "0 \<le> snapLastIdx (rlog rfp)"
    for clk and rfp :: "('c, 's) Raft"
    using that a(2) by (simp add: InstallSnapshot_def Let_def)
  moreover have "go_at (nextIndex rf2) p = Some 0"
    if "handleInstallReply clk t p a True r rf1 = Some rf2" for clk r rf2
    using that rf1 a(2) assms(8) by (auto simp: handleInstallReply_def split: if_splits)
  ultimately show ?thesis using a(1) by blast
qed

text \<open>Such a state is reached when two rejections of one leader are answered late: peer 1 gets
  \<open>x\<close> from the leader of term 1, wins term 2, and both heartbeats to the empty peer 2 are
  rejected before it backs off.\<close>

definition wedged :: "(string, nat) action list" where
  "wedged = elected @
     [ClientStart 0 ''x'', Replicate 0, Exec 1 (at_ms 1010), Tick 1 (at_ms 2000), Elect 0,
      Exec 4 (at_ms 2001), Return 4 True (at_ms 2002), Replicate 1, Replicate 1,
      Exec 5 (at_ms 2003), Exec 7 (at_ms 2004), Return 7 True (at_ms 2005), Return 5 True (at_ms 2006)]"

theorem wedged_peer_witness:
  "leads (state_after wedged) 1 2 \<and> go_at (nextIndex (node (state_after wedged) 1)) 2 = Some 0
   \<and> (\<exists>b rf1 req reqs a. startReplication 2 (node (state_after wedged) 1) = Some (b, rf1, reqs)
        \<and> req \<in> set reqs \<and> req = SendInstall 2 a \<and> rlog (snd (InstallSnapshot (at_ms 2007) a follower0)) = rlog follower0)"
proof -
  let ?rf = "node (state_after wedged) 1"
  have f: "leads (state_after wedged) 1 2" "go_at (nextIndex ?rf) 2 = Some 0"
    "snapLastIdx (rlog ?rf) = 0" "2 \<noteq> me ?rf" "go_at (matchIndex ?rf) 2 = Some 0"
    "startReplication 2 ?rf \<noteq> None"
    "2 \<in> set (map target (snd (snd (the (startReplication 2 ?rf)))))" "snapLastIdx (rlog follower0) = 0"
    by code_simp+
  then obtain b rf1 reqs req where r: "startReplication 2 ?rf = Some (b, rf1, reqs)" "req \<in> set reqs"
    "target req = 2" by auto
  from wedged_peer [OF r f(2-5)] f(8) obtain a where "req = SendInstall 2 a"
    "rlog (snd (InstallSnapshot (at_ms 2007) a follower0)) = rlog follower0" by auto
  with f r show ?thesis by blast
qed

text \<open>The run: the actions after the common beginning.\<close>

definition diverging :: "(string, nat) action list" where
  "diverging = replicated @
     [Exec 1 (at_ms 1012), ApplyCollect 0, ApplySend 0,
      Tick 1 (at_ms 2000), Elect 0, Exec 5 (at_ms 2001), Return 5 True (at_ms 2002),
      ClientStart 1 ''z'', Replicate 1, Exec 6 (at_ms 2003), Return 6 True (at_ms 2004),
      ApplyWait 1, Replicate 1, Exec 7 (at_ms 2005), Return 7 True (at_ms 2006),
      ApplyCollect 1, ApplySend 1]"

text \<open>C37: state machine safety does not hold: there is a run of three peers, with no crash, in which
  peer 0 delivers \<open>y\<close> to its service as the command at index 2 and peer 1 delivers \<open>z\<close> there.
  A delayed \<open>AppendEntries\<close> that carries fewer entries than a later one removes an
  acknowledged, committed entry, because the handler cuts the log after \<open>PrevLogIndex\<close> even
  when nothing conflicts.\<close>

theorem state_machine_safety_fails:
  "\<exists>s :: (string, nat) cluster. csteps (init_cluster 3) s
     \<and> map (\<lambda>m. (CommandIndex m, Command m)) (delivered s 0) = [(1, Some ''x''), (2, Some ''y'')]
     \<and> map (\<lambda>m. (CommandIndex m, Command m)) (delivered s 1) = [(1, Some ''x''), (2, Some ''z'')]"
proof -
  have "exec_all (init_cluster 3) diverging \<noteq> None" by code_simp
  then have "csteps (init_cluster 3) (state_after diverging)" by (rule state_after_run)
  moreover have "map (\<lambda>m. (CommandIndex m, Command m)) (delivered (state_after diverging) 0)
      = [(1, Some ''x''), (2, Some ''y'')]" by code_simp
  moreover have "map (\<lambda>m. (CommandIndex m, Command m)) (delivered (state_after diverging) 1)
      = [(1, Some ''x''), (2, Some ''z'')]" by code_simp
  ultimately show ?thesis by (intro exI [of _ "state_after diverging"] conjI)
qed

end
