(* ===== verification/LabRPC.thy ===== *)
theory LabRPC
  imports GoPrelude
begin

section \<open>The simulated network, \<open>labrpc/labrpc.go\<close>\<close>

text \<open>
  Clients call methods of servers over a network that may drop requests and replies, delay
  replies, disconnect clients and forget servers. A call is a goroutine of the client
  (\<open>Call\<close>), a goroutine of the network (\<open>processReq\<close>) and one that runs the handler;
  they meet on channels. The model keeps, for every call, where these three stand, and a step
  moves one of them up to its next channel operation, lock, sleep or random choice.

  A server, a service and the object behind it are referred to by pointers: servers and objects
  are indices into lists. A handler is one critical section of its object, a function of the
  object's state and the argument. What \<open>encoding/gob\<close> does to values is the record
  \<open>codec\<close>; random numbers and the expiry of timers are part of the steps. \<open>None\<close> is the end
  of the process (\<open>panic\<close>, \<open>log.Fatalf\<close>).
\<close>

record ('v, 'b) codec =
  cEnc :: "'v \<Rightarrow> 'b option"
  cDec :: "'b \<Rightarrow> 'v option"
  cLen :: "'b \<Rightarrow> int"
  cPartial :: "'v \<Rightarrow> 'b"
  cUnset :: "'b \<Rightarrow> 'v"

text \<open>\<open>cPartial\<close> is what a buffer holds after a failed \<open>Encode\<close>, \<open>cUnset\<close> what a variable
  holds after a failed \<open>Decode\<close>: the code ignores these two errors in a handler.\<close>

subsection \<open>Services and servers\<close>

text \<open>What reflection tells of a method: its name and package path, the number of its arguments
  (the receiver included) and results, and whether its last argument is a pointer.\<close>

record ('v, 'o) meth =
  mName :: string
  mPkgPath :: string
  mNumIn :: nat
  mPtr2 :: bool
  mNumOut :: nat
  mFunc :: "'o \<Rightarrow> 'v \<Rightarrow> 'v \<times> 'o"

record ('v, 'o) service =
  svcName :: string
  svcRcvr :: nat
  svcMethods :: "string \<rightharpoonup> ('v, 'o) meth"

fun add_methods :: "('v, 'o) meth list \<Rightarrow> (string \<rightharpoonup> ('v, 'o) meth) \<Rightarrow> (string \<rightharpoonup> ('v, 'o) meth)" where
  "add_methods [] methods = methods"
| "add_methods (method # rest) methods =
     (if mPkgPath method \<noteq> [] \<or> mNumIn method \<noteq> 3 \<or> \<not> mPtr2 method \<or> mNumOut method \<noteq> 0
      then add_methods rest methods
      else add_methods rest (methods(mName method \<mapsto> method)))"

definition MakeService :: "string \<Rightarrow> nat \<Rightarrow> ('v, 'o) meth list \<Rightarrow> ('v, 'o) service" where
  "MakeService typeName rcvr methods = \<lparr>svcName = typeName, svcRcvr = rcvr, svcMethods = add_methods methods Map.empty\<rparr>"

record ('v, 'o) server =
  srvServices :: "string \<rightharpoonup> ('v, 'o) service"
  srvCount :: int

definition MakeServer :: "('v, 'o) server" where
  "MakeServer = \<lparr>srvServices = Map.empty, srvCount = 0\<rparr>"

definition AddService :: "('v, 'o) service \<Rightarrow> ('v, 'o) server \<Rightarrow> ('v, 'o) server" where
  "AddService svc rs = rs\<lparr>srvServices := (srvServices rs)(svcName svc \<mapsto> svc)\<rparr>"

definition Server_GetCount :: "('v, 'o) server \<Rightarrow> int" where
  "Server_GetCount rs = srvCount rs"

subsection \<open>Requests and the network\<close>

record ('e, 'b) reqMsg =
  rqEndname :: 'e
  rqSvcMeth :: string
  rqArgs :: 'b

record 'b replyMsg =
  rpOk :: bool
  rpReply :: "'b option"

record ('e, 'n) Network =
  reliable :: bool
  longDelays :: bool
  longReordering :: bool
  ends :: "'e set"
  enabled :: "'e \<Rightarrow> bool"
  servers :: "'n \<Rightarrow> nat option"
  connections :: "'e \<Rightarrow> 'n option"
  closed :: bool
  rpcCount :: int
  rpcBytes :: int

definition MakeNetwork :: "('e, 'n) Network" where
  "MakeNetwork = \<lparr>reliable = True, longDelays = False, longReordering = False, ends = {}, enabled = (\<lambda>_. False),
     servers = (\<lambda>_. None), connections = (\<lambda>_. None), closed = False, rpcCount = 0, rpcBytes = 0\<rparr>"

definition Cleanup :: "('e, 'n) Network \<Rightarrow> ('e, 'n) Network option" where
  "Cleanup rn = (if closed rn then None else Some (rn\<lparr>closed := True\<rparr>))"

definition Reliable :: "bool \<Rightarrow> ('e, 'n) Network \<Rightarrow> ('e, 'n) Network" where
  "Reliable yes rn = rn\<lparr>reliable := yes\<rparr>"

definition LongReordering :: "bool \<Rightarrow> ('e, 'n) Network \<Rightarrow> ('e, 'n) Network" where
  "LongReordering yes rn = rn\<lparr>longReordering := yes\<rparr>"

definition LongDelays :: "bool \<Rightarrow> ('e, 'n) Network \<Rightarrow> ('e, 'n) Network" where
  "LongDelays yes rn = rn\<lparr>longDelays := yes\<rparr>"

definition MakeEnd :: "'e \<Rightarrow> ('e, 'n) Network \<Rightarrow> ('e, 'n) Network option" where
  "MakeEnd endname rn =
     (if endname \<in> ends rn then None
      else Some (rn\<lparr>ends := insert endname (ends rn), enabled := (enabled rn)(endname := False),
                    connections := (connections rn)(endname := None)\<rparr>))"

definition AddServer :: "'n \<Rightarrow> nat \<Rightarrow> ('e, 'n) Network \<Rightarrow> ('e, 'n) Network" where
  "AddServer servername rs rn = rn\<lparr>servers := (servers rn)(servername := Some rs)\<rparr>"

definition DeleteServer :: "'n \<Rightarrow> ('e, 'n) Network \<Rightarrow> ('e, 'n) Network" where
  "DeleteServer servername rn = rn\<lparr>servers := (servers rn)(servername := None)\<rparr>"

definition Connect :: "'e \<Rightarrow> 'n \<Rightarrow> ('e, 'n) Network \<Rightarrow> ('e, 'n) Network" where
  "Connect endname servername rn = rn\<lparr>connections := (connections rn)(endname := Some servername)\<rparr>"

definition Enable :: "'e \<Rightarrow> bool \<Rightarrow> ('e, 'n) Network \<Rightarrow> ('e, 'n) Network" where
  "Enable endname yes rn = rn\<lparr>enabled := (enabled rn)(endname := yes)\<rparr>"

definition GetTotalCount :: "('e, 'n) Network \<Rightarrow> int" where
  "GetTotalCount rn = rpcCount rn"

definition GetTotalBytes :: "('e, 'n) Network \<Rightarrow> int" where
  "GetTotalBytes rn = rpcBytes rn"

text \<open>\<open>readEndnameInfo\<close>: enabled, server name, server, reliable, long reordering.\<close>

record 'n endInfo =
  eiEnabled :: bool
  eiName :: "'n option"
  eiServer :: "nat option"
  eiReliable :: bool
  eiReordering :: bool

definition readEndnameInfo :: "'e \<Rightarrow> ('e, 'n) Network \<Rightarrow> 'n endInfo" where
  "readEndnameInfo endname rn = (let servername = connections rn endname in
     \<lparr>eiEnabled = enabled rn endname, eiName = servername,
      eiServer = (case servername of None \<Rightarrow> None | Some n \<Rightarrow> servers rn n),
      eiReliable = reliable rn, eiReordering = longReordering rn\<rparr>)"

definition isServerDead :: "'e \<Rightarrow> 'n option \<Rightarrow> nat option \<Rightarrow> ('e, 'n) Network \<Rightarrow> bool" where
  "isServerDead endname servername srv rn \<longleftrightarrow>
     \<not> enabled rn endname \<or> (case servername of None \<Rightarrow> None | Some n \<Rightarrow> servers rn n) \<noteq> srv"

subsection \<open>Dispatching a request\<close>

text \<open>\<open>strings.LastIndex(s, ".")\<close> and the two slices; without a dot the first slice panics.\<close>

definition split_dot :: "string \<Rightarrow> (string \<times> string) option" where
  "split_dot s = (if CHR ''.'' \<in> set s
     then Some (rev (tl (dropWhile (\<lambda>c. c \<noteq> CHR ''.'') (rev s))), rev (takeWhile (\<lambda>c. c \<noteq> CHR ''.'') (rev s)))
     else None)"

text \<open>A handler runs: the reply message, the argument and the reply as values, the new state of
  the object.\<close>

definition Service_dispatch :: "('v, 'b) codec \<Rightarrow> ('v, 'o) service \<Rightarrow> string \<Rightarrow> 'b \<Rightarrow> 'o
    \<Rightarrow> ('b replyMsg \<times> ('v \<times> 'v) \<times> 'o) option" where
  "Service_dispatch cd svc methname args obj =
     (case svcMethods svc methname of
        None \<Rightarrow> None
      | Some method \<Rightarrow>
          (let arg = (case cDec cd args of None \<Rightarrow> cUnset cd args | Some a \<Rightarrow> a);
               (replyv, obj') = mFunc method obj arg;
               buf = (case cEnc cd replyv of None \<Rightarrow> cPartial cd replyv | Some b \<Rightarrow> b)
           in Some (\<lparr>rpOk = True, rpReply = Some buf\<rparr>, (arg, replyv), obj')))"

definition Server_dispatch :: "('v, 'b) codec \<Rightarrow> ('v, 'o) server \<Rightarrow> ('e, 'b) reqMsg \<Rightarrow> 'o list
    \<Rightarrow> ('b replyMsg \<times> ('v \<times> 'v) \<times> ('v, 'o) server \<times> 'o list) option" where
  "Server_dispatch cd rs req objs = do {
     let rs' = rs\<lparr>srvCount := srvCount rs + 1\<rparr>;
     (serviceName, methodName) \<leftarrow> split_dot (rqSvcMeth req);
     svc \<leftarrow> srvServices rs' serviceName;
     obj \<leftarrow> go_at objs (int (svcRcvr svc));
     (reply, io, obj') \<leftarrow> Service_dispatch cd svc methodName (rqArgs req) obj;
     Some (reply, io, rs', objs[svcRcvr svc := obj']) }"

subsection \<open>A call in flight\<close>

text \<open>
  Where \<open>Call\<close> and \<open>processReq\<close> stand: before the request is taken by the network, before
  \<open>processReq\<close> reads the end's information, waiting for the handler, after the wait with or
  without a reply, waiting for a timer, sending the reply message, returned.
\<close>

datatype ('n, 'b, 'v) stage =
    Sending | Accepted
  | Waiting "'n endInfo" | GotReply "'n endInfo" "'b replyMsg" | GaveUp "'n endInfo"
  | Delayed "'b replyMsg" | TimingOut
  | Replying "'b replyMsg" | Returned "'v option"

text \<open>Where the goroutine of the handler stands.\<close>

datatype 'b handler = NoHandler | Running nat | Finished "'b replyMsg"

text \<open>\<open>cArgs\<close> and \<open>cRan\<close>, the argument of the call and the argument and reply of every execution
  of its handler, are not in the code.\<close>

record ('e, 'n, 'b, 'v) call =
  cReq :: "('e, 'b) reqMsg"
  cStage :: "('n, 'b, 'v) stage"
  cHandler :: "'b handler"
  cArgs :: 'v
  cRan :: "('v \<times> 'v) list"

record ('e, 'n, 'b, 'v, 'o) world =
  wNet :: "('e, 'n) Network"
  wServers :: "('v, 'o) server list"
  wObjs :: "'o list"
  wCalls :: "('e, 'n, 'b, 'v) call list"

definition failure :: "'b replyMsg" where
  "failure = \<lparr>rpOk = False, rpReply = None\<rparr>"

definition reply_len :: "('v, 'b) codec \<Rightarrow> 'b replyMsg \<Rightarrow> int" where
  "reply_len cd rep = (case rpReply rep of None \<Rightarrow> 0 | Some b \<Rightarrow> cLen cd b)"

definition set_call :: "nat \<Rightarrow> ('e, 'n, 'b, 'v) call \<Rightarrow> ('e, 'n, 'b, 'v, 'o) world \<Rightarrow> ('e, 'n, 'b, 'v, 'o) world" where
  "set_call r c w = w\<lparr>wCalls := (wCalls w)[r := c]\<rparr>"

text \<open>\<open>Call\<close> up to its \<open>select\<close> statement.\<close>

definition Call_start :: "('v, 'b) codec \<Rightarrow> 'e \<Rightarrow> string \<Rightarrow> 'v \<Rightarrow> ('e, 'n, 'b, 'v, 'o) world \<Rightarrow> ('e, 'n, 'b, 'v, 'o) world option" where
  "Call_start cd endname svcMeth args w = do {
     b \<leftarrow> cEnc cd args;
     Some (w\<lparr>wCalls := wCalls w @ [\<lparr>cReq = \<lparr>rqEndname = endname, rqSvcMeth = svcMeth, rqArgs = b\<rparr>,
             cStage = Sending, cHandler = NoHandler, cArgs = args, cRan = []\<rparr>]\<rparr>) }"

text \<open>The network takes the request, or the client sees that the network is closed.\<close>

definition net_accept :: "('v, 'b) codec \<Rightarrow> nat \<Rightarrow> ('e, 'n, 'b, 'v, 'o) world \<Rightarrow> ('e, 'n, 'b, 'v, 'o) world option" where
  "net_accept cd r w = do {
     c \<leftarrow> go_at (wCalls w) (int r);
     case cStage c of
       Sending \<Rightarrow> Some (set_call r (c\<lparr>cStage := Accepted\<rparr>)
         (w\<lparr>wNet := (wNet w)\<lparr>rpcCount := rpcCount (wNet w) + 1,
                            rpcBytes := rpcBytes (wNet w) + cLen cd (rqArgs (cReq c))\<rparr>\<rparr>))
     | _ \<Rightarrow> None }"

definition Call_closed :: "nat \<Rightarrow> ('e, 'n, 'b, 'v, 'o) world \<Rightarrow> ('e, 'n, 'b, 'v, 'o) world option" where
  "Call_closed r w = do {
     c \<leftarrow> go_at (wCalls w) (int r);
     case cStage c of
       Sending \<Rightarrow> if closed (wNet w) then Some (set_call r (c\<lparr>cStage := Returned None\<rparr>) w) else None
     | _ \<Rightarrow> None }"

text \<open>\<open>processReq\<close> up to the wait (lines 219 to 249 and 292 to 307); \<open>rnd\<close> is the random number
  that may drop the request.\<close>

definition process_begin :: "nat \<Rightarrow> nat \<Rightarrow> ('e, 'n, 'b, 'v, 'o) world \<Rightarrow> ('e, 'n, 'b, 'v, 'o) world option" where
  "process_begin r rnd w = do {
     c \<leftarrow> go_at (wCalls w) (int r);
     case cStage c of
       Accepted \<Rightarrow>
         (let info = readEndnameInfo (rqEndname (cReq c)) (wNet w) in
          case (eiEnabled info, eiName info, eiServer info) of
            (True, Some n, Some srv) \<Rightarrow>
              if \<not> eiReliable info \<and> rnd mod 1000 < 100 then Some (set_call r (c\<lparr>cStage := Replying failure\<rparr>) w)
              else Some (set_call r (c\<lparr>cStage := Waiting info, cHandler := Running srv\<rparr>) w)
          | _ \<Rightarrow> Some (set_call r (c\<lparr>cStage := TimingOut\<rparr>) w))
     | _ \<Rightarrow> None }"

text \<open>The goroutine of the handler; it runs whether or not \<open>processReq\<close> still waits.\<close>

definition handler_run :: "('v, 'b) codec \<Rightarrow> nat \<Rightarrow> ('e, 'n, 'b, 'v, 'o) world \<Rightarrow> ('e, 'n, 'b, 'v, 'o) world option" where
  "handler_run cd r w = do {
     c \<leftarrow> go_at (wCalls w) (int r);
     case cHandler c of
       Running srv \<Rightarrow> do {
         rs \<leftarrow> go_at (wServers w) (int srv);
         (reply, io, rs', objs') \<leftarrow> Server_dispatch cd rs (cReq c) (wObjs w);
         Some (set_call r (c\<lparr>cHandler := Finished reply, cRan := cRan c @ [io]\<rparr>)
                (w\<lparr>wServers := (wServers w)[srv := rs'], wObjs := objs'\<rparr>)) }
     | _ \<Rightarrow> None }"

text \<open>The two cases of the waiting loop.\<close>

definition wait_reply :: "nat \<Rightarrow> ('e, 'n, 'b, 'v, 'o) world \<Rightarrow> ('e, 'n, 'b, 'v, 'o) world option" where
  "wait_reply r w = do {
     c \<leftarrow> go_at (wCalls w) (int r);
     case (cStage c, cHandler c) of
       (Waiting info, Finished reply) \<Rightarrow> Some (set_call r (c\<lparr>cStage := GotReply info reply, cHandler := NoHandler\<rparr>) w)
     | _ \<Rightarrow> None }"

definition wait_tick :: "nat \<Rightarrow> ('e, 'n, 'b, 'v, 'o) world \<Rightarrow> ('e, 'n, 'b, 'v, 'o) world option" where
  "wait_tick r w = do {
     c \<leftarrow> go_at (wCalls w) (int r);
     case cStage c of
       Waiting info \<Rightarrow>
         if isServerDead (rqEndname (cReq c)) (eiName info) (eiServer info) (wNet w)
         then Some (set_call r (c\<lparr>cStage := GaveUp info\<rparr>) w) else Some w
     | _ \<Rightarrow> None }"

text \<open>After the wait (lines 270 to 291), with the two random numbers it may draw.\<close>

definition process_end :: "('v, 'b) codec \<Rightarrow> nat \<Rightarrow> nat \<Rightarrow> nat \<Rightarrow> ('e, 'n, 'b, 'v, 'o) world \<Rightarrow> ('e, 'n, 'b, 'v, 'o) world option" where
  "process_end cd r rnd1 rnd2 w = do {
     c \<leftarrow> go_at (wCalls w) (int r);
     case cStage c of
       GaveUp info \<Rightarrow> Some (set_call r (c\<lparr>cStage := Replying failure\<rparr>) w)
     | GotReply info reply \<Rightarrow>
         if isServerDead (rqEndname (cReq c)) (eiName info) (eiServer info) (wNet w)
         then Some (set_call r (c\<lparr>cStage := Replying failure\<rparr>) w)
         else if \<not> eiReliable info \<and> rnd1 mod 1000 < 100
         then Some (set_call r (c\<lparr>cStage := Replying failure\<rparr>) w)
         else if eiReordering info \<and> rnd2 mod 900 < 600
         then Some (set_call r (c\<lparr>cStage := Delayed reply\<rparr>) w)
         else Some (set_call r (c\<lparr>cStage := Replying reply\<rparr>)
                (w\<lparr>wNet := (wNet w)\<lparr>rpcBytes := rpcBytes (wNet w) + reply_len cd reply\<rparr>\<rparr>))
     | _ \<Rightarrow> None }"

text \<open>The functions given to \<open>time.AfterFunc\<close>.\<close>

definition timer_fires :: "('v, 'b) codec \<Rightarrow> nat \<Rightarrow> ('e, 'n, 'b, 'v, 'o) world \<Rightarrow> ('e, 'n, 'b, 'v, 'o) world option" where
  "timer_fires cd r w = do {
     c \<leftarrow> go_at (wCalls w) (int r);
     case cStage c of
       Delayed reply \<Rightarrow> Some (set_call r (c\<lparr>cStage := Replying reply\<rparr>)
                (w\<lparr>wNet := (wNet w)\<lparr>rpcBytes := rpcBytes (wNet w) + reply_len cd reply\<rparr>\<rparr>))
     | TimingOut \<Rightarrow> Some (set_call r (c\<lparr>cStage := Replying failure\<rparr>) w)
     | _ \<Rightarrow> None }"

text \<open>The end of \<open>Call\<close> (lines 112 to 122).\<close>

definition Call_return :: "('v, 'b) codec \<Rightarrow> nat \<Rightarrow> ('e, 'n, 'b, 'v, 'o) world \<Rightarrow> ('e, 'n, 'b, 'v, 'o) world option" where
  "Call_return cd r w = do {
     c \<leftarrow> go_at (wCalls w) (int r);
     case cStage c of
       Replying rep \<Rightarrow>
         if rpOk rep then do {
           b \<leftarrow> rpReply rep;
           v \<leftarrow> cDec cd b;
           Some (set_call r (c\<lparr>cStage := Returned (Some v)\<rparr>) w) }
         else Some (set_call r (c\<lparr>cStage := Returned None\<rparr>) w)
     | _ \<Rightarrow> None }"

definition Network_GetCount :: "'n \<Rightarrow> ('e, 'n, 'b, 'v, 'o) world \<Rightarrow> int option" where
  "Network_GetCount servername w = do {
     srv \<leftarrow> servers (wNet w) servername;
     rs \<leftarrow> go_at (wServers w) (int srv);
     Some (Server_GetCount rs) }"

subsection \<open>Runs\<close>

text \<open>
  The steps of a call, and what the test drivers and the objects do meanwhile: change the
  configuration of the network, add servers and services, change the state of objects.
\<close>

inductive call_step :: "('v, 'b) codec \<Rightarrow> nat \<Rightarrow> ('e, 'n, 'b, 'v, 'o) world \<Rightarrow> ('e, 'n, 'b, 'v, 'o) world \<Rightarrow> bool" for cd r where
  step_accept: "net_accept cd r w = Some w' \<Longrightarrow> call_step cd r w w'"
| step_closed: "Call_closed r w = Some w' \<Longrightarrow> call_step cd r w w'"
| step_begin: "process_begin r rnd w = Some w' \<Longrightarrow> call_step cd r w w'"
| step_handler: "handler_run cd r w = Some w' \<Longrightarrow> call_step cd r w w'"
| step_wait_reply: "wait_reply r w = Some w' \<Longrightarrow> call_step cd r w w'"
| step_wait_tick: "wait_tick r w = Some w' \<Longrightarrow> call_step cd r w w'"
| step_end: "process_end cd r rnd1 rnd2 w = Some w' \<Longrightarrow> call_step cd r w w'"
| step_timer: "timer_fires cd r w = Some w' \<Longrightarrow> call_step cd r w w'"
| step_return: "Call_return cd r w = Some w' \<Longrightarrow> call_step cd r w w'"

inductive config_step :: "('e, 'n, 'b, 'v, 'o) world \<Rightarrow> ('e, 'n, 'b, 'v, 'o) world \<Rightarrow> bool" where
  conf_cleanup: "Cleanup (wNet w) = Some rn \<Longrightarrow> config_step w (w\<lparr>wNet := rn\<rparr>)"
| conf_reliable: "config_step w (w\<lparr>wNet := Reliable yes (wNet w)\<rparr>)"
| conf_reordering: "config_step w (w\<lparr>wNet := LongReordering yes (wNet w)\<rparr>)"
| conf_delays: "config_step w (w\<lparr>wNet := LongDelays yes (wNet w)\<rparr>)"
| conf_end: "MakeEnd e (wNet w) = Some rn \<Longrightarrow> config_step w (w\<lparr>wNet := rn\<rparr>)"
| conf_add: "s < length (wServers w) \<Longrightarrow> config_step w (w\<lparr>wNet := AddServer n s (wNet w)\<rparr>)"
| conf_delete: "config_step w (w\<lparr>wNet := DeleteServer n (wNet w)\<rparr>)"
| conf_connect: "config_step w (w\<lparr>wNet := Connect e n (wNet w)\<rparr>)"
| conf_enable: "config_step w (w\<lparr>wNet := Enable e yes (wNet w)\<rparr>)"
| conf_server: "config_step w (w\<lparr>wServers := wServers w @ [MakeServer]\<rparr>)"
| conf_service: "s < length (wServers w) \<Longrightarrow> config_step w (w\<lparr>wServers := (wServers w)[s := AddService svc (wServers w ! s)]\<rparr>)"
| conf_object: "config_step w (w\<lparr>wObjs := objs\<rparr>)"

inductive rpc_step :: "('v, 'b) codec \<Rightarrow> ('e, 'n, 'b, 'v, 'o) world \<Rightarrow> ('e, 'n, 'b, 'v, 'o) world \<Rightarrow> bool" for cd where
  rpc_call: "Call_start cd e m a w = Some w' \<Longrightarrow> rpc_step cd w w'"
| rpc_progress: "call_step cd r w w' \<Longrightarrow> rpc_step cd w w'"
| rpc_config: "config_step w w' \<Longrightarrow> rpc_step cd w w'"

definition start_world :: "'o list \<Rightarrow> ('e, 'n, 'b, 'v, 'o) world" where
  "start_world objs = \<lparr>wNet = MakeNetwork, wServers = [], wObjs = objs, wCalls = []\<rparr>"

text \<open>What the code expects of the encoder: values come back as they were.\<close>

definition codec_ok :: "('v, 'b) codec \<Rightarrow> bool" where
  "codec_ok cd \<longleftrightarrow> (\<forall>v. \<exists>b. cEnc cd v = Some b \<and> cDec cd b = Some v)"

subsection \<open>The invariant of a call\<close>

definition answers :: "('v, 'b) codec \<Rightarrow> ('e, 'n, 'b, 'v) call \<Rightarrow> 'b replyMsg \<Rightarrow> bool" where
  "answers cd c rep \<longleftrightarrow> (\<exists>v b. cRan c = [(cArgs c, v)] \<and> rep = \<lparr>rpOk = True, rpReply = Some b\<rparr> \<and> cDec cd b = Some v)"

definition handler_ok :: "('v, 'b) codec \<Rightarrow> ('e, 'n, 'b, 'v) call \<Rightarrow> bool" where
  "handler_ok cd c \<longleftrightarrow> (case cHandler c of
     NoHandler \<Rightarrow> True | Running s \<Rightarrow> cRan c = [] | Finished rep \<Rightarrow> answers cd c rep)"

definition call_ok :: "('v, 'b) codec \<Rightarrow> ('e, 'n, 'b, 'v) call \<Rightarrow> bool" where
  "call_ok cd c \<longleftrightarrow> cDec cd (rqArgs (cReq c)) = Some (cArgs c) \<and> length (cRan c) \<le> 1 \<and> handler_ok cd c
     \<and> (case cStage c of
          Sending \<Rightarrow> cHandler c = NoHandler \<and> cRan c = []
        | Accepted \<Rightarrow> cHandler c = NoHandler \<and> cRan c = []
        | Waiting info \<Rightarrow> cHandler c \<noteq> NoHandler \<and> eiServer info \<noteq> None
        | GotReply info rep \<Rightarrow> answers cd c rep \<and> cHandler c = NoHandler
        | GaveUp info \<Rightarrow> True
        | Delayed rep \<Rightarrow> answers cd c rep \<and> cHandler c = NoHandler
        | TimingOut \<Rightarrow> True
        | Replying rep \<Rightarrow> rpOk rep \<longrightarrow> answers cd c rep \<and> cHandler c = NoHandler
        | Returned res \<Rightarrow> (case res of None \<Rightarrow> True | Some v \<Rightarrow> cRan c = [(cArgs c, v)] \<and> cHandler c = NoHandler))"

definition calls_ok :: "('v, 'b) codec \<Rightarrow> ('e, 'n, 'b, 'v, 'o) world \<Rightarrow> bool" where
  "calls_ok cd w \<longleftrightarrow> (\<forall>c \<in> set (wCalls w). call_ok cd c)"

lemma calls_ok_set: "calls_ok cd w \<Longrightarrow> call_ok cd c \<Longrightarrow> calls_ok cd (set_call r c w)"
  using set_update_subset_insert [of "wCalls w" r c] by (auto simp: calls_ok_def set_call_def)

lemma calls_ok_at: "calls_ok cd w \<Longrightarrow> go_at (wCalls w) (int r) = Some c \<Longrightarrow> call_ok cd c"
  by (auto simp: calls_ok_def go_simps go_len_def)

lemma calls_ok_cong: "wCalls w' = wCalls w \<Longrightarrow> calls_ok cd w' = calls_ok cd w"
  by (simp add: calls_ok_def)

lemma Service_dispatch_answers:
  assumes "codec_ok cd" "Service_dispatch cd svc m args obj = Some (rep, io, obj')" "cDec cd args = Some a"
  shows "\<exists>v b. io = (a, v) \<and> rep = \<lparr>rpOk = True, rpReply = Some b\<rparr> \<and> cDec cd b = Some v"
proof -
  obtain mt where m: "svcMethods svc m = Some mt" using assms(2) by (auto simp: Service_dispatch_def split: option.splits)
  obtain v obj2 where f: "mFunc mt obj a = (v, obj2)" by fastforce
  obtain b where "cEnc cd v = Some b" "cDec cd b = Some v" using assms(1) unfolding codec_ok_def by blast
  with m f assms(2,3) show ?thesis by (auto simp: Service_dispatch_def)
qed

lemma Server_dispatch_answers:
  assumes "codec_ok cd" "Server_dispatch cd rs req objs = Some (rep, io, rs', objs')" "cDec cd (rqArgs req) = Some a"
  shows "\<exists>v b. io = (a, v) \<and> rep = \<lparr>rpOk = True, rpReply = Some b\<rparr> \<and> cDec cd b = Some v"
  using assms(2) Service_dispatch_answers [OF assms(1) _ assms(3)]
  by (fastforce simp: Server_dispatch_def Let_def bind_eq_Some_conv)

lemmas call_simps = set_call_def call_ok_def handler_ok_def answers_def failure_def

definition dispatched :: "('v, 'b) codec \<Rightarrow> ('e, 'b) reqMsg \<Rightarrow> 'v \<times> 'v \<Rightarrow> 'b replyMsg \<Rightarrow> bool" where
  "dispatched cd req io reply \<longleftrightarrow> (\<forall>a. cDec cd (rqArgs req) = Some a
     \<longrightarrow> (\<exists>v b. io = (a, v) \<and> reply = \<lparr>rpOk = True, rpReply = Some b\<rparr> \<and> cDec cd b = Some v))"

lemma Server_dispatch_dispatched:
  "codec_ok cd \<Longrightarrow> Server_dispatch cd rs req objs = Some (reply, io, rs', objs') \<Longrightarrow> dispatched cd req io reply"
  unfolding dispatched_def by (intro allI impI) (rule Server_dispatch_answers)

text \<open>What a step does to its call.\<close>

inductive local_step :: "('v, 'b) codec \<Rightarrow> ('e, 'n, 'b, 'v) call \<Rightarrow> ('e, 'n, 'b, 'v) call \<Rightarrow> bool" for cd where
  l_accept: "cStage c = Sending \<Longrightarrow> local_step cd c (c\<lparr>cStage := Accepted\<rparr>)"
| l_closed: "cStage c = Sending \<Longrightarrow> local_step cd c (c\<lparr>cStage := Returned None\<rparr>)"
| l_drop: "cStage c = Accepted \<Longrightarrow> local_step cd c (c\<lparr>cStage := Replying failure\<rparr>)"
| l_wait: "cStage c = Accepted \<Longrightarrow> eiServer info = Some srv
    \<Longrightarrow> local_step cd c (c\<lparr>cStage := Waiting info, cHandler := Running srv\<rparr>)"
| l_timing: "cStage c = Accepted \<Longrightarrow> local_step cd c (c\<lparr>cStage := TimingOut\<rparr>)"
| l_handler: "cHandler c = Running srv \<Longrightarrow> dispatched cd (cReq c) io reply
    \<Longrightarrow> local_step cd c (c\<lparr>cHandler := Finished reply, cRan := cRan c @ [io]\<rparr>)"
| l_reply: "cStage c = Waiting info \<Longrightarrow> cHandler c = Finished reply
    \<Longrightarrow> local_step cd c (c\<lparr>cStage := GotReply info reply, cHandler := NoHandler\<rparr>)"
| l_same: "local_step cd c c"
| l_gave_up: "cStage c = Waiting info \<Longrightarrow> local_step cd c (c\<lparr>cStage := GaveUp info\<rparr>)"
| l_failed: "cStage c = GaveUp info \<Longrightarrow> local_step cd c (c\<lparr>cStage := Replying failure\<rparr>)"
| l_lost: "cStage c = GotReply info reply \<Longrightarrow> local_step cd c (c\<lparr>cStage := Replying failure\<rparr>)"
| l_delay: "cStage c = GotReply info reply \<Longrightarrow> local_step cd c (c\<lparr>cStage := Delayed reply\<rparr>)"
| l_send: "cStage c = GotReply info reply \<Longrightarrow> local_step cd c (c\<lparr>cStage := Replying reply\<rparr>)"
| l_delayed: "cStage c = Delayed reply \<Longrightarrow> local_step cd c (c\<lparr>cStage := Replying reply\<rparr>)"
| l_timeout: "cStage c = TimingOut \<Longrightarrow> local_step cd c (c\<lparr>cStage := Replying failure\<rparr>)"
| l_ok: "cStage c = Replying rep \<Longrightarrow> rpOk rep \<Longrightarrow> rpReply rep = Some b \<Longrightarrow> cDec cd b = Some v
    \<Longrightarrow> local_step cd c (c\<lparr>cStage := Returned (Some v)\<rparr>)"
| l_fail: "cStage c = Replying rep \<Longrightarrow> \<not> rpOk rep \<Longrightarrow> local_step cd c (c\<lparr>cStage := Returned None\<rparr>)"

lemmas op_defs = net_accept_def Call_closed_def process_begin_def handler_run_def wait_reply_def wait_tick_def
  process_end_def timer_fires_def Call_return_def

lemma call_step_local:
  assumes cd: "codec_ok cd" and step: "call_step cd r w w'"
  obtains c c' where "go_at (wCalls w) (int r) = Some c" "wCalls w' = (wCalls w)[r := c']" "local_step cd c c'"
proof -
  obtain c where c: "go_at (wCalls w) (int r) = Some c"
    using step by cases (cases "go_at (wCalls w) (int r)"; simp add: op_defs)+
  from c have upd: "wCalls w = (wCalls w)[r := c]" by (auto simp: go_simps go_len_def)
  from step have "\<exists>c'. wCalls w' = (wCalls w)[r := c'] \<and> local_step cd c c'"
  proof cases
    case step_accept
    then show ?thesis using c by (cases "cStage c") (auto simp: net_accept_def set_call_def intro: local_step.intros)
  next
    case step_closed
    then show ?thesis using c
      by (cases "cStage c") (auto simp: Call_closed_def set_call_def split: if_splits intro: local_step.intros)
  next
    case (step_begin rnd)
    then show ?thesis using c
      by (cases "cStage c") (auto simp: process_begin_def Let_def set_call_def split: if_splits option.splits bool.splits intro: local_step.intros)
  next
    case step_handler
    then show ?thesis using c
      by (cases "cHandler c") (auto simp: handler_run_def bind_eq_Some_conv set_call_def dest!: Server_dispatch_dispatched [OF cd] intro: local_step.l_handler)
  next
    case step_wait_reply
    then show ?thesis using c
      by (cases "cStage c"; cases "cHandler c") (auto simp: wait_reply_def set_call_def intro: local_step.intros)
  next
    case step_wait_tick
    then show ?thesis using c upd
      by (cases "cStage c") (auto simp: wait_tick_def set_call_def split: if_splits intro: local_step.intros)
  next
    case (step_end rnd1 rnd2)
    then show ?thesis using c
      by (cases "cStage c") (auto simp: process_end_def set_call_def split: if_splits intro: local_step.intros)
  next
    case step_timer
    then show ?thesis using c by (cases "cStage c") (auto simp: timer_fires_def set_call_def intro: local_step.intros)
  next
    case step_return
    then show ?thesis using c
      by (cases "cStage c") (auto simp: Call_return_def set_call_def bind_eq_Some_conv split: if_splits intro: local_step.intros)
  qed
  with c that show thesis by blast
qed

lemma local_step_ok:
  assumes cd: "codec_ok cd" and "local_step cd c c'" "call_ok cd c"
  shows "call_ok cd c'"
  using assms(2,3)
proof cases
  case (l_handler srv io reply)
  obtain v b where "io = (cArgs c, v)" "reply = \<lparr>rpOk = True, rpReply = Some b\<rparr>" "cDec cd b = Some v"
    using l_handler(3) assms(3) by (auto simp: call_ok_def dispatched_def)
  then show ?thesis using assms(3) l_handler(1,2) by (cases "cStage c") (auto simp: call_simps split: option.splits)
qed (auto simp: call_simps split: handler.splits)

lemma call_step_ok:
  assumes "codec_ok cd" "calls_ok cd w" "call_step cd r w w'"
  shows "calls_ok cd w'"
proof -
  obtain c c' where c: "go_at (wCalls w) (int r) = Some c" "wCalls w' = (wCalls w)[r := c']" "local_step cd c c'"
    by (rule call_step_local [OF assms(1,3)])
  from local_step_ok [OF assms(1) c(3) calls_ok_at [OF assms(2) c(1)]] have "call_ok cd c'" .
  from calls_ok_set [OF assms(2) this, of r] show ?thesis using c(2) by (simp add: calls_ok_def set_call_def)
qed

lemma rpc_step_ok:
  assumes "codec_ok cd" "calls_ok cd w" "rpc_step cd w w'"
  shows "calls_ok cd w'"
  using assms(3)
proof cases
  case (rpc_call e m a)
  moreover obtain b where "cEnc cd a = Some b" "cDec cd b = Some a" using assms(1) unfolding codec_ok_def by blast
  ultimately show ?thesis using assms(2) by (auto simp: Call_start_def calls_ok_def call_ok_def handler_ok_def)
next
  case (rpc_progress r)
  then show ?thesis by (rule call_step_ok [OF assms(1,2)])
next
  case rpc_config
  then show ?thesis using assms(2) by cases (simp_all add: calls_ok_def)
qed

lemma rpc_run_ok:
  assumes "codec_ok cd" "(rpc_step cd)\<^sup>*\<^sup>* (start_world objs) w"
  shows "calls_ok cd w"
  using assms(2)
proof (induction rule: rtranclp_induct)
  case base
  show ?case by (simp add: start_world_def calls_ok_def)
next
  case (step w w')
  then show ?case using rpc_step_ok [OF assms(1)] by blast
qed

subsection \<open>What a caller may rely on\<close>

text \<open>C32: a handler runs at most once for a call, whatever is lost, delayed, disabled or deleted;
  and a call that returns true returns the reply of that one execution on its own argument.\<close>

theorem rpc_at_most_once:
  assumes "codec_ok cd" "(rpc_step cd)\<^sup>*\<^sup>* (start_world objs) w" "c \<in> set (wCalls w)"
  shows "length (cRan c) \<le> 1 \<and> (\<forall>v. cStage c = Returned (Some v) \<longrightarrow> cRan c = [(cArgs c, v)])"
  using rpc_run_ok [OF assms(1,2)] assms(3) by (auto simp: calls_ok_def call_ok_def)

text \<open>A network with one server that stores the numbers it is sent.\<close>

definition id_codec :: "(nat, nat) codec" where
  "id_codec = \<lparr>cEnc = Some, cDec = Some, cLen = (\<lambda>_. 1), cPartial = id, cUnset = id\<rparr>"

definition cell_service :: "(nat, nat) service" where
  "cell_service = MakeService ''Cell'' 0
     [\<lparr>mName = ''Swap'', mPkgPath = [], mNumIn = 3, mPtr2 = True, mNumOut = 0, mFunc = (\<lambda>old new. (old, new))\<rparr>]"

definition cell_world :: "(nat, nat, nat, nat, nat) world" where
  "cell_world = \<lparr>wNet = Enable 7 True (Connect 7 5 (AddServer 5 0 MakeNetwork)),
     wServers = [AddService cell_service MakeServer], wObjs = [3], wCalls = []\<rparr>"

definition cell_done :: "(nat, nat, nat, nat, nat) world option" where
  "cell_done = do {
     w1 \<leftarrow> Call_start id_codec 7 ''Cell.Swap'' 9 cell_world;
     w2 \<leftarrow> net_accept id_codec 0 w1;
     w3 \<leftarrow> process_begin 0 0 w2;
     w4 \<leftarrow> handler_run id_codec 0 w3;
     w5 \<leftarrow> wait_reply 0 w4;
     w6 \<leftarrow> process_end id_codec 0 0 0 w5;
     Call_return id_codec 0 w6 }"

lemma id_codec_ok: "codec_ok id_codec"
  by (simp add: codec_ok_def id_codec_def)

lemma cell_world_reachable: "(rpc_step id_codec)\<^sup>*\<^sup>* (start_world [3]) cell_world"
proof -
  let ?w0 = "start_world [3] :: (nat, nat, nat, nat, nat) world"
  let ?w1 = "?w0\<lparr>wServers := wServers ?w0 @ [MakeServer]\<rparr>"
  let ?w2 = "?w1\<lparr>wServers := (wServers ?w1)[0 := AddService cell_service (wServers ?w1 ! 0)]\<rparr>"
  let ?w3 = "?w2\<lparr>wNet := AddServer 5 0 (wNet ?w2)\<rparr>"
  let ?w4 = "?w3\<lparr>wNet := Connect 7 5 (wNet ?w3)\<rparr>"
  let ?w5 = "?w4\<lparr>wNet := Enable 7 True (wNet ?w4)\<rparr>"
  have "config_step ?w0 ?w1" by (rule conf_server)
  moreover have "config_step ?w1 ?w2" by (rule conf_service) (simp add: start_world_def)
  moreover have "config_step ?w2 ?w3" by (rule conf_add) (simp add: start_world_def)
  moreover have "config_step ?w3 ?w4" by (rule conf_connect)
  moreover have "config_step ?w4 ?w5" by (rule conf_enable)
  ultimately have "(rpc_step id_codec)\<^sup>*\<^sup>* ?w0 ?w5" by (meson converse_rtranclp_into_rtranclp rpc_config rtranclp.rtrancl_refl)
  moreover have "?w5 = cell_world" by (simp add: start_world_def cell_world_def)
  ultimately show ?thesis by simp
qed

lemma cell_done_reachable:
  assumes "cell_done = Some w"
  shows "(rpc_step id_codec)\<^sup>*\<^sup>* (start_world [3]) w"
proof -
  from assms obtain w1 w2 w3 w4 w5 w6 where
    "Call_start id_codec 7 ''Cell.Swap'' 9 cell_world = Some w1" "net_accept id_codec 0 w1 = Some w2"
    "process_begin 0 0 w2 = Some w3" "handler_run id_codec 0 w3 = Some w4" "wait_reply 0 w4 = Some w5"
    "process_end id_codec 0 0 0 w5 = Some w6" "Call_return id_codec 0 w6 = Some w"
    by (auto simp: cell_done_def bind_eq_Some_conv)
  then have "rpc_step id_codec cell_world w1" "rpc_step id_codec w1 w2" "rpc_step id_codec w2 w3" "rpc_step id_codec w3 w4"
    "rpc_step id_codec w4 w5" "rpc_step id_codec w5 w6" "rpc_step id_codec w6 w"
    by (blast intro: rpc_step.intros call_step.intros)+
  with cell_world_reachable show ?thesis by (meson rtranclp.rtrancl_into_rtrancl)
qed

lemma cell_done_value:
  "map_option (\<lambda>w. (map cStage (wCalls w), map cRan (wCalls w), wObjs w)) cell_done = Some ([Returned (Some 3)], [[(9, 3)]], [9])"
  by code_simp

theorem rpc_at_most_once_witness:
  "\<exists>w c. cell_done = Some w \<and> wCalls w = [c] \<and> cStage c = Returned (Some 3) \<and> cRan c = [(cArgs c, 3)]"
proof -
  obtain w where w: "cell_done = Some w" "map cStage (wCalls w) = [Returned (Some 3)]"
    using cell_done_value by (cases cell_done) auto
  then obtain c where c: "wCalls w = [c]" "cStage c = Returned (Some 3)" by (cases "wCalls w") auto
  then have "c \<in> set (wCalls w)" by simp
  from rpc_at_most_once [OF id_codec_ok cell_done_reachable [OF w(1)] this] c w(1) show ?thesis by blast
qed

subsection \<open>Deleted servers\<close>

definition gone :: "'e \<Rightarrow> 'n endInfo \<Rightarrow> ('e, 'n, 'b, 'v, 'o) world \<Rightarrow> bool" where
  "gone e info w \<longleftrightarrow> isServerDead e (eiName info) (eiServer info) (wNet w)"

definition unanswered :: "nat \<Rightarrow> 'e \<Rightarrow> 'n endInfo \<Rightarrow> ('e, 'n, 'b, 'v, 'o) world \<Rightarrow> bool" where
  "unanswered r e info w \<longleftrightarrow> r < length (wCalls w) \<and> rqEndname (cReq (wCalls w ! r)) = e
     \<and> (cStage (wCalls w ! r) \<in> {Waiting info, GaveUp info, Replying failure, Returned None}
        \<or> (\<exists>rep. cStage (wCalls w ! r) = GotReply info rep))"

lemma local_step_req: "local_step cd c c' \<Longrightarrow> cReq c' = cReq c"
  by (induction rule: local_step.induct) simp_all

lemma unanswered_step:
  assumes un: "unanswered r e info w" and gone: "gone e info w" and step: "call_step cd r w w'"
  shows "unanswered r e info w'"
proof -
  let ?c = "wCalls w ! r"
  have r: "r < length (wCalls w)" "go_at (wCalls w) (int r) = Some ?c" "rqEndname (cReq ?c) = e"
    using un by (auto simp: unanswered_def)
  have dead: "isServerDead (rqEndname (cReq ?c)) (eiName info) (eiServer info) (wNet w)" using gone r(3) by (simp add: gone_def)
  consider "cStage ?c = Waiting info" | "cStage ?c = GaveUp info" | "cStage ?c = Replying failure" | "cStage ?c = Returned None"
    | rep where "cStage ?c = GotReply info rep" using un by (auto simp: unanswered_def)
  then show ?thesis
    using step
  proof cases
    case 1
    from step show ?thesis using 1 r dead
      by cases (auto simp: op_defs unanswered_def set_call_def bind_eq_Some_conv split: handler.splits prod.splits)
  next
    case 2
    from step show ?thesis using 2 r
      by cases (auto simp: op_defs unanswered_def set_call_def bind_eq_Some_conv split: handler.splits prod.splits)
  next
    case 3
    from step show ?thesis using 3 r
      by cases (auto simp: op_defs unanswered_def set_call_def bind_eq_Some_conv failure_def split: handler.splits prod.splits)
  next
    case 4
    from step show ?thesis using 4 r
      by cases (auto simp: op_defs unanswered_def set_call_def bind_eq_Some_conv split: handler.splits prod.splits)
  next
    case 5
    from step show ?thesis using 5 r dead
      by cases (auto simp: op_defs unanswered_def set_call_def bind_eq_Some_conv split: handler.splits prod.splits)
  qed
qed

lemma handler_run_net:
  assumes "handler_run cd r w = Some w'"
  shows "wNet w' = wNet w"
proof -
  obtain c where "go_at (wCalls w) (int r) = Some c" using assms by (cases "go_at (wCalls w) (int r)") (auto simp: handler_run_def)
  then show ?thesis using assms by (cases "cHandler c") (auto simp: handler_run_def bind_eq_Some_conv set_call_def)
qed

lemma other_step:
  assumes "codec_ok cd" "call_step cd r' w w'" "r' \<noteq> r"
  shows "wCalls w' ! r = wCalls w ! r \<and> length (wCalls w') = length (wCalls w)"
  using call_step_local [OF assms(1,2)] assms(3) by (metis length_list_update nth_list_update_neq)

lemma unanswered_rpc_step:
  assumes cd: "codec_ok cd" and un: "unanswered r e info w" and gone: "gone e info w" and step: "rpc_step cd w w'"
  shows "unanswered r e info w'"
  using step
proof cases
  case (rpc_call e' m a)
  then show ?thesis using un by (auto simp: Call_start_def bind_eq_Some_conv unanswered_def nth_append)
next
  case (rpc_progress r')
  show ?thesis
  proof (cases "r' = r")
    case True
    then show ?thesis using unanswered_step [OF un gone] rpc_progress by simp
  next
    case False
    from other_step [OF cd rpc_progress False] un show ?thesis by (simp add: unanswered_def)
  qed
next
  case rpc_config
  then show ?thesis using un by cases (simp_all add: unanswered_def)
qed

text \<open>Once a server has been deleted, or the client's end disabled, a call that has not been
  answered yet returns no reply: as long as the server stays away \<open>Call\<close> cannot return true,
  even if the handler runs or has run (the comment at line 264 of \<open>labrpc.go\<close>).\<close>

theorem rpc_no_reply_after_delete:
  assumes "codec_ok cd" "unanswered r e info w" "gone e info w"
    and "(\<lambda>w w'. rpc_step cd w w' \<and> gone e info w')\<^sup>*\<^sup>* w w'"
  shows "cStage (wCalls w' ! r) \<noteq> Returned (Some v)"
proof -
  from assms(4) have "unanswered r e info w' \<and> gone e info w'"
  proof (induction rule: rtranclp_induct)
    case base
    show ?case using assms(2,3) by blast
  next
    case (step y z)
    then show ?case using unanswered_rpc_step [OF assms(1), of r e info y z] by simp
  qed
  then show ?thesis by (auto simp: unanswered_def)
qed

text \<open>The server is deleted while the handler runs; the handler still changes its object.\<close>

definition cell_waiting :: "(nat, nat, nat, nat, nat) world option" where
  "cell_waiting = do {
     w1 \<leftarrow> Call_start id_codec 7 ''Cell.Swap'' 9 cell_world;
     w2 \<leftarrow> net_accept id_codec 0 w1;
     w3 \<leftarrow> process_begin 0 0 w2;
     Some (w3\<lparr>wNet := DeleteServer 5 (wNet w3)\<rparr>) }"

definition cell_info :: "nat endInfo" where
  "cell_info = \<lparr>eiEnabled = True, eiName = Some 5, eiServer = Some 0, eiReliable = True, eiReordering = False\<rparr>"

lemma cell_waiting_value:
  "map_option (\<lambda>w. (map (\<lambda>c. (cStage c, rqEndname (cReq c))) (wCalls w), servers (wNet w) 5)) cell_waiting = Some ([(Waiting cell_info, 7)], None)"
  by code_simp

theorem rpc_no_reply_after_delete_witness:
  "\<exists>w w'. cell_waiting = Some w \<and> handler_run id_codec 0 w = Some w' \<and> wObjs w' = [9] \<and> cStage (wCalls w' ! 0) \<noteq> Returned (Some 3)"
proof -
  obtain w where w: "cell_waiting = Some w" "map (\<lambda>c. (cStage c, rqEndname (cReq c))) (wCalls w) = [(Waiting cell_info, 7)]"
      "servers (wNet w) 5 = None"
    using cell_waiting_value by (cases cell_waiting) auto
  have un: "unanswered 0 7 cell_info w" using w(2) by (cases "wCalls w") (auto simp: unanswered_def)
  have dead: "gone 7 cell_info w" using w(3) by (simp add: gone_def isServerDead_def cell_info_def)
  have "map_option wObjs (Option.bind cell_waiting (handler_run id_codec 0)) = Some [9]" by code_simp
  then have "map_option wObjs (handler_run id_codec 0 w) = Some [9]" unfolding w(1) by simp
  then obtain w' where w': "handler_run id_codec 0 w = Some w'" "wObjs w' = [9]" by auto
  have net: "wNet w' = wNet w" by (rule handler_run_net [OF w'(1)])
  have "rpc_step id_codec w w' \<and> gone 7 cell_info w'"
    using w'(1) dead net by (auto simp: gone_def intro: rpc_progress step_handler)
  then have "(\<lambda>w w'. rpc_step id_codec w w' \<and> gone 7 cell_info w')\<^sup>*\<^sup>* w w'" by (rule r_into_rtranclp)
  from rpc_no_reply_after_delete [OF id_codec_ok un dead this] show ?thesis using w(1) w' by blast
qed

subsection \<open>Reliable networks\<close>

definition known_method :: "string \<Rightarrow> nat \<Rightarrow> ('e, 'n, 'b, 'v, 'o) world \<Rightarrow> bool" where
  "known_method m s w \<longleftrightarrow> s < length (wServers w) \<and> (\<exists>sn mn svc meth. split_dot m = Some (sn, mn)
     \<and> srvServices (wServers w ! s) sn = Some svc \<and> svcMethods svc mn = Some meth \<and> svcRcvr svc < length (wObjs w))"

text \<open>The end \<open>e\<close> is connected to a server that knows the method, and nothing is lost.\<close>

definition steady :: "'e \<Rightarrow> 'n \<Rightarrow> nat \<Rightarrow> string \<Rightarrow> ('e, 'n, 'b, 'v, 'o) world \<Rightarrow> bool" where
  "steady e n s m w \<longleftrightarrow> reliable (wNet w) \<and> \<not> closed (wNet w) \<and> enabled (wNet w) e
     \<and> connections (wNet w) e = Some n \<and> servers (wNet w) n = Some s \<and> known_method m s w"

definition info_for :: "'n \<Rightarrow> nat \<Rightarrow> 'n endInfo \<Rightarrow> bool" where
  "info_for n s info \<longleftrightarrow> eiReliable info \<and> eiName info = Some n \<and> eiServer info = Some s"

definition on_track :: "'e \<Rightarrow> 'n \<Rightarrow> nat \<Rightarrow> string \<Rightarrow> ('e, 'n, 'b, 'v) call \<Rightarrow> bool" where
  "on_track e n s m c \<longleftrightarrow> rqEndname (cReq c) = e \<and> rqSvcMeth (cReq c) = m
     \<and> (\<forall>srv. cHandler c = Running srv \<longrightarrow> srv = s)
     \<and> (case cStage c of Sending \<Rightarrow> True | Accepted \<Rightarrow> True | Waiting info \<Rightarrow> info_for n s info
        | GotReply info rep \<Rightarrow> info_for n s info \<and> rpOk rep | GaveUp info \<Rightarrow> False | Delayed rep \<Rightarrow> rpOk rep
        | TimingOut \<Rightarrow> False | Replying rep \<Rightarrow> rpOk rep | Returned res \<Rightarrow> res \<noteq> None)"

lemma steady_alive: "steady e n s m w \<Longrightarrow> info_for n s info \<Longrightarrow> \<not> isServerDead e (eiName info) (eiServer info) (wNet w)"
  by (simp add: steady_def info_for_def isServerDead_def)

lemma Server_dispatch_shape:
  assumes "Server_dispatch cd rs req objs = Some (rep, io, rs', objs')"
  shows "srvServices rs' = srvServices rs" "length objs' = length objs"
  using assms by (auto simp: Server_dispatch_def Let_def bind_eq_Some_conv)

lemma Server_dispatch_known:
  assumes "known_method (rqSvcMeth req) s w"
  shows "Server_dispatch cd (wServers w ! s) req (wObjs w) \<noteq> None"
  using assms by (fastforce simp: known_method_def Server_dispatch_def Service_dispatch_def Let_def split: prod.splits)

definition same_conf :: "('e, 'n) Network \<Rightarrow> ('e, 'n) Network \<Rightarrow> bool" where
  "same_conf rn rn' \<longleftrightarrow> reliable rn' = reliable rn \<and> longReordering rn' = longReordering rn \<and> closed rn' = closed rn
     \<and> enabled rn' = enabled rn \<and> connections rn' = connections rn \<and> servers rn' = servers rn"

text \<open>A step of a call changes counters of the network, the servers' counters and the states of
  objects, nothing else outside the calls.\<close>

lemma call_step_frame:
  assumes "call_step cd r w w'"
  shows "same_conf (wNet w) (wNet w')"
    and "map srvServices (wServers w') = map srvServices (wServers w) \<and> length (wObjs w') = length (wObjs w)"
proof -
  obtain c where c: "go_at (wCalls w) (int r) = Some c"
    using assms by cases (cases "go_at (wCalls w) (int r)"; simp add: op_defs)+
  show "same_conf (wNet w) (wNet w')"
    using assms
  proof cases
    case step_handler
    then show ?thesis using handler_run_net by (fastforce simp: same_conf_def)
  next
    case step_wait_reply
    then show ?thesis using c by (cases "cStage c"; cases "cHandler c") (auto simp: wait_reply_def set_call_def same_conf_def)
  next
    case (step_begin rnd)
    then show ?thesis using c
      by (cases "cStage c") (auto simp: process_begin_def Let_def set_call_def same_conf_def split: if_splits option.splits bool.splits)
  qed (use c in \<open>cases "cStage c"; auto simp: op_defs set_call_def same_conf_def bind_eq_Some_conv split: if_splits\<close>)+
  show "map srvServices (wServers w') = map srvServices (wServers w) \<and> length (wObjs w') = length (wObjs w)"
    using assms
  proof cases
    case step_handler
    then obtain srv rs reply io rs' objs' where h: "go_at (wServers w) (int srv) = Some rs"
        "Server_dispatch cd rs (cReq c) (wObjs w) = Some (reply, io, rs', objs')"
        "wServers w' = (wServers w)[srv := rs']" "wObjs w' = objs'"
      using c by (cases "cHandler c") (auto simp: handler_run_def bind_eq_Some_conv set_call_def)
    from h(1) have "srv < length (wServers w)" "rs = wServers w ! srv" by (auto simp: go_simps go_len_def)
    then have "map srvServices (wServers w') = map srvServices (wServers w)"
      using Server_dispatch_shape(1) [OF h(2)] by (simp add: h(3) map_update list_update_same_conv)
    then show ?thesis using Server_dispatch_shape(2) [OF h(2)] h(4) by simp
  next
    case step_wait_reply
    then show ?thesis using c by (cases "cStage c"; cases "cHandler c") (auto simp: wait_reply_def set_call_def)
  next
    case (step_begin rnd)
    then show ?thesis using c
      by (cases "cStage c") (auto simp: process_begin_def Let_def set_call_def split: if_splits option.splits bool.splits)
  qed (use c in \<open>cases "cStage c"; auto simp: op_defs set_call_def bind_eq_Some_conv split: if_splits\<close>)+
qed

lemma steady_step:
  assumes "steady e n s m w" "call_step cd r w w'"
  shows "steady e n s m w'"
proof -
  note fr = call_step_frame [OF assms(2)]
  have len: "length (wServers w') = length (wServers w)" using fr(2) by (metis length_map)
  have "srvServices (wServers w' ! s) = srvServices (wServers w ! s)" if "s < length (wServers w)"
    using fr(2) that len by (metis nth_map)
  then show ?thesis using assms(1) fr len by (auto simp: steady_def known_method_def same_conf_def)
qed

lemma on_track_step:
  assumes st: "steady e n s m w" and r: "r < length (wCalls w)" and tr: "on_track e n s m (wCalls w ! r)"
    and ok: "call_ok cd (wCalls w ! r)" and step: "call_step cd r w w'"
  shows "on_track e n s m (wCalls w' ! r)"
proof -
  let ?c = "wCalls w ! r"
  have c: "go_at (wCalls w) (int r) = Some ?c" using r by simp
  have info: "info_for n s (readEndnameInfo e (wNet w))" "eiEnabled (readEndnameInfo e (wNet w))"
    using st by (simp_all add: steady_def info_for_def readEndnameInfo_def Let_def)
  have fin: "rpOk rep" if "cHandler ?c = Finished rep" for rep using ok that by (auto simp: call_simps)
  note alive = steady_alive [OF st]
  from step show ?thesis
  proof cases
    case step_accept
    then show ?thesis using c tr r by (cases "cStage ?c") (auto simp: net_accept_def set_call_def on_track_def)
  next
    case step_closed
    then show ?thesis using c st by (cases "cStage ?c") (auto simp: Call_closed_def steady_def)
  next
    case (step_begin rnd)
    then show ?thesis using c tr r info
      by (cases "cStage ?c") (auto simp: process_begin_def Let_def set_call_def on_track_def info_for_def split: if_splits)
  next
    case step_handler
    then show ?thesis using c tr r
      by (cases "cHandler ?c") (auto simp: handler_run_def set_call_def bind_eq_Some_conv on_track_def)
  next
    case step_wait_reply
    then show ?thesis using c tr r fin
      by (cases "cStage ?c"; cases "cHandler ?c") (auto simp: wait_reply_def set_call_def on_track_def)
  next
    case step_wait_tick
    then show ?thesis using c tr alive by (cases "cStage ?c") (auto simp: wait_tick_def on_track_def)
  next
    case (step_end rnd1 rnd2)
    then show ?thesis using c tr r alive
      by (cases "cStage ?c") (auto simp: process_end_def set_call_def on_track_def info_for_def split: if_splits)
  next
    case step_timer
    then show ?thesis using c tr r by (cases "cStage ?c") (auto simp: timer_fires_def set_call_def on_track_def)
  next
    case step_return
    then show ?thesis using c tr r
      by (cases "cStage ?c") (auto simp: Call_return_def set_call_def on_track_def bind_eq_Some_conv split: if_splits)
  qed
qed

text \<open>How far a call is from its return.\<close>

fun distance :: "('e, 'n, 'b, 'v) call \<Rightarrow> nat" where
  "distance c = (case cStage c of Sending \<Rightarrow> 7 | Accepted \<Rightarrow> 6
     | Waiting info \<Rightarrow> (case cHandler c of Finished rep \<Rightarrow> 4 | _ \<Rightarrow> 5)
     | GotReply info rep \<Rightarrow> 3 | GaveUp info \<Rightarrow> 3 | Delayed rep \<Rightarrow> 2 | TimingOut \<Rightarrow> 2 | Replying rep \<Rightarrow> 1 | Returned res \<Rightarrow> 0)"

lemma on_track_progress:
  assumes st: "steady e n s m w" and r: "r < length (wCalls w)" and tr: "on_track e n s m (wCalls w ! r)"
    and ok: "call_ok cd (wCalls w ! r)" and pos: "distance (wCalls w ! r) > 0"
  shows "\<exists>w'. call_step cd r w w' \<and> distance (wCalls w' ! r) < distance (wCalls w ! r) \<and> length (wCalls w') = length (wCalls w)"
proof -
  let ?c = "wCalls w ! r"
  have c: "go_at (wCalls w) (int r) = Some ?c" using r by simp
  have info: "eiName (readEndnameInfo e (wNet w)) = Some n" "eiServer (readEndnameInfo e (wNet w)) = Some s"
      "eiReliable (readEndnameInfo e (wNet w))" "eiEnabled (readEndnameInfo e (wNet w))"
    using st by (simp_all add: steady_def readEndnameInfo_def Let_def)
  have req: "rqEndname (cReq ?c) = e" "rqSvcMeth (cReq ?c) = m" using tr by (simp_all add: on_track_def)
  show ?thesis
  proof (cases "cStage ?c")
    case Sending
    then have "\<exists>w'. net_accept cd r w = Some w' \<and> distance (wCalls w' ! r) < distance ?c \<and> length (wCalls w') = length (wCalls w)"
      using c r by (simp add: net_accept_def set_call_def)
    then show ?thesis using step_accept by blast
  next
    case Accepted
    then have "\<exists>w'. process_begin r 0 w = Some w' \<and> distance (wCalls w' ! r) < distance ?c \<and> length (wCalls w') = length (wCalls w)"
      using c r req info by (simp add: process_begin_def set_call_def Let_def)
    then show ?thesis using step_begin by blast
  next
    case (Waiting info')
    show ?thesis
    proof (cases "cHandler ?c")
      case NoHandler
      then show ?thesis using ok Waiting by (simp add: call_ok_def)
    next
      case (Running srv)
      then have srv: "srv = s" using tr by (simp add: on_track_def)
      have kn: "known_method (rqSvcMeth (cReq ?c)) s w" using st req by (simp add: steady_def)
      then obtain reply io rs' objs' where d: "Server_dispatch cd (wServers w ! s) (cReq ?c) (wObjs w) = Some (reply, io, rs', objs')"
        using Server_dispatch_known [of "cReq ?c" s w cd] by (metis not_Some_eq prod_cases4)
      have "s < length (wServers w)" using kn by (simp add: known_method_def)
      then have "\<exists>w'. handler_run cd r w = Some w' \<and> distance (wCalls w' ! r) < distance ?c \<and> length (wCalls w') = length (wCalls w)"
        using c r d Running Waiting srv by (cases io) (simp add: handler_run_def set_call_def)
      then show ?thesis using step_handler by blast
    next
      case (Finished rep)
      then have "\<exists>w'. wait_reply r w = Some w' \<and> distance (wCalls w' ! r) < distance ?c \<and> length (wCalls w') = length (wCalls w)"
        using c r Waiting by (simp add: wait_reply_def set_call_def)
      then show ?thesis using step_wait_reply by blast
    qed
  next
    case (GotReply info' rep)
    then have "\<exists>w'. process_end cd r 0 0 w = Some w' \<and> distance (wCalls w' ! r) < distance ?c \<and> length (wCalls w') = length (wCalls w)"
      using c r by (simp add: process_end_def set_call_def)
    then show ?thesis using step_end by blast
  next
    case (Delayed rep)
    then have "\<exists>w'. timer_fires cd r w = Some w' \<and> distance (wCalls w' ! r) < distance ?c \<and> length (wCalls w') = length (wCalls w)"
      using c r by (simp add: timer_fires_def set_call_def)
    then show ?thesis using step_timer by blast
  next
    case (Replying rep)
    then have "\<exists>w'. Call_return cd r w = Some w' \<and> distance (wCalls w' ! r) < distance ?c \<and> length (wCalls w') = length (wCalls w)"
      using c r ok by (auto simp: Call_return_def set_call_def call_simps)
    then show ?thesis using step_return by blast
  qed (use tr pos in \<open>simp_all add: on_track_def\<close>)
qed

lemma on_track_returns:
  assumes cd: "codec_ok cd" and "steady e n s m w" "r < length (wCalls w)" "on_track e n s m (wCalls w ! r)" "calls_ok cd w"
  shows "\<exists>w' v. (call_step cd r)\<^sup>*\<^sup>* w w' \<and> cStage (wCalls w' ! r) = Returned (Some v)"
  using assms(2-)
proof (induction "distance (wCalls w ! r)" arbitrary: w rule: less_induct)
  case less
  have ok: "call_ok cd (wCalls w ! r)" using less.prems(2,4) by (simp add: calls_ok_def)
  show ?case
  proof (cases "distance (wCalls w ! r) > 0")
    case True
    obtain w1 where w1: "call_step cd r w w1" "distance (wCalls w1 ! r) < distance (wCalls w ! r)" "length (wCalls w1) = length (wCalls w)"
      using on_track_progress [OF less.prems(1-3) ok True] by blast
    from less.hyps [OF w1(2) steady_step [OF less.prems(1) w1(1)] _ on_track_step [OF less.prems(1-3) ok w1(1)] call_step_ok [OF cd less.prems(4) w1(1)]]
    obtain w' v where "(call_step cd r)\<^sup>*\<^sup>* w1 w'" "cStage (wCalls w' ! r) = Returned (Some v)" using less.prems(2) w1(3) by auto
    then show ?thesis using w1(1) by (meson converse_rtranclp_into_rtranclp)
  next
    case False
    then have "\<exists>v. cStage (wCalls w ! r) = Returned (Some v)"
      using less.prems(3) by (cases "cStage (wCalls w ! r)") (auto simp: on_track_def split: handler.splits)
    then show ?thesis by blast
  qed
qed



end
