(* ===== verification/Raft_Tester.thy ===== *)
theory Raft_Tester
  imports Raft_Properties LabRPC "HOL-Library.AList"
begin

section \<open>The tester of Raft, \<open>raft/config.go\<close>\<close>

text \<open>
  The harness that the Raft tests run on. It starts and crashes peers on the simulated network
  (theory \<open>LabRPC\<close>), keeps a copy of what every peer applies, and checks leaders, terms and
  agreement. Servers are \<open>0 .. n - 1\<close>, the indices of its slices. A message to \<open>log.Fatalf\<close> or
  \<open>t.Fatalf\<close>, which end the test, and a panic are values of \<open>failure\<close>. A peer and its persister
  are shared with the harness: while a peer runs, the persister is that of the peer's state.

  Loops that look at the peers while these go on running take their observations as an argument:
  the state of the harness at the moment of each look. Random end names and the order of a
  \<open>range\<close> over a map are arguments too. A snapshot is a stream of typed values.
\<close>

datatype 'c tgob = TInt int | TLog "'c option list"

datatype 'c failure =
    Panic
  | Mismatch int nat "'c option" nat "'c option" \<comment> \<open>index, server and command, other server and command\<close>
  | OutOfOrder nat int
  | UnexpectedIndex nat int int
  | SnapshotDecodeError
  | SnapshotMismatch nat
  | DuplicateEnd
  | TwoLeaders int nat
  | NoLeader
  | TermsDisagree
  | UnexpectedLeader nat
  | ApplyErr string
  | CommittedMismatch int "'c option" "'c option"
  | TooFewDecided nat int int
  | NoAgreement "'c option"
  | TookTooLong

type_synonym ('c, 'a) checkedt = "'c failure + 'a"

record 'c config =
  cf_finished :: int
  cf_net :: "(string, nat) Network"
  cf_n :: nat
  cf_rafts :: "('c, 'c tgob) Raft option list"
  cf_applyErr :: "string list"
  cf_connected :: "bool list"
  cf_saved :: "('c, 'c tgob) Persister option list"
  cf_endnames :: "string list option list"
  cf_logs :: "(int \<rightharpoonup> 'c option) list"
  cf_lastApplied :: "int list"
  cf_rpcs0 :: int
  cf_cmds0 :: int
  cf_bytes0 :: int
  cf_maxIndex :: int
  cf_maxIndex0 :: int

subsection \<open>Connections\<close>

definition cf_end :: "'c config \<Rightarrow> nat \<Rightarrow> nat \<Rightarrow> string option" where
  "cf_end cfg i j = map_option (\<lambda>es. es ! j) (cf_endnames cfg ! i)"

definition enable_ends :: "bool \<Rightarrow> 'e list \<Rightarrow> ('e, 'n) Network \<Rightarrow> ('e, 'n) Network" where
  "enable_ends yes es rn = foldl (\<lambda>rn e. Enable e yes rn) rn es"

text \<open>\<open>connect\<close>: first the outgoing, then the incoming ends of the connected servers; a server that was
  never started has a nil slice of ends.\<close>

definition cf_connect :: "nat \<Rightarrow> 'c config \<Rightarrow> ('c, 'c config) checkedt" where
  "cf_connect i cfg =
     (if cf_n cfg \<le> i then Inl Panic
      else let cfg = cfg\<lparr>cf_connected := (cf_connected cfg)[i := True]\<rparr>;
               js = filter (\<lambda>j. cf_connected cfg ! j) [0..<cf_n cfg];
               es = map (\<lambda>j. cf_end cfg i j) js @ map (\<lambda>j. cf_end cfg j i) js
           in if None \<in> set es then Inl Panic
              else Inr (cfg\<lparr>cf_net := enable_ends True (map the es) (cf_net cfg)\<rparr>))"

definition cf_disconnect :: "nat \<Rightarrow> 'c config \<Rightarrow> ('c, 'c config) checkedt" where
  "cf_disconnect i cfg =
     (if cf_n cfg \<le> i then Inl Panic
      else let cfg = cfg\<lparr>cf_connected := (cf_connected cfg)[i := False]\<rparr>;
               es = filter (\<lambda>e. e \<noteq> None)
                      (map (\<lambda>j. cf_end cfg i j) [0..<cf_n cfg] @ map (\<lambda>j. cf_end cfg j i) [0..<cf_n cfg])
           in Inr (cfg\<lparr>cf_net := enable_ends False (map the es) (cf_net cfg)\<rparr>))"

subsection \<open>What the peers apply\<close>

text \<open>\<open>checkLogs\<close>: the loop over the servers keeps the last mismatch.\<close>

definition cf_checkLogs :: "nat \<Rightarrow> ('c, 'c tgob) ApplyMsg \<Rightarrow> 'c config \<Rightarrow> 'c failure option \<times> bool \<times> 'c config" where
  "cf_checkLogs i m cfg =
     (let v = Command m;
          err_msg = foldl (\<lambda>err j. case (cf_logs cfg ! j) (CommandIndex m) of
                       None \<Rightarrow> err
                     | Some old \<Rightarrow> if old \<noteq> v then Some (Mismatch (CommandIndex m) i v j old) else err)
                   None [0..<length (cf_logs cfg)];
          prevok = ((cf_logs cfg ! i) (CommandIndex m - 1) \<noteq> None);
          cfg = cfg\<lparr>cf_logs := (cf_logs cfg)[i := (cf_logs cfg ! i)(CommandIndex m \<mapsto> v)]\<rparr>;
          cfg = (if CommandIndex m > cf_maxIndex cfg then cfg\<lparr>cf_maxIndex := CommandIndex m\<rparr> else cfg)
      in (err_msg, prevok, cfg))"

text \<open>One message of \<open>applier\<close>.\<close>

definition cf_applier :: "nat \<Rightarrow> ('c, 'c tgob) ApplyMsg \<Rightarrow> 'c config \<Rightarrow> ('c, 'c config) checkedt" where
  "cf_applier i m cfg =
     (if \<not> CommandValid m then Inr cfg
      else let (err_msg, prevok, cfg) = cf_checkLogs i m cfg;
               err_msg = (if CommandIndex m > 1 \<and> \<not> prevok then Some (OutOfOrder i (CommandIndex m)) else err_msg)
           in case err_msg of Some e \<Rightarrow> Inl e | None \<Rightarrow> Inr cfg)"

text \<open>\<open>ingestSnap\<close>: a snapshot that cannot be decoded ends the test; a wrong index is returned. The loop
  copies the list of commands into an empty map.\<close>

fun log_map :: "int \<Rightarrow> 'c option list \<Rightarrow> (int \<rightharpoonup> 'c option)" where
  "log_map j [] = Map.empty"
| "log_map j (x # xs) = (log_map (j + 1) xs)(j \<mapsto> x)"

fun cf_ingestSnap :: "nat \<Rightarrow> 'c tgob list \<Rightarrow> int \<Rightarrow> 'c config \<Rightarrow> 'c failure option \<times> 'c config" where
  "cf_ingestSnap i (TInt lastIncludedIndex # TLog xlog # rest) index cfg =
     (if index \<noteq> -1 \<and> index \<noteq> lastIncludedIndex then (Some (SnapshotMismatch i), cfg)
      else (None, cfg\<lparr>cf_logs := (cf_logs cfg)[i := log_map 0 xlog],
                      cf_lastApplied := (cf_lastApplied cfg)[i := lastIncludedIndex]\<rparr>))"
| "cf_ingestSnap i _ index cfg = (Some SnapshotDecodeError, cfg)"

definition SnapShotInterval :: int where
  "SnapShotInterval = 10"

text \<open>One message of \<open>applierSnap\<close>; the second result is the call of the peer's \<open>Snapshot\<close>. A missing
  entry of the map reads as nil.\<close>

definition cf_applierSnap ::
    "nat \<Rightarrow> ('c, 'c tgob) ApplyMsg \<Rightarrow> 'c config \<Rightarrow> ('c, 'c config \<times> (int \<times> 'c tgob list) option) checkedt" where
  "cf_applierSnap i m cfg =
     (let (err_msg, cfg, snap) =
        (if SnapshotValid m then let (err, cfg) = cf_ingestSnap i (Snapshot m) (SnapshotIndex m) cfg in (err, cfg, None)
         else if CommandValid m then
           let err0 = (if CommandIndex m \<noteq> cf_lastApplied cfg ! i + 1
                       then Some (UnexpectedIndex i (cf_lastApplied cfg ! i + 1) (CommandIndex m)) else None);
               (err1, cfg) =
                 (if err0 \<noteq> None then (err0, cfg)
                  else let (err, prevok, cfg) = cf_checkLogs i m cfg
                       in (if CommandIndex m > 1 \<and> \<not> prevok then Some (OutOfOrder i (CommandIndex m)) else err, cfg));
               cfg = cfg\<lparr>cf_lastApplied := (cf_lastApplied cfg)[i := CommandIndex m]\<rparr>;
               snap = (if (CommandIndex m + 1) mod SnapShotInterval = 0
                       then Some (CommandIndex m,
                              [TInt (CommandIndex m),
                               TLog (map (\<lambda>j. case (cf_logs cfg ! i) j of None \<Rightarrow> None | Some v \<Rightarrow> v) [0..CommandIndex m])])
                       else None)
           in (err1, cfg, snap)
         else (None, cfg, None))
      in case err_msg of Some e \<Rightarrow> Inl e | None \<Rightarrow> Inr (cfg, snap))"

subsection \<open>Crashing and starting a peer\<close>

text \<open>The content of \<open>saved[i]\<close>.\<close>

definition cf_persister :: "'c config \<Rightarrow> nat \<Rightarrow> ('c, 'c tgob) Persister option" where
  "cf_persister cfg i = (case cf_rafts cfg ! i of Some rf \<Rightarrow> Some (persister rf) | None \<Rightarrow> cf_saved cfg ! i)"

definition cf_crash1 :: "nat \<Rightarrow> 'c config \<Rightarrow> ('c, 'c config) checkedt" where
  "cf_crash1 i cfg =
     (case cf_disconnect i cfg of
        Inl e \<Rightarrow> Inl e
      | Inr cfg \<Rightarrow>
          let cfg = cfg\<lparr>cf_net := DeleteServer i (cf_net cfg)\<rparr>;
              saved = map_option ps_Copy (cf_persister cfg i);
              cfg = cfg\<lparr>cf_rafts := (cf_rafts cfg)[i := None]\<rparr>;
              saved = map_option (\<lambda>ps. let raftlog = ReadRaftState ps; snap = ReadSnapshot ps
                                       in Save raftlog snap \<lparr>ps_raftstate = [], ps_snapshot = []\<rparr>) saved
          in Inr (cfg\<lparr>cf_saved := (cf_saved cfg)[i := saved]\<rparr>))"

text \<open>The loop of \<open>start1\<close> over the new ends: a name that is in use already ends the test.\<close>

fun cf_make_ends :: "nat \<Rightarrow> string list \<Rightarrow> (string, nat) Network \<Rightarrow> ('c, (string, nat) Network) checkedt" where
  "cf_make_ends j [] rn = Inr rn"
| "cf_make_ends j (e # es) rn =
     (case MakeEnd e rn of None \<Rightarrow> Inl DuplicateEnd | Some rn \<Rightarrow> cf_make_ends (Suc j) es (Connect e j rn))"

text \<open>The persister for the new instance, a copy of the old one; a snapshot in it is processed now.\<close>

definition cf_load :: "nat \<Rightarrow> 'c config \<Rightarrow> 'c failure option \<times> ('c, 'c tgob) Persister \<times> 'c config" where
  "cf_load i cfg =
     (case cf_saved cfg ! i of
        Some old \<Rightarrow>
          let ps = ps_Copy old;
              (err, cfg) = (if ReadSnapshot ps \<noteq> [] then cf_ingestSnap i (ReadSnapshot ps) (-1) cfg else (None, cfg))
          in (err, ps, cfg)
      | None \<Rightarrow> (None, MakePersister, cfg))"

text \<open>\<open>names\<close> are the \<open>n\<close> random strings, \<open>srv\<close> the new server that holds the peer as its service.\<close>

definition cf_start1 :: "nat \<Rightarrow> string list \<Rightarrow> nat \<Rightarrow> 'c config \<Rightarrow> ('c, 'c config) checkedt" where
  "cf_start1 i names srv cfg =
     (case cf_crash1 i cfg of
        Inl e \<Rightarrow> Inl e
      | Inr cfg \<Rightarrow>
          let cfg = cfg\<lparr>cf_endnames := (cf_endnames cfg)[i := Some names]\<rparr> in
          case cf_make_ends 0 names (cf_net cfg) of
            Inl e \<Rightarrow> Inl e
          | Inr rn \<Rightarrow>
              let cfg = cfg\<lparr>cf_net := rn, cf_lastApplied := (cf_lastApplied cfg)[i := 0]\<rparr>;
                  (err, ps, cfg) = cf_load i cfg
              in case err of
                   Some e \<Rightarrow> Inl e
                 | None \<Rightarrow>
                     let rf = Make (int (cf_n cfg)) (int i) ps
                     in Inr (cfg\<lparr>cf_saved := (cf_saved cfg)[i := Some ps], cf_rafts := (cf_rafts cfg)[i := Some rf],
                                 cf_net := AddServer i srv (cf_net cfg)\<rparr>))"

text \<open>\<open>make_config\<close>: start all, then connect all.\<close>

fun cf_start_all :: "nat list \<Rightarrow> (nat \<Rightarrow> string list) \<Rightarrow> (nat \<Rightarrow> nat) \<Rightarrow> 'c config \<Rightarrow> ('c, 'c config) checkedt" where
  "cf_start_all [] names srvs cfg = Inr cfg"
| "cf_start_all (i # is) names srvs cfg =
     (case cf_start1 i (names i) (srvs i) (cfg\<lparr>cf_logs := (cf_logs cfg)[i := Map.empty]\<rparr>) of
        Inl e \<Rightarrow> Inl e | Inr cfg \<Rightarrow> cf_start_all is names srvs cfg)"

fun cf_connect_all :: "nat list \<Rightarrow> 'c config \<Rightarrow> ('c, 'c config) checkedt" where
  "cf_connect_all [] cfg = Inr cfg"
| "cf_connect_all (i # is) cfg = (case cf_connect i cfg of Inl e \<Rightarrow> Inl e | Inr cfg \<Rightarrow> cf_connect_all is cfg)"

definition cf_setunreliable :: "bool \<Rightarrow> 'c config \<Rightarrow> 'c config" where
  "cf_setunreliable unrel cfg = cfg\<lparr>cf_net := Reliable (\<not> unrel) (cf_net cfg)\<rparr>"

definition cf_setlongreordering :: "bool \<Rightarrow> 'c config \<Rightarrow> 'c config" where
  "cf_setlongreordering longrel cfg = cfg\<lparr>cf_net := LongReordering longrel (cf_net cfg)\<rparr>"

definition cf_new :: "nat \<Rightarrow> 'c config" where
  "cf_new n = \<lparr>cf_finished = 0, cf_net = MakeNetwork, cf_n = n, cf_rafts = replicate n None, cf_applyErr = replicate n [],
     cf_connected = replicate n False, cf_saved = replicate n None, cf_endnames = replicate n None,
     cf_logs = replicate n Map.empty, cf_lastApplied = replicate n 0, cf_rpcs0 = 0, cf_cmds0 = 0, cf_bytes0 = 0,
     cf_maxIndex = 0, cf_maxIndex0 = 0\<rparr>"

definition make_config :: "nat \<Rightarrow> bool \<Rightarrow> (nat \<Rightarrow> string list) \<Rightarrow> (nat \<Rightarrow> nat) \<Rightarrow> ('c, 'c config) checkedt" where
  "make_config n unreliable names srvs =
     (let cfg = cf_setunreliable unreliable (cf_new n);
          cfg = cfg\<lparr>cf_net := LongDelays True (cf_net cfg)\<rparr>
      in case cf_start_all [0..<n] names srvs cfg of Inl e \<Rightarrow> Inl e | Inr cfg \<Rightarrow> cf_connect_all [0..<n] cfg)"

subsection \<open>Looking at the peers\<close>

text \<open>\<open>obs i\<close> is the harness when the loop looks at server \<open>i\<close>. Reading the state of a server that is down
  panics.\<close>

fun cf_checkTerms :: "(nat \<Rightarrow> 'c config) \<Rightarrow> nat list \<Rightarrow> int \<Rightarrow> ('c, int) checkedt" where
  "cf_checkTerms obs [] trm = Inr trm"
| "cf_checkTerms obs (i # is) trm =
     (if cf_connected (obs i) ! i
      then case cf_rafts (obs i) ! i of
          None \<Rightarrow> Inl Panic
        | Some rf \<Rightarrow> let (xterm, _) = GetState rf in
            if trm = -1 then cf_checkTerms obs is xterm
            else if trm \<noteq> xterm then Inl TermsDisagree
            else cf_checkTerms obs is trm
      else cf_checkTerms obs is trm)"

fun cf_checkNoLeader :: "(nat \<Rightarrow> 'c config) \<Rightarrow> nat list \<Rightarrow> ('c, unit) checkedt" where
  "cf_checkNoLeader obs [] = Inr ()"
| "cf_checkNoLeader obs (i # is) =
     (if cf_connected (obs i) ! i
      then case cf_rafts (obs i) ! i of
          None \<Rightarrow> Inl Panic
        | Some rf \<Rightarrow> if snd (GetState rf) then Inl (UnexpectedLeader i) else cf_checkNoLeader obs is
      else cf_checkNoLeader obs is)"

text \<open>The map of \<open>checkOneLeader\<close> from terms to the leaders found, and the loop that ranges over it.\<close>

fun cf_leaders :: "(nat \<Rightarrow> 'c config) \<Rightarrow> nat list \<Rightarrow> (int \<times> nat list) list \<Rightarrow> ('c, (int \<times> nat list) list) checkedt" where
  "cf_leaders obs [] leaders = Inr leaders"
| "cf_leaders obs (i # is) leaders =
     (if cf_connected (obs i) ! i
      then case cf_rafts (obs i) ! i of
          None \<Rightarrow> Inl Panic
        | Some rf \<Rightarrow> let (trm, leader) = GetState rf in
            if leader
            then cf_leaders obs is (AList.update trm ((case map_of leaders trm of None \<Rightarrow> [] | Some ls \<Rightarrow> ls) @ [i]) leaders)
            else cf_leaders obs is leaders
      else cf_leaders obs is leaders)"

fun cf_lastTerm :: "(int \<times> nat list) list \<Rightarrow> int \<Rightarrow> ('c, int) checkedt" where
  "cf_lastTerm [] lastTermWithLeader = Inr lastTermWithLeader"
| "cf_lastTerm ((trm, ls) # rest) lastTermWithLeader =
     (if length ls > 1 then Inl (TwoLeaders trm (length ls))
      else cf_lastTerm rest (if trm > lastTermWithLeader then trm else lastTermWithLeader))"

text \<open>\<open>obs\<close> is a list of at most ten rounds of looking at all servers; \<open>ord\<close> orders the map.\<close>

fun cf_checkOneLeader ::
    "nat \<Rightarrow> ((int \<times> nat list) list \<Rightarrow> (int \<times> nat list) list) \<Rightarrow> (nat \<Rightarrow> 'c config) list \<Rightarrow> ('c, nat) checkedt" where
  "cf_checkOneLeader n ord [] = Inl NoLeader"
| "cf_checkOneLeader n ord (obs # later) =
     (case cf_leaders obs [0..<n] [] of
        Inl e \<Rightarrow> Inl e
      | Inr leaders \<Rightarrow>
          case cf_lastTerm (ord leaders) (-1) of
            Inl e \<Rightarrow> Inl e
          | Inr lastTermWithLeader \<Rightarrow>
              if leaders \<noteq> []
              then case map_of leaders lastTermWithLeader of
                     Some (l # _) \<Rightarrow> Inr l
                   | _ \<Rightarrow> Inl Panic
              else cf_checkOneLeader n ord later)"

subsection \<open>Agreement\<close>

text \<open>\<open>nCommitted\<close>: the loop over the servers, with the count and the command seen so far.\<close>

fun cf_nCommitted_loop :: "'c config \<Rightarrow> int \<Rightarrow> nat list \<Rightarrow> nat \<Rightarrow> 'c option \<Rightarrow> ('c, nat \<times> 'c option) checkedt" where
  "cf_nCommitted_loop cfg index [] n cmd = Inr (n, cmd)"
| "cf_nCommitted_loop cfg index (i # is) n cmd =
     (if cf_applyErr cfg ! i \<noteq> [] then Inl (ApplyErr (cf_applyErr cfg ! i))
      else case (cf_logs cfg ! i) index of
          None \<Rightarrow> cf_nCommitted_loop cfg index is n cmd
        | Some cmd1 \<Rightarrow>
            if n > 0 \<and> cmd \<noteq> cmd1 then Inl (CommittedMismatch index cmd cmd1)
            else cf_nCommitted_loop cfg index is (n + 1) cmd1)"

definition cf_nCommitted :: "int \<Rightarrow> 'c config \<Rightarrow> ('c, nat \<times> 'c option) checkedt" where
  "cf_nCommitted index cfg = cf_nCommitted_loop cfg index [0..<length (cf_rafts cfg)] 0 None"

text \<open>\<open>wait\<close>: each of the at most 30 iterations looks at the harness for \<open>nCommitted\<close> and again for the terms.
  \<open>Inr None\<close> is the result -1: someone has moved on to a later term.\<close>

fun cf_moved_on :: "('c, 's) Raft option list \<Rightarrow> int \<Rightarrow> ('c, bool) checkedt" where
  "cf_moved_on [] startTerm = Inr False"
| "cf_moved_on (None # rs) startTerm = Inl Panic"
| "cf_moved_on (Some r # rs) startTerm = (if fst (GetState r) > startTerm then Inr True else cf_moved_on rs startTerm)"

fun cf_wait :: "int \<Rightarrow> int \<Rightarrow> int \<Rightarrow> ('c config \<times> 'c config) list \<Rightarrow> 'c config \<Rightarrow> ('c, 'c option option) checkedt" where
  "cf_wait index n startTerm [] final =
     (case cf_nCommitted index final of
        Inl e \<Rightarrow> Inl e
      | Inr (nd, cmd) \<Rightarrow> if int nd < n then Inl (TooFewDecided nd index n) else Inr (Some cmd))"
| "cf_wait index n startTerm ((c1, c2) # obs) final =
     (case cf_nCommitted index c1 of
        Inl e \<Rightarrow> Inl e
      | Inr (nd, _) \<Rightarrow>
          if int nd \<ge> n then cf_wait index n startTerm [] final
          else if startTerm > -1
          then case cf_moved_on (cf_rafts c2) startTerm of
                 Inl e \<Rightarrow> Inl e
               | Inr True \<Rightarrow> Inr None
               | Inr False \<Rightarrow> cf_wait index n startTerm obs final
          else cf_wait index n startTerm obs final)"

text \<open>The loop of \<open>one\<close> over the servers: \<open>k\<close> rounds are left, \<open>starts\<close> is the server tried last.\<close>

fun cf_submit :: "'c \<Rightarrow> nat \<Rightarrow> nat \<Rightarrow> 'c config \<Rightarrow> int \<times> nat \<times> 'c config" where
  "cf_submit cmd 0 starts cfg = (-1, starts, cfg)"
| "cf_submit cmd (Suc k) starts cfg =
     (let starts = (starts + 1) mod cf_n cfg;
          rf = (if cf_connected cfg ! starts then cf_rafts cfg ! starts else None)
      in case rf of
           None \<Rightarrow> cf_submit cmd k starts cfg
         | Some rf \<Rightarrow>
             let ((index1, _, ok), rf) = Start cmd rf;
                 cfg = cfg\<lparr>cf_rafts := (cf_rafts cfg)[starts := Some rf]\<rparr>
             in if ok then (index1, starts, cfg) else cf_submit cmd k starts cfg)"

text \<open>The polling of \<open>one\<close>: the harness at each look within two seconds.\<close>

fun cf_poll :: "'c \<Rightarrow> int \<Rightarrow> int \<Rightarrow> 'c config list \<Rightarrow> ('c, bool) checkedt" where
  "cf_poll cmd expectedServers index [] = Inr False"
| "cf_poll cmd expectedServers index (cfg # obs) =
     (case cf_nCommitted index cfg of
        Inl e \<Rightarrow> Inl e
      | Inr (nd, cmd1) \<Rightarrow>
          if nd > 0 \<and> int nd \<ge> expectedServers \<and> cmd1 = Some cmd then Inr True
          else cf_poll cmd expectedServers index obs)"

text \<open>\<open>one\<close>: a round is the harness at its start and what is seen while polling; the rounds end after ten
  seconds or when the test is finished. The result -1 is for a finished test.\<close>

fun cf_one :: "'c \<Rightarrow> int \<Rightarrow> bool \<Rightarrow> ('c config \<times> 'c config list) list \<Rightarrow> 'c config \<Rightarrow> nat \<Rightarrow> ('c, int) checkedt" where
  "cf_one cmd expectedServers retry [] final starts =
     (if cf_finished final = 0 then Inl (NoAgreement (Some cmd)) else Inr (-1))"
| "cf_one cmd expectedServers retry ((cfg, polls) # rounds) final starts =
     (let (index, starts, cfg) = cf_submit cmd (cf_n cfg) starts cfg in
      if index \<noteq> -1
      then case cf_poll cmd expectedServers index polls of
             Inl e \<Rightarrow> Inl e
           | Inr True \<Rightarrow> Inr index
           | Inr False \<Rightarrow> if \<not> retry then Inl (NoAgreement (Some cmd)) else cf_one cmd expectedServers retry rounds final starts
      else cf_one cmd expectedServers retry rounds final starts)"

subsection \<open>Statistics and the end of a test\<close>

definition cf_rpcTotal :: "'c config \<Rightarrow> int" where
  "cf_rpcTotal cfg = GetTotalCount (cf_net cfg)"

definition cf_bytesTotal :: "'c config \<Rightarrow> int" where
  "cf_bytesTotal cfg = GetTotalBytes (cf_net cfg)"

definition cf_checkTimeout :: "bool \<Rightarrow> int \<Rightarrow> ('c, unit) checkedt" where
  "cf_checkTimeout failed elapsed = (if \<not> failed \<and> elapsed > 120 then Inl TookTooLong else Inr ())"

definition cf_checkFinished :: "'c config \<Rightarrow> bool" where
  "cf_checkFinished cfg \<longleftrightarrow> cf_finished cfg \<noteq> 0"

text \<open>\<open>cleanup\<close>: a second \<open>Cleanup\<close> of the network panics.\<close>

definition cf_cleanup :: "bool \<Rightarrow> int \<Rightarrow> 'c config \<Rightarrow> ('c, 'c config) checkedt" where
  "cf_cleanup failed elapsed cfg =
     (let cfg = cfg\<lparr>cf_finished := 1, cf_rafts := map (map_option Kill) (cf_rafts cfg)\<rparr>
      in case Cleanup (cf_net cfg) of
           None \<Rightarrow> Inl Panic
         | Some rn \<Rightarrow> (case cf_checkTimeout failed elapsed of Inl e \<Rightarrow> Inl e | Inr _ \<Rightarrow> Inr (cfg\<lparr>cf_net := rn\<rparr>)))"

definition cf_begin :: "'c config \<Rightarrow> 'c config" where
  "cf_begin cfg = cfg\<lparr>cf_rpcs0 := cf_rpcTotal cfg, cf_bytes0 := cf_bytesTotal cfg, cf_cmds0 := 0, cf_maxIndex0 := cf_maxIndex cfg\<rparr>"

text \<open>The numbers that \<open>end\<close> prints: peers, RPCs, bytes, agreements.\<close>

definition cf_end_stats :: "bool \<Rightarrow> int \<Rightarrow> 'c config \<Rightarrow> ('c, (nat \<times> int \<times> int \<times> int) option) checkedt" where
  "cf_end_stats failed elapsed cfg =
     (case cf_checkTimeout failed elapsed of
        Inl e \<Rightarrow> Inl e
      | Inr _ \<Rightarrow> Inr (if failed then None
          else Some (cf_n cfg, cf_rpcTotal cfg - cf_rpcs0 cfg, cf_bytesTotal cfg - cf_bytes0 cfg,
                     cf_maxIndex cfg - cf_maxIndex0 cfg)))"

definition cf_LogSize :: "('c gob list \<Rightarrow> int) \<Rightarrow> 'c config \<Rightarrow> int option" where
  "cf_LogSize bytes cfg =
     foldl (\<lambda>logsize i. Option.bind logsize (\<lambda>logsize. map_option (\<lambda>ps. let n = RaftStateSize bytes ps in if n > logsize then n else logsize)
              (cf_persister cfg i))) (Some 0) [0..<cf_n cfg]"

end
