(* ===== verification/Raft_Tester_Properties.thy ===== *)
theory Raft_Tester_Properties
  imports Raft_Tester
begin

section \<open>What the tester of Raft guarantees\<close>

text \<open>
  The appliers raise an alarm exactly when the peers disagree or apply out of order; looking for a leader
  never fails on this Raft for another reason than that there is none; a partition cuts exactly the calls
  it should, and a restarted peer starts from what it had saved.
\<close>

subsection \<open>What the appliers check\<close>

text \<open>Messages of several servers, in the order in which the harness handles them.\<close>

fun cf_feed :: "(nat \<times> ('c, 'c tgob) ApplyMsg) list \<Rightarrow> 'c config \<Rightarrow> ('c, 'c config) checkedt" where
  "cf_feed [] cfg = Inr cfg"
| "cf_feed ((i, m) # ms) cfg = (case cf_applier i m cfg of Inl e \<Rightarrow> Inl e | Inr cfg \<Rightarrow> cf_feed ms cfg)"

text \<open>A command of one index is the same on all servers; and a server gets the commands in order.\<close>

definition applied :: "(nat \<times> ('c, 'c tgob) ApplyMsg) list \<Rightarrow> nat \<Rightarrow> int \<Rightarrow> 'c option \<Rightarrow> bool" where
  "applied ms i k v \<longleftrightarrow> (\<exists>m. (i, m) \<in> set ms \<and> CommandValid m \<and> CommandIndex m = k \<and> Command m = v)"

definition agreed :: "(nat \<times> ('c, 'c tgob) ApplyMsg) list \<Rightarrow> bool" where
  "agreed ms \<longleftrightarrow> (\<forall>i j k v w. applied ms i k v \<and> applied ms j k w \<longrightarrow> v = w)"

definition in_order :: "(nat \<times> ('c, 'c tgob) ApplyMsg) list \<Rightarrow> bool" where
  "in_order ms \<longleftrightarrow> (\<forall>l i m r. ms = l @ (i, m) # r \<and> CommandValid m \<and> CommandIndex m > 1
     \<longrightarrow> (\<exists>v. applied l i (CommandIndex m - 1) v))"

lemma mismatch_loop:
  "(foldl (\<lambda>err j. case (logs ! j) k of None \<Rightarrow> err
      | Some old \<Rightarrow> if old \<noteq> v then Some (Mismatch k i v j old) else err) err js = None)
   \<longleftrightarrow> err = None \<and> (\<forall>j \<in> set js. \<forall>old. (logs ! j) k = Some old \<longrightarrow> old = v)"
  by (induction js arbitrary: err) (auto split: option.splits)

lemma cf_applier_Inr:
  assumes "CommandValid m"
  shows "(\<exists>cfg'. cf_applier i m cfg = Inr cfg') \<longleftrightarrow>
     (\<forall>j < length (cf_logs cfg). \<forall>old. (cf_logs cfg ! j) (CommandIndex m) = Some old \<longrightarrow> old = Command m)
     \<and> (CommandIndex m > 1 \<longrightarrow> (cf_logs cfg ! i) (CommandIndex m - 1) \<noteq> None)"
    "cf_applier i m cfg = Inr cfg' \<Longrightarrow>
       cf_logs cfg' = (cf_logs cfg)[i := (cf_logs cfg ! i)(CommandIndex m \<mapsto> Command m)]"
proof -
  let ?err = "foldl (\<lambda>err j. case (cf_logs cfg ! j) (CommandIndex m) of None \<Rightarrow> err
      | Some old \<Rightarrow> if old \<noteq> Command m then Some (Mismatch (CommandIndex m) i (Command m) j old) else err) None
      [0..<length (cf_logs cfg)]"
  have e: "?err = None \<longleftrightarrow>
      (\<forall>j < length (cf_logs cfg). \<forall>old. (cf_logs cfg ! j) (CommandIndex m) = Some old \<longrightarrow> old = Command m)"
    unfolding mismatch_loop by auto
  show "(\<exists>cfg'. cf_applier i m cfg = Inr cfg') \<longleftrightarrow>
     (\<forall>j < length (cf_logs cfg). \<forall>old. (cf_logs cfg ! j) (CommandIndex m) = Some old \<longrightarrow> old = Command m)
     \<and> (CommandIndex m > 1 \<longrightarrow> (cf_logs cfg ! i) (CommandIndex m - 1) \<noteq> None)"
    unfolding e [symmetric] using assms by (simp add: cf_applier_def cf_checkLogs_def Let_def split: option.splits)
  show "cf_applier i m cfg = Inr cfg' \<Longrightarrow>
       cf_logs cfg' = (cf_logs cfg)[i := (cf_logs cfg ! i)(CommandIndex m \<mapsto> Command m)]"
    using assms by (auto simp: cf_applier_def cf_checkLogs_def Let_def split: option.splits if_splits)
qed

lemma cf_feed_snoc:
  "cf_feed (ms @ [(i, m)]) cfg = (case cf_feed ms cfg of Inl e \<Rightarrow> Inl e | Inr cfg \<Rightarrow> cf_applier i m cfg)"
  by (induction ms arbitrary: cfg) (auto split: sum.splits)

lemma applied_snoc:
  "applied (ms @ [(i, m)]) j k v \<longleftrightarrow>
     applied ms j k v \<or> j = i \<and> CommandValid m \<and> CommandIndex m = k \<and> Command m = v"
  by (auto simp: applied_def)

lemma applied_append: "applied ms i k v \<Longrightarrow> applied (ms @ ms') i k v"
  by (auto simp: applied_def)

lemma agreed_prefix: "agreed (ms @ ms') \<Longrightarrow> agreed ms"
  unfolding agreed_def using applied_append by blast

lemma agreed_snoc:
  assumes "agreed ms" and "CommandValid m"
  shows "agreed (ms @ [(i, m)]) \<longleftrightarrow> (\<forall>j v. applied ms j (CommandIndex m) v \<longrightarrow> v = Command m)"
proof
  assume a: "agreed (ms @ [(i, m)])"
  have "applied (ms @ [(i, m)]) i (CommandIndex m) (Command m)" using assms(2) by (simp add: applied_snoc)
  with a show "\<forall>j v. applied ms j (CommandIndex m) v \<longrightarrow> v = Command m"
    unfolding agreed_def using applied_append by blast
next
  assume "\<forall>j v. applied ms j (CommandIndex m) v \<longrightarrow> v = Command m"
  with assms(1) show "agreed (ms @ [(i, m)])" unfolding agreed_def applied_snoc by blast
qed

lemma in_order_snoc:
  "in_order (ms @ [(i, m)]) \<longleftrightarrow>
     in_order ms \<and> (CommandValid m \<and> CommandIndex m > 1 \<longrightarrow> (\<exists>v. applied ms i (CommandIndex m - 1) v))"
proof
  assume o: "in_order (ms @ [(i, m)])"
  have "in_order ms" unfolding in_order_def
  proof (intro allI impI, elim conjE)
    fix l j m' r
    assume "ms = l @ (j, m') # r" "CommandValid m'" "1 < CommandIndex m'"
    then show "\<exists>v. applied l j (CommandIndex m' - 1) v"
      using o [unfolded in_order_def, rule_format, of l j m' "r @ [(i, m)]"] by simp
  qed
  then show "in_order ms \<and> (CommandValid m \<and> CommandIndex m > 1 \<longrightarrow> (\<exists>v. applied ms i (CommandIndex m - 1) v))"
    using o [unfolded in_order_def, rule_format, of ms i m "[]"] by simp
next
  assume o: "in_order ms \<and> (CommandValid m \<and> CommandIndex m > 1 \<longrightarrow> (\<exists>v. applied ms i (CommandIndex m - 1) v))"
  show "in_order (ms @ [(i, m)])" unfolding in_order_def
  proof (intro allI impI, elim conjE)
    fix l j m' r
    assume e: "ms @ [(i, m)] = l @ (j, m') # r" and v: "CommandValid m'" "1 < CommandIndex m'"
    show "\<exists>v. applied l j (CommandIndex m' - 1) v"
    proof (cases r rule: rev_cases)
      case Nil
      with e v o show ?thesis by simp
    next
      case (snoc r' x)
      with e have "ms = l @ (j, m') # r'" by simp
      with v o show ?thesis by (simp add: in_order_def)
    qed
  qed
qed

text \<open>The copies hold what was applied.\<close>

definition logs_hold :: "nat \<Rightarrow> (nat \<times> ('c, 'c tgob) ApplyMsg) list \<Rightarrow> 'c config \<Rightarrow> bool" where
  "logs_hold n ms cfg \<longleftrightarrow> length (cf_logs cfg) = n
     \<and> (\<forall>j < n. \<forall>k v. (cf_logs cfg ! j) k = Some v \<longleftrightarrow> applied ms j k v)"

lemma cf_feed_exact:
  assumes "list_all (\<lambda>(i, m). i < n) ms" and "logs_hold n [] cfg"
  shows "((\<exists>cfg'. cf_feed ms cfg = Inr cfg') \<longleftrightarrow> agreed ms \<and> in_order ms)
    \<and> (\<forall>cfg'. cf_feed ms cfg = Inr cfg' \<longrightarrow> logs_hold n ms cfg')"
  using assms(1)
proof (induction ms rule: rev_induct)
  case Nil
  then show ?case using assms(2) by (simp add: agreed_def in_order_def applied_def)
next
  case (snoc x ms)
  obtain i m where x: "x = (i, m)" by fastforce
  from snoc have i: "i < n" and IH: "((\<exists>cfg'. cf_feed ms cfg = Inr cfg') \<longleftrightarrow> agreed ms \<and> in_order ms)"
      "\<And>cfg'. cf_feed ms cfg = Inr cfg' \<Longrightarrow> logs_hold n ms cfg'" by (auto simp: x)
  show ?case
  proof (cases "cf_feed ms cfg")
    case (Inl e)
    then have "\<not> (agreed ms \<and> in_order ms)" using IH(1) by simp
    then have "\<not> (agreed (ms @ [x]) \<and> in_order (ms @ [x]))"
      using agreed_prefix [of ms "[x]"] by (auto simp: x in_order_snoc)
    with Inl show ?thesis by (simp add: x cf_feed_snoc)
  next
    case (Inr cfg1)
    then have ok: "agreed ms" "in_order ms" and h: "logs_hold n ms cfg1" using IH by auto
    have f: "cf_feed (ms @ [x]) cfg = cf_applier i m cfg1" using Inr by (simp add: x cf_feed_snoc)
    show ?thesis
    proof (cases "CommandValid m")
      case False
      then have "applied (ms @ [x]) = applied ms" by (auto simp: x applied_snoc fun_eq_iff)
      with False f ok h show ?thesis by (simp add: cf_applier_def agreed_def logs_hold_def x in_order_snoc)
    next
      case True
      have same: "(\<forall>j < n. \<forall>old. (cf_logs cfg1 ! j) (CommandIndex m) = Some old \<longrightarrow> old = Command m) \<longleftrightarrow> agreed (ms @ [x])"
      proof -
        have "j < n" if "applied ms j k v" for j k v using that snoc.prems by (auto simp: applied_def list_all_iff)
        with h show ?thesis unfolding x agreed_snoc [OF ok(1) True] logs_hold_def by blast
      qed
      have prev: "(cf_logs cfg1 ! i) (CommandIndex m - 1) \<noteq> None \<longleftrightarrow> (\<exists>v. applied ms i (CommandIndex m - 1) v)"
        using h i by (auto simp: logs_hold_def)
      have len: "length (cf_logs cfg1) = n" using h by (simp add: logs_hold_def)
      have "(\<exists>cfg'. cf_applier i m cfg1 = Inr cfg') \<longleftrightarrow> agreed (ms @ [x]) \<and> in_order (ms @ [x])"
        unfolding cf_applier_Inr(1) [OF True] len same prev by (simp add: x in_order_snoc ok(2) True)
      then have "(\<exists>cfg'. cf_feed (ms @ [x]) cfg = Inr cfg') \<longleftrightarrow> agreed (ms @ [x]) \<and> in_order (ms @ [x])" by (simp add: f)
      moreover have "logs_hold n (ms @ [x]) cfg'" if "cf_feed (ms @ [x]) cfg = Inr cfg'" for cfg'
      proof -
        have "agreed (ms @ [x])" using calculation that by auto
        then have "v = Command m" if "applied ms i (CommandIndex m) v" for v
          using that agreed_snoc [OF ok(1) True, of i] by (simp add: x)
        with h i True cf_applier_Inr(2) [OF True that [unfolded f]] show ?thesis
          by (auto simp: logs_hold_def x applied_snoc nth_list_update)
      qed
      ultimately show ?thesis by blast
    qed
  qed
qed

text \<open>C29: the tester of Raft raises an alarm exactly when Raft fails. Whatever the servers apply, in whatever
  order the harness sees it: the appliers let it pass if and only if no two servers, and no server twice,
  apply different commands at one index, and every server applies its commands in order. A passed test is
  then a proof that state machine safety held in it.\<close>

theorem applier_exact:
  assumes "list_all (\<lambda>(i, m). i < n) ms"
  shows "(\<exists>cfg. cf_feed ms (cf_new n) = Inr cfg) \<longleftrightarrow> agreed ms \<and> in_order ms"
proof -
  have "logs_hold n [] (cf_new n)" by (simp add: logs_hold_def cf_new_def applied_def)
  with cf_feed_exact [OF assms] show ?thesis by blast
qed

subsection \<open>Counting commits\<close>

text \<open>On logs that agree, \<open>nCommitted\<close> returns the number of servers that have the index, with its command.\<close>

lemma cf_nCommitted_loop_ok:
  assumes "\<forall>i \<in> set is. cf_applyErr cfg ! i = []"
    and "\<forall>i \<in> set is. \<forall>v. (cf_logs cfg ! i) index = Some v \<longrightarrow> v = c" and "n > 0 \<longrightarrow> cmd = c"
  shows "\<exists>cmd'. cf_nCommitted_loop cfg index is n cmd
      = Inr (n + length (filter (\<lambda>i. (cf_logs cfg ! i) index \<noteq> None) is), cmd')
    \<and> (n + length (filter (\<lambda>i. (cf_logs cfg ! i) index \<noteq> None) is) > 0 \<longrightarrow> cmd' = c)"
  using assms
proof (induction "is" arbitrary: n cmd)
  case (Cons i "is")
  show ?case
  proof (cases "(cf_logs cfg ! i) index")
    case None
    with Cons.IH [of n cmd] Cons.prems show ?thesis by simp
  next
    case (Some v)
    then have "v = c" using Cons.prems(2) by simp
    with Some Cons.IH [of "n + 1" v] Cons.prems show ?thesis by auto
  qed
qed simp

text \<open>After messages that passed, \<open>nCommitted\<close> never fails, and counts the servers that applied the index.\<close>

theorem nCommitted_after_feed:
  assumes "list_all (\<lambda>(i, m). i < n) ms" and "cf_feed ms (cf_new n) = Inr cfg"
    and "cf_applyErr cfg = replicate n []" and "length (cf_rafts cfg) = n" and "applied ms i k c" and "i < n"
  shows "cf_nCommitted k cfg = Inr (card {j. j < n \<and> (\<exists>v. applied ms j k v)}, c)"
proof -
  have "logs_hold n [] (cf_new n)" by (simp add: logs_hold_def cf_new_def applied_def)
  from cf_feed_exact [OF assms(1) this] assms(2) have h: "logs_hold n ms cfg" and a: "agreed ms" by blast+
  have l: "(cf_logs cfg ! j) k = Some v \<longleftrightarrow> applied ms j k v" if "j < n" for j v using h that by (simp add: logs_hold_def)
  have "v = c" if "j < n" "(cf_logs cfg ! j) k = Some v" for j v
    using a l [OF that(1)] that(2) assms(5) unfolding agreed_def by blast
  then have "\<forall>j \<in> set [0..<n]. \<forall>v. (cf_logs cfg ! j) k = Some v \<longrightarrow> v = c" by simp
  moreover have "\<forall>j \<in> set [0..<n]. cf_applyErr cfg ! j = []" using assms(3) by simp
  ultimately obtain cmd where r: "cf_nCommitted_loop cfg k [0..<n] 0 None
      = Inr (0 + length (filter (\<lambda>j. (cf_logs cfg ! j) k \<noteq> None) [0..<n]), cmd)"
    "0 + length (filter (\<lambda>j. (cf_logs cfg ! j) k \<noteq> None) [0..<n]) > 0 \<longrightarrow> cmd = c"
    using cf_nCommitted_loop_ok [where n = 0] by blast
  have f: "length (filter (\<lambda>j. (cf_logs cfg ! j) k \<noteq> None) [0..<n]) = card {j. j < n \<and> (\<exists>v. applied ms j k v)}"
  proof -
    have "{j. j < n \<and> (\<exists>v. applied ms j k v)} = set (filter (\<lambda>j. (cf_logs cfg ! j) k \<noteq> None) [0..<n])"
      using l by auto
    then show ?thesis using distinct_card [of "filter (\<lambda>j. (cf_logs cfg ! j) k \<noteq> None) [0..<n]"] by simp
  qed
  have "i \<in> set (filter (\<lambda>j. (cf_logs cfg ! j) k \<noteq> None) [0..<n])" using l [OF assms(6)] assms(5,6) by auto
  then have "filter (\<lambda>j. (cf_logs cfg ! j) k \<noteq> None) [0..<n] \<noteq> []" by (metis empty_iff empty_set)
  then have "cmd = c" using r(2) by simp
  then show ?thesis using r(1) f assms(4) by (simp add: cf_nCommitted_def)
qed


subsection \<open>Looking for a leader\<close>

text \<open>What one look at server \<open>i\<close> shows.\<close>

definition sees_leader :: "(nat \<Rightarrow> 'c config) \<Rightarrow> nat \<Rightarrow> int \<Rightarrow> bool" where
  "sees_leader obs i t \<longleftrightarrow> cf_connected (obs i) ! i
     \<and> (\<exists>rf. cf_rafts (obs i) ! i = Some rf \<and> GetState rf = (t, True))"

definition leaders_of :: "(int \<times> nat list) list \<Rightarrow> int \<Rightarrow> nat list" where
  "leaders_of leaders t = (case map_of leaders t of None \<Rightarrow> [] | Some ls \<Rightarrow> ls)"

definition leaders_ok :: "(int \<times> nat list) list \<Rightarrow> bool" where
  "leaders_ok leaders \<longleftrightarrow> distinct (map fst leaders) \<and> (\<forall>(t, ls) \<in> set leaders. ls \<noteq> [])"

lemma leaders_ok_update:
  assumes "leaders_ok leaders" and "ls \<noteq> []"
  shows "leaders_ok (AList.update t ls leaders)"
proof -
  have "set (AList.update t ls leaders) \<subseteq> insert (t, ls) (set leaders)"
    by (induction leaders) auto
  then show ?thesis using assms by (auto simp: leaders_ok_def distinct_update)
qed

lemma cf_leaders_correct:
  assumes "\<forall>i \<in> set is. cf_connected (obs i) ! i \<longrightarrow> cf_rafts (obs i) ! i \<noteq> None" and "leaders_ok leaders"
  shows "\<exists>L. cf_leaders obs is leaders = Inr L \<and> leaders_ok L
    \<and> (\<forall>t. leaders_of L t = leaders_of leaders t @ filter (\<lambda>i. sees_leader obs i t) is)"
  using assms
proof (induction "is" arbitrary: leaders)
  case (Cons i "is")
  show ?case
  proof (cases "\<exists>t. sees_leader obs i t")
    case True
    then obtain t rf where t: "cf_connected (obs i) ! i" "cf_rafts (obs i) ! i = Some rf" "GetState rf = (t, True)"
      by (auto simp: sees_leader_def)
    let ?L = "AList.update t (leaders_of leaders t @ [i]) leaders"
    have s: "sees_leader obs i u \<longleftrightarrow> u = t" for u using t by (auto simp: sees_leader_def)
    have "leaders_of ?L u = leaders_of leaders u @ (if u = t then [i] else [])" for u
      by (simp add: leaders_of_def update_conv')
    with Cons.IH [of ?L] Cons.prems leaders_ok_update [OF Cons.prems(2)] t s show ?thesis
      by (auto simp: leaders_of_def [symmetric])
  next
    case False
    then have "cf_leaders obs (i # is) leaders = cf_leaders obs is leaders"
      using Cons.prems(1) by (auto simp: sees_leader_def Let_def split: option.splits prod.splits)
    with Cons.IH [of leaders] Cons.prems False show ?thesis by simp
  qed
qed simp

lemma cf_lastTerm_correct:
  assumes "\<forall>(t, ls) \<in> set L. length ls \<le> 1"
  shows "cf_lastTerm L k = Inr (Max (insert k (fst ` set L)))"
  using assms
proof (induction L arbitrary: k)
  case (Cons x L)
  obtain t ls where x: "x = (t, ls)" by fastforce
  have "Max (insert (max k t) (fst ` set L)) = Max (insert k (insert t (fst ` set L)))"
    by (cases "fst ` set L = {}") (auto simp: Max_insert max.assoc)
  moreover have "(if t > k then t else k) = max k t" by simp
  ultimately show ?case using Cons x by simp
qed simp

text \<open>A leader's term is not negative: before the first term, nobody can have voted.\<close>

lemma leader_term_nonneg:
  assumes "0 \<le> n" and "csteps (init_cluster n) s" and "leads s i t"
  shows "0 \<le> t"
proof (rule ccontr)
  assume neg: "\<not> 0 \<le> t"
  let ?V = "\<lambda>(_ :: int) t :: int. if t < 0 then Some (-7 :: int) else None"
  have "election_inv ?V (\<lambda>_. {}) (init_cluster n)"
    using assms(1)
    by (auto simp: election_inv_def init_cluster_def nodes_ok_def is_server_def votes_ok_def cast_def
        rv_keys_def counted_ok_def supporters_def elections_ok_def roles_ok_def Make_fixed Make_fresh
        persisted_Make rf_wf_def go_len_def log_wf_NewLog)
  from election_inv_steps [OF assms(2) this] obtain V C where inv: "election_inv V C s" and ext: "extends ?V V" by blast
  have "majority (csize s) (supporters V (csize s) t i)"
    using election_invD(9) [OF inv] assms(3) by (auto simp: roles_ok_def leads_def)
  then have "supporters V (csize s) t i \<noteq> {}" by (auto simp: majority_def)
  then obtain p where "V p t = Some i" by (auto simp: supporters_def)
  moreover have "V p t = Some (-7)" using ext neg by (simp add: extends_def)
  ultimately have "i = -7" by simp
  then show False using assms(3) by (simp add: leads_def is_server_def)
qed

text \<open>The looks of one round at a running cluster of \<open>n\<close> peers, one server after the other.\<close>

definition looks_at :: "nat \<Rightarrow> (nat \<Rightarrow> 'c config) \<Rightarrow> bool" where
  "looks_at n obs \<longleftrightarrow> (\<exists>st. csteps (init_cluster (int n)) (st 0) \<and> (\<forall>k. csteps (st k) (st (Suc k)))
     \<and> (\<forall>i < n. cf_connected (obs i) ! i \<longrightarrow> cf_rafts (obs i) ! i = Some (node (st i) (int i))))"

lemma csteps_chain:
  assumes "\<And>k. csteps (st k) (st (Suc k))" and "i \<le> j"
  shows "csteps (st i) (st j)"
  using assms(2) by (induction rule: dec_induct) (auto intro: csteps.refl csteps_trans assms(1))

lemma sees_one_leader:
  assumes "looks_at n obs" and "i < n" and "j < n" and "sees_leader obs i t" and "sees_leader obs j u"
  shows "0 \<le> t" "t = u \<Longrightarrow> i = j"
proof -
  obtain st where st: "csteps (init_cluster (int n)) (st 0)" "\<And>k. csteps (st k) (st (Suc k))"
    "\<And>i. i < n \<Longrightarrow> cf_connected (obs i) ! i \<Longrightarrow> cf_rafts (obs i) ! i = Some (node (st i) (int i))"
    using assms(1) unfolding looks_at_def by blast
  have run: "csteps (init_cluster (int n)) (st k)" for k
    using csteps_trans [OF csteps_chain [of st 0 k, OF st(2)] st(1)] by simp
  have leads: "leads (st k) (int k) v" if "k < n" "sees_leader obs k v" for k v
  proof -
    have "cf_rafts (obs k) ! k = Some (node (st k) (int k))" using st(3) that by (simp add: sees_leader_def)
    with that csteps_csize [OF run [of k]] show ?thesis
      by (auto simp: leads_def is_server_def sees_leader_def GetState_def init_cluster_def)
  qed
  show "0 \<le> t" by (rule leader_term_nonneg [OF _ run leads [OF assms(2,4)]]) simp
  assume "t = u"
  then have l: "leads (st i) (int i) t" "leads (st j) (int j) t" using leads assms(2-5) by auto
  show "i = j"
  proof (cases "i \<le> j")
    case True
    from one_leader_per_term [OF _ run csteps_chain [of st, OF st(2) True] l] show ?thesis by simp
  next
    case False
    then have "j \<le> i" by simp
    from one_leader_per_term [OF _ run csteps_chain [of st, OF st(2) this] l(2,1)] show ?thesis by simp
  qed
qed

lemma leaders_of_in: "leaders_ok L \<Longrightarrow> (t, ls) \<in> set L \<Longrightarrow> leaders_of L t = ls"
  by (simp add: leaders_ok_def leaders_of_def)

lemma round_correct:
  fixes obs :: "nat \<Rightarrow> 'c config"
  assumes "looks_at n obs" and "\<And>xs. set (ord xs) = set xs"
  obtains L where "cf_leaders obs [0..<n] [] = Inr L"
    and "cf_lastTerm (ord L) (-1) = (Inr (Max (insert (-1) (fst ` set L))) :: ('c, int) checkedt)"
    and "L \<noteq> [] \<longrightarrow> (\<exists>l ls. map_of L (Max (insert (-1) (fst ` set L))) = Some (l # ls) \<and> l < n
         \<and> sees_leader obs l (Max (insert (-1) (fst ` set L))))"
    and "\<forall>i < n. \<forall>t. sees_leader obs i t \<longrightarrow> t \<in> fst ` set L"
proof -
  have "\<forall>i \<in> set [0..<n]. cf_connected (obs i) ! i \<longrightarrow> cf_rafts (obs i) ! i \<noteq> None"
    using assms(1) by (auto simp: looks_at_def)
  moreover have "leaders_ok []" by (simp add: leaders_ok_def)
  ultimately obtain L where L: "cf_leaders obs [0..<n] [] = Inr L" "leaders_ok L"
    "\<And>t. leaders_of L t = filter (\<lambda>i. sees_leader obs i t) [0..<n]"
    using cf_leaders_correct [of "[0..<n]" obs "[]"] by (auto simp: leaders_of_def)
  have one: "length (leaders_of L t) \<le> 1" for t
  proof -
    have "i = j" if "i \<in> set (leaders_of L t)" "j \<in> set (leaders_of L t)" for i j
      using that sees_one_leader(2) [OF assms(1), of i j t t] by (simp add: L(3))
    then have "card (set (leaders_of L t)) \<le> 1" by (auto simp: card_le_Suc0_iff_eq)
    then show ?thesis using distinct_card [of "leaders_of L t"] by (simp add: L(3))
  qed
  then have "\<forall>(t, ls) \<in> set (ord L). length ls \<le> 1" using leaders_of_in [OF L(2)] assms(2) by fastforce
  then have last: "(cf_lastTerm (ord L) (-1) :: ('c, int) checkedt) = Inr (Max (insert (-1) (fst ` set L)))"
    using cf_lastTerm_correct [of "ord L" "-1"] assms(2) by simp
  let ?t = "Max (insert (-1) (fst ` set L))"
  have top: "\<exists>l ls. map_of L ?t = Some (l # ls) \<and> l < n \<and> sees_leader obs l ?t" if "L \<noteq> []"
  proof -
    have sees: "ls \<noteq> []" "hd ls < n" "sees_leader obs (hd ls) t" if "(t, ls) \<in> set L" for t ls
    proof -
      show ne: "ls \<noteq> []" using L(2) that by (auto simp: leaders_ok_def)
      have "ls = filter (\<lambda>i. sees_leader obs i t) [0..<n]" using leaders_of_in [OF L(2) that] L(3) by simp
      with hd_in_set [OF ne] show "hd ls < n" "sees_leader obs (hd ls) t" by auto
    qed
    have nonneg: "0 \<le> t" if "(t, ls) \<in> set L" for t ls
      using sees_one_leader(1) [OF assms(1) sees(2) [OF that] sees(2) [OF that] sees(3) [OF that] sees(3) [OF that]] .
    have "?t \<in> fst ` set L"
    proof -
      from \<open>L \<noteq> []\<close> obtain t ls where x: "(t, ls) \<in> set L" by (cases L) auto
      then have "t \<le> ?t" by (intro Max_ge) force+
      then have "0 \<le> ?t" using nonneg [OF x] by simp
      moreover have "?t \<in> insert (-1) (fst ` set L)" by (intro Max_in) auto
      ultimately show ?thesis by auto
    qed
    then obtain ls where ls: "(?t, ls) \<in> set L" by auto
    then have "map_of L ?t = Some ls" using L(2) by (simp add: leaders_ok_def)
    with sees [OF ls] show ?thesis by (cases ls) auto
  qed
  have all: "t \<in> fst ` set L" if "i < n" "sees_leader obs i t" for i t
  proof -
    have "leaders_of L t \<noteq> []" using that by (auto simp: L(3) filter_empty_conv)
    then show ?thesis by (force simp: leaders_of_def split: option.splits dest: map_of_SomeD)
  qed
  show thesis by (rule that [OF L(1) last]) (use top all in blast)+
qed

text \<open>C30: on peers that run this Raft, \<open>checkOneLeader\<close> never finds two leaders of one term and never
  panics, although it looks at the servers one after the other while they go on: it can only fail because
  there was no leader in any of its rounds. What it returns is a connected server that was leader when it was
  looked at, with the highest term of all leaders seen in that round.\<close>

theorem checkOneLeader_sound:
  fixes obss :: "(nat \<Rightarrow> 'c config) list"
  assumes "list_all (looks_at n) obss" and "\<And>xs. set (ord xs) = set xs"
  shows "(cf_checkOneLeader n ord obss = Inl e \<longrightarrow>
      e = NoLeader \<and> (\<forall>obs \<in> set obss. \<forall>i < n. \<forall>t. \<not> sees_leader obs i t))
    \<and> (cf_checkOneLeader n ord obss = Inr l \<longrightarrow>
      (\<exists>obs \<in> set obss. \<exists>t. l < n \<and> sees_leader obs l t \<and> (\<forall>i < n. \<forall>u. sees_leader obs i u \<longrightarrow> u \<le> t)))"
  using assms(1)
proof (induction obss)
  case (Cons obs obss)
  then have "looks_at n obs" by simp
  from this assms(2) obtain L where
    L: "cf_leaders obs [0..<n] [] = Inr L"
      "cf_lastTerm (ord L) (-1) = (Inr (Max (insert (-1) (fst ` set L))) :: ('c, int) checkedt)"
      "L \<noteq> [] \<longrightarrow> (\<exists>l ls. map_of L (Max (insert (-1) (fst ` set L))) = Some (l # ls) \<and> l < n
         \<and> sees_leader obs l (Max (insert (-1) (fst ` set L))))"
      "\<forall>i < n. \<forall>t. sees_leader obs i t \<longrightarrow> t \<in> fst ` set L" by (rule round_correct)
  show ?case
  proof (cases "L = []")
    case True
    then have "cf_lastTerm (ord []) (-1) = (Inr (-1) :: ('c, int) checkedt)" using L(2) by simp
    with True L(1) have "cf_checkOneLeader n ord (obs # obss) = cf_checkOneLeader n ord obss" by simp
    moreover have "\<forall>i < n. \<forall>t. \<not> sees_leader obs i t" using True L(4) by auto
    ultimately show ?thesis using Cons by auto
  next
    case False
    then obtain l' ls where l: "map_of L (Max (insert (-1) (fst ` set L))) = Some (l' # ls)" "l' < n"
      "sees_leader obs l' (Max (insert (-1) (fst ` set L)))" using L(3) by blast
    have "u \<le> Max (insert (-1) (fst ` set L))" if "i < n" "sees_leader obs i u" for i u
      using L(4) that by (intro Max_ge) auto
    with l L(1,2) False show ?thesis by auto
  qed
qed auto

subsection \<open>Partitions\<close>

text \<open>Runs of the harness: servers are started, crashed, connected and disconnected, apply commands, and change
  on their own.\<close>

inductive tester_run :: "nat \<Rightarrow> 'c config \<Rightarrow> bool" for n where
  fresh: "tester_run n (cf_new n)"
| unreliable: "tester_run n cfg \<Longrightarrow> tester_run n (cf_setunreliable b cfg)"
| reordering: "tester_run n cfg \<Longrightarrow> tester_run n (cf_setlongreordering b cfg)"
| delays: "tester_run n cfg \<Longrightarrow> tester_run n (cfg\<lparr>cf_net := LongDelays b (cf_net cfg)\<rparr>)"
| clears: "tester_run n cfg \<Longrightarrow> tester_run n (cfg\<lparr>cf_logs := ls\<rparr>)"
| moves: "tester_run n cfg \<Longrightarrow> length rs = length (cf_rafts cfg) \<Longrightarrow> tester_run n (cfg\<lparr>cf_rafts := rs\<rparr>)"
| applies: "tester_run n cfg \<Longrightarrow> cf_applier i m cfg = Inr cfg' \<Longrightarrow> tester_run n cfg'"
| starts: "tester_run n cfg \<Longrightarrow> length names = n \<Longrightarrow> cf_start1 i names srv cfg = Inr cfg' \<Longrightarrow> tester_run n cfg'"
| crashes: "tester_run n cfg \<Longrightarrow> cf_crash1 i cfg = Inr cfg' \<Longrightarrow> tester_run n cfg'"
| connects: "tester_run n cfg \<Longrightarrow> cf_connect i cfg = Inr cfg' \<Longrightarrow> tester_run n cfg'"
| disconnects: "tester_run n cfg \<Longrightarrow> cf_disconnect i cfg = Inr cfg' \<Longrightarrow> tester_run n cfg'"

text \<open>The ends of the present instances are all different, lead where they should, and are enabled exactly
  between connected servers; no other end is enabled.\<close>

definition net_inv :: "nat \<Rightarrow> 'c config \<Rightarrow> bool" where
  "net_inv n cfg \<longleftrightarrow> cf_n cfg = n \<and> length (cf_connected cfg) = n \<and> length (cf_endnames cfg) = n
     \<and> (\<forall>i < n. \<forall>es. cf_endnames cfg ! i = Some es \<longrightarrow> length es = n)
     \<and> (\<forall>i < n. \<forall>j < n. \<forall>e. cf_end cfg i j = Some e \<longrightarrow> e \<in> ends (cf_net cfg) \<and> connections (cf_net cfg) e = Some j)
     \<and> (\<forall>i < n. \<forall>j < n. \<forall>i' < n. \<forall>j' < n. \<forall>e. cf_end cfg i j = Some e \<and> cf_end cfg i' j' = Some e \<longrightarrow> i' = i \<and> j' = j)
     \<and> (\<forall>e. enabled (cf_net cfg) e \<longleftrightarrow>
          (\<exists>i < n. \<exists>j < n. cf_connected cfg ! i \<and> cf_connected cfg ! j \<and> cf_end cfg i j = Some e))"

lemma net_invD:
  assumes "net_inv n cfg"
  shows "cf_n cfg = n" "length (cf_connected cfg) = n" "length (cf_endnames cfg) = n"
    "i < n \<Longrightarrow> cf_endnames cfg ! i = Some es \<Longrightarrow> length es = n"
    "i < n \<Longrightarrow> j < n \<Longrightarrow> cf_end cfg i j = Some e \<Longrightarrow> e \<in> ends (cf_net cfg)"
    "i < n \<Longrightarrow> j < n \<Longrightarrow> cf_end cfg i j = Some e \<Longrightarrow> connections (cf_net cfg) e = Some j"
    "i < n \<Longrightarrow> j < n \<Longrightarrow> i' < n \<Longrightarrow> j' < n \<Longrightarrow> cf_end cfg i j = Some e \<Longrightarrow> cf_end cfg i' j' = Some e \<Longrightarrow> i' = i \<and> j' = j"
    "enabled (cf_net cfg) e \<longleftrightarrow>
       (\<exists>i < n. \<exists>j < n. cf_connected cfg ! i \<and> cf_connected cfg ! j \<and> cf_end cfg i j = Some e)"
  using assms unfolding net_inv_def by blast+

lemma net_inv_cong:
  assumes "net_inv n cfg" and "cf_n cfg' = cf_n cfg" "cf_connected cfg' = cf_connected cfg" "cf_endnames cfg' = cf_endnames cfg"
    and "ends (cf_net cfg') = ends (cf_net cfg)" "connections (cf_net cfg') = connections (cf_net cfg)"
      "enabled (cf_net cfg') = enabled (cf_net cfg)"
  shows "net_inv n cfg'"
proof -
  have "cf_end cfg' = cf_end cfg" by (simp add: cf_end_def fun_eq_iff assms(4))
  with assms show ?thesis unfolding net_inv_def by simp
qed

lemma enable_ends_sel:
  "ends (enable_ends b es rn) = ends rn" "connections (enable_ends b es rn) = connections rn"
  "enabled (enable_ends b es rn) e = (if e \<in> set es then b else enabled rn e)"
  by (induction es arbitrary: rn) (simp_all add: enable_ends_def Enable_def)

lemma the_filter: "e \<in> set (map the (filter (\<lambda>x. x \<noteq> None) xs)) \<longleftrightarrow> Some e \<in> set xs"
  by (induction xs) auto

lemma the_map: "None \<notin> set xs \<Longrightarrow> e \<in> set (map the xs) \<longleftrightarrow> Some e \<in> set xs"
  by (induction xs) auto

lemma ends_between:
  "Some e \<in> set (map (cf_end cfg i) js @ map (\<lambda>j. cf_end cfg j i) js) \<longleftrightarrow>
     (\<exists>j \<in> set js. cf_end cfg i j = Some e \<or> cf_end cfg j i = Some e)"
  by (induction js) auto

text \<open>Switching a set of ends on or off together with the connected servers.\<close>

lemma net_inv_switch:
  assumes inv: "net_inv n cfg" and len: "length cs = n"
    and sw: "\<And>e. (if e \<in> set es then b else enabled (cf_net cfg) e) \<longleftrightarrow>
       (\<exists>i < n. \<exists>j < n. cs ! i \<and> cs ! j \<and> cf_end cfg i j = Some e)"
  shows "net_inv n (cfg\<lparr>cf_connected := cs, cf_net := enable_ends b es (cf_net cfg)\<rparr>)"
proof -
  let ?c = "cfg\<lparr>cf_connected := cs, cf_net := enable_ends b es (cf_net cfg)\<rparr>"
  have e: "cf_end ?c = cf_end cfg" by (simp add: cf_end_def fun_eq_iff)
  show ?thesis unfolding net_inv_def e
    using inv len sw by (simp add: net_inv_def enable_ends_sel)
qed

lemma cf_disconnect_inv:
  assumes "cf_disconnect i cfg = Inr cfg'" and inv: "net_inv n cfg"
  shows "net_inv n cfg'" "i < n" "\<not> cf_connected cfg' ! i"
    "cf_rafts cfg' = cf_rafts cfg" "cf_saved cfg' = cf_saved cfg" "cf_endnames cfg' = cf_endnames cfg"
proof -
  let ?cs = "(cf_connected cfg)[i := False]"
  let ?es = "map the (filter (\<lambda>e. e \<noteq> None) (map (\<lambda>j. cf_end cfg i j) [0..<n] @ map (\<lambda>j. cf_end cfg j i) [0..<n]))"
  have n: "cf_n cfg = n" "length (cf_connected cfg) = n" using net_invD(1,2) [OF inv] by auto
  show i: "i < n" using assms(1) n by (auto simp: cf_disconnect_def split: if_splits)
  have "cf_end (cfg\<lparr>cf_connected := ?cs\<rparr>) = cf_end cfg" by (simp add: cf_end_def fun_eq_iff)
  then have c: "cfg' = cfg\<lparr>cf_connected := ?cs, cf_net := enable_ends False ?es (cf_net cfg)\<rparr>"
    using assms(1) i n by (simp add: cf_disconnect_def Let_def)
  have es: "e \<in> set ?es \<longleftrightarrow> (\<exists>j < n. cf_end cfg i j = Some e \<or> cf_end cfg j i = Some e)" for e
    unfolding the_filter ends_between by auto
  show "net_inv n cfg'" unfolding c
  proof (rule net_inv_switch [OF inv])
    fix e
    show "(if e \<in> set ?es then False else enabled (cf_net cfg) e) \<longleftrightarrow>
        (\<exists>a < n. \<exists>b < n. ?cs ! a \<and> ?cs ! b \<and> cf_end cfg a b = Some e)"
    proof
      assume "if e \<in> set ?es then False else enabled (cf_net cfg) e"
      then have ne: "e \<notin> set ?es" and "enabled (cf_net cfg) e" by (simp_all split: if_splits)
      then obtain a b where ab: "a < n" "b < n" "cf_connected cfg ! a" "cf_connected cfg ! b" "cf_end cfg a b = Some e"
        using net_invD(8) [OF inv] by blast
      then have "a \<noteq> i" "b \<noteq> i" using ne i unfolding es by auto
      then have "?cs ! a" "?cs ! b" using ab by simp_all
      with ab show "\<exists>a < n. \<exists>b < n. ?cs ! a \<and> ?cs ! b \<and> cf_end cfg a b = Some e" by blast
    next
      assume "\<exists>a < n. \<exists>b < n. ?cs ! a \<and> ?cs ! b \<and> cf_end cfg a b = Some e"
      then obtain a b where ab: "a < n" "b < n" "?cs ! a" "?cs ! b" "cf_end cfg a b = Some e" by blast
      then have ne: "a \<noteq> i" "b \<noteq> i" using n i by (auto simp: nth_list_update split: if_splits)
      then have "e \<notin> set ?es" unfolding es using net_invD(7) [OF inv] ab i by blast
      moreover have "enabled (cf_net cfg) e" using ab ne net_invD(8) [OF inv] by auto
      ultimately show "if e \<in> set ?es then False else enabled (cf_net cfg) e" by simp
    qed
  qed (use n in simp)
  show "\<not> cf_connected cfg' ! i" "cf_rafts cfg' = cf_rafts cfg" "cf_saved cfg' = cf_saved cfg"
    "cf_endnames cfg' = cf_endnames cfg" unfolding c using i n by simp_all
qed

lemma cf_connect_inv:
  assumes "cf_connect i cfg = Inr cfg'" and inv: "net_inv n cfg"
  shows "net_inv n cfg'"
proof -
  let ?cs = "(cf_connected cfg)[i := True]"
  let ?js = "filter (\<lambda>j. ?cs ! j) [0..<n]"
  let ?es = "map (\<lambda>j. cf_end cfg i j) ?js @ map (\<lambda>j. cf_end cfg j i) ?js"
  have n: "cf_n cfg = n" "length (cf_connected cfg) = n" using net_invD(1,2) [OF inv] by auto
  have i: "i < n" using assms(1) n by (auto simp: cf_connect_def split: if_splits)
  have "cf_end (cfg\<lparr>cf_connected := ?cs\<rparr>) = cf_end cfg" by (simp add: cf_end_def fun_eq_iff)
  then have none: "None \<notin> set ?es"
    and c: "cfg' = cfg\<lparr>cf_connected := ?cs, cf_net := enable_ends True (map the ?es) (cf_net cfg)\<rparr>"
    using assms(1) i n by (auto simp: cf_connect_def Let_def split: if_splits)
  have es: "e \<in> set (map the ?es) \<longleftrightarrow> (\<exists>j < n. ?cs ! j \<and> (cf_end cfg i j = Some e \<or> cf_end cfg j i = Some e))" for e
    unfolding the_map [OF none] ends_between by auto
  show ?thesis unfolding c
  proof (rule net_inv_switch [OF inv])
    fix e
    show "(if e \<in> set (map the ?es) then True else enabled (cf_net cfg) e) \<longleftrightarrow>
        (\<exists>a < n. \<exists>b < n. ?cs ! a \<and> ?cs ! b \<and> cf_end cfg a b = Some e)"
    proof
      assume "if e \<in> set (map the ?es) then True else enabled (cf_net cfg) e"
      then consider "e \<in> set (map the ?es)" | "enabled (cf_net cfg) e" by (auto split: if_splits)
      then show "\<exists>a < n. \<exists>b < n. ?cs ! a \<and> ?cs ! b \<and> cf_end cfg a b = Some e"
      proof cases
        case 1
        moreover have "?cs ! i" using i n by simp
        ultimately show ?thesis unfolding es using i by blast
      next
        case 2
        then obtain a b where ab: "a < n" "b < n" "cf_connected cfg ! a" "cf_connected cfg ! b" "cf_end cfg a b = Some e"
          using net_invD(8) [OF inv] by blast
        have "?cs ! a" using ab(1,3) n by (cases "a = i") simp_all
        moreover have "?cs ! b" using ab(2,4) n by (cases "b = i") simp_all
        ultimately show ?thesis using ab by blast
      qed
    next
      assume "\<exists>a < n. \<exists>b < n. ?cs ! a \<and> ?cs ! b \<and> cf_end cfg a b = Some e"
      then obtain a b where ab: "a < n" "b < n" "?cs ! a" "?cs ! b" "cf_end cfg a b = Some e" by blast
      show "if e \<in> set (map the ?es) then True else enabled (cf_net cfg) e"
      proof (cases "a = i \<or> b = i")
        case True
        then have "e \<in> set (map the ?es)" unfolding es using ab by blast
        then show ?thesis by simp
      next
        case False
        then have "enabled (cf_net cfg) e" using ab net_invD(8) [OF inv] by auto
        then show ?thesis by simp
      qed
    qed
  qed (use n in simp)
qed

lemma cf_crash1_inv:
  assumes "cf_crash1 i cfg = Inr cfg'" and "net_inv n cfg" and "length (cf_rafts cfg) = n" "length (cf_saved cfg) = n"
  shows "net_inv n cfg'" "i < n" "\<not> cf_connected cfg' ! i" "length (cf_rafts cfg') = n" "length (cf_saved cfg') = n"
    "cf_saved cfg' ! i = cf_persister cfg i" "cf_lastApplied cfg' = cf_lastApplied cfg"
proof -
  obtain c1 where c1: "cf_disconnect i cfg = Inr c1" using assms(1) by (auto simp: cf_crash1_def split: sum.splits)
  note d = cf_disconnect_inv [OF c1 assms(2)]
  let ?ps = "cf_persister (c1\<lparr>cf_net := DeleteServer i (cf_net c1)\<rparr>) i"
  have c': "cfg' = (let saved = map_option ps_Copy ?ps in
      c1\<lparr>cf_net := DeleteServer i (cf_net c1), cf_rafts := (cf_rafts c1)[i := None],
        cf_saved := (cf_saved c1)[i := map_option (\<lambda>ps. let raftlog = ReadRaftState ps; snap = ReadSnapshot ps
                                       in Save raftlog snap \<lparr>ps_raftstate = [], ps_snapshot = []\<rparr>) saved]\<rparr>)"
    using assms(1) c1 by (simp add: cf_crash1_def Let_def)
  show "net_inv n cfg'" by (rule net_inv_cong [OF d(1)]) (simp_all add: c' Let_def DeleteServer_def)
  show "i < n" "\<not> cf_connected cfg' ! i" using d(2,3) by (simp_all add: c' Let_def)
  show "length (cf_rafts cfg') = n" "length (cf_saved cfg') = n" using d(4,5) assms(3,4) by (simp_all add: c' Let_def)
  have p: "?ps = cf_persister cfg i" by (simp add: cf_persister_def d(4,5) split: option.split)
  have "Save (ReadRaftState (ps_Copy ps)) (ReadSnapshot (ps_Copy ps)) \<lparr>ps_raftstate = [], ps_snapshot = []\<rparr> = ps"
    for ps :: "('a, 'a tgob) Persister"
    by (simp add: Save_def ReadRaftState_def ReadSnapshot_def ps_Copy_def MakePersister_def clone_def)
  then show "cf_saved cfg' ! i = cf_persister cfg i"
    using d(2,5) assms(4) by (cases "cf_persister cfg i") (simp_all add: c' Let_def p)
  show "cf_lastApplied cfg' = cf_lastApplied cfg" using c1 by (auto simp: c' Let_def cf_disconnect_def split: if_splits)
qed

lemma cf_make_ends_sel:
  assumes "cf_make_ends j names rn = (Inr rn' :: ('d, (string, nat) Network) checkedt)"
  shows "distinct names" "set names \<inter> ends rn = {}" "ends rn' = ends rn \<union> set names"
    "enabled rn' e \<longleftrightarrow> e \<notin> set names \<and> enabled rn e"
    "e \<notin> set names \<Longrightarrow> connections rn' e = connections rn e"
    "k < length names \<Longrightarrow> connections rn' (names ! k) = Some (j + k)"
proof -
  have "distinct names \<and> set names \<inter> ends rn = {} \<and> ends rn' = ends rn \<union> set names
    \<and> (\<forall>e. enabled rn' e \<longleftrightarrow> e \<notin> set names \<and> enabled rn e)
    \<and> (\<forall>e. e \<notin> set names \<longrightarrow> connections rn' e = connections rn e)
    \<and> (\<forall>k < length names. connections rn' (names ! k) = Some (j + k))"
    using assms
  proof (induction j names rn rule: cf_make_ends.induct)
    case (2 j x names rn)
    then obtain rn1 where m1: "MakeEnd x rn = Some rn1" by (cases "MakeEnd x rn") auto
    with 2(2) have "cf_make_ends (Suc j) names (Connect x j rn1) = (Inr rn' :: ('d, (string, nat) Network) checkedt)" by simp
    note m = m1 this
    let ?rn = "Connect x j rn1"
    from m(1) have x: "x \<notin> ends rn" "ends ?rn = insert x (ends rn)" "enabled ?rn = (enabled rn)(x := False)"
      "connections ?rn = (connections rn)(x := Some j)" by (auto simp: MakeEnd_def Connect_def split: if_splits)
    from 2(1) [OF m] have IH: "distinct names" "set names \<inter> ends ?rn = {}" "ends rn' = ends ?rn \<union> set names"
      "\<And>e. enabled rn' e \<longleftrightarrow> e \<notin> set names \<and> enabled ?rn e"
      "\<And>e. e \<notin> set names \<Longrightarrow> connections rn' e = connections ?rn e"
      "\<And>k. k < length names \<Longrightarrow> connections rn' (names ! k) = Some (Suc j + k)" by blast+
    have "x \<notin> set names" using IH(2) x(2) by blast
    moreover have "connections rn' ((x # names) ! k) = Some (j + k)" if "k < length (x # names)" for k
      using that IH(5) [OF \<open>x \<notin> set names\<close>] IH(6) x(4) by (cases k) auto
    ultimately show ?case using IH x by auto
  qed simp
  then show "distinct names" "set names \<inter> ends rn = {}" "ends rn' = ends rn \<union> set names"
    "enabled rn' e \<longleftrightarrow> e \<notin> set names \<and> enabled rn e"
    "e \<notin> set names \<Longrightarrow> connections rn' e = connections rn e"
    "k < length names \<Longrightarrow> connections rn' (names ! k) = Some (j + k)" by blast+
qed

text \<open>A server that is not connected gets new ends.\<close>

lemma net_inv_new_ends:
  assumes inv: "net_inv n cfg" and i: "i < n" and off: "\<not> cf_connected cfg ! i" and len: "length names = n"
    and mk: "cf_make_ends 0 names (cf_net cfg) = (Inr rn :: ('d, (string, nat) Network) checkedt)"
  shows "net_inv n (cfg\<lparr>cf_endnames := (cf_endnames cfg)[i := Some names], cf_net := rn\<rparr>)"
proof -
  let ?c = "cfg\<lparr>cf_endnames := (cf_endnames cfg)[i := Some names], cf_net := rn\<rparr>"
  note m = cf_make_ends_sel [OF mk]
  have n: "cf_n cfg = n" "length (cf_connected cfg) = n" "length (cf_endnames cfg) = n" using net_invD(1-3) [OF inv] by auto
  have new: "cf_end ?c i b = Some (names ! b)" for b using i n by (simp add: cf_end_def)
  have old: "cf_end ?c a b = cf_end cfg a b" if "a \<noteq> i" for a b using that by (simp add: cf_end_def)
  have known: "e \<in> ends (cf_net cfg)" "e \<notin> set names" if "a < n" "b < n" "cf_end cfg a b = Some e" for a b e
    using net_invD(5) [OF inv that] m(2) by blast+
  have e: "e \<in> ends rn \<and> connections rn e = Some b" if "a < n" "b < n" "cf_end ?c a b = Some e" for a b e
  proof (cases "a = i")
    case True
    with that new have "e = names ! b" by simp
    then show ?thesis using m(3) m(6) [of b] that(2) len by simp
  next
    case False
    with that old have o: "cf_end cfg a b = Some e" by simp
    then show ?thesis using known [OF that(1,2) o] m(3) m(5) [of e] net_invD(6) [OF inv that(1,2) o] by simp
  qed
  have inj: "a' = a \<and> b' = b" if ab: "a < n" "b < n" "a' < n" "b' < n" "cf_end ?c a b = Some e" "cf_end ?c a' b' = Some e" for a b a' b' e
  proof (cases "a = i"; cases "a' = i")
    assume "a = i" "a' = i"
    then show ?thesis using ab new m(1) len by (metis nth_eq_iff_index_eq option.inject)
  next
    assume "a \<noteq> i" "a' \<noteq> i"
    then show ?thesis using ab old net_invD(7) [OF inv] by metis
  next
    assume "a = i" "a' \<noteq> i"
    then have "e = names ! b" "cf_end cfg a' b' = Some e" using ab new old by auto
    then show ?thesis using known(2) [OF ab(3,4)] ab(2) len by (metis nth_mem)
  next
    assume "a \<noteq> i" "a' = i"
    then have "e = names ! b'" "cf_end cfg a b = Some e" using ab new old by auto
    then show ?thesis using known(2) [OF ab(1,2)] ab(4) len by (metis nth_mem)
  qed
  have en: "enabled rn e \<longleftrightarrow> (\<exists>a < n. \<exists>b < n. cf_connected cfg ! a \<and> cf_connected cfg ! b \<and> cf_end ?c a b = Some e)" for e
  proof -
    have "(\<exists>a < n. \<exists>b < n. cf_connected cfg ! a \<and> cf_connected cfg ! b \<and> cf_end ?c a b = Some e) \<longleftrightarrow> enabled (cf_net cfg) e"
      unfolding net_invD(8) [OF inv] using old off by metis
    moreover have "enabled (cf_net cfg) e \<Longrightarrow> e \<notin> set names"
      unfolding net_invD(8) [OF inv] using known(2) by blast
    ultimately show ?thesis unfolding m(4) by blast
  qed
  have "length es = n" if "a < n" "(cf_endnames cfg)[i := Some names] ! a = Some es" for a es
    using that net_invD(4) [OF inv, of a es] len n i by (cases "a = i") simp_all
  then show ?thesis using n e inj en unfolding net_inv_def by simp
qed

lemma cf_ingestSnap_frame:
  assumes "cf_ingestSnap i snap idx cfg = (err, cfg')"
  shows "cf_n cfg' = cf_n cfg" "cf_connected cfg' = cf_connected cfg" "cf_endnames cfg' = cf_endnames cfg"
    "cf_net cfg' = cf_net cfg" "cf_rafts cfg' = cf_rafts cfg" "cf_saved cfg' = cf_saved cfg"
  using assms by (induction i snap idx cfg rule: cf_ingestSnap.induct) (auto split: if_splits)

lemma cf_load_frame:
  assumes "cf_load i cfg = (err, ps, cfg')"
  shows "cf_n cfg' = cf_n cfg" "cf_connected cfg' = cf_connected cfg" "cf_endnames cfg' = cf_endnames cfg"
    "cf_net cfg' = cf_net cfg" "cf_rafts cfg' = cf_rafts cfg" "cf_saved cfg' = cf_saved cfg"
    "ps = (case cf_saved cfg ! i of None \<Rightarrow> MakePersister | Some old \<Rightarrow> old)"
  using assms cf_ingestSnap_frame [of i _ "-1" cfg err cfg']
  by (auto simp: cf_load_def Let_def ps_Copy_def MakePersister_def split: option.splits if_splits prod.splits)

definition harness_ok :: "nat \<Rightarrow> 'c config \<Rightarrow> bool" where
  "harness_ok n cfg \<longleftrightarrow> net_inv n cfg \<and> length (cf_rafts cfg) = n \<and> length (cf_saved cfg) = n"

text \<open>\<open>start1\<close>: the new peer is made of the state that the old one had saved.\<close>

lemma cf_start1_inv:
  assumes "cf_start1 i names srv cfg = Inr cfg'" and ok: "harness_ok n cfg" and len: "length names = n"
  shows "harness_ok n cfg'" "i < n"
    "cf_rafts cfg' ! i = Some (Make (int n) (int i) (case cf_persister cfg i of None \<Rightarrow> MakePersister | Some ps \<Rightarrow> ps))"
proof -
  obtain c1 where c1: "cf_crash1 i cfg = Inr c1" using assms(1) by (auto simp: cf_start1_def split: sum.splits)
  note k = cf_crash1_inv [OF c1 ok [unfolded harness_ok_def, THEN conjunct1]]
  have l: "length (cf_rafts cfg) = n" "length (cf_saved cfg) = n" using ok by (simp_all add: harness_ok_def)
  let ?c2 = "c1\<lparr>cf_endnames := (cf_endnames c1)[i := Some names]\<rparr>"
  obtain rn where rn: "cf_make_ends 0 names (cf_net ?c2) = (Inr rn :: ('a, (string, nat) Network) checkedt)"
    using assms(1) c1 by (auto simp: cf_start1_def Let_def split: sum.splits)
  let ?c3 = "?c2\<lparr>cf_net := rn, cf_lastApplied := (cf_lastApplied ?c2)[i := 0]\<rparr>"
  obtain err ps c4 where c4: "cf_load i ?c3 = (err, ps, c4)" by (metis surj_pair)
  with assms(1) c1 rn have "err = None"
    and c': "cfg' = c4\<lparr>cf_saved := (cf_saved c4)[i := Some ps],
        cf_rafts := (cf_rafts c4)[i := Some (Make (int (cf_n c4)) (int i) ps)], cf_net := AddServer i srv (cf_net c4)\<rparr>"
    by (auto simp: cf_start1_def Let_def split: option.splits)
  note frame = cf_load_frame [OF c4]
  have "net_inv n (c1\<lparr>cf_endnames := (cf_endnames c1)[i := Some names], cf_net := rn\<rparr>)"
    using net_inv_new_ends [OF k(1,2,3) [OF l] len] rn by simp
  then have "net_inv n c4" by (rule net_inv_cong) (simp_all add: frame(1-4))
  then have "net_inv n cfg'" by (rule net_inv_cong) (simp_all add: c' AddServer_def)
  moreover have lens: "length (cf_rafts c4) = n" "length (cf_saved c4) = n" using k(4,5) [OF l] by (simp_all add: frame(5,6))
  ultimately show "harness_ok n cfg'" by (simp add: harness_ok_def c')
  show i: "i < n" by (rule k(2) [OF l])
  have ps: "ps = (case cf_persister cfg i of None \<Rightarrow> MakePersister | Some ps \<Rightarrow> ps)"
    using frame(7) k(6) [OF l] by simp
  have "cf_n c4 = n" using net_invD(1) [OF k(1) [OF l]] by (simp add: frame(1))
  then show "cf_rafts cfg' ! i = Some (Make (int n) (int i) (case cf_persister cfg i of None \<Rightarrow> MakePersister | Some ps \<Rightarrow> ps))"
    using i lens by (simp add: c' ps)
qed

lemma cf_applier_frame:
  assumes "cf_applier i m cfg = Inr cfg'"
  shows "cf_n cfg' = cf_n cfg" "cf_connected cfg' = cf_connected cfg" "cf_endnames cfg' = cf_endnames cfg"
    "cf_net cfg' = cf_net cfg" "cf_rafts cfg' = cf_rafts cfg" "cf_saved cfg' = cf_saved cfg"
  using assms by (auto simp: cf_applier_def cf_checkLogs_def Let_def split: if_splits option.splits)

lemma harness_ok_run: "tester_run n cfg \<Longrightarrow> harness_ok n cfg"
proof (induction rule: tester_run.induct)
  case fresh
  then show ?case
    by (auto simp: harness_ok_def net_inv_def cf_new_def cf_end_def MakeNetwork_def)
next
  case (starts cfg names i srv cfg')
  then show ?case using cf_start1_inv(1) by blast
next
  case (crashes cfg i cfg')
  then show ?case using cf_crash1_inv(1,4,5) [OF crashes(2)] by (simp add: harness_ok_def)
next
  case (connects cfg i cfg')
  moreover have "cf_rafts cfg' = cf_rafts cfg" "cf_saved cfg' = cf_saved cfg"
    using connects(2) by (auto simp: cf_connect_def Let_def split: if_splits)
  ultimately show ?case using cf_connect_inv [OF connects(2)] by (simp add: harness_ok_def)
next
  case (disconnects cfg i cfg')
  then show ?case using cf_disconnect_inv(1,4,5) [OF disconnects(2), of n] by (simp add: harness_ok_def)
next
  case (applies cfg i m cfg')
  then show ?case using cf_applier_frame [OF applies(2)] net_inv_cong [of n cfg cfg'] by (simp add: harness_ok_def)
qed (auto simp: harness_ok_def cf_setunreliable_def cf_setlongreordering_def Reliable_def LongReordering_def LongDelays_def
    intro: net_inv_cong)

text \<open>A partition of the tester is exact. In every run of the harness, through starts, crashes, restarts,
  connections and disconnections, the end by which server \<open>i\<close> calls server \<open>j\<close> leads to \<open>j\<close> and is enabled
  exactly when both are connected; and no other end is enabled, so that an instance that was crashed cannot
  call anyone any more.\<close>

theorem partition_exact:
  assumes "tester_run n cfg"
  shows "(\<forall>i < n. \<forall>j < n. \<forall>e. cf_end cfg i j = Some e \<longrightarrow>
        connections (cf_net cfg) e = Some j
        \<and> (enabled (cf_net cfg) e \<longleftrightarrow> cf_connected cfg ! i \<and> cf_connected cfg ! j))
    \<and> (\<forall>e. enabled (cf_net cfg) e \<longrightarrow> (\<exists>i < n. \<exists>j < n. cf_end cfg i j = Some e))"
proof -
  have inv: "net_inv n cfg" using harness_ok_run [OF assms] by (simp add: harness_ok_def)
  show ?thesis unfolding net_invD(8) [OF inv] using net_invD(6,7) [OF inv] by blast
qed

text \<open>A server that is started again has the last state its peer saved, which is the restart of the model
  of the cluster.\<close>

theorem start1_restarts:
  assumes "tester_run n cfg" and "length names = n" and "cf_start1 i names srv cfg = Inr cfg'"
    and "cf_rafts cfg ! i = Some rf"
  shows "cf_rafts cfg' ! i = Some (Make (int n) (int i) (persister rf))"
  using cf_start1_inv(3) [OF assms(3) harness_ok_run [OF assms(1)] assms(2)] assms(4) by (simp add: cf_persister_def)

subsection \<open>Examples\<close>

definition cmd_msg :: "int \<Rightarrow> string \<Rightarrow> (string, string tgob) ApplyMsg" where
  "cmd_msg k c = \<lparr>CommandValid = True, Command = Some c, CommandIndex = k, SnapshotValid = False, Snapshot = [],
     SnapshotTerm = 0, SnapshotIndex = 0\<rparr>"

theorem applier_exact_witness:
  "agreed [(0, cmd_msg 1 ''a''), (1, cmd_msg 1 ''a''), (0, cmd_msg 2 ''b'')]
   \<and> in_order [(0, cmd_msg 1 ''a''), (1, cmd_msg 1 ''a''), (0 :: nat, cmd_msg 2 ''b'')]"
proof -
  let ?ms = "[(0 :: nat, cmd_msg 1 ''a''), (1, cmd_msg 1 ''a''), (0, cmd_msg 2 ''b'')]"
  have "\<not> isl (cf_feed ?ms (cf_new 2))" by code_simp
  then have "\<exists>cfg. cf_feed ?ms (cf_new 2) = Inr cfg" by (cases "cf_feed ?ms (cf_new 2)") simp_all
  then show ?thesis using applier_exact [of 2 ?ms] by simp
qed

text \<open>Three peers, of which the first was elected in term 1.\<close>

definition tester_votes :: "(string, string tgob) action list" where
  "tester_votes = [Tick 0 \<lparr>now = 10 ^ 9, rnd = 0\<rparr>, Elect 0, Exec 0 \<lparr>now = 10 ^ 9, rnd = 0\<rparr>,
     Return 0 True \<lparr>now = 10 ^ 9, rnd = 0\<rparr>]"

definition tester_cluster :: "(string, string tgob) cluster" where
  "tester_cluster = the (exec_all (init_cluster 3) tester_votes)"

definition tester_view :: "nat \<Rightarrow> string config" where
  "tester_view i = (cf_new 3)\<lparr>cf_connected := [True, True, True],
     cf_rafts := map (\<lambda>k. Some (node tester_cluster (int k))) [0..<3]\<rparr>"

theorem checkOneLeader_sound_witness:
  "cf_checkOneLeader 3 rev [tester_view] = Inr 0 \<and> sees_leader tester_view 0 1"
proof -
  have ne: "exec_all (init_cluster 3) tester_votes \<noteq> None" by code_simp
  then have "csteps (init_cluster (int 3)) tester_cluster"
    by (auto simp: tester_cluster_def intro: exec_all_csteps csteps.refl)
  then have "looks_at 3 tester_view"
    unfolding looks_at_def by (intro exI [of _ "\<lambda>_. tester_cluster"]) (auto simp: csteps.refl tester_view_def nth_append numeral_3_eq_3 less_Suc_eq)
  moreover have r: "cf_checkOneLeader 3 rev [tester_view] = Inr 0" by code_simp
  ultimately obtain t where "sees_leader tester_view 0 t"
    using checkOneLeader_sound [of 3 "[tester_view]" rev undefined 0] by auto
  moreover have "map_option GetState (cf_rafts (tester_view 0) ! 0) = Some (1, True)" by code_simp
  ultimately show ?thesis using r by (auto simp: sees_leader_def)
qed

definition tester_names :: "nat \<Rightarrow> string list" where
  "tester_names i = map (\<lambda>j. itoa (int i) @ ''-'' @ itoa (int j)) [0..<2]"

text \<open>Two servers are started and connected, then the second is cut off.\<close>

definition tester_up :: "string config" where
  "tester_up = projr (cf_start1 1 (tester_names 1) 1 (projr (cf_start1 0 (tester_names 0) 0 (cf_new 2))))"

definition tester_cut :: "string config" where
  "tester_cut = projr (cf_disconnect 1 (projr (cf_connect 1 (projr (cf_connect 0 tester_up)))))"

lemma tester_run_up: "tester_run 2 tester_up"
proof -
  let ?s1 = "cf_start1 0 (tester_names 0) 0 (cf_new 2) :: (string, string config) checkedt"
  let ?s2 = "cf_start1 1 (tester_names 1) 1 (projr ?s1)"
  have "\<not> isl ?s1" "\<not> isl ?s2" by code_simp+
  then have s: "?s1 = Inr (projr ?s1)" "?s2 = Inr tester_up" by (simp_all add: tester_up_def)
  have l: "length (tester_names i) = 2" for i by (simp add: tester_names_def)
  show ?thesis by (rule tester_run.starts [OF tester_run.starts [OF tester_run.fresh l s(1)] l s(2)])
qed

lemma tester_run_cut: "tester_run 2 tester_cut"
proof -
  let ?s1 = "cf_connect 0 tester_up"
  let ?s2 = "cf_connect 1 (projr ?s1)"
  let ?s3 = "cf_disconnect 1 (projr ?s2)"
  have "\<not> isl ?s1" "\<not> isl ?s2" "\<not> isl ?s3" by code_simp+
  then have "?s1 = Inr (projr ?s1)" "?s2 = Inr (projr ?s2)" "?s3 = Inr tester_cut" by (simp_all add: tester_cut_def)
  then show ?thesis by (meson tester_run_up tester_run.connects tester_run.disconnects)
qed

theorem partition_exact_witness:
  "enabled (cf_net tester_cut) ''0-0'' \<and> \<not> enabled (cf_net tester_cut) ''0-1''"
proof -
  have "cf_end tester_cut 0 0 = Some ''0-0''" "cf_end tester_cut 0 1 = Some ''0-1''" by code_simp+
  moreover have "cf_connected tester_cut ! 0" "\<not> cf_connected tester_cut ! 1" by code_simp+
  moreover have "(0 :: nat) < 2" "(1 :: nat) < 2" by simp_all
  ultimately show ?thesis using partition_exact [OF tester_run_cut] by blast
qed

end
