(* ===== verification/Service.thy ===== *)
theory Service
  imports Raft_Compaction
begin

section \<open>What the replicated services share\<close>

text \<open>
  The three services on top of Raft (\<open>kvraft\<close>, \<open>shardctrler\<close>,
  \<open>shardctrler_original\<close>) have the same shape: a state machine that the log's commands
  drive, a table with the last sequence number and reply of every client, channels on which the
  apply loop hands replies to waiting handlers, and a client that retries. This theory holds the
  Go channels, the contract of the duplicate table as the locale \<open>dedup_machine\<close>, and the
  contract of a retrying client as the locale \<open>clerk_loop\<close>; the services interpret them.
\<close>

subsection \<open>Replies and channels\<close>

type_synonym Err = string

definition OK :: Err where "OK = ''OK''"
definition ErrNoKey :: Err where "ErrNoKey = ''ErrNoKey''"
definition ErrWrongLeader :: Err where "ErrWrongLeader = ''ErrWrongLeader''"
definition ErrTimeout :: Err where "ErrTimeout = ''ErrTimeout''"

lemmas err_defs = OK_def ErrNoKey_def ErrWrongLeader_def ErrTimeout_def

text \<open>Why a goroutine does not get further: its process has panicked, or it blocks for ever on a
  channel whose buffer is full.\<close>

datatype stop = Panicked | Blocked

text \<open>Channels made by \<open>make(chan T, 1)\<close> live in a heap: a channel is an index into a list of
  buffers, so that two handlers may hold the same channel, and a handler may hold one that is no
  longer in the map of its server.\<close>

record 'r chans =
  chanOf :: "int \<rightharpoonup> nat"
  buffers :: "'r list list"

definition no_chans :: "'r chans" where
  "no_chans = \<lparr>chanOf = Map.empty, buffers = []\<rparr>"

definition chan_get :: "int \<Rightarrow> 'r chans \<Rightarrow> nat \<times> 'r chans" where
  "chan_get index cs = (case chanOf cs index of
       Some c \<Rightarrow> (c, cs)
     | None \<Rightarrow> (length (buffers cs),
                \<lparr>chanOf = (chanOf cs)(index \<mapsto> length (buffers cs)), buffers = buffers cs @ [[]]\<rparr>))"

definition chan_remove :: "int \<Rightarrow> 'r chans \<Rightarrow> 'r chans" where
  "chan_remove index cs = cs\<lparr>chanOf := (chanOf cs)(index := None)\<rparr>"

definition chan_send :: "nat \<Rightarrow> 'r \<Rightarrow> 'r chans \<Rightarrow> stop + 'r chans" where
  "chan_send c r cs =
     (if length (buffers cs ! c) < 1 then Inr (cs\<lparr>buffers := (buffers cs)[c := buffers cs ! c @ [r]]\<rparr>)
      else Inl Blocked)"

text \<open>A receive takes the oldest value; \<open>None\<close> while there is none.\<close>

definition chan_recv :: "nat \<Rightarrow> 'r chans \<Rightarrow> ('r \<times> 'r chans) option" where
  "chan_recv c cs = (case buffers cs ! c of
       [] \<Rightarrow> None
     | r # rs \<Rightarrow> Some (r, cs\<lparr>buffers := (buffers cs)[c := rs]\<rparr>))"

definition chans_wf :: "'r chans \<Rightarrow> bool" where
  "chans_wf cs \<longleftrightarrow> (\<forall>i c. chanOf cs i = Some c \<longrightarrow> c < length (buffers cs))
     \<and> (\<forall>i j c. chanOf cs i = Some c \<and> chanOf cs j = Some c \<longrightarrow> i = j)"

text \<open>No reply waits in the channel of \<open>index\<close>.\<close>

definition chan_free :: "'r chans \<Rightarrow> int \<Rightarrow> bool" where
  "chan_free cs index \<longleftrightarrow> (\<forall>c. chanOf cs index = Some c \<longrightarrow> buffers cs ! c = [])"

lemma chans_wf_empty [simp]: "chans_wf no_chans" "chan_free no_chans i"
  by (simp_all add: chans_wf_def no_chans_def chan_free_def)

lemma chan_get_wf:
  assumes "chans_wf cs" and "chan_get index cs = (c, cs')"
  shows "chans_wf cs'" "chanOf cs' index = Some c" "c < length (buffers cs')"
    "chan_free cs' j \<longleftrightarrow> chan_free cs j" "chan_free cs index \<Longrightarrow> buffers cs' ! c = []"
proof -
  have lt: "chanOf cs i = Some d \<Longrightarrow> d < length (buffers cs)" for i d
    using assms(1) by (simp add: chans_wf_def)
  show "chanOf cs' index = Some c" "c < length (buffers cs')"
    using assms(2) lt by (auto simp: chan_get_def split: option.splits)
  show "chans_wf cs'"
    using assms by (auto simp: chans_wf_def chan_get_def less_Suc_eq split: option.splits if_splits dest: lt)
  show "chan_free cs' j \<longleftrightarrow> chan_free cs j"
  proof (cases "chanOf cs index")
    case None
    with assms(2) have "chanOf cs' = (chanOf cs)(index \<mapsto> length (buffers cs))" "buffers cs' = buffers cs @ [[]]"
      by (auto simp: chan_get_def)
    with None lt [of j] show ?thesis by (cases "j = index") (auto simp: chan_free_def nth_append)
  qed (use assms(2) in \<open>auto simp: chan_get_def\<close>)
  show "chan_free cs index \<Longrightarrow> buffers cs' ! c = []"
    using assms(2) by (auto simp: chan_get_def chan_free_def split: option.splits)
qed

lemma chan_remove_wf:
  "chans_wf cs \<Longrightarrow> chans_wf (chan_remove i cs)" "chan_free cs j \<Longrightarrow> chan_free (chan_remove i cs) j"
  by (auto simp: chan_remove_def chans_wf_def chan_free_def split: if_splits)

lemma chan_recv_wf:
  assumes "chans_wf cs" and "chan_recv c cs = Some (r, cs')"
  shows "chans_wf cs'" "chan_free cs j \<Longrightarrow> chan_free cs' j"
proof -
  obtain rs where rs: "buffers cs ! c = r # rs" "cs' = cs\<lparr>buffers := (buffers cs)[c := rs]\<rparr>"
    using assms(2) by (auto simp: chan_recv_def split: list.splits)
  with assms(1) show "chans_wf cs'" by (auto simp: chans_wf_def)
  show "chan_free cs' j" if "chan_free cs j"
    unfolding chan_free_def
  proof (intro allI impI)
    fix d assume "chanOf cs' j = Some d"
    with that rs have "buffers cs ! d = []" "d \<noteq> c" by (auto simp: chan_free_def)
    with rs show "buffers cs' ! d = []" by simp
  qed
qed

text \<open>A reply sent on the free channel of \<open>index\<close> is what a receive on it gets.\<close>

lemma chan_send_free:
  assumes "chans_wf cs" and "chan_free cs index" and "chan_get index cs = (c, cs1)"
  shows "\<exists>cs2. chan_send c r cs1 = Inr cs2 \<and> chans_wf cs2 \<and> chanOf cs2 = chanOf cs1
     \<and> map_option fst (chan_recv c cs2) = Some r
     \<and> (\<forall>j. j \<noteq> index \<longrightarrow> chan_free cs j \<longrightarrow> chan_free cs2 j)"
proof -
  note G = chan_get_wf [OF assms(1,3)]
  have e: "buffers cs1 ! c = []" using G(5) assms(2) by blast
  have "chan_free cs2 j" if cs2: "cs2 = cs1\<lparr>buffers := (buffers cs1)[c := [r]]\<rparr>"
    and j: "j \<noteq> index" "chan_free cs j" for cs2 j
    using G(1,2) G(4) [of j] j cs2 by (auto simp: chan_free_def chans_wf_def nth_list_update)
  with e G show ?thesis
    by (auto simp: chan_send_def chan_recv_def chans_wf_def)
qed

subsection \<open>The duplicate table\<close>

record 'r LastOperationInfo =
  loSeqId :: int
  loReply :: 'r

type_synonym 'r dup_table = "int \<rightharpoonup> 'r LastOperationInfo"

definition is_dup :: "'r dup_table \<Rightarrow> int \<Rightarrow> int \<Rightarrow> bool" where
  "is_dup tbl clientId seqId = (case tbl clientId of None \<Rightarrow> False | Some info \<Rightarrow> seqId \<le> loSeqId info)"

text \<open>A sequence of commands, run one after the other.\<close>

fun run :: "('op \<Rightarrow> 'st \<Rightarrow> ('r \<times> 'st) option) \<Rightarrow> 'op list \<Rightarrow> 'st \<Rightarrow> 'st option" where
  "run f [] st = Some st"
| "run f (op # ops) st = do { (r, st') \<leftarrow> f op st; run f ops st' }"

text \<open>The commands of a log that take effect: those that read, and of the others those whose
  sequence number is above all that their client has had so far.\<close>

definition fresh :: "('op \<Rightarrow> int) \<Rightarrow> ('op \<Rightarrow> int) \<Rightarrow> (int \<rightharpoonup> int) \<Rightarrow> 'op \<Rightarrow> bool" where
  "fresh client seq seen op = (case seen (client op) of None \<Rightarrow> True | Some n \<Rightarrow> n < seq op)"

fun effective ::
  "('op \<Rightarrow> bool) \<Rightarrow> ('op \<Rightarrow> int) \<Rightarrow> ('op \<Rightarrow> int) \<Rightarrow> (int \<rightharpoonup> int) \<Rightarrow> 'op list \<Rightarrow> 'op list" where
  "effective q client seq seen [] = []"
| "effective q client seq seen (op # ops) =
     (if q op then op # effective q client seq seen ops
      else if fresh client seq seen op
      then op # effective q client seq (seen(client op \<mapsto> seq op)) ops
      else effective q client seq seen ops)"

definition seen_of :: "'r dup_table \<Rightarrow> int \<rightharpoonup> int" where
  "seen_of tbl = (\<lambda>c. map_option loSeqId (tbl c))"

locale dedup_machine =
  fixes step :: "'op \<Rightarrow> 'st \<Rightarrow> ('r \<times> 'st) option"
    and exec :: "'op \<Rightarrow> 'st \<times> 'r dup_table \<Rightarrow> ('r \<times> 'st \<times> 'r dup_table) option"
    and query :: "'op \<Rightarrow> bool" and client :: "'op \<Rightarrow> int" and seq :: "'op \<Rightarrow> int"
  assumes exec_query: "query op \<Longrightarrow>
      exec op (st, tbl) = map_option (\<lambda>(r, st'). (r, st', tbl)) (step op st)"
    and exec_dup: "\<not> query op \<Longrightarrow> tbl (client op) = Some info \<Longrightarrow> seq op \<le> loSeqId info \<Longrightarrow>
      exec op (st, tbl) = Some (loReply info, st, tbl)"
    and exec_new: "\<not> query op \<Longrightarrow> (\<And>info. tbl (client op) = Some info \<Longrightarrow> loSeqId info < seq op) \<Longrightarrow>
      exec op (st, tbl) = map_option
        (\<lambda>(r, st'). (r, st', tbl(client op \<mapsto> \<lparr>loSeqId = seq op, loReply = r\<rparr>))) (step op st)"
begin

text \<open>With the table, a log has the effect of its effective commands.\<close>

lemma run_effective:
  "map_option fst (run exec ops (st, tbl)) = run step (effective query client seq (seen_of tbl) ops) st"
proof (induction ops arbitrary: st tbl)
  case (Cons op ops)
  show ?case
  proof (cases "query op")
    case True
    then show ?thesis by (cases "step op st") (auto simp: exec_query Cons.IH)
  next
    case nq: False
    show ?thesis
    proof (cases "fresh client seq (seen_of tbl) op")
      case True
      then have "exec op (st, tbl) = map_option
          (\<lambda>(r, st'). (r, st', tbl(client op \<mapsto> \<lparr>loSeqId = seq op, loReply = r\<rparr>))) (step op st)"
        using nq by (intro exec_new) (auto simp: fresh_def seen_of_def)
      moreover have "map_option fst (run exec ops (s1, tbl(client op \<mapsto> \<lparr>loSeqId = seq op, loReply = r\<rparr>)))
          = run step (effective query client seq ((seen_of tbl)(client op \<mapsto> seq op)) ops) s1" for s1 r
      proof -
        have "seen_of (tbl(client op \<mapsto> \<lparr>loSeqId = seq op, loReply = r\<rparr>))
            = (seen_of tbl)(client op \<mapsto> seq op)"
          by (simp add: seen_of_def fun_eq_iff)
        with Cons.IH show ?thesis by metis
      qed
      ultimately show ?thesis
        using nq True by (cases "step op st") auto
    next
      case False
      then obtain info where "tbl (client op) = Some info" "seq op \<le> loSeqId info"
        by (auto simp: fresh_def seen_of_def split: option.splits)
      with nq have "exec op (st, tbl) = Some (loReply info, st, tbl)" by (rule exec_dup)
      with nq False show ?thesis by (simp add: Cons.IH)
    qed
  qed
qed simp

text \<open>The table ends with the last effective command of every client.\<close>

lemma exec_again:
  assumes "\<not> query op" and "exec op (st, tbl) = Some (r, st', tbl')"
  shows "exec op (st', tbl') = Some (r, st', tbl')"
proof (cases "fresh client seq (seen_of tbl) op")
  case True
  then have "exec op (st, tbl) = map_option
      (\<lambda>(r, st'). (r, st', tbl(client op \<mapsto> \<lparr>loSeqId = seq op, loReply = r\<rparr>))) (step op st)"
    using assms(1) by (intro exec_new) (auto simp: fresh_def seen_of_def)
  with assms(2) have "tbl' (client op) = Some \<lparr>loSeqId = seq op, loReply = r\<rparr>" by auto
  with exec_dup [OF assms(1), of tbl' _ st'] show ?thesis by simp
next
  case False
  then obtain info where i: "tbl (client op) = Some info" "seq op \<le> loSeqId info"
    by (auto simp: fresh_def seen_of_def split: option.splits)
  have "exec op (st, tbl) = Some (loReply info, st, tbl)" by (rule exec_dup) (use assms(1) i in auto)
  with assms(2) show ?thesis by simp
qed

end

text \<open>The log of a service whose clients wait for one request to be applied before they send the
  next: the first occurrence of a request comes after smaller numbers of its client only. What
  comes later may be in any order (a delayed retry).\<close>

definition first_in_order :: "('op \<Rightarrow> bool) \<Rightarrow> ('op \<Rightarrow> int) \<Rightarrow> ('op \<Rightarrow> int) \<Rightarrow> 'op list \<Rightarrow> bool" where
  "first_in_order q client seq ops \<longleftrightarrow>
     (\<forall>k < length ops. \<not> q (ops ! k)
        \<and> (\<forall>j < k. \<not> (\<not> q (ops ! j) \<and> client (ops ! j) = client (ops ! k) \<and> seq (ops ! j) = seq (ops ! k)))
        \<longrightarrow> (\<forall>j < k. \<not> q (ops ! j) \<and> client (ops ! j) = client (ops ! k) \<longrightarrow> seq (ops ! j) < seq (ops ! k)))"

definition occurrences ::
  "('op \<Rightarrow> bool) \<Rightarrow> ('op \<Rightarrow> int) \<Rightarrow> ('op \<Rightarrow> int) \<Rightarrow> int \<Rightarrow> int \<Rightarrow> 'op list \<Rightarrow> nat" where
  "occurrences q client seq c n ops = length (filter (\<lambda>op. \<not> q op \<and> client op = c \<and> seq op = n) ops)"

lemma effective_subset: "set (effective q client seq seen ops) \<subseteq> set ops"
  by (induction ops arbitrary: seen) auto

lemma effective_above:
  "op \<in> set (effective q client seq seen ops) \<Longrightarrow> \<not> q op \<Longrightarrow> fresh client seq seen op"
  by (induction ops arbitrary: seen) (fastforce simp: fresh_def split: if_splits option.splits)+

lemma occurrences_le_1: "occurrences q client seq c n (effective q client seq seen ops) \<le> 1"
proof (induction ops arbitrary: seen)
  case (Cons op ops)
  let ?rest = "effective q client seq (seen(client op \<mapsto> seq op)) ops"
  have "occurrences q client seq (client op) (seq op) ?rest = 0"
    using effective_above [of _ q client seq "seen(client op \<mapsto> seq op)" ops]
    by (fastforce simp: occurrences_def filter_empty_conv fresh_def)
  then show ?case using Cons.IH by (auto simp: occurrences_def)
qed (simp add: occurrences_def)

text \<open>What has been seen after a prefix of the log.\<close>

fun seen_after ::
  "('op \<Rightarrow> bool) \<Rightarrow> ('op \<Rightarrow> int) \<Rightarrow> ('op \<Rightarrow> int) \<Rightarrow> (int \<rightharpoonup> int) \<Rightarrow> 'op list \<Rightarrow> int \<rightharpoonup> int" where
  "seen_after q client seq seen [] = seen"
| "seen_after q client seq seen (op # ops) =
     seen_after q client seq
       (if \<not> q op \<and> fresh client seq seen op then seen(client op \<mapsto> seq op) else seen) ops"

lemma effective_append:
  "effective q client seq seen (xs @ ys)
     = effective q client seq seen xs @ effective q client seq (seen_after q client seq seen xs) ys"
  by (induction xs arbitrary: seen) auto

lemma seen_after_source:
  "seen_after q client seq seen xs c = Some n \<Longrightarrow>
     seen c = Some n \<or> (\<exists>x \<in> set xs. \<not> q x \<and> client x = c \<and> seq x = n)"
proof (induction xs arbitrary: seen)
  case (Cons x xs)
  from Cons.IH [OF Cons.prems [simplified]] show ?case by (auto split: if_splits)
qed simp

text \<open>In such a log every request takes effect exactly once, however often it was retried.\<close>

lemma effective_exactly_once:
  assumes order: "first_in_order q client seq ops" and op: "op \<in> set ops" "\<not> q op"
    and "seen (client op) = None"
  shows "occurrences q client seq (client op) (seq op) (effective q client seq seen ops) = 1"
proof -
  let ?same = "\<lambda>j. \<not> q (ops ! j) \<and> client (ops ! j) = client op \<and> seq (ops ! j) = seq op"
  define k where "k = (LEAST j. j < length ops \<and> ?same j)"
  have "\<exists>j. j < length ops \<and> ?same j" using op by (auto simp: in_set_conv_nth)
  then have k: "k < length ops" "?same k"
    unfolding k_def by (metis (mono_tags, lifting) LeastI)+
  have first: "\<not> ?same j" if "j < k" for j
    using not_less_Least [of j "\<lambda>j. j < length ops \<and> ?same j"] that k(1) unfolding k_def by auto
  have less: "seq x < seq op" if "x \<in> set (take k ops)" "\<not> q x" "client x = client op" for x
  proof -
    obtain j where "j < k" "ops ! j = x" using \<open>x \<in> set (take k ops)\<close> k(1) by (auto simp: in_set_conv_nth)
    with order k first that show ?thesis unfolding first_in_order_def by (metis (no_types, lifting))
  qed
  have split: "ops = take k ops @ ops ! k # drop (Suc k) ops" using k(1) by (rule id_take_nth_drop)
  let ?seen = "seen_after q client seq seen (take k ops)"
  have "fresh client seq ?seen (ops ! k)"
    using seen_after_source [of q client seq seen "take k ops" "client op"] less assms(4) k(2)
    by (fastforce simp: fresh_def split: option.splits)
  then have "ops ! k \<in> set (effective q client seq seen (take k ops @ ops ! k # drop (Suc k) ops))"
    using k(2) by (simp add: effective_append)
  then have "ops ! k \<in> set (effective q client seq seen ops)" using split by simp
  then have "occurrences q client seq (client op) (seq op) (effective q client seq seen ops) \<noteq> 0"
    using k(2) by (auto simp: occurrences_def filter_empty_conv)
  with occurrences_le_1 [of q client seq "client op" "seq op" seen ops] show ?thesis by linarith
qed

subsection \<open>A client that retries\<close>

text \<open>\<open>call k i\<close> is the outcome of attempt \<open>k\<close> at server \<open>i\<close>: whether a reply came,
  and the reply. A loop returns the last reply and the server that gave it; \<open>None\<close> when it
  never returns.\<close>

type_synonym 'reply calls = "nat \<Rightarrow> int \<Rightarrow> bool \<times> 'reply"

definition retry :: "('reply \<Rightarrow> Err) \<Rightarrow> bool \<times> 'reply \<Rightarrow> bool" where
  "retry err o1 \<longleftrightarrow> \<not> fst o1 \<or> err (snd o1) = ErrWrongLeader \<or> err (snd o1) = ErrTimeout"

locale clerk_loop =
  fixes loop :: "'reply calls \<Rightarrow> nat \<Rightarrow> int \<Rightarrow> ('reply \<times> int) option"
    and err :: "'reply \<Rightarrow> Err" and n :: int
  assumes again: "retry err (call k l) \<Longrightarrow> loop call k l = loop call (Suc k) ((l + 1) mod n)"
    and answered: "\<not> retry err (call k l) \<Longrightarrow> loop call k l = Some (snd (call k l), l)"
    and forever: "(\<And>j. retry err (call (k + j) ((l + int j) mod n))) \<Longrightarrow> loop call k (l mod n) = None"
begin

lemma attempts:
  "(\<And>j. j < m \<Longrightarrow> retry err (call (k + j) ((l + int j) mod n))) \<Longrightarrow>
     loop call k (l mod n) = loop call (k + m) ((l + int m) mod n)"
proof (induction m)
  case (Suc m)
  then have "loop call k (l mod n) = loop call (k + m) ((l + int m) mod n)" by simp
  also have "\<dots> = loop call (Suc (k + m)) (((l + int m) mod n + 1) mod n)"
    using Suc.prems [of m] by (intro again) simp
  also have "((l + int m) mod n + 1) mod n = (l + int (Suc m)) mod n"
    by (simp add: mod_add_left_eq mod_add_right_eq ac_simps)
  finally show ?case by simp
qed simp

text \<open>The loop asks the servers in turn and returns the first answer that is neither a failure nor
  an error of the cluster; it returns exactly if there is one.\<close>

lemma returns_iff:
  "loop call k (l mod n) = Some (r, l') \<longleftrightarrow>
     (\<exists>m. (\<forall>j < m. retry err (call (k + j) ((l + int j) mod n)))
        \<and> \<not> retry err (call (k + m) ((l + int m) mod n))
        \<and> r = snd (call (k + m) ((l + int m) mod n)) \<and> l' = (l + int m) mod n)"
proof
  assume ret: "loop call k (l mod n) = Some (r, l')"
  then have "\<exists>j. \<not> retry err (call (k + j) ((l + int j) mod n))"
    using forever [of call k l] by auto
  then obtain m where m: "\<not> retry err (call (k + m) ((l + int m) mod n))"
    "\<And>j. j < m \<Longrightarrow> retry err (call (k + j) ((l + int j) mod n))"
    using exists_least_iff [of "\<lambda>j. \<not> retry err (call (k + j) ((l + int j) mod n))"] by auto
  from attempts [of m call k l] answered [of call "k + m" "(l + int m) mod n"] ret m show
    "\<exists>m. (\<forall>j < m. retry err (call (k + j) ((l + int j) mod n)))
        \<and> \<not> retry err (call (k + m) ((l + int m) mod n))
        \<and> r = snd (call (k + m) ((l + int m) mod n)) \<and> l' = (l + int m) mod n" by auto
next
  assume "\<exists>m. (\<forall>j < m. retry err (call (k + j) ((l + int j) mod n)))
        \<and> \<not> retry err (call (k + m) ((l + int m) mod n))
        \<and> r = snd (call (k + m) ((l + int m) mod n)) \<and> l' = (l + int m) mod n"
  then obtain m where m: "\<forall>j < m. retry err (call (k + j) ((l + int j) mod n))"
    "\<not> retry err (call (k + m) ((l + int m) mod n))"
    "r = snd (call (k + m) ((l + int m) mod n))" "l' = (l + int m) mod n" by blast
  then show "loop call k (l mod n) = Some (r, l')"
    using attempts [of m call k l] answered [of call "k + m" "(l + int m) mod n"] by simp
qed

text \<open>If one server answers from some attempt on, the loop returns.\<close>

lemma returns_if_served:
  assumes servers: "0 \<le> i" "i < n" and "\<And>j. k + nat n * m \<le> j \<Longrightarrow> \<not> retry err (call j i)"
  shows "loop call k (l mod n) \<noteq> None"
proof -
  let ?m = "nat n * m + nat ((i - l) mod n)"
  have "(l + int ?m) mod n = i"
  proof -
    have "int ?m = n * int m + (i - l) mod n" using servers by simp
    then have "(l + int ?m) mod n = (l + (i - l) mod n + n * int m) mod n" by (simp add: ac_simps)
    also have "\<dots> = (l + (i - l) mod n) mod n" by simp
    also have "\<dots> = i mod n" by (simp add: mod_add_right_eq)
    finally show ?thesis using assms by simp
  qed
  with assms(3) [of "k + ?m"] have "\<not> retry err (call (k + ?m) ((l + int ?m) mod n))" by simp
  then have "\<exists>j. \<not> retry err (call (k + j) ((l + int j) mod n))" by (rule exI)
  then obtain m' where "\<not> retry err (call (k + m') ((l + int m') mod n))"
    "\<And>j. j < m' \<Longrightarrow> retry err (call (k + j) ((l + int j) mod n))"
    using exists_least_iff [of "\<lambda>j. \<not> retry err (call (k + j) ((l + int j) mod n))"] by auto
  then show ?thesis
    using attempts [of m' call k l] answered [of call "k + m'" "(l + int m') mod n"] by simp
qed

end

text \<open>The loop as every method of every clerk has it: call the server believed to lead; on no
  reply, \<open>ErrWrongLeader\<close> or \<open>ErrTimeout\<close> go on with the next server.\<close>

partial_function (option) clerk_retry ::
  "('reply \<Rightarrow> Err) \<Rightarrow> int \<Rightarrow> 'reply calls \<Rightarrow> nat \<Rightarrow> int \<Rightarrow> ('reply \<times> int) option" where
  "clerk_retry err servers call k leaderId =
     (if \<not> fst (call k leaderId) \<or> err (snd (call k leaderId)) = ErrWrongLeader
           \<or> err (snd (call k leaderId)) = ErrTimeout
      then clerk_retry err servers call (Suc k) ((leaderId + 1) mod servers)
      else Some (snd (call k leaderId), leaderId))"

declare clerk_retry.simps [code]

lemma clerk_retry_returns:
  assumes "clerk_retry err n call k l = Some y" and "l = l0 mod n"
  shows "\<exists>j. \<not> retry err (call (k + j) ((l0 + int j) mod n))"
proof -
  have "\<forall>l0. l = l0 mod n \<longrightarrow> (\<exists>j. \<not> retry err (call (k + j) ((l0 + int j) mod n)))"
  proof (rule clerk_retry.raw_induct [OF _ assms(1)], intro allI impI)
    fix f err n call k l y l0
    assume IH: "\<And>err n call k l y. f err n call k l = Some y \<Longrightarrow>
        \<forall>l0. l = l0 mod n \<longrightarrow> (\<exists>j. \<not> retry err (call (k + j) ((l0 + int j) mod n)))"
      and body: "(if \<not> fst (call k l) \<or> err (snd (call k l)) = ErrWrongLeader
           \<or> err (snd (call k l)) = ErrTimeout
        then f err n call (Suc k) ((l + 1) mod n) else Some (snd (call k l), l)) = Some y"
      and l: "l = l0 mod n"
    show "\<exists>j. \<not> retry err (call (k + j) ((l0 + int j) mod n))"
    proof (cases "retry err (call k l)")
      case True
      then have "f err n call (Suc k) ((l + 1) mod n) = Some y" using body by (simp add: retry_def)
      moreover have "(l + 1) mod n = (l0 + 1) mod n" by (simp add: l mod_add_left_eq)
      ultimately obtain j where "\<not> retry err (call (Suc k + j) ((l0 + 1 + int j) mod n))" using IH by blast
      then show ?thesis by (intro exI [of _ "Suc j"]) (simp add: ac_simps)
    qed (use l in \<open>auto intro: exI [of _ 0]\<close>)
  qed
  with assms(2) show ?thesis by blast
qed

interpretation clerk: clerk_loop "clerk_retry err n" err n
proof (unfold_locales, goal_cases)
  case (1 call k l) then show ?case by (subst clerk_retry.simps) (simp add: retry_def)
next
  case (2 call k l) then show ?case by (subst clerk_retry.simps) (simp add: retry_def)
next
  case (3 call k l)
  then show ?case using clerk_retry_returns [of err n call k "l mod n" _ l] by (meson not_Some_eq)
qed

end
