(* ===== verification/KVRaft.thy ===== *)
theory KVRaft
  imports Service Raft_Election
begin

section \<open>The key/value service, \<open>kvraft\<close>\<close>

text \<open>
  \<open>state_machine.go\<close> (a map of strings), \<open>server.go\<close> (the handlers \<open>Get\<close> and
  \<open>PutAppend\<close>, the apply loop, snapshots) and \<open>client.go\<close> (the clerk). A server holds
  its Raft peer. A handler is cut where it gives up the lock: the part up to \<open>Start\<close>, the
  look-up of its channel, the receive or the timeout, and the removal of the channel.
  \<open>kv_applyTask\<close> is one iteration of the apply loop: it takes one message from
  \<open>applyCh\<close> and ends with the new state, or with a panic, or blocked on a full channel.
  A snapshot is the pair of gob values the code encodes; the number of bytes of the Raft state is
  the parameter \<open>bytes\<close>.
\<close>

subsection \<open>\<open>common.go\<close>\<close>

datatype OperationType = OpGet | OpPut | OpAppend

record Op =
  opKey :: string
  opValue :: string
  opType :: OperationType
  opClientId :: int
  opSeqId :: int

record OpReply =
  orValue :: string
  orErr :: Err

record PutAppendArgs =
  paKey :: string
  paValue :: string
  paOp :: string
  paClientId :: int
  paSeqId :: int

record PutAppendReply =
  parErr :: Err

record GetArgs =
  gaKey :: string

record GetReply =
  grErr :: Err
  grValue :: string

text \<open>The zero value of the reply's error is the empty string. An unknown operation panics.\<close>

definition getOperationType :: "string \<Rightarrow> OperationType option" where
  "getOperationType op =
     (if op = ''Get'' then Some OpGet
      else if op = ''Put'' then Some OpPut
      else if op = ''Append'' then Some OpAppend
      else None)"

subsection \<open>\<open>state_machine.go\<close>\<close>

record MemoryKVStateMachine =
  KV :: "string \<rightharpoonup> string"

definition NewMemoryKVStateMachine :: MemoryKVStateMachine where
  "NewMemoryKVStateMachine = \<lparr>KV = Map.empty\<rparr>"

definition kvsm_Get :: "string \<Rightarrow> MemoryKVStateMachine \<Rightarrow> string \<times> Err" where
  "kvsm_Get key mkv = (case KV mkv key of Some val \<Rightarrow> (val, OK) | None \<Rightarrow> ('''', ErrNoKey))"

definition kvsm_Put :: "string \<Rightarrow> string \<Rightarrow> MemoryKVStateMachine \<Rightarrow> Err \<times> MemoryKVStateMachine" where
  "kvsm_Put key val mkv = (OK, mkv\<lparr>KV := (KV mkv)(key \<mapsto> val)\<rparr>)"

text \<open>\<open>mkv.KV[key] += value\<close>: a missing key reads as the empty string.\<close>

definition kvsm_Append :: "string \<Rightarrow> string \<Rightarrow> MemoryKVStateMachine \<Rightarrow> Err \<times> MemoryKVStateMachine" where
  "kvsm_Append key val mkv =
     (OK, mkv\<lparr>KV := (KV mkv)(key \<mapsto> (case KV mkv key of Some old \<Rightarrow> old | None \<Rightarrow> '''') @ val)\<rparr>)"

subsection \<open>\<open>server.go\<close>\<close>

datatype kvgob = GKV MemoryKVStateMachine | GDup "OpReply dup_table"

record KVServer =
  kv_me :: int
  kv_rf :: "(Op, kvgob) Raft"
  kv_dead :: int
  kv_maxraftstate :: int
  kv_stateMachine :: MemoryKVStateMachine
  kv_lastApplied :: int
  kv_notifyChans :: "OpReply chans"
  kv_duplicateTable :: "OpReply dup_table"

definition kv_requestDuplicate :: "int \<Rightarrow> int \<Rightarrow> KVServer \<Rightarrow> bool" where
  "kv_requestDuplicate clientId seqId kv =
     (case kv_duplicateTable kv clientId of
        None \<Rightarrow> False
      | Some lastOp \<Rightarrow> seqId \<le> loSeqId lastOp)"

definition kv_getNotifyChannel :: "int \<Rightarrow> KVServer \<Rightarrow> nat \<times> KVServer" where
  "kv_getNotifyChannel index kv =
     (let (c, cs) = chan_get index (kv_notifyChans kv) in (c, kv\<lparr>kv_notifyChans := cs\<rparr>))"

definition kv_removeNotifyChannel :: "int \<Rightarrow> KVServer \<Rightarrow> KVServer" where
  "kv_removeNotifyChannel index kv = kv\<lparr>kv_notifyChans := chan_remove index (kv_notifyChans kv)\<rparr>"

text \<open>The handlers up to \<open>Start\<close>: an answer at once, or the index to wait for.\<close>

definition kv_Get :: "GetArgs \<Rightarrow> KVServer \<Rightarrow> (GetReply + int) \<times> KVServer" where
  "kv_Get args kv =
     (let ((index, _, isLeader), rf) = Start \<lparr>opKey = gaKey args, opValue = '''', opType = OpGet,
                                             opClientId = 0, opSeqId = 0\<rparr> (kv_rf kv);
          kv1 = kv\<lparr>kv_rf := rf\<rparr>
      in if \<not> isLeader then (Inl \<lparr>grErr = ErrWrongLeader, grValue = ''''\<rparr>, kv1) else (Inr index, kv1))"

text \<open>\<open>PutAppend\<close> gives up the lock between the look-up of a repeated request and \<open>Start\<close>.
  \<open>None\<close> of the second part: the operation is unknown and the handler panics.\<close>

definition kv_PutAppend_check :: "PutAppendArgs \<Rightarrow> KVServer \<Rightarrow> PutAppendReply option" where
  "kv_PutAppend_check args kv =
     (if kv_requestDuplicate (paClientId args) (paSeqId args) kv
      then map_option (\<lambda>lastOp. \<lparr>parErr = orErr (loReply lastOp)\<rparr>) (kv_duplicateTable kv (paClientId args))
      else None)"

definition kv_PutAppend_start :: "PutAppendArgs \<Rightarrow> KVServer \<Rightarrow> ((PutAppendReply + int) \<times> KVServer) option" where
  "kv_PutAppend_start args kv = do {
     ty \<leftarrow> getOperationType (paOp args);
     let ((index, _, isLeader), rf) =
           Start \<lparr>opKey = paKey args, opValue = paValue args, opType = ty,
                  opClientId = paClientId args, opSeqId = paSeqId args\<rparr> (kv_rf kv);
         kv1 = kv\<lparr>kv_rf := rf\<rparr>
     in Some (if \<not> isLeader then (Inl \<lparr>parErr = ErrWrongLeader\<rparr>, kv1) else (Inr index, kv1)) }"

definition kv_PutAppend :: "PutAppendArgs \<Rightarrow> KVServer \<Rightarrow> ((PutAppendReply + int) \<times> KVServer) option" where
  "kv_PutAppend args kv =
     (case kv_PutAppend_check args kv of
        Some reply \<Rightarrow> Some (Inl reply, kv)
      | None \<Rightarrow> kv_PutAppend_start args kv)"

text \<open>The \<open>select\<close> of a handler on its channel \<open>c\<close>: \<open>timedOut\<close> tells which case is
  taken (Go picks one at random when both are ready); \<open>None\<close> when the case is not ready.\<close>

definition kv_await :: "nat \<Rightarrow> bool \<Rightarrow> KVServer \<Rightarrow> (OpReply \<times> KVServer) option" where
  "kv_await c timedOut kv =
     (if timedOut then Some (\<lparr>orValue = '''', orErr = ErrTimeout\<rparr>, kv)
      else case chan_recv c (kv_notifyChans kv) of
        Some (result, cs) \<Rightarrow> Some (result, kv\<lparr>kv_notifyChans := cs\<rparr>)
      | None \<Rightarrow> None)"

definition kv_applyToStateMachine :: "Op \<Rightarrow> MemoryKVStateMachine \<Rightarrow> OpReply \<times> MemoryKVStateMachine" where
  "kv_applyToStateMachine op sm =
     (case opType op of
        OpGet \<Rightarrow> (let (val, err) = kvsm_Get (opKey op) sm in (\<lparr>orValue = val, orErr = err\<rparr>, sm))
      | OpPut \<Rightarrow> (let (err, sm') = kvsm_Put (opKey op) (opValue op) sm in (\<lparr>orValue = '''', orErr = err\<rparr>, sm'))
      | OpAppend \<Rightarrow>
          (let (err, sm') = kvsm_Append (opKey op) (opValue op) sm in (\<lparr>orValue = '''', orErr = err\<rparr>, sm')))"

text \<open>The part of the apply loop that executes one operation: duplicates are answered from the
  table.\<close>

definition kv_execute :: "Op \<Rightarrow> KVServer \<Rightarrow> OpReply \<times> KVServer" where
  "kv_execute op kv =
     (if opType op \<noteq> OpGet \<and> kv_requestDuplicate (opClientId op) (opSeqId op) kv
      then (loReply (the (kv_duplicateTable kv (opClientId op))), kv)
      else
        (let (opReply, sm) = kv_applyToStateMachine op (kv_stateMachine kv);
             kv1 = kv\<lparr>kv_stateMachine := sm\<rparr>
         in (opReply,
             if opType op \<noteq> OpGet
             then kv1\<lparr>kv_duplicateTable := (kv_duplicateTable kv1)
                        (opClientId op \<mapsto> \<lparr>loSeqId = opSeqId op, loReply = opReply\<rparr>)\<rparr>
             else kv1)))"

definition kv_encodeSnapshot :: "KVServer \<Rightarrow> kvgob list" where
  "kv_encodeSnapshot kv = [GKV (kv_stateMachine kv), GDup (kv_duplicateTable kv)]"

definition kv_makeSnapshot :: "int \<Rightarrow> KVServer \<Rightarrow> stop + KVServer" where
  "kv_makeSnapshot lastIncludedIndex kv =
     (case Raft_Snapshot lastIncludedIndex (kv_encodeSnapshot kv) (kv_rf kv) of
        None \<Rightarrow> Inl Panicked
      | Some rf \<Rightarrow> Inr (kv\<lparr>kv_rf := rf\<rparr>))"

fun kv_restoreFromSnapshot :: "kvgob list \<Rightarrow> KVServer \<Rightarrow> stop + KVServer" where
  "kv_restoreFromSnapshot [] kv = Inr kv"
| "kv_restoreFromSnapshot (GKV sm # GDup tbl # _) kv =
     Inr (kv\<lparr>kv_stateMachine := sm, kv_duplicateTable := tbl\<rparr>)"
| "kv_restoreFromSnapshot _ kv = Inl Panicked"

definition kv_notify :: "int \<Rightarrow> OpReply \<Rightarrow> KVServer \<Rightarrow> stop + KVServer" where
  "kv_notify index opReply kv =
     (if snd (GetState (kv_rf kv)) then
        (let (c, kv1) = kv_getNotifyChannel index kv in
         case chan_send c opReply (kv_notifyChans kv1) of
           Inl s \<Rightarrow> Inl s
         | Inr cs \<Rightarrow> Inr (kv1\<lparr>kv_notifyChans := cs\<rparr>))
      else Inr kv)"

definition kv_killed :: "KVServer \<Rightarrow> bool" where
  "kv_killed kv \<longleftrightarrow> kv_dead kv = 1"

definition kv_Kill :: "KVServer \<Rightarrow> KVServer" where
  "kv_Kill kv = kv\<lparr>kv_dead := 1, kv_rf := Kill (kv_rf kv)\<rparr>"

definition kv_applyTask ::
  "(Op gob list \<Rightarrow> int) \<Rightarrow> (Op, kvgob) ApplyMsg \<Rightarrow> KVServer \<Rightarrow> stop + KVServer" where
  "kv_applyTask bytes message kv =
     (if kv_killed kv then Inr kv
      else if CommandValid message then
        (if CommandIndex message \<le> kv_lastApplied kv then Inr kv
         else
           (let kv1 = kv\<lparr>kv_lastApplied := CommandIndex message\<rparr> in
            case Command message of
              None \<Rightarrow> Inl Panicked
            | Some op \<Rightarrow>
                (let (opReply, kv2) = kv_execute op kv1 in
                 case kv_notify (CommandIndex message) opReply kv2 of
                   Inl s \<Rightarrow> Inl s
                 | Inr kv3 \<Rightarrow>
                     (if kv_maxraftstate kv3 \<noteq> -1 \<and> GetRaftStateSize bytes (kv_rf kv3) \<ge> kv_maxraftstate kv3
                      then kv_makeSnapshot (CommandIndex message) kv3
                      else Inr kv3))))
      else if SnapshotValid message then
        (case kv_restoreFromSnapshot (Snapshot message) kv of
           Inl s \<Rightarrow> Inl s
         | Inr kv1 \<Rightarrow> Inr (kv1\<lparr>kv_lastApplied := SnapshotIndex message\<rparr>))
      else Inr kv)"

definition StartKVServer :: "int \<Rightarrow> int \<Rightarrow> (Op, kvgob) Persister \<Rightarrow> int \<Rightarrow> stop + KVServer" where
  "StartKVServer servers i ps maxraftstate =
     kv_restoreFromSnapshot (ReadSnapshot ps)
       \<lparr>kv_me = i, kv_rf = Make servers i ps, kv_dead = 0, kv_maxraftstate = maxraftstate,
        kv_stateMachine = NewMemoryKVStateMachine, kv_lastApplied = 0,
        kv_notifyChans = no_chans, kv_duplicateTable = Map.empty\<rparr>"

subsection \<open>\<open>client.go\<close>\<close>

record Clerk =
  ck_servers :: int
  ck_leaderId :: int
  ck_clientId :: int
  ck_seqId :: int

text \<open>\<open>nrand()\<close> is the argument \<open>rand\<close>.\<close>

definition MakeClerk :: "int \<Rightarrow> int \<Rightarrow> Clerk" where
  "MakeClerk servers rand = \<lparr>ck_servers = servers, ck_leaderId = 0, ck_clientId = rand, ck_seqId = 0\<rparr>"

definition kv_clerk_Get :: "(GetArgs \<Rightarrow> GetReply calls) \<Rightarrow> string \<Rightarrow> Clerk \<Rightarrow> (string \<times> Clerk) option" where
  "kv_clerk_Get send key ck =
     map_option (\<lambda>(reply, l). (grValue reply, ck\<lparr>ck_leaderId := l\<rparr>))
       (clerk_retry grErr (ck_servers ck) (send \<lparr>gaKey = key\<rparr>) 0 (ck_leaderId ck))"

definition kv_clerk_PutAppend ::
  "(PutAppendArgs \<Rightarrow> PutAppendReply calls) \<Rightarrow> string \<Rightarrow> string \<Rightarrow> string \<Rightarrow> Clerk \<Rightarrow> Clerk option" where
  "kv_clerk_PutAppend send key val op ck =
     (let args = \<lparr>paKey = key, paValue = val, paOp = op, paClientId = ck_clientId ck, paSeqId = ck_seqId ck\<rparr>
      in map_option (\<lambda>(reply, l). ck\<lparr>ck_leaderId := l, ck_seqId := ck_seqId ck + 1\<rparr>)
           (clerk_retry parErr (ck_servers ck) (send args) 0 (ck_leaderId ck)))"

definition kv_clerk_Put ::
  "(PutAppendArgs \<Rightarrow> PutAppendReply calls) \<Rightarrow> string \<Rightarrow> string \<Rightarrow> Clerk \<Rightarrow> Clerk option" where
  "kv_clerk_Put send key val ck = kv_clerk_PutAppend send key val ''Put'' ck"

definition kv_clerk_Append ::
  "(PutAppendArgs \<Rightarrow> PutAppendReply calls) \<Rightarrow> string \<Rightarrow> string \<Rightarrow> Clerk \<Rightarrow> Clerk option" where
  "kv_clerk_Append send key val ck = kv_clerk_PutAppend send key val ''Append'' ck"

subsection \<open>The contracts\<close>

text \<open>\<open>kv_execute\<close> looks at the state machine and the table only.\<close>

definition kv_step :: "Op \<Rightarrow> MemoryKVStateMachine \<Rightarrow> (OpReply \<times> MemoryKVStateMachine) option" where
  "kv_step op sm = Some (kv_applyToStateMachine op sm)"

definition kv_exec :: "KVServer \<Rightarrow> Op \<Rightarrow> MemoryKVStateMachine \<times> OpReply dup_table
    \<Rightarrow> (OpReply \<times> MemoryKVStateMachine \<times> OpReply dup_table) option" where
  "kv_exec kv op = (\<lambda>(sm, tbl).
     let (r, kv') = kv_execute op (kv\<lparr>kv_stateMachine := sm, kv_duplicateTable := tbl\<rparr>)
     in Some (r, kv_stateMachine kv', kv_duplicateTable kv'))"

definition is_get :: "Op \<Rightarrow> bool" where
  "is_get op \<longleftrightarrow> opType op = OpGet"

interpretation kv: dedup_machine kv_step "kv_exec kv0" is_get opClientId opSeqId
proof (unfold_locales, goal_cases)
  case (1 op st tbl)
  then show ?case
    by (simp add: kv_exec_def kv_execute_def kv_step_def is_get_def split_def Let_def)
next
  case (2 op tbl info st)
  then show ?case
    by (simp add: kv_exec_def kv_execute_def is_get_def kv_requestDuplicate_def Let_def)
next
  case (3 op tbl st)
  have "\<not> kv_requestDuplicate (opClientId op) (opSeqId op)
      (kv0\<lparr>kv_stateMachine := st, kv_duplicateTable := tbl\<rparr>)"
    using 3(2) by (auto simp: kv_requestDuplicate_def split: option.splits)
  with 3(1) show ?case
    by (simp add: kv_exec_def kv_execute_def kv_step_def is_get_def split_def Let_def)
qed

subsection \<open>The apply loop\<close>

definition kv_view :: "KVServer \<Rightarrow> MemoryKVStateMachine \<times> OpReply dup_table" where
  "kv_view kv = (kv_stateMachine kv, kv_duplicateTable kv)"

lemma kv_execute_view:
  assumes "kv_execute op kv = (r, kv')"
  shows "kv_exec kv0 op (kv_view kv) = Some (r, kv_view kv')"
    "kv' = kv\<lparr>kv_stateMachine := kv_stateMachine kv', kv_duplicateTable := kv_duplicateTable kv'\<rparr>"
  using assms
  by (auto simp: kv_exec_def kv_view_def kv_execute_def kv_requestDuplicate_def Let_def split_def
      split: if_splits)

lemma kv_notify_same:
  assumes "kv_notify i r kv = Inr kv'"
  shows "kv_view kv' = kv_view kv" "kv_lastApplied kv' = kv_lastApplied kv" "kv_dead kv' = kv_dead kv"
  using assms
  by (auto simp: kv_notify_def kv_getNotifyChannel_def kv_view_def Let_def split_def split: if_splits sum.splits)

lemma kv_makeSnapshot_same:
  assumes "kv_makeSnapshot i kv = Inr kv'"
  shows "kv_view kv' = kv_view kv" "kv_lastApplied kv' = kv_lastApplied kv" "kv_dead kv' = kv_dead kv"
    "kv_notifyChans kv' = kv_notifyChans kv"
  using assms by (auto simp: kv_makeSnapshot_def kv_view_def split: option.splits)

text \<open>What a command message with a new index does to the replicated state: the leader's part and
  snapshots do not matter.\<close>

lemma kv_applyTask_command:
  assumes "kv_applyTask bytes msg kv = Inr kv'" and "\<not> kv_killed kv" and "CommandValid msg"
    and "kv_lastApplied kv < CommandIndex msg" and "Command msg = Some op"
  shows "map_option snd (kv_exec kv0 op (kv_view kv)) = Some (kv_view kv')"
    "kv_lastApplied kv' = CommandIndex msg" "\<not> kv_killed kv'"
proof -
  let ?kv1 = "kv\<lparr>kv_lastApplied := CommandIndex msg\<rparr>"
  obtain r kv2 where ex: "kv_execute op ?kv1 = (r, kv2)" by fastforce
  with assms obtain kv3 where n: "kv_notify (CommandIndex msg) r kv2 = Inr kv3"
    and kv': "kv' = kv3 \<or> kv_makeSnapshot (CommandIndex msg) kv3 = Inr kv'"
    by (auto simp: kv_applyTask_def split: sum.splits if_splits)
  note E = kv_execute_view [OF ex]
  have "kv_view kv' = kv_view kv2" "kv_lastApplied kv' = kv_lastApplied kv2" "kv_dead kv' = kv_dead kv2"
    using kv' kv_notify_same [OF n] kv_makeSnapshot_same by metis+
  moreover have "kv_lastApplied kv2 = CommandIndex msg" "kv_dead kv2 = kv_dead kv"
    by (subst E(2), simp)+
  moreover have "kv_view ?kv1 = kv_view kv" by (simp add: kv_view_def)
  ultimately show "map_option snd (kv_exec kv0 op (kv_view kv)) = Some (kv_view kv')"
    "kv_lastApplied kv' = CommandIndex msg" "\<not> kv_killed kv'"
    using E(1) [of kv0] assms(2) by (auto simp: kv_killed_def)
qed

fun kv_applyAll ::
  "(Op gob list \<Rightarrow> int) \<Rightarrow> (Op, kvgob) ApplyMsg list \<Rightarrow> KVServer \<Rightarrow> stop + KVServer" where
  "kv_applyAll bytes [] kv = Inr kv"
| "kv_applyAll bytes (msg # msgs) kv =
     (case kv_applyTask bytes msg kv of Inl s \<Rightarrow> Inl s | Inr kv' \<Rightarrow> kv_applyAll bytes msgs kv')"

text \<open>The messages Raft delivers for a piece of the log: commands at increasing indices.\<close>

fun commands_from :: "int \<Rightarrow> ('c, 's) ApplyMsg list \<Rightarrow> bool" where
  "commands_from i [] = True"
| "commands_from i (msg # msgs) \<longleftrightarrow> CommandValid msg \<and> Command msg \<noteq> None \<and> i < CommandIndex msg
     \<and> commands_from (CommandIndex msg) msgs"

definition ops_of :: "('c, 's) ApplyMsg list \<Rightarrow> 'c list" where
  "ops_of msgs = map (\<lambda>msg. the (Command msg)) msgs"

lemma kv_applyAll_run:
  assumes "kv_applyAll bytes msgs kv = Inr kv'" and "\<not> kv_killed kv"
    and "commands_from (kv_lastApplied kv) msgs"
  shows "run (kv_exec kv0) (ops_of msgs) (kv_view kv) = Some (kv_view kv')"
  using assms
proof (induction msgs arbitrary: kv)
  case (Cons msg msgs)
  then obtain kv1 op where 1: "kv_applyTask bytes msg kv = Inr kv1" "kv_applyAll bytes msgs kv1 = Inr kv'"
    and op: "Command msg = Some op"
    by (auto split: sum.splits)
  note A = kv_applyTask_command [OF 1(1) Cons.prems(2) _ _ op]
  have "run (kv_exec kv0) (ops_of msgs) (kv_view kv1) = Some (kv_view kv')"
    using Cons.prems A(2,3) by (intro Cons.IH [OF 1(2)]) auto
  moreover have "map_option snd (kv_exec kv0 op (kv_view kv)) = Some (kv_view kv1)"
    using Cons.prems A(1) by auto
  then obtain r where "kv_exec kv0 op (kv_view kv) = Some (r, kv_view kv1)" by auto
  ultimately show ?case using op by (simp add: ops_of_def)
qed (simp add: ops_of_def)

text \<open>The value of one key after a sequence of operations: only those on this key matter.\<close>

fun key_value :: "string \<Rightarrow> string option \<Rightarrow> Op list \<Rightarrow> string option" where
  "key_value k v [] = v"
| "key_value k v (op # ops) = key_value k
     (if opKey op \<noteq> k then v
      else case opType op of
        OpGet \<Rightarrow> v
      | OpPut \<Rightarrow> Some (opValue op)
      | OpAppend \<Rightarrow> Some (case_option '''' id v @ opValue op)) ops"

lemma run_kv_step: "run kv_step ops sm = Some sm' \<Longrightarrow> KV sm' k = key_value k (KV sm k) ops"
proof (induction ops arbitrary: sm)
  case (Cons op ops)
  let ?sm = "snd (kv_applyToStateMachine op sm)"
  have "KV ?sm k = (if opKey op \<noteq> k then KV sm k
      else case opType op of OpGet \<Rightarrow> KV sm k | OpPut \<Rightarrow> Some (opValue op)
      | OpAppend \<Rightarrow> Some (case_option '''' id (KV sm k) @ opValue op))"
    by (auto simp: kv_applyToStateMachine_def kvsm_Get_def kvsm_Put_def kvsm_Append_def
        split: OperationType.splits option.splits)
  with Cons show ?case by (auto simp: kv_step_def split_def)
qed simp

lemma kv_applyAll_value:
  assumes "kv_applyAll bytes msgs kv = Inr kv'" and "\<not> kv_killed kv"
    and "commands_from (kv_lastApplied kv) msgs"
  shows "KV (kv_stateMachine kv') k = key_value k (KV (kv_stateMachine kv) k)
     (effective is_get opClientId opSeqId (seen_of (kv_duplicateTable kv)) (ops_of msgs))"
proof -
  have "run (kv_exec kv) (ops_of msgs) (kv_stateMachine kv, kv_duplicateTable kv)
      = Some (kv_stateMachine kv', kv_duplicateTable kv')"
    using kv_applyAll_run [OF assms, of kv] by (simp add: kv_view_def)
  with kv.run_effective [of kv "ops_of msgs" "kv_stateMachine kv" "kv_duplicateTable kv"]
  show ?thesis by (intro run_kv_step) simp
qed

subsection \<open>The apply loop never blocks\<close>

text \<open>No channel of an index that is still to be applied holds a reply.\<close>

definition kv_inv :: "KVServer \<Rightarrow> bool" where
  "kv_inv kv \<longleftrightarrow> chans_wf (kv_notifyChans kv) \<and> (\<forall>i > kv_lastApplied kv. chan_free (kv_notifyChans kv) i)"

lemma kv_inv_handlers:
  assumes "kv_inv kv"
  shows "kv_Get ga kv = (y, kv1) \<Longrightarrow> kv_inv kv1" "kv_PutAppend_start pa kv = Some (x, kv1) \<Longrightarrow> kv_inv kv1"
    "kv_getNotifyChannel i kv = (d, kv1) \<Longrightarrow> kv_inv kv1" "kv_inv (kv_removeNotifyChannel i kv)"
    "kv_await c b kv = Some (r, kv1) \<Longrightarrow> kv_inv kv1" "kv_inv (kv_Kill kv)" "kv_inv (kv\<lparr>kv_rf := rf\<rparr>)"
proof -
  have wf: "chans_wf (kv_notifyChans kv)" using assms by (simp add: kv_inv_def)
  show "kv_Get ga kv = (y, kv1) \<Longrightarrow> kv_inv kv1"
    using assms by (auto simp: kv_inv_def kv_Get_def Let_def split_def split: if_splits)
  show "kv_PutAppend_start pa kv = Some (x, kv1) \<Longrightarrow> kv_inv kv1"
    using assms by (auto simp: kv_inv_def kv_PutAppend_start_def Let_def split_def
        split: if_splits option.splits dest!: bind_eq_SomeD)
  obtain e cs where "chan_get i (kv_notifyChans kv) = (e, cs)" by fastforce
  with chan_get_wf [OF wf this] assms show "kv_getNotifyChannel i kv = (d, kv1) \<Longrightarrow> kv_inv kv1"
    by (auto simp: kv_inv_def kv_getNotifyChannel_def)
  show "kv_inv (kv_removeNotifyChannel i kv)"
    using assms by (simp add: kv_inv_def kv_removeNotifyChannel_def chan_remove_wf)
  show "kv_await c b kv = Some (r, kv1) \<Longrightarrow> kv_inv kv1"
    using assms chan_recv_wf [OF wf, of c] by (fastforce simp: kv_inv_def kv_await_def split: if_splits option.splits)
  show "kv_inv (kv_Kill kv)" "kv_inv (kv\<lparr>kv_rf := rf\<rparr>)" using assms by (simp_all add: kv_inv_def kv_Kill_def)
qed

lemma kv_notify_free:
  assumes "chans_wf (kv_notifyChans kv)" and "chan_free (kv_notifyChans kv) i"
  shows "\<exists>kv'. kv_notify i r kv = Inr kv' \<and> chans_wf (kv_notifyChans kv')
     \<and> (\<forall>j. j \<noteq> i \<longrightarrow> chan_free (kv_notifyChans kv) j \<longrightarrow> chan_free (kv_notifyChans kv') j)
     \<and> (snd (GetState (kv_rf kv)) \<longrightarrow> (\<exists>c. chanOf (kv_notifyChans kv') i = Some c
           \<and> map_option fst (kv_await c False kv') = Some r))"
proof (cases "snd (GetState (kv_rf kv))")
  case True
  obtain c cs1 where g: "chan_get i (kv_notifyChans kv) = (c, cs1)" by fastforce
  from chan_send_free [OF assms g] obtain cs2 where "chan_send c r cs1 = Inr cs2" "chans_wf cs2"
    "chanOf cs2 = chanOf cs1" "map_option fst (chan_recv c cs2) = Some r"
    "\<And>j. j \<noteq> i \<Longrightarrow> chan_free (kv_notifyChans kv) j \<Longrightarrow> chan_free cs2 j" by blast
  with True g chan_get_wf(2) [OF assms(1) g] show ?thesis
    by (auto simp: kv_notify_def kv_getNotifyChannel_def kv_await_def split: option.splits)
qed (use assms in \<open>auto simp: kv_notify_def\<close>)

lemma kv_applyTask_inv:
  assumes "kv_inv kv" and "\<not> kv_killed kv" and "CommandValid msg" and "Command msg = Some op"
    and "kv_lastApplied kv < CommandIndex msg"
  shows "kv_applyTask bytes msg kv \<noteq> Inl Blocked
    \<and> (\<forall>kv'. kv_applyTask bytes msg kv = Inr kv' \<longrightarrow> kv_inv kv'
         \<and> (role (kv_rf kv) = Leader \<longrightarrow> (\<exists>c. chanOf (kv_notifyChans kv') (CommandIndex msg) = Some c
               \<and> map_option fst (kv_await c False kv')
                  = Some (fst (kv_execute op (kv\<lparr>kv_lastApplied := CommandIndex msg\<rparr>))))))"
proof -
  let ?i = "CommandIndex msg" let ?kv1 = "kv\<lparr>kv_lastApplied := ?i\<rparr>"
  obtain r kv2 where ex: "kv_execute op ?kv1 = (r, kv2)" by fastforce
  have same: "kv_notifyChans kv2 = kv_notifyChans kv" "kv_rf kv2 = kv_rf kv" "kv_lastApplied kv2 = ?i"
    by (subst kv_execute_view(2) [OF ex], simp)+
  have "chans_wf (kv_notifyChans kv2)" "chan_free (kv_notifyChans kv2) ?i"
    using assms(1,5) by (auto simp: kv_inv_def same)
  from kv_notify_free [OF this, of r] obtain kv3 where n: "kv_notify ?i r kv2 = Inr kv3"
    "chans_wf (kv_notifyChans kv3)"
    "\<And>j. j \<noteq> ?i \<Longrightarrow> chan_free (kv_notifyChans kv2) j \<Longrightarrow> chan_free (kv_notifyChans kv3) j"
    "role (kv_rf kv2) = Leader \<Longrightarrow> \<exists>c. chanOf (kv_notifyChans kv3) ?i = Some c
       \<and> map_option fst (kv_await c False kv3) = Some r"
    by (auto simp: GetState_def)
  have task: "kv_applyTask bytes msg kv =
     (if kv_maxraftstate kv3 \<noteq> -1 \<and> GetRaftStateSize bytes (kv_rf kv3) \<ge> kv_maxraftstate kv3
      then kv_makeSnapshot ?i kv3 else Inr kv3)"
    using assms ex n(1) by (simp add: kv_applyTask_def)
  have out: "kv_notifyChans kv' = kv_notifyChans kv3 \<and> kv_lastApplied kv' = ?i"
    if "kv_applyTask bytes msg kv = Inr kv'" for kv'
    using that kv_makeSnapshot_same [of ?i kv3 kv'] kv_notify_same [OF n(1)] same
    by (auto simp: task split: if_splits)
  have "kv_inv kv'" if "kv_applyTask bytes msg kv = Inr kv'" for kv'
    using out [OF that] n(2,3) assms(1,5) same by (auto simp: kv_inv_def)
  moreover have "map_option fst (kv_await c False kv') = map_option fst (kv_await c False kv3)"
    if "kv_applyTask bytes msg kv = Inr kv'" for kv' c
    using out [OF that] by (simp add: kv_await_def split: option.splits)
  moreover have "kv_applyTask bytes msg kv \<noteq> Inl Blocked"
    by (auto simp: task kv_makeSnapshot_def split: if_splits option.splits)
  ultimately show ?thesis using n(4) out ex same(2) by fastforce
qed

text \<open>A server and the handlers that run in it. A handler has looked for a repetition and not yet
  called \<open>Start\<close>, or waits for its channel, or for its reply, or has still to remove its
  channel.\<close>

datatype handler = Starting PutAppendArgs | Opening int | Waiting int nat | Closing int

text \<open>Steps of a server, each what one goroutine does between two points where others may run. The
  Raft peer moves on its own. What the server relies on in Raft is in the rule \<open>restores\<close>: a
  snapshot is not older than what has been applied.\<close>

inductive kv_server_step ::
  "(Op gob list \<Rightarrow> int) \<Rightarrow> KVServer \<times> handler list \<Rightarrow> KVServer \<times> handler list \<Rightarrow> bool" for bytes where
  get_replies: "kv_Get args kv = (Inl reply, kv') \<Longrightarrow> kv_server_step bytes (kv, hs) (kv', hs)"
| get_starts: "kv_Get args kv = (Inr index, kv') \<Longrightarrow> kv_server_step bytes (kv, hs) (kv', Opening index # hs)"
| put_again: "kv_PutAppend_check pargs kv = Some preply \<Longrightarrow> kv_server_step bytes (kv, hs) (kv, hs)"
| put_checked: "kv_PutAppend_check pargs kv = None \<Longrightarrow> kv_server_step bytes (kv, hs) (kv, Starting pargs # hs)"
| put_replies: "Starting pargs \<in> set hs \<Longrightarrow> kv_PutAppend_start pargs kv = Some (Inl preply, kv')
    \<Longrightarrow> kv_server_step bytes (kv, hs) (kv', remove1 (Starting pargs) hs)"
| put_starts: "Starting pargs \<in> set hs \<Longrightarrow> kv_PutAppend_start pargs kv = Some (Inr index, kv')
    \<Longrightarrow> kv_server_step bytes (kv, hs) (kv', Opening index # remove1 (Starting pargs) hs)"
| opens: "Opening index \<in> set hs \<Longrightarrow> kv_getNotifyChannel index kv = (c, kv')
    \<Longrightarrow> kv_server_step bytes (kv, hs) (kv', Waiting index c # remove1 (Opening index) hs)"
| awaits: "Waiting index c \<in> set hs \<Longrightarrow> kv_await c timedOut kv = Some (result, kv')
    \<Longrightarrow> kv_server_step bytes (kv, hs) (kv', Closing index # remove1 (Waiting index c) hs)"
| closes: "Closing index \<in> set hs
    \<Longrightarrow> kv_server_step bytes (kv, hs) (kv_removeNotifyChannel index kv, remove1 (Closing index) hs)"
| applies: "CommandValid msg \<Longrightarrow> kv_applyTask bytes msg kv = Inr kv' \<Longrightarrow> kv_server_step bytes (kv, hs) (kv', hs)"
| restores: "\<not> CommandValid msg \<Longrightarrow> SnapshotValid msg \<Longrightarrow> kv_lastApplied kv \<le> SnapshotIndex msg
    \<Longrightarrow> kv_applyTask bytes msg kv = Inr kv' \<Longrightarrow> kv_server_step bytes (kv, hs) (kv', hs)"
| raft_moves: "kv_server_step bytes (kv, hs) (kv\<lparr>kv_rf := rf\<rparr>, hs)"
| kill: "kv_server_step bytes (kv, hs) (kv_Kill kv, hs)"

inductive kv_server_run :: "(Op gob list \<Rightarrow> int) \<Rightarrow> KVServer \<times> handler list \<Rightarrow> bool" for bytes where
  starts: "StartKVServer n i ps m = Inr kv \<Longrightarrow> kv_server_run bytes (kv, [])"
| moves: "kv_server_run bytes s \<Longrightarrow> kv_server_step bytes s s' \<Longrightarrow> kv_server_run bytes s'"

lemma kv_restore_same:
  assumes "kv_restoreFromSnapshot snap kv = Inr kv'"
  shows "kv_notifyChans kv' = kv_notifyChans kv" "kv_lastApplied kv' = kv_lastApplied kv"
  using assms by (induction snap kv rule: kv_restoreFromSnapshot.induct) auto

lemma kv_inv_step:
  assumes "kv_server_step bytes s s'" and "kv_inv (fst s)"
  shows "kv_inv (fst s')"
  using assms
proof cases
  case (applies msg kv kv' hs)
  then show ?thesis
  proof (cases "kv_killed kv \<or> CommandIndex msg \<le> kv_lastApplied kv")
    case False
    with applies obtain op where "Command msg = Some op" by (auto simp: kv_applyTask_def split: option.splits)
    with kv_applyTask_inv [of kv msg op bytes] applies False assms(2) show ?thesis by auto
  qed (use assms in \<open>auto simp: kv_applyTask_def split: if_splits\<close>)
next
  case (restores msg kv kv' hs)
  then show ?thesis
    using assms(2) kv_restore_same by (fastforce simp: kv_applyTask_def kv_inv_def split: if_splits sum.splits)
qed (auto dest: kv_inv_handlers)

lemma kv_inv_run:
  assumes "kv_server_run bytes s"
  shows "kv_inv (fst s)"
  using assms
proof induction
  case (starts n i ps m kv)
  then show ?case
    using kv_restore_same [of "ReadSnapshot ps"] by (fastforce simp: StartKVServer_def kv_inv_def)
qed (rule kv_inv_step)

subsection \<open>Properties of the service\<close>

definition kv_fresh :: KVServer where
  "kv_fresh = \<lparr>kv_me = 0, kv_rf = Make 3 0 MakePersister, kv_dead = 0, kv_maxraftstate = -1,
     kv_stateMachine = NewMemoryKVStateMachine, kv_lastApplied = 0,
     kv_notifyChans = no_chans, kv_duplicateTable = Map.empty\<rparr>"

lemma StartKVServer_fresh: "StartKVServer 3 0 MakePersister (-1) = Inr kv_fresh"
  by (simp add: StartKVServer_def kv_fresh_def ReadSnapshot_def MakePersister_def)

definition put_op :: "string \<Rightarrow> string \<Rightarrow> int \<Rightarrow> int \<Rightarrow> Op" where
  "put_op k v c n = \<lparr>opKey = k, opValue = v, opType = OpAppend, opClientId = c, opSeqId = n\<rparr>"

definition command_msg :: "int \<Rightarrow> Op \<Rightarrow> (Op, kvgob) ApplyMsg" where
  "command_msg i op = \<lparr>CommandValid = True, Command = Some op, CommandIndex = i,
     SnapshotValid = False, Snapshot = [], SnapshotTerm = 0, SnapshotIndex = 0\<rparr>"

text \<open>A client's first request is in the log twice, its retry after the second request.\<close>

definition sample_log :: "(Op, kvgob) ApplyMsg list" where
  "sample_log = [command_msg 1 (put_op ''k'' ''a'' 7 0), command_msg 2 (put_op ''k'' ''b'' 7 1),
                 command_msg 3 (put_op ''k'' ''a'' 7 0)]"

lemma sample_facts:
  "first_in_order is_get opClientId opSeqId (ops_of sample_log)"
  "commands_from 0 sample_log" "\<not> kv_killed kv_fresh" "kv_lastApplied kv_fresh = 0"
  by code_simp+

lemma sample_applied: "\<exists>kv'. kv_applyAll (\<lambda>_. 0) sample_log kv_fresh = Inr kv'"
proof -
  have "(case kv_applyAll (\<lambda>_. 0) sample_log kv_fresh of Inl _ \<Rightarrow> False | Inr _ \<Rightarrow> True)" by code_simp
  then show ?thesis by (auto split: sum.splits)
qed

text \<open>C3: the apply loop implements the key/value specification on the log without its duplicates.
  Whatever commands Raft delivers, at increasing indices, and whether or not the server leads or takes
  snapshots in between, the value of every key afterwards is what the Puts and Appends on that key
  give that are not repetitions of an earlier request of their client.\<close>

theorem kv_refines_spec:
  assumes "kv_applyAll bytes msgs kv = Inr kv'" and "\<not> kv_killed kv"
    and "commands_from (kv_lastApplied kv) msgs"
  shows "KV (kv_stateMachine kv') k = key_value k (KV (kv_stateMachine kv) k)
     (effective is_get opClientId opSeqId (seen_of (kv_duplicateTable kv)) (ops_of msgs))"
  using kv_applyAll_value [OF assms] .

theorem kv_refines_spec_witness:
  "\<exists>kv'. kv_applyAll (\<lambda>_. 0) sample_log kv_fresh = Inr kv' \<and> KV (kv_stateMachine kv') ''k'' = Some ''ab''"
proof -
  obtain kv' where kv': "kv_applyAll (\<lambda>_. 0) sample_log kv_fresh = Inr kv'" using sample_applied by blast
  have "key_value ''k'' (KV (kv_stateMachine kv_fresh) ''k'')
     (effective is_get opClientId opSeqId (seen_of (kv_duplicateTable kv_fresh)) (ops_of sample_log)) = Some ''ab''"
    by code_simp
  with kv_refines_spec [OF kv', of "''k''"] sample_facts kv' show ?thesis by auto
qed





lemma Make_commit:
  assumes "ps_raftstate ps = encodeState rf" and "0 < snapLastIdx (rlog rf)"
  shows "commitIndex (Make n i ps) = snapLastIdx (rlog rf)" "lastApplied (Make n i ps) = snapLastIdx (rlog rf)"
  using assms
  by (simp_all add: Make_def readPersist_def encodeState_def log_persist_def log_readPersist_def
      ReadRaftState_def raft_state_defs)

text \<open>C19: a server that restarts after a snapshot goes on where it was. When the snapshot of index \<open>i\<close> is
  taken, a later \<open>StartKVServer\<close> on the same persister succeeds with the same map and the same
  duplicate table, its Raft peer will deliver entries from \<open>i + 1\<close> on, and a follower that
  receives the snapshot through \<open>applyCh\<close> ends with the same map and table too.\<close>

theorem kv_snapshot_restart:
  assumes "0 \<le> snapLastIdx (rlog (kv_rf kv))" and "snapLastIdx (rlog (kv_rf kv)) < i"
    and "i \<le> commitIndex (kv_rf kv)" and "kv_makeSnapshot i kv = Inr kv1"
  shows "\<exists>kv2. StartKVServer n j (persister (kv_rf kv1)) m = Inr kv2
      \<and> kv_view kv2 = kv_view kv \<and> lastApplied (kv_rf kv2) = i \<and> commitIndex (kv_rf kv2) = i
      \<and> (\<forall>msg kv3. \<not> CommandValid msg \<and> SnapshotValid msg \<and> \<not> kv_killed kv3
            \<and> Snapshot msg = snapshot (rlog (kv_rf kv1)) \<longrightarrow>
          (\<exists>kv4. kv_applyTask bytes msg kv3 = Inr kv4 \<and> kv_view kv4 = kv_view kv
              \<and> kv_lastApplied kv4 = SnapshotIndex msg))"
proof -
  let ?rf = "kv_rf kv" and ?snap = "kv_encodeSnapshot kv"
  obtain rl where rl: "log_doSnapshot (rlog ?rf) i ?snap = Some rl"
    and rf1: "kv_rf kv1 = persistLocked (?rf\<lparr>rlog := rl\<rparr>)"
    using assms by (auto simp: kv_makeSnapshot_def Raft_Snapshot_def split: option.splits if_splits
        dest!: bind_eq_SomeD)
  note view = log_doSnapshot_view [OF rl]
  have ps: "ps_raftstate (persister (kv_rf kv1)) = encodeState (?rf\<lparr>rlog := rl\<rparr>)"
    "ps_snapshot (persister (kv_rf kv1)) = ?snap"
    by (simp_all add: rf1 persistLocked_def Save_def view)
  have "commitIndex (Make n j (persister (kv_rf kv1))) = i" "lastApplied (Make n j (persister (kv_rf kv1))) = i"
    using Make_commit [OF ps(1), of n j] assms(1,2) view(1) by simp_all
  moreover have "snapshot (rlog (kv_rf kv1)) = ?snap" by (simp add: rf1 view)
  ultimately show ?thesis
    using ps(2) by (auto simp: StartKVServer_def ReadSnapshot_def kv_encodeSnapshot_def kv_view_def
        kv_applyTask_def)
qed

theorem kv_snapshot_restart_witness:
  "\<exists>kv1 kv2. kv_makeSnapshot 1 (kv_fresh\<lparr>kv_rf := (kv_rf kv_fresh)\<lparr>commitIndex := 1,
        rlog := log_append (rlog (kv_rf kv_fresh)) (termEntry 1)\<rparr>\<rparr>) = Inr kv1
     \<and> StartKVServer 3 0 (persister (kv_rf kv1)) (-1) = Inr kv2 \<and> lastApplied (kv_rf kv2) = 1"
proof -
  let ?kv = "kv_fresh\<lparr>kv_rf := (kv_rf kv_fresh)\<lparr>commitIndex := 1,
        rlog := log_append (rlog (kv_rf kv_fresh)) (termEntry 1)\<rparr>\<rparr>"
  have f: "snapLastIdx (rlog (kv_rf ?kv)) = 0" "commitIndex (kv_rf ?kv) = 1"
    "(case kv_makeSnapshot 1 ?kv of Inl _ \<Rightarrow> False | Inr _ \<Rightarrow> True)" by code_simp+
  then obtain kv1 where kv1: "kv_makeSnapshot 1 ?kv = Inr kv1" by (auto split: sum.splits)
  from kv_snapshot_restart [OF _ _ _ kv1, of 3 0 "-1" "\<lambda>_. 0"] f kv1 show ?thesis by auto
qed

text \<open>A peer wins the election after the current term.\<close>

definition win_election :: "int \<Rightarrow> (Op, kvgob) Raft \<Rightarrow> (Op, kvgob) Raft" where
  "win_election t rf =
     (let rf1 = snd (the (electionTicker \<lparr>now = t, rnd = 7\<rparr> rf))
      in fst (snd (the (handleVoteReply \<lparr>now = t + 1, rnd = 7\<rparr> (currentTerm rf1) True
                          \<lparr>rvrTerm = currentTerm rf1, rvrVoteGranted = True\<rparr> 1 rf1))))"

text \<open>Client 7 asks the leader of term 1 to put a value, and the handler waits for index 1; the leader of
  term 2 replaces the entry at index 1 by a request of client 8; the first server leads again in
  term 3 and applies index 1.\<close>

definition asked :: "(PutAppendReply + int) \<times> KVServer" where
  "asked = the (kv_PutAppend \<lparr>paKey = ''a'', paValue = ''v'', paOp = ''Put'', paClientId = 7, paSeqId = 0\<rparr>
     (kv_fresh\<lparr>kv_rf := win_election 1000000000 (kv_rf kv_fresh)\<rparr>))"

definition waiting :: "nat \<times> KVServer" where
  "waiting = kv_getNotifyChannel 1 (snd asked)"

definition replaced :: KVServer where
  "replaced = (snd waiting)\<lparr>kv_rf := win_election 3000000000
     (snd (the (AppendEntries \<lparr>now = 2000000000, rnd = 7\<rparr>
       \<lparr>aeTerm = 2, aeLeaderId = 1, aePrevLogIndex = 0, aePrevLogTerm = 0,
        aeEntries = [\<lparr>leTerm = 2, leCommandValid = True, leCommand = Some (put_op ''b'' ''w'' 8 0)\<rparr>],
        aeLeaderCommit = 0\<rparr> (kv_rf (snd waiting)))))\<rparr>"

definition answered_wrongly :: "OpReply \<times> KVServer" where
  "answered_wrongly = the (kv_await (fst waiting) False
     (projr (kv_applyTask (\<lambda>_. 0) (commandMsg (kv_rf replaced) 0 (the (log_at (rlog (kv_rf replaced)) 1))) replaced)))"


text \<open>C20: the clerk's \<open>PutAppend\<close> asks the servers in turn, always with the same client and
  sequence number, and returns with the first answer that is neither missing nor
  \<open>ErrWrongLeader\<close> nor \<open>ErrTimeout\<close>; its sequence number grows by one exactly then. If some
  server answers from some round on, it does return.\<close>

theorem kv_clerk_retries:
  fixes ck ck' :: Clerk and send :: "PutAppendArgs \<Rightarrow> PutAppendReply calls" and key val op :: string
  assumes "0 \<le> ck_leaderId ck" and "ck_leaderId ck < ck_servers ck"
  defines "call \<equiv> send \<lparr>paKey = key, paValue = val, paOp = op, paClientId = ck_clientId ck, paSeqId = ck_seqId ck\<rparr>"
    and "server \<equiv> \<lambda>m. (ck_leaderId ck + int m) mod ck_servers ck"
  shows "(kv_clerk_PutAppend send key val op ck = Some ck' \<longleftrightarrow>
      (\<exists>m. (\<forall>j < m. retry parErr (call j (server j))) \<and> \<not> retry parErr (call m (server m))
         \<and> ck' = ck\<lparr>ck_leaderId := server m, ck_seqId := ck_seqId ck + 1\<rparr>))
    \<and> ((\<exists>i m. 0 \<le> i \<and> i < ck_servers ck \<and> (\<forall>j \<ge> nat (ck_servers ck) * m. \<not> retry parErr (call j i)))
        \<longrightarrow> kv_clerk_PutAppend send key val op ck \<noteq> None)"
proof -
  let ?n = "ck_servers ck" and ?l = "ck_leaderId ck"
  have l: "?l mod ?n = ?l" using assms(1,2) by simp
  have eq: "kv_clerk_PutAppend send key val op ck
      = map_option (\<lambda>(reply, l). ck\<lparr>ck_leaderId := l, ck_seqId := ck_seqId ck + 1\<rparr>) (clerk_retry parErr ?n call 0 (?l mod ?n))"
    by (simp add: kv_clerk_PutAppend_def call_def l Let_def)
  have "kv_clerk_PutAppend send key val op ck = Some ck' \<longleftrightarrow>
      (\<exists>r l'. clerk_retry parErr ?n call 0 (?l mod ?n) = Some (r, l')
          \<and> ck' = ck\<lparr>ck_leaderId := l', ck_seqId := ck_seqId ck + 1\<rparr>)"
    unfolding eq by auto
  then have 1: "kv_clerk_PutAppend send key val op ck = Some ck' \<longleftrightarrow>
      (\<exists>m. (\<forall>j < m. retry parErr (call j (server j))) \<and> \<not> retry parErr (call m (server m))
         \<and> ck' = ck\<lparr>ck_leaderId := server m, ck_seqId := ck_seqId ck + 1\<rparr>)"
    unfolding clerk.returns_iff server_def by auto
  have "kv_clerk_PutAppend send key val op ck \<noteq> None"
    if "0 \<le> i" "i < ?n" "\<forall>j \<ge> nat ?n * m. \<not> retry parErr (call j i)" for i m
    using clerk.returns_if_served [OF that(1,2), of 0 m parErr call ?l] that(3) unfolding eq by simp
  with 1 show ?thesis by blast
qed

theorem kv_clerk_retries_witness:
  "kv_clerk_PutAppend (\<lambda>_ k i. (i = 2, \<lparr>parErr = OK\<rparr>)) ''k'' ''v'' ''Put'' (MakeClerk 3 7)
     = Some \<lparr>ck_servers = 3, ck_leaderId = 2, ck_clientId = 7, ck_seqId = 1\<rparr>"
proof -
  have "\<exists>m. (\<forall>j < m. retry parErr (int j mod 3 = 2, \<lparr>parErr = OK\<rparr>))
      \<and> \<not> retry parErr (int m mod 3 = 2, \<lparr>parErr = OK\<rparr>) \<and> int m mod 3 = 2"
    by (intro exI [of _ 2]) (auto simp: retry_def err_defs less_Suc_eq numeral_2_eq_2)
  then show ?thesis
    using kv_clerk_retries [of "MakeClerk 3 7" "\<lambda>_ k i. (i = 2, \<lparr>parErr = OK\<rparr>)" "''k''" "''v''" "''Put''"
        "\<lparr>ck_servers = 3, ck_leaderId = 2, ck_clientId = 7, ck_seqId = 1\<rparr>"]
    by (auto simp: MakeClerk_def)
qed

end
