(* ===== verification/GoMap.thy ===== *)
theory GoMap
  imports GoPrelude "HOL-Library.AList"
begin

section \<open>Go maps with integer keys\<close>

text \<open>
  A map is an association list with distinct keys. The order in which a \<open>range\<close> visits the
  keys is not specified and may differ from one loop to the next: every model of such a loop takes
  an \<open>order\<close>, which permutes the keys at the given place of the program.
\<close>

type_synonym 'v gomap = "(int \<times> 'v) list"

definition keys :: "'v gomap \<Rightarrow> int list" where
  "keys m = map fst m"

definition wf_map :: "'v gomap \<Rightarrow> bool" where
  "wf_map m \<longleftrightarrow> distinct (keys m)"

text \<open>\<open>m[k]\<close> of a map of slices: a missing key reads as \<open>nil\<close>.\<close>

definition slice_at :: "'a list gomap \<Rightarrow> int \<Rightarrow> 'a list" where
  "slice_at m k = (case map_of m k of None \<Rightarrow> [] | Some xs \<Rightarrow> xs)"

type_synonym order = "nat \<Rightarrow> int list \<Rightarrow> int list"

definition valid_order :: "order \<Rightarrow> bool" where
  "valid_order ord \<longleftrightarrow> (\<forall>k ks. mset (ord k ks) = mset ks)"

lemma valid_orderD:
  assumes "valid_order ord"
  shows "set (ord k ks) = set ks" "distinct (ord k ks) = distinct ks" "sort (ord k ks) = sort ks"
proof -
  have m: "mset (ord k ks) = mset ks" using assms by (simp add: valid_order_def)
  then show "set (ord k ks) = set ks" "distinct (ord k ks) = distinct ks"
    by (metis mset_eq_setD) (metis m mset_eq_imp_distinct_iff)
  show "sort (ord k ks) = sort ks"
    using m by (metis mset_sort properties_for_sort sorted_sort)
qed

definition source_order :: order where
  "source_order k ks = ks"

definition reverse_order :: order where
  "reverse_order k ks = rev ks"

lemma valid_source_order: "valid_order source_order"
  by (simp add: valid_order_def source_order_def)

lemma valid_reverse_order: "valid_order reverse_order"
  by (simp add: valid_order_def reverse_order_def)

lemma keys_dom: "set (keys m) = dom (map_of m)"
  by (simp add: keys_def dom_map_of_conv_image_fst)

lemma keys_iff: "k \<in> set (keys m) \<longleftrightarrow> map_of m k \<noteq> None"
  by (auto simp: keys_dom)

lemma map_of_update: "map_of (AList.update k v m) = (map_of m)(k \<mapsto> v)"
  by (rule AList.update_conv')

lemma map_of_delete: "map_of (AList.delete k m) = (map_of m)(k := None)"
  by (rule AList.delete_conv')

lemma wf_update [simp]: "wf_map m \<Longrightarrow> wf_map (AList.update k v m)"
  by (simp add: wf_map_def keys_def distinct_update)

lemma wf_delete [simp]: "wf_map m \<Longrightarrow> wf_map (AList.delete k m)"
  by (simp add: wf_map_def keys_def distinct_delete)

lemma slice_at_update: "slice_at (AList.update k v m) j = (if j = k then v else slice_at m j)"
  by (simp add: slice_at_def map_of_update)

lemma slice_at_delete: "slice_at (AList.delete k m) j = (if j = k then [] else slice_at m j)"
  by (simp add: slice_at_def map_of_delete)

lemma slice_at_keys: "slice_at m k \<noteq> [] \<Longrightarrow> k \<in> set (keys m)"
  by (auto simp: slice_at_def keys_iff split: option.splits)

lemma keys_update: "set (keys (AList.update k v m)) = insert k (set (keys m))"
  by (auto simp: keys_dom map_of_update)

lemma keys_delete: "set (keys (AList.delete k m)) = set (keys m) - {k}"
  by (auto simp: keys_dom map_of_delete)

text \<open>Maps with the same contents have the same sorted keys.\<close>

lemma sort_keys_cong:
  assumes "wf_map m" "wf_map m'" "map_of m = map_of m'" and "valid_order ord" "valid_order ord'"
  shows "sort (ord k (keys m)) = sort (ord' k' (keys m'))"
proof -
  have "mset (keys m) = mset (keys m')"
    using assms(1-3) by (intro set_eq_iff_mset_eq_distinct [THEN iffD1]) (auto simp: wf_map_def keys_dom)
  then have "sort (keys m) = sort (keys m')"
    by (metis mset_sort properties_for_sort sorted_sort)
  then show ?thesis using valid_orderD(3) [OF assms(4)] valid_orderD(3) [OF assms(5)] by simp
qed

end
