(* ===== verification/ShardCtrler.thy ===== *)
theory ShardCtrler
  imports Service GoMap
begin

section \<open>The shard controller's state machine, \<open>shardctrler/state_machine.go\<close>\<close>

text \<open>
  A sequence of configurations; \<open>Join\<close>, \<open>Leave\<close> and \<open>Move\<close> append one, \<open>Query\<close>
  reads one. The loops over maps take an \<open>order\<close> (theory \<open>GoMap\<close>); the number given to
  it tells the loops of one function apart. A panic (an index out of range) is \<open>None\<close>. The
  balancing loop of \<open>Join\<close> is a recursive function whose termination is proved for all
  arguments.
\<close>

subsection \<open>\<open>common.go\<close>\<close>

definition NShards :: nat where "NShards = 10"

type_synonym servers = "string list"

record Config =
  cfgNum :: int
  cfgShards :: "int list"
  cfgGroups :: "servers gomap"

definition DefaultConfig :: Config where
  "DefaultConfig = \<lparr>cfgNum = 0, cfgShards = replicate NShards 0, cfgGroups = []\<rparr>"

subsection \<open>Helpers\<close>

text \<open>\<open>make\<close> and \<open>copy\<close> of a slice yield its elements.\<close>

fun copyGroups_loop :: "int list \<Rightarrow> servers gomap \<Rightarrow> servers gomap \<Rightarrow> servers gomap" where
  "copyGroups_loop [] groups newGroup = newGroup"
| "copyGroups_loop (gid # gids) groups newGroup =
     copyGroups_loop gids groups (AList.update gid (slice_at groups gid) newGroup)"

definition copyGroups :: "order \<Rightarrow> servers gomap \<Rightarrow> servers gomap" where
  "copyGroups ord groups = copyGroups_loop (ord 0 (keys groups)) groups []"

fun maxLoop :: "int list \<Rightarrow> int list gomap \<Rightarrow> int \<Rightarrow> int \<Rightarrow> int" where
  "maxLoop [] m maxGid maxShards = maxGid"
| "maxLoop (gid # gids) m maxGid maxShards =
     (if go_len (slice_at m gid) > maxShards
      then maxLoop gids m gid (go_len (slice_at m gid))
      else maxLoop gids m maxGid maxShards)"

definition gidWithMaxShards :: "order \<Rightarrow> int list gomap \<Rightarrow> int" where
  "gidWithMaxShards ord m =
     (if map_of m 0 \<noteq> None \<and> go_len (slice_at m 0) > 0 then 0
      else maxLoop (sort (ord 1 (keys m))) m (-1) (-1))"

fun minLoop :: "int list \<Rightarrow> int list gomap \<Rightarrow> int \<Rightarrow> int \<Rightarrow> int" where
  "minLoop [] m minGid minShards = minGid"
| "minLoop (gid # gids) m minGid minShards =
     (if gid \<noteq> 0 \<and> go_len (slice_at m gid) < minShards
      then minLoop gids m gid (go_len (slice_at m gid))
      else minLoop gids m minGid minShards)"

definition gidWithMinShards :: "order \<Rightarrow> int list gomap \<Rightarrow> int" where
  "gidWithMinShards ord m = minLoop (sort (ord 2 (keys m))) m (-1) (int NShards + 1)"

text \<open>\<open>gidToShards[gid] = make([]int, 0)\<close> for every group, then every shard is appended to
  the slice of its group.\<close>

fun emptySlices :: "int list \<Rightarrow> int list gomap \<Rightarrow> int list gomap" where
  "emptySlices [] m = m"
| "emptySlices (gid # gids) m = emptySlices gids (AList.update gid [] m)"

fun collectShards :: "int list \<Rightarrow> int \<Rightarrow> int list gomap \<Rightarrow> int list gomap" where
  "collectShards [] shard m = m"
| "collectShards (gid # gs) shard m =
     collectShards gs (shard + 1) (AList.update gid (slice_at m gid @ [shard]) m)"

definition gidToShardsOf :: "order \<Rightarrow> servers gomap \<Rightarrow> int list \<Rightarrow> int list gomap" where
  "gidToShardsOf ord groups shards = collectShards shards 0 (emptySlices (ord 3 (keys groups)) [])"

text \<open>\<open>newShards[shard] = gid\<close> for every shard of every group.\<close>

fun writeShards :: "int \<Rightarrow> int list \<Rightarrow> int list \<Rightarrow> int list option" where
  "writeShards gid [] newShards = Some newShards"
| "writeShards gid (shard # shards) newShards = do {
     ns \<leftarrow> go_upd newShards shard gid;
     writeShards gid shards ns }"

fun storeShards :: "int list \<Rightarrow> int list gomap \<Rightarrow> int list \<Rightarrow> int list option" where
  "storeShards [] m newShards = Some newShards"
| "storeShards (gid # gids) m newShards = do {
     ns \<leftarrow> writeShards gid (slice_at m gid) newShards;
     storeShards gids m ns }"

subsection \<open>\<open>Join\<close>\<close>

fun addGroups :: "int list \<Rightarrow> servers gomap \<Rightarrow> servers gomap \<Rightarrow> servers gomap" where
  "addGroups [] groups newGroups = newGroups"
| "addGroups (gid # gids) groups newGroups =
     addGroups gids groups
       (if map_of newGroups gid = None then AList.update gid (slice_at groups gid) newGroups else newGroups)"

text \<open>The number of shards of no group, and the sum of the squares of the others' sizes.\<close>

definition squares :: "int list gomap \<Rightarrow> nat" where
  "squares m = (\<Sum>k \<in> set (keys m) - {0}. (length (slice_at m k))\<^sup>2)"

lemma squares_superset:
  assumes "set (keys m) - {0} \<subseteq> S" "finite S" "0 \<notin> S"
  shows "squares m = (\<Sum>k \<in> S. (length (slice_at m k))\<^sup>2)"
  unfolding squares_def
proof (rule sum.mono_neutral_left)
  show "\<forall>i \<in> S - (set (keys m) - {0}). (length (slice_at m i))\<^sup>2 = 0"
    using assms(3) slice_at_keys by fastforce
qed (use assms in auto)

lemma squares_move:
  assumes a: "a \<noteq> 0" "b \<noteq> 0" and xs: "slice_at m a = x # xs" and diff: "length xs > length (slice_at m b)"
  shows "squares (AList.update a xs (AList.update b (slice_at m b @ [x]) m)) < squares m"
proof -
  let ?m = "AList.update a xs (AList.update b (slice_at m b @ [x]) m)"
  let ?S = "insert a (insert b (set (keys m))) - {0}" and ?sq = "\<lambda>m k. (length (slice_at m k))\<^sup>2"
  have ab: "a \<noteq> b" using xs diff by auto
  have S: "?S = insert a (insert b (?S - {a, b}))" using a by auto
  have rest: "(\<Sum>k \<in> ?S - {a, b}. ?sq ?m k) = (\<Sum>k \<in> ?S - {a, b}. ?sq m k)"
    by (rule sum.cong) (auto simp: slice_at_update)
  have new: "squares ?m = ?sq ?m a + (?sq ?m b + (\<Sum>k \<in> ?S - {a, b}. ?sq ?m k))"
    unfolding squares_superset [of ?m ?S, simplified keys_update, simplified]
    using ab by (subst S) simp
  have old: "squares m = ?sq m a + (?sq m b + (\<Sum>k \<in> ?S - {a, b}. ?sq m k))"
    using ab by (subst squares_superset [of m ?S], blast, simp, simp, subst S) simp
  obtain d where "length xs = Suc (length (slice_at m b) + d)" using diff less_iff_Suc_add by auto
  then show ?thesis
    unfolding new old rest using ab by (simp add: slice_at_update xs power2_eq_square algebra_simps)
qed

lemma maxLoop_in: "maxLoop gids m g s = g \<or> maxLoop gids m g s \<in> set gids"
  by (induction gids arbitrary: g s) auto

lemma minLoop_nonzero: "g \<noteq> 0 \<Longrightarrow> minLoop gids m g s \<noteq> 0"
  by (induction gids arbitrary: g s) auto

lemma gidWithMinShards_nonzero: "gidWithMinShards ord m \<noteq> 0"
  unfolding gidWithMinShards_def by (rule minLoop_nonzero) simp

function rebalance :: "order \<Rightarrow> int list gomap \<Rightarrow> int list gomap option" where
  "rebalance ord m =
     (let maxGid = gidWithMaxShards ord m; minGid = gidWithMinShards ord m in
      if maxGid \<noteq> 0 \<and> go_len (slice_at m maxGid) - go_len (slice_at m minGid) \<le> 1 then Some m
      else case slice_at m maxGid of
        [] \<Rightarrow> None
      | shard # rest \<Rightarrow>
          rebalance ord (AList.update maxGid rest (AList.update minGid (slice_at m minGid @ [shard]) m)))"
  by pat_completeness auto
termination
proof (relation "measures [\<lambda>(ord, m). length (slice_at m 0), \<lambda>(ord, m). squares m]", goal_cases)
  case (2 ord m a b shard rest)
  have "gidWithMinShards ord m \<noteq> 0" by (rule gidWithMinShards_nonzero)
  then show ?case
    using 2 squares_move [of a b m shard rest] by (cases "a = 0") (auto simp: slice_at_update go_len_def)
qed simp

declare rebalance.simps [simp del]

definition sm_Join :: "order \<Rightarrow> servers gomap \<Rightarrow> Config list \<Rightarrow> (Err \<times> Config list) option" where
  "sm_Join ord groups csm = do {
     let num = go_len csm;
     lastConfig \<leftarrow> go_at csm (num - 1);
     let newGroups = addGroups (ord 4 (keys groups)) groups (copyGroups ord (cfgGroups lastConfig));
     m \<leftarrow> rebalance ord (gidToShardsOf ord newGroups (cfgShards lastConfig));
     newShards \<leftarrow> storeShards (ord 5 (keys m)) m (replicate NShards 0);
     Some (OK, csm @ [\<lparr>cfgNum = num, cfgShards = newShards, cfgGroups = newGroups\<rparr>]) }"

subsection \<open>\<open>Leave\<close>, \<open>Move\<close> and \<open>Query\<close>\<close>

fun removeGroups ::
  "int list \<Rightarrow> servers gomap \<Rightarrow> int list gomap \<Rightarrow> int list \<Rightarrow> servers gomap \<times> int list gomap \<times> int list" where
  "removeGroups [] groups m unassigned = (groups, m, unassigned)"
| "removeGroups (gid # gids) groups m unassigned =
     (let groups1 = (if map_of groups gid \<noteq> None then AList.delete gid groups else groups) in
      case map_of m gid of
        Some shards \<Rightarrow> removeGroups gids groups1 (AList.delete gid m) (unassigned @ shards)
      | None \<Rightarrow> removeGroups gids groups1 m unassigned)"

fun assignShards :: "order \<Rightarrow> int list \<Rightarrow> int list gomap \<Rightarrow> int list gomap" where
  "assignShards ord [] m = m"
| "assignShards ord (shard # shards) m =
     (let minGid = gidWithMinShards ord m in
      assignShards ord shards (AList.update minGid (slice_at m minGid @ [shard]) m))"

definition sm_Leave :: "order \<Rightarrow> int list \<Rightarrow> Config list \<Rightarrow> (Err \<times> Config list) option" where
  "sm_Leave ord gids csm = do {
     let num = go_len csm;
     lastConfig \<leftarrow> go_at csm (num - 1);
     let (newGroups, m, unassigned) =
           removeGroups gids (copyGroups ord (cfgGroups lastConfig))
             (gidToShardsOf ord (copyGroups ord (cfgGroups lastConfig)) (cfgShards lastConfig)) [];
     newShards \<leftarrow> (if newGroups \<noteq> [] then
                     (let m1 = assignShards ord unassigned m
                      in storeShards (ord 6 (keys m1)) m1 (replicate NShards 0))
                   else Some (replicate NShards 0));
     Some (OK, csm @ [\<lparr>cfgNum = num, cfgShards = newShards, cfgGroups = newGroups\<rparr>]) }"

definition sm_Move :: "order \<Rightarrow> int \<Rightarrow> int \<Rightarrow> Config list \<Rightarrow> (Err \<times> Config list) option" where
  "sm_Move ord shardid gid csm = do {
     let num = go_len csm;
     lastConfig \<leftarrow> go_at csm (num - 1);
     newShards \<leftarrow> go_upd (cfgShards lastConfig) shardid gid;
     Some (OK, csm @ [\<lparr>cfgNum = num, cfgShards = newShards, cfgGroups = copyGroups ord (cfgGroups lastConfig)\<rparr>]) }"

definition sm_Query :: "int \<Rightarrow> Config list \<Rightarrow> (Config \<times> Err) option" where
  "sm_Query num csm = do {
     c \<leftarrow> (if num < 0 \<or> num \<ge> go_len csm then go_at csm (go_len csm - 1) else go_at csm num);
     Some (c, OK) }"

definition NewCtrlerStateMachine :: "Config list" where
  "NewCtrlerStateMachine = [DefaultConfig]"

subsection \<open>The loops over groups\<close>

lemma map_of_copyGroups_loop:
  "map_of (copyGroups_loop gids groups acc) k
     = (if k \<in> set gids then Some (slice_at groups k) else map_of acc k)"
  by (induction gids arbitrary: acc) (auto simp: map_of_update)

lemma wf_copyGroups_loop: "wf_map acc \<Longrightarrow> wf_map (copyGroups_loop gids groups acc)"
  by (induction gids arbitrary: acc) auto

lemma map_of_copyGroups [simp]: "valid_order ord \<Longrightarrow> map_of (copyGroups ord groups) = map_of groups"
  by (auto simp: fun_eq_iff copyGroups_def map_of_copyGroups_loop valid_orderD keys_iff slice_at_def
      split: option.splits)

lemma wf_copyGroups [simp]: "wf_map (copyGroups ord groups)"
  unfolding copyGroups_def by (rule wf_copyGroups_loop) (simp add: wf_map_def keys_def)

lemma map_of_addGroups:
  "map_of (addGroups gids groups new) k = (case map_of new k of
     Some v \<Rightarrow> Some v
   | None \<Rightarrow> if k \<in> set gids then Some (slice_at groups k) else None)"
  by (induction gids arbitrary: new) (auto simp: map_of_update split: option.splits)

lemma wf_addGroups: "wf_map new \<Longrightarrow> wf_map (addGroups gids groups new)"
  by (induction gids arbitrary: new) auto

lemma map_of_joined:
  assumes "valid_order ord"
  shows "map_of (addGroups (ord k (keys groups)) groups (copyGroups ord old)) = map_of groups ++ map_of old"
  using assms
  by (auto simp: fun_eq_iff map_of_addGroups valid_orderD keys_iff slice_at_def map_add_def
      split: option.splits)

lemma emptySlices_map_of: "map_of (emptySlices gids m) k = (if k \<in> set gids then Some [] else map_of m k)"
  by (induction gids arbitrary: m) (auto simp: map_of_update)

lemma wf_emptySlices: "wf_map m \<Longrightarrow> wf_map (emptySlices gids m)"
  by (induction gids arbitrary: m) auto

subsection \<open>Partitions of the shards\<close>

text \<open>Every shard is in the slice of exactly one group, or waits in \<open>U\<close>.\<close>

definition part :: "int list gomap \<Rightarrow> int list \<Rightarrow> bool" where
  "part m U \<longleftrightarrow> wf_map m \<and> distinct U \<and> (\<forall>g. distinct (slice_at m g))
     \<and> (\<forall>s. (s \<in> set U \<or> (\<exists>g. s \<in> set (slice_at m g))) \<longleftrightarrow> 0 \<le> s \<and> s < int NShards)
     \<and> (\<forall>s g. s \<in> set (slice_at m g) \<longrightarrow> s \<notin> set U)
     \<and> (\<forall>s g h. s \<in> set (slice_at m g) \<and> s \<in> set (slice_at m h) \<longrightarrow> g = h)"

lemma partD:
  assumes "part m U"
  shows "wf_map m" "distinct U" "distinct (slice_at m g)"
    "s \<in> set (slice_at m g) \<Longrightarrow> 0 \<le> s \<and> s < int NShards"
    "s \<in> set U \<or> (\<exists>g. s \<in> set (slice_at m g)) \<longleftrightarrow> 0 \<le> s \<and> s < int NShards"
    "s \<in> set (slice_at m g) \<Longrightarrow> s \<notin> set U"
    "s \<in> set (slice_at m g) \<Longrightarrow> s \<in> set (slice_at m h) \<Longrightarrow> g = h"
  using assms unfolding part_def by blast+

text \<open>The positions of \<open>g\<close> in a list, numbered from \<open>s\<close>.\<close>

fun positions :: "int \<Rightarrow> int \<Rightarrow> int list \<Rightarrow> int list" where
  "positions g s [] = []"
| "positions g s (x # xs) = (if x = g then s # positions g (s + 1) xs else positions g (s + 1) xs)"

lemma positions_ge: "i \<in> set (positions g s xs) \<Longrightarrow> s \<le> i"
  by (induction xs arbitrary: s) (force split: if_splits)+

lemma distinct_positions: "distinct (positions g s xs)"
  by (induction xs arbitrary: s) (auto dest: positions_ge)

lemma set_positions:
  "i \<in> set (positions g s xs) \<longleftrightarrow> s \<le> i \<and> i < s + int (length xs) \<and> xs ! nat (i - s) = g"
proof (induction xs arbitrary: s)
  case (Cons x xs)
  show ?case
  proof (cases "i = s")
    case True
    then show ?thesis by (auto dest: positions_ge)
  next
    case False
    then have "nat (i - s) = Suc (nat (i - (s + 1)))" if "s \<le> i" using that by simp
    with False show ?thesis by (auto simp: Cons.IH)
  qed
qed simp

lemma length_positions: "length (positions g s xs) = length (filter (\<lambda>x. x = g) xs)"
  by (induction xs arbitrary: s) auto

lemma slice_at_collectShards:
  "slice_at (collectShards gs s m) g = slice_at m g @ positions g s gs"
  by (induction gs arbitrary: s m) (auto simp: slice_at_update)

lemma keys_collectShards: "set (keys (collectShards gs s m)) = set (keys m) \<union> set gs"
  by (induction gs arbitrary: s m) (auto simp: keys_update)

lemma wf_collectShards: "wf_map m \<Longrightarrow> wf_map (collectShards gs s m)"
  by (induction gs arbitrary: s m) auto

lemma gidToShardsOf_view:
  assumes "valid_order ord"
  shows "slice_at (gidToShardsOf ord groups shards) g = positions g 0 shards"
    "set (keys (gidToShardsOf ord groups shards)) = set (keys groups) \<union> set shards"
    "wf_map (gidToShardsOf ord groups shards)"
proof -
  let ?e = "emptySlices (ord 3 (keys groups)) []"
  have "slice_at ?e k = []" for k by (simp add: slice_at_def emptySlices_map_of)
  then show "slice_at (gidToShardsOf ord groups shards) g = positions g 0 shards"
    by (simp add: gidToShardsOf_def slice_at_collectShards)
  show "set (keys (gidToShardsOf ord groups shards)) = set (keys groups) \<union> set shards"
    using valid_orderD(1) [OF assms]
    by (auto simp: gidToShardsOf_def keys_collectShards keys_iff [of _ ?e] emptySlices_map_of split: if_splits)
  show "wf_map (gidToShardsOf ord groups shards)"
    unfolding gidToShardsOf_def by (intro wf_collectShards wf_emptySlices) (simp add: wf_map_def keys_def)
qed

lemma part_gidToShardsOf:
  assumes "valid_order ord" and "length shards = NShards"
  shows "part (gidToShardsOf ord groups shards) []"
  unfolding part_def gidToShardsOf_view [OF assms(1)]
  using assms(2) gidToShardsOf_view(3) [OF assms(1)] by (auto simp: distinct_positions set_positions)

lemma part_move:
  assumes p: "part m U" and a: "slice_at m a = x # xs" and ab: "a \<noteq> b"
  shows "part (AList.update a xs (AList.update b (slice_at m b @ [x]) m)) U"
proof -
  let ?m = "AList.update a xs (AList.update b (slice_at m b @ [x]) m)"
  note D = partD [OF p]
  have xs: "distinct xs" "x \<notin> set xs" using D(3) [of a] by (simp_all add: a)
  have set_a: "set (slice_at m a) = insert x (set xs)" by (simp add: a)
  have other: "x \<notin> set (slice_at m g)" if "g \<noteq> a" for g
    using D(7) [of x a g] that set_a by blast
  have sl: "slice_at ?m g = (if g = a then xs else if g = b then slice_at m b @ [x] else slice_at m g)" for g
    using ab by (simp add: slice_at_update)
  have mem: "s \<in> set (slice_at ?m g) \<longleftrightarrow> (if s = x then g = b else s \<in> set (slice_at m g))" for s g
    unfolding sl using ab xs(2) other [of g] set_a by (cases "g = a"; cases "g = b") simp_all
  have "distinct (slice_at ?m g)" for g
    unfolding sl using D(3) other [of b] ab xs by simp
  moreover have "(\<exists>g. s \<in> set (slice_at ?m g)) \<longleftrightarrow> (\<exists>g. s \<in> set (slice_at m g))" for s
    unfolding mem using set_a by (cases "s = x") auto
  moreover have "s \<notin> set U" if "s \<in> set (slice_at ?m g)" for s g
    using that D(6) [of s g] D(6) [of x a] set_a by (auto simp: mem split: if_splits)
  moreover have "g = h" if "s \<in> set (slice_at ?m g)" "s \<in> set (slice_at ?m h)" for s g h
    using that D(7) by (auto simp: mem split: if_splits)
  ultimately show ?thesis using D(1,2,5) unfolding part_def by auto
qed

lemma part_assign:
  assumes p: "part m (x # U)"
  shows "part (AList.update b (slice_at m b @ [x]) m) U"
proof -
  let ?m = "AList.update b (slice_at m b @ [x]) m"
  note D = partD [OF p]
  have new: "x \<notin> set (slice_at m g)" for g using D(6) [of x g] by auto
  have mem: "s \<in> set (slice_at ?m g) \<longleftrightarrow> s \<in> set (slice_at m g) \<or> (s = x \<and> g = b)" for s g
    by (auto simp: slice_at_update)
  have "distinct (slice_at ?m g)" for g
    using D(3) new [of b] by (simp add: slice_at_update)
  moreover have "s \<in> set U \<or> (\<exists>g. s \<in> set (slice_at ?m g)) \<longleftrightarrow> 0 \<le> s \<and> s < int NShards" for s
    unfolding mem using D(5) [of s] by auto
  moreover have "s \<notin> set U" if "s \<in> set (slice_at ?m g)" for s g
    using that D(6) [of s g] D(2) by (auto simp: mem)
  moreover have "g = h" if "s \<in> set (slice_at ?m g)" "s \<in> set (slice_at ?m h)" for s g h
    using that D(7) new by (auto simp: mem)
  ultimately show ?thesis using D(1,2) unfolding part_def by auto
qed

lemma part_remove:
  assumes p: "part m U"
  shows "part (AList.delete g m) (U @ slice_at m g)"
proof -
  note D = partD [OF p]
  have mem: "s \<in> set (slice_at (AList.delete g m) h) \<longleftrightarrow> h \<noteq> g \<and> s \<in> set (slice_at m h)" for s h
    by (simp add: slice_at_delete)
  have "s \<in> set (U @ slice_at m g) \<or> (\<exists>h. s \<in> set (slice_at (AList.delete g m) h)) \<longleftrightarrow> 0 \<le> s \<and> s < int NShards" for s
    unfolding mem using D(5) [of s] by auto
  moreover have "s \<notin> set (U @ slice_at m g)" if "s \<in> set (slice_at (AList.delete g m) h)" for s h
    using that D(6) [of s h] D(7) [of s h g] by (auto simp: mem)
  moreover have "distinct (U @ slice_at m g)" using D(2,3) D(6) [of _ g] by auto
  moreover have "h = h'" if "s \<in> set (slice_at (AList.delete g m) h)" "s \<in> set (slice_at (AList.delete g m) h')" for s h h'
    using that D(7) by (auto simp: mem)
  moreover have "distinct (slice_at (AList.delete g m) h)" for h using D(3) by (simp add: slice_at_delete)
  ultimately show ?thesis using D(1) unfolding part_def by auto
qed

subsection \<open>Writing the array back\<close>

lemma writeShards_eq:
  assumes "\<forall>s \<in> set shards. 0 \<le> s \<and> s < int (length ns)"
  shows "\<exists>ns'. writeShards g shards ns = Some ns' \<and> length ns' = length ns
     \<and> (\<forall>i < length ns. ns' ! i = (if int i \<in> set shards then g else ns ! i))"
  using assms
proof (induction shards arbitrary: ns)
  case (Cons s shards)
  then have "go_upd ns s g = Some (ns[nat s := g])" by (auto simp: go_upd_def)
  moreover obtain ns' where "writeShards g shards (ns[nat s := g]) = Some ns'" "length ns' = length ns"
    "\<forall>i < length ns. ns' ! i = (if int i \<in> set shards then g else ns[nat s := g] ! i)"
    using Cons.IH [of "ns[nat s := g]"] Cons.prems by auto
  ultimately show ?case using Cons.prems by (auto simp: nth_list_update)
qed simp

lemma storeShards_eq:
  assumes p: "part m []" and "length ns = NShards"
  shows "\<exists>ns'. storeShards ks m ns = Some ns' \<and> length ns' = NShards
     \<and> (\<forall>i < NShards. \<forall>g. g \<in> set ks \<and> int i \<in> set (slice_at m g) \<longrightarrow> ns' ! i = g)
     \<and> (\<forall>i < NShards. (\<forall>g \<in> set ks. int i \<notin> set (slice_at m g)) \<longrightarrow> ns' ! i = ns ! i)"
  using assms(2)
proof (induction ks arbitrary: ns)
  case (Cons k ks)
  note D = partD [OF p]
  from writeShards_eq [of "slice_at m k" ns k] obtain ns1 where 1: "writeShards k (slice_at m k) ns = Some ns1"
    "length ns1 = NShards" "\<forall>i < NShards. ns1 ! i = (if int i \<in> set (slice_at m k) then k else ns ! i)"
    using D(4) [of _ k] Cons.prems by auto
  from Cons.IH [OF 1(2)] obtain ns2 where 2: "storeShards ks m ns1 = Some ns2" "length ns2 = NShards"
    "\<forall>i < NShards. \<forall>g. g \<in> set ks \<and> int i \<in> set (slice_at m g) \<longrightarrow> ns2 ! i = g"
    "\<forall>i < NShards. (\<forall>g \<in> set ks. int i \<notin> set (slice_at m g)) \<longrightarrow> ns2 ! i = ns1 ! i" by blast
  have "ns2 ! i = k" if "i < NShards" "int i \<in> set (slice_at m k)" for i
  proof (cases "\<exists>g \<in> set ks. int i \<in> set (slice_at m g)")
    case True
    then show ?thesis using 2(3) that D(7) by blast
  qed (use 1(3) 2(4) that in auto)
  with 1 2 show ?case by (intro exI [of _ ns2]) auto
qed simp

lemma storeShards_part:
  assumes p: "part m []" and ks: "set ks = set (keys m)"
  obtains ns where "storeShards ks m (replicate NShards 0) = Some ns" "length ns = NShards"
    "\<And>i g. i < NShards \<Longrightarrow> ns ! i = g \<longleftrightarrow> int i \<in> set (slice_at m g)"
proof -
  note D = partD [OF p]
  obtain ns where ns: "storeShards ks m (replicate NShards 0) = Some ns" "length ns = NShards"
    "\<forall>i < NShards. \<forall>g. g \<in> set ks \<and> int i \<in> set (slice_at m g) \<longrightarrow> ns ! i = g"
    using storeShards_eq [OF p, of "replicate NShards 0" ks] by auto
  have "ns ! i = g \<longleftrightarrow> int i \<in> set (slice_at m g)" if i: "i < NShards" for i g
  proof -
    obtain h where h: "int i \<in> set (slice_at m h)" using D(5) [of "int i"] i by auto
    then have "h \<in> set ks" using ks slice_at_keys [of m h] by (metis empty_iff empty_set)
    with ns(3) i h have "ns ! i = h" by blast
    with h D(7) show ?thesis by blast
  qed
  with ns that show ?thesis by blast
qed

text \<open>The number of shards of a group in an array.\<close>

definition shard_count :: "int list \<Rightarrow> int \<Rightarrow> nat" where
  "shard_count shards g = length (filter (\<lambda>x. x = g) shards)"

lemma shard_count_slice:
  assumes p: "part m []" and len: "length ns = NShards"
    and ns: "\<And>i g. i < NShards \<Longrightarrow> ns ! i = g \<longleftrightarrow> int i \<in> set (slice_at m g)"
  shows "shard_count ns g = length (slice_at m g)"
proof -
  note D = partD [OF p]
  have "shard_count ns g = card {i. i < length ns \<and> ns ! i = g}"
    by (simp add: shard_count_def length_filter_conv_card)
  also have "{i. i < length ns \<and> ns ! i = g} = nat ` set (slice_at m g)"
    using len ns D(4) [of _ g] by (force simp: image_iff)
  also have "card (nat ` set (slice_at m g)) = card (set (slice_at m g))"
    using D(4) [of _ g] by (intro card_image inj_onI) (metis nat_eq_iff2)
  finally show ?thesis using D(3) distinct_card by metis
qed

subsection \<open>Balancing\<close>

lemma part_length: "part m U \<Longrightarrow> length (slice_at m g) \<le> NShards"
proof -
  assume p: "part m U"
  have "set (slice_at m g) \<subseteq> {0..<int NShards}" using partD(4) [OF p] by auto
  then have "card (set (slice_at m g)) \<le> NShards"
    using card_mono [of "{0..<int NShards}"] by fastforce
  then show ?thesis using partD(3) [OF p] distinct_card by metis
qed

lemma maxLoop_max:
  "s \<le> go_len (slice_at m g) \<Longrightarrow>
     s \<le> go_len (slice_at m (maxLoop gids m g s))
     \<and> (\<forall>k \<in> set gids. go_len (slice_at m k) \<le> go_len (slice_at m (maxLoop gids m g s)))"
proof (induction gids arbitrary: g s)
  case (Cons k gids)
  show ?case
    using Cons.IH [of "go_len (slice_at m k)" k] Cons.IH [OF Cons.prems] by (auto simp: not_less)
qed simp

lemma minLoop_min:
  "go_len (slice_at m g) \<le> s \<Longrightarrow>
     go_len (slice_at m (minLoop gids m g s)) \<le> s
     \<and> (\<forall>k \<in> set gids - {0}. go_len (slice_at m (minLoop gids m g s)) \<le> go_len (slice_at m k))"
proof (induction gids arbitrary: g s)
  case (Cons k gids)
  show ?case
    using Cons.IH [of k "go_len (slice_at m k)"] Cons.IH [OF Cons.prems] by (auto simp: not_less)
qed simp

lemma minLoop_result: "minLoop gids m g s = g \<or> minLoop gids m g s \<in> set gids"
  by (induction gids arbitrary: g s) auto

lemma minLoop_in:
  "\<exists>k \<in> set gids - {0}. go_len (slice_at m k) < s \<Longrightarrow> minLoop gids m g s \<in> set gids - {0}"
proof (induction gids arbitrary: g s)
  case (Cons k gids)
  show ?case
  proof (cases "k \<noteq> 0 \<and> go_len (slice_at m k) < s")
    case True
    then show ?thesis
      using minLoop_result [of gids m k "go_len (slice_at m k)"]
        minLoop_nonzero [of k gids m "go_len (slice_at m k)"] by auto
  next
    case False
    with Cons have "minLoop gids m g s \<in> set gids - {0}" by (intro Cons.IH) auto
    with False show ?thesis by auto
  qed
qed simp

lemma gidWithMaxShards_max:
  assumes "valid_order ord" and "k \<in> set (keys m)" and "gidWithMaxShards ord m \<noteq> 0 \<or> slice_at m 0 = []"
  shows "length (slice_at m k) \<le> length (slice_at m (gidWithMaxShards ord m))"
proof (cases "map_of m 0 \<noteq> None \<and> go_len (slice_at m 0) > 0")
  case False
  then have "gidWithMaxShards ord m = maxLoop (sort (ord 1 (keys m))) m (-1) (-1)"
    unfolding gidWithMaxShards_def by (rule if_not_P)
  moreover have "-1 \<le> go_len (slice_at m (-1))" by (simp add: go_len_def)
  ultimately show ?thesis
    using maxLoop_max [of "-1" m "-1" "sort (ord 1 (keys m))"] assms(2) valid_orderD(1) [OF assms(1)]
    by (auto simp: go_len_def)
qed (use assms(3) in \<open>auto simp: gidWithMaxShards_def\<close>)

lemma gidWithMinShards_min:
  assumes "valid_order ord" and "part m U" and "k \<in> set (keys m)" "k \<noteq> 0"
  shows "length (slice_at m (gidWithMinShards ord m)) \<le> length (slice_at m k)"
    "gidWithMinShards ord m \<in> set (keys m) - {0}"
proof -
  have le: "go_len (slice_at m g) < int NShards + 1" for g
    using part_length [OF assms(2), of g] by (simp add: go_len_def)
  have set: "set (sort (ord 2 (keys m))) = set (keys m)" using valid_orderD(1) [OF assms(1)] by simp
  show "length (slice_at m (gidWithMinShards ord m)) \<le> length (slice_at m k)"
    using minLoop_min [of m "-1" "int NShards + 1" "sort (ord 2 (keys m))"] le [of "-1"] assms(3,4)
    unfolding gidWithMinShards_def set by (auto simp: go_len_def)
  show "gidWithMinShards ord m \<in> set (keys m) - {0}"
    using minLoop_in [of "sort (ord 2 (keys m))" m "int NShards + 1" "-1"] le assms(3,4)
    unfolding gidWithMinShards_def set by blast
qed

definition balanced_map :: "int list gomap \<Rightarrow> bool" where
  "balanced_map m \<longleftrightarrow> (\<forall>a \<in> set (keys m) - {0}. \<forall>b \<in> set (keys m) - {0}.
     length (slice_at m a) \<le> length (slice_at m b) + 1)"

lemma rebalance_correct:
  assumes "valid_order ord" and "part m []" and "set (keys m) - {0} \<noteq> {}"
  shows "\<exists>m'. rebalance ord m = Some m' \<and> part m' [] \<and> set (keys m') = set (keys m)
     \<and> slice_at m' 0 = [] \<and> balanced_map m'"
  using assms
proof (induction ord m rule: rebalance.induct)
  case (1 ord m)
  let ?a = "gidWithMaxShards ord m" and ?b = "gidWithMinShards ord m"
  note P = partD [OF "1.prems"(2)]
  obtain k where k: "k \<in> set (keys m)" "k \<noteq> 0" using "1.prems"(3) by blast
  note b = gidWithMinShards_min [OF "1.prems"(1,2)]
  have bkey: "?b \<in> set (keys m)" "?b \<noteq> 0" using b(2) [OF k] by auto
  show ?case
  proof (cases "?a \<noteq> 0 \<and> go_len (slice_at m ?a) - go_len (slice_at m ?b) \<le> 1")
    case True
    then have "rebalance ord m = Some m" by (simp add: rebalance.simps [of ord m] Let_def)
    moreover have "slice_at m 0 = []"
      using True by (auto simp: gidWithMaxShards_def go_len_def slice_at_def split: if_splits option.splits)
    moreover have "balanced_map m"
      unfolding balanced_map_def
    proof (intro ballI)
      fix x y assume x: "x \<in> set (keys m) - {0}" and y: "y \<in> set (keys m) - {0}"
      have "length (slice_at m x) \<le> length (slice_at m ?a)"
        using x True by (intro gidWithMaxShards_max [OF "1.prems"(1)]) auto
      moreover have "length (slice_at m ?b) \<le> length (slice_at m y)" using b(1) y by auto
      ultimately show "length (slice_at m x) \<le> length (slice_at m y) + 1"
        using True by (simp add: go_len_def)
    qed
    ultimately show ?thesis using "1.prems"(2) by blast
  next
    case False
    have "slice_at m ?a \<noteq> []"
    proof
      assume e: "slice_at m ?a = []"
      obtain g where "0 \<in> set (slice_at m g)" using P(5) [of 0] by (auto simp: NShards_def)
      moreover then have "g \<in> set (keys m)" using slice_at_keys [of m g] by (metis empty_iff empty_set)
      ultimately have "length (slice_at m ?a) > 0"
        using gidWithMaxShards_max [OF "1.prems"(1), of g m] e
        by (metis (no_types, opaque_lifting) length_greater_0_conv length_pos_if_in_set less_le_trans)
      with e show False by simp
    qed
    then obtain x xs where a: "slice_at m ?a = x # xs" by (cases "slice_at m ?a") auto
    have ab: "?a \<noteq> ?b" using False bkey by auto
    have akey: "?a \<in> set (keys m)" using slice_at_keys [of m ?a] a by simp
    let ?m = "AList.update ?a xs (AList.update ?b (slice_at m ?b @ [x]) m)"
    have keys: "set (keys ?m) = set (keys m)" using akey bkey by (auto simp: keys_update)
    have "rebalance ord m = rebalance ord ?m"
      using False a by (subst rebalance.simps) (auto simp: Let_def)
    moreover have "\<exists>m'. rebalance ord ?m = Some m' \<and> part m' [] \<and> set (keys m') = set (keys ?m)
        \<and> slice_at m' 0 = [] \<and> balanced_map m'"
      using "1.IH" [OF HOL.refl HOL.refl False a "1.prems"(1) part_move [OF "1.prems"(2) a ab]]
        "1.prems"(3) keys by simp
    ultimately show ?thesis by (simp add: keys)
  qed
qed

subsection \<open>Configurations\<close>

text \<open>A configuration the service means to be in: while there are groups every shard belongs to one of
  them, otherwise to the invalid group 0.\<close>

definition cfg_ok :: "Config \<Rightarrow> bool" where
  "cfg_ok c \<longleftrightarrow> length (cfgShards c) = NShards \<and> wf_map (cfgGroups c) \<and> 0 \<notin> set (keys (cfgGroups c))
     \<and> (if cfgGroups c = [] then set (cfgShards c) \<subseteq> {0}
        else set (cfgShards c) \<subseteq> set (keys (cfgGroups c)))"

definition balanced :: "Config \<Rightarrow> bool" where
  "balanced c \<longleftrightarrow> (\<forall>a \<in> set (keys (cfgGroups c)). \<forall>b \<in> set (keys (cfgGroups c)).
     shard_count (cfgShards c) a \<le> shard_count (cfgShards c) b + 1)"

lemma cfg_ok_DefaultConfig: "cfg_ok DefaultConfig" "balanced DefaultConfig"
  by (auto simp: cfg_ok_def balanced_def DefaultConfig_def wf_map_def keys_def)

lemma keys_eq_map_of: "map_of m = map_of m' \<Longrightarrow> set (keys m) = set (keys m')"
  by (simp add: keys_dom)

lemma keys_empty: "set (keys m) = {} \<longleftrightarrow> m = []"
  by (simp add: keys_def)

lemma set_conv_nth_NShards: "length xs = NShards \<Longrightarrow> set xs = {xs ! i |i. i < NShards}"
  by (auto simp: set_conv_nth)

text \<open>From a final map of slices to the new array.\<close>

lemma store_result:
  assumes p: "part m []" and ks: "set ks = set (keys m)" and zero: "slice_at m 0 = []"
  obtains ns where "storeShards ks m (replicate NShards 0) = Some ns" "length ns = NShards"
    "set ns \<subseteq> set (keys m) - {0}" "\<And>g. shard_count ns g = length (slice_at m g)"
proof -
  obtain ns where ns: "storeShards ks m (replicate NShards 0) = Some ns" "length ns = NShards"
    "\<And>i g. i < NShards \<Longrightarrow> ns ! i = g \<longleftrightarrow> int i \<in> set (slice_at m g)"
    using storeShards_part [OF p ks] by blast
  have "ns ! i \<in> set (keys m) - {0}" if "i < NShards" for i
  proof -
    have "int i \<in> set (slice_at m (ns ! i))" using ns(3) that by blast
    then have ne: "slice_at m (ns ! i) \<noteq> []" by auto
    then show ?thesis using slice_at_keys [OF ne] zero by auto
  qed
  then have "set ns \<subseteq> set (keys m) - {0}" using set_conv_nth_NShards [OF ns(2)] by auto
  with ns that shard_count_slice [OF p ns(2,3)] show ?thesis by blast
qed

lemma last_config: "csm \<noteq> [] \<Longrightarrow> go_at csm (go_len csm - 1) = Some (last csm)"
  by (auto simp: go_at_def go_len_def last_conv_nth nat_diff_distrib Suc_le_eq)

lemma sm_Join_correct:
  assumes ord: "valid_order ord" and csm: "csm \<noteq> []" and ok: "cfg_ok (last csm)"
    and groups: "0 \<notin> set (keys groups)"
    and some: "set (keys groups) \<union> set (keys (cfgGroups (last csm))) \<noteq> {}"
  shows "\<exists>c. sm_Join ord groups csm = Some (OK, csm @ [c]) \<and> cfg_ok c \<and> balanced c
     \<and> cfgNum c = go_len csm \<and> map_of (cfgGroups c) = map_of groups ++ map_of (cfgGroups (last csm))"
proof -
  let ?c = "last csm" let ?g = "addGroups (ord 4 (keys groups)) groups (copyGroups ord (cfgGroups ?c))"
  let ?m = "gidToShardsOf ord ?g (cfgShards ?c)"
  have g: "map_of ?g = map_of groups ++ map_of (cfgGroups ?c)" "wf_map ?g"
    using map_of_joined [OF ord] by (auto intro: wf_addGroups)
  have gk: "set (keys ?g) = set (keys groups) \<union> set (keys (cfgGroups ?c))"
    by (auto simp: keys_dom g(1))
  then have g0: "0 \<notin> set (keys ?g)" using groups ok by (auto simp: cfg_ok_def)
  have sh: "set (cfgShards ?c) \<subseteq> insert 0 (set (keys ?g))"
    using ok gk by (auto simp: cfg_ok_def split: if_splits)
  have mk: "set (keys ?m) - {0} = set (keys ?g)"
    using gidToShardsOf_view(2) [OF ord] sh g0 by auto
  have "part ?m []" using part_gidToShardsOf [OF ord] ok by (simp add: cfg_ok_def)
  then obtain m where m: "rebalance ord ?m = Some m" "part m []" "set (keys m) = set (keys ?m)"
    "slice_at m 0 = []" "balanced_map m"
    using rebalance_correct [OF ord, of ?m] mk gk some by auto
  obtain ns where ns: "storeShards (ord 5 (keys m)) m (replicate NShards 0) = Some ns" "length ns = NShards"
    "set ns \<subseteq> set (keys m) - {0}" "\<And>g. shard_count ns g = length (slice_at m g)"
    using store_result [OF m(2) valid_orderD(1) [OF ord] m(4)] by blast
  let ?d = "\<lparr>cfgNum = go_len csm, cfgShards = ns, cfgGroups = ?g\<rparr>"
  have "sm_Join ord groups csm = Some (OK, csm @ [?d])"
    using last_config [OF csm] m(1) ns(1) by (simp add: sm_Join_def Let_def)
  moreover have "cfg_ok ?d"
    using ns(2,3) g(2) g0 mk m(3) gk some by (auto simp: cfg_ok_def keys_empty [symmetric] simp del: keys_empty)
  moreover have "balanced ?d"
    using m(3,5) mk ns(4) by (auto simp: balanced_def balanced_map_def)
  ultimately show ?thesis using g(1) by auto
qed

lemma removeGroups_correct:
  assumes "part m U" and "wf_map groups" and "removeGroups gids groups m U = (groups', m', U')"
  shows "part m' U' \<and> wf_map groups'
    \<and> map_of groups' = (\<lambda>k. if k \<in> set gids then None else map_of groups k)
    \<and> map_of m' = (\<lambda>k. if k \<in> set gids then None else map_of m k)"
  using assms
proof (induction gids arbitrary: groups m U)
  case (Cons gid gids)
  define groups1 where "groups1 = (if map_of groups gid \<noteq> None then AList.delete gid groups else groups)"
  have g1: "map_of groups1 = (map_of groups)(gid := None)" "wf_map groups1"
    using Cons.prems(2) by (auto simp: groups1_def map_of_delete fun_eq_iff)
  have step: "(case map_of m gid of
        Some shards \<Rightarrow> removeGroups gids groups1 (AList.delete gid m) (U @ shards)
      | None \<Rightarrow> removeGroups gids groups1 m U) = (groups', m', U')"
    using Cons.prems(3) unfolding groups1_def removeGroups.simps(2) Let_def .
  obtain m1 U1 where r: "removeGroups gids groups1 m1 U1 = (groups', m', U')" and p1: "part m1 U1"
    and m1: "map_of m1 = (map_of m)(gid := None)"
  proof (cases "map_of m gid")
    case None
    with step Cons.prems(1) that [of m U] show ?thesis by (simp add: fun_upd_idem)
  next
    case (Some shards)
    with step that [of "AList.delete gid m" "U @ shards"] part_remove [OF Cons.prems(1), of gid]
    show ?thesis by (simp add: map_of_delete slice_at_def)
  qed
  from Cons.IH [OF p1 g1(2) r] g1(1) m1 show ?case by (auto simp: fun_eq_iff)
qed auto

lemma assignShards_correct:
  assumes "valid_order ord" and "part m U" and "set (keys m) \<noteq> {}" "0 \<notin> set (keys m)"
  shows "part (assignShards ord U m) [] \<and> set (keys (assignShards ord U m)) = set (keys m)
     \<and> (balanced_map m \<longrightarrow> balanced_map (assignShards ord U m))"
  using assms
proof (induction U arbitrary: m)
  case (Cons s U)
  let ?b = "gidWithMinShards ord m" let ?m = "AList.update ?b (slice_at m ?b @ [s]) m"
  obtain k where k: "k \<in> set (keys m)" "k \<noteq> 0" using Cons.prems(3,4) by (metis all_not_in_conv)
  note b = gidWithMinShards_min [OF Cons.prems(1,2)]
  have keys: "set (keys ?m) = set (keys m)" using b(2) [OF k] by (auto simp: keys_update)
  have "balanced_map ?m" if bal: "balanced_map m"
    unfolding balanced_map_def keys
  proof (intro ballI)
    fix x y assume x: "x \<in> set (keys m) - {0}" and y: "y \<in> set (keys m) - {0}"
    have "length (slice_at m x) \<le> length (slice_at m y) + 1" using bal x y by (auto simp: balanced_map_def)
    moreover have "length (slice_at m ?b) \<le> length (slice_at m y)" using b(1) y by auto
    ultimately show "length (slice_at ?m x) \<le> length (slice_at ?m y) + 1" by (auto simp: slice_at_update)
  qed
  with Cons.IH [OF Cons.prems(1) part_assign [OF Cons.prems(2)], of ?b] Cons.prems(3,4) keys
  show ?case by (simp add: Let_def)
qed simp

lemma slice_at_missing: "k \<notin> set (keys m) \<Longrightarrow> slice_at m k = []"
  by (auto simp: slice_at_def keys_iff)

lemma sm_Leave_correct:
  assumes ord: "valid_order ord" and csm: "csm \<noteq> []" and ok: "cfg_ok (last csm)"
  shows "\<exists>c. sm_Leave ord gids csm = Some (OK, csm @ [c]) \<and> cfg_ok c
     \<and> (balanced (last csm) \<longrightarrow> balanced c) \<and> cfgNum c = go_len csm
     \<and> map_of (cfgGroups c) = (\<lambda>k. if k \<in> set gids then None else map_of (cfgGroups (last csm)) k)"
proof -
  let ?c = "last csm" let ?g = "copyGroups ord (cfgGroups ?c)" let ?m = "gidToShardsOf ord ?g (cfgShards ?c)"
  obtain groups m U where rem: "removeGroups gids ?g ?m [] = (groups, m, U)" by (cases "removeGroups gids ?g ?m []")
  have p: "part ?m []" using part_gidToShardsOf [OF ord] ok by (simp add: cfg_ok_def)
  note R = removeGroups_correct [OF p wf_copyGroups rem]
  have gk: "set (keys ?g) = set (keys (cfgGroups ?c))" using ord by (simp add: keys_dom)
  have new: "map_of groups = (\<lambda>k. if k \<in> set gids then None else map_of (cfgGroups ?c) k)"
    using R map_of_copyGroups [OF ord, of "cfgGroups ?c"] by (simp add: fun_eq_iff)
  have newk: "set (keys groups) = set (keys (cfgGroups ?c)) - set gids"
    by (auto simp: keys_dom new split: if_splits)
  have g0: "0 \<notin> set (keys groups)" using ok newk by (auto simp: cfg_ok_def)
  let ?d = "\<lambda>ns. \<lparr>cfgNum = go_len csm, cfgShards = ns, cfgGroups = groups\<rparr>"
  show ?thesis
  proof (cases "groups = []")
    case True
    then have "sm_Leave ord gids csm = Some (OK, csm @ [?d (replicate NShards 0)])"
      using last_config [OF csm] rem by (simp add: sm_Leave_def Let_def)
    moreover have "cfg_ok (?d (replicate NShards 0))" "balanced (?d (replicate NShards 0))"
      using True by (auto simp: cfg_ok_def balanced_def wf_map_def keys_def)
    ultimately show ?thesis using new by auto
  next
    case False
    then have ne: "cfgGroups ?c \<noteq> []" using newk by (auto simp: keys_def)
    have mk: "set (keys ?m) = set (keys (cfgGroups ?c))"
      using gidToShardsOf_view(2) [OF ord] ok ne gk by (auto simp: cfg_ok_def)
    have mk': "set (keys m) = set (keys groups)"
      using mk newk R by (auto simp: keys_iff split: if_splits)
    have nonempty: "set (keys m) \<noteq> {}" using False mk' keys_empty by metis
    note A = assignShards_correct [OF ord, of m U] 
    have z: "slice_at (assignShards ord U m) 0 = []"
      using A R nonempty g0 mk' by (intro slice_at_missing) auto
    obtain ns where ns: "storeShards (ord 6 (keys (assignShards ord U m))) (assignShards ord U m) (replicate NShards 0) = Some ns"
      "length ns = NShards" "set ns \<subseteq> set (keys (assignShards ord U m)) - {0}"
      "\<And>g. shard_count ns g = length (slice_at (assignShards ord U m) g)"
      using store_result [OF _ valid_orderD(1) [OF ord] z] A R nonempty g0 mk' by blast
    have "sm_Leave ord gids csm = Some (OK, csm @ [?d ns])"
      using False last_config [OF csm] rem ns(1) by (simp add: sm_Leave_def Let_def)
    moreover have "cfg_ok (?d ns)"
      using ns(2,3) R g0 False A nonempty mk' by (auto simp: cfg_ok_def)
    moreover have "balanced (?d ns)" if bal: "balanced ?c"
    proof -
      have "balanced_map ?m"
        using bal unfolding balanced_def balanced_map_def mk gidToShardsOf_view(1) [OF ord] length_positions
        by (simp add: shard_count_def)
      moreover have "slice_at m k = slice_at ?m k" if "k \<in> set (keys m)" for k
        using R that by (auto simp: slice_at_def keys_iff split: if_splits)
      ultimately have "balanced_map m"
        using mk mk' newk unfolding balanced_map_def by auto
      then show ?thesis
        using A R nonempty g0 mk' ns(4) by (auto simp: balanced_def balanced_map_def)
    qed
    ultimately show ?thesis using new by auto
  qed
qed

subsection \<open>The order of iteration does not matter\<close>

text \<open>Two replicas hold equal configurations up to the order of their maps.\<close>

definition cfg_equiv :: "Config \<Rightarrow> Config \<Rightarrow> bool" where
  "cfg_equiv c d \<longleftrightarrow> cfgNum c = cfgNum d \<and> cfgShards c = cfgShards d \<and> length (cfgShards c) = NShards
     \<and> wf_map (cfgGroups c) \<and> wf_map (cfgGroups d) \<and> map_of (cfgGroups c) = map_of (cfgGroups d)"

definition map_equiv :: "'v gomap \<Rightarrow> 'v gomap \<Rightarrow> bool" where
  "map_equiv m m' \<longleftrightarrow> wf_map m \<and> wf_map m' \<and> map_of m = map_of m'"

lemma map_equiv_slice: "map_equiv m m' \<Longrightarrow> slice_at m = slice_at m'"
  by (simp add: map_equiv_def slice_at_def fun_eq_iff)

lemma map_of_slice: "map_of m k = (if k \<in> set (keys m) then Some (slice_at m k) else None)"
  by (auto simp: keys_iff slice_at_def split: option.splits)

lemma map_equivI:
  "wf_map m \<Longrightarrow> wf_map m' \<Longrightarrow> set (keys m) = set (keys m') \<Longrightarrow> (\<And>k. slice_at m k = slice_at m' k)
     \<Longrightarrow> map_equiv m m'"
  by (simp add: map_equiv_def fun_eq_iff map_of_slice)

lemma map_equiv_update: "map_equiv m m' \<Longrightarrow> map_equiv (AList.update k v m) (AList.update k v m')"
  by (simp add: map_equiv_def map_of_update)

lemma map_equiv_delete: "map_equiv m m' \<Longrightarrow> map_equiv (AList.delete k m) (AList.delete k m')"
  by (simp add: map_equiv_def map_of_delete)

lemma maxLoop_cong: "slice_at m = slice_at m' \<Longrightarrow> maxLoop gids m g s = maxLoop gids m' g s"
  by (induction gids arbitrary: g s) auto

lemma minLoop_cong: "slice_at m = slice_at m' \<Longrightarrow> minLoop gids m g s = minLoop gids m' g s"
  by (induction gids arbitrary: g s) auto

lemma gids_cong:
  assumes "map_equiv m m'" and "valid_order ord" "valid_order ord'"
  shows "gidWithMaxShards ord m = gidWithMaxShards ord' m'" "gidWithMinShards ord m = gidWithMinShards ord' m'"
proof -
  have e: "wf_map m" "wf_map m'" "map_of m = map_of m'" using assms(1) by (auto simp: map_equiv_def)
  note k = sort_keys_cong [OF e assms(2,3)]
  show "gidWithMaxShards ord m = gidWithMaxShards ord' m'" "gidWithMinShards ord m = gidWithMinShards ord' m'"
    using maxLoop_cong [OF map_equiv_slice [OF assms(1)]] minLoop_cong [OF map_equiv_slice [OF assms(1)]]
      map_equiv_slice [OF assms(1)] e(3) k [of 1 1] k [of 2 2]
    by (simp_all add: gidWithMaxShards_def gidWithMinShards_def)
qed

lemma rebalance_cong:
  assumes "map_equiv m m'" and "valid_order ord" "valid_order ord'"
  shows "rel_option map_equiv (rebalance ord m) (rebalance ord' m')"
  using assms
proof (induction ord m arbitrary: m' rule: rebalance.induct)
  case (1 ord m)
  let ?a = "gidWithMaxShards ord m" and ?b = "gidWithMinShards ord m"
  note g = gids_cong [OF "1.prems"] and sl = map_equiv_slice [OF "1.prems"(1)]
  show ?case
  proof (cases "?a \<noteq> 0 \<and> go_len (slice_at m ?a) - go_len (slice_at m ?b) \<le> 1")
    case True
    then have "rebalance ord m = Some m" "rebalance ord' m' = Some m'"
      using g sl by (auto simp: rebalance.simps [of ord m] rebalance.simps [of ord' m'] Let_def)
    with "1.prems"(1) show ?thesis by simp
  next
    case False
    show ?thesis
    proof (cases "slice_at m ?a")
      case Nil
      then have "rebalance ord m = None" "rebalance ord' m' = None"
        using False g sl by (auto simp: rebalance.simps [of ord m] rebalance.simps [of ord' m'] Let_def)
      then show ?thesis by simp
    next
      case (Cons x xs)
      let ?n = "\<lambda>m. AList.update ?a xs (AList.update ?b (slice_at m ?b @ [x]) m)"
      have "rebalance ord m = rebalance ord (?n m)" "rebalance ord' m' = rebalance ord' (?n m')"
        using False Cons g sl by (subst rebalance.simps, auto simp: Let_def)+
      moreover have "map_equiv (?n m) (?n m')"
        using "1.prems"(1) sl by (simp add: map_equiv_update)
      ultimately show ?thesis
        using "1.IH" [OF HOL.refl HOL.refl False Cons _ "1.prems"(2,3)] by simp
    qed
  qed
qed

lemma rebalance_part:
  assumes "part m []" and "rebalance ord m = Some m'"
  shows "part m' []"
  using assms
proof (induction ord m rule: rebalance.induct)
  case (1 ord m)
  let ?a = "gidWithMaxShards ord m" and ?b = "gidWithMinShards ord m"
  show ?case
  proof (cases "?a \<noteq> 0 \<and> go_len (slice_at m ?a) - go_len (slice_at m ?b) \<le> 1")
    case True
    with "1.prems" show ?thesis by (simp add: rebalance.simps [of ord m] Let_def)
  next
    case False
    have ab: "?a \<noteq> ?b" using False gidWithMinShards_nonzero [of ord m] by auto
    show ?thesis
    proof (cases "slice_at m ?a")
      case Nil
      with False "1.prems" show ?thesis by (auto simp: rebalance.simps [of ord m] Let_def split: if_splits)
    next
      case (Cons x xs)
      then have "rebalance ord (AList.update ?a xs (AList.update ?b (slice_at m ?b @ [x]) m)) = Some m'"
        using False "1.prems"(2) by (auto simp: rebalance.simps [of ord m] Let_def split: if_splits)
      then show ?thesis
        using "1.IH" [OF HOL.refl HOL.refl False Cons part_move [OF "1.prems"(1) Cons ab]] by blast
    qed
  qed
qed

lemma store_cong:
  assumes "map_equiv m m'" and "part m []" and "valid_order ord" "valid_order ord'"
  obtains ns where "storeShards (ord k (keys m)) m (replicate NShards 0) = Some ns"
    "storeShards (ord' k' (keys m')) m' (replicate NShards 0) = Some ns" "length ns = NShards"
proof -
  have sl: "slice_at m = slice_at m'" by (rule map_equiv_slice [OF assms(1)])
  have p': "part m' []" using assms(1,2) sl by (simp add: part_def map_equiv_def)
  obtain ns where ns: "storeShards (ord k (keys m)) m (replicate NShards 0) = Some ns" "length ns = NShards"
    "\<And>i g. i < NShards \<Longrightarrow> ns ! i = g \<longleftrightarrow> int i \<in> set (slice_at m g)"
    using storeShards_part [OF assms(2) valid_orderD(1) [OF assms(3)]] by blast
  obtain ns' where ns': "storeShards (ord' k' (keys m')) m' (replicate NShards 0) = Some ns'" "length ns' = NShards"
    "\<And>i g. i < NShards \<Longrightarrow> ns' ! i = g \<longleftrightarrow> int i \<in> set (slice_at m' g)"
    using storeShards_part [OF p' valid_orderD(1) [OF assms(4)]] by blast
  have "ns = ns'" using ns(2,3) ns'(2,3) sl by (intro nth_equalityI) metis+
  with ns ns' that show ?thesis by blast
qed

lemma gidToShardsOf_cong:
  assumes "valid_order ord" "valid_order ord'" and "map_of g = map_of g'"
  shows "map_equiv (gidToShardsOf ord g shards) (gidToShardsOf ord' g' shards)"
  using gidToShardsOf_view [OF assms(1)] gidToShardsOf_view [OF assms(2)] keys_eq_map_of [OF assms(3)]
  by (intro map_equivI) auto

lemma last_equiv:
  assumes "list_all2 cfg_equiv csm csm'" and "csm \<noteq> []"
  shows "go_at csm (go_len csm - 1) = Some (last csm)" "go_at csm' (go_len csm' - 1) = Some (last csm')"
    "cfg_equiv (last csm) (last csm')" "go_len csm' = go_len csm"
proof -
  have len: "length csm' = length csm" "csm' \<noteq> []" using assms list_all2_lengthD by force+
  then show "go_at csm (go_len csm - 1) = Some (last csm)" "go_at csm' (go_len csm' - 1) = Some (last csm')"
    "go_len csm' = go_len csm"
    using last_config [OF assms(2)] last_config [of csm'] by (auto simp: go_len_def)
  show "cfg_equiv (last csm) (last csm')"
    using assms len by (auto simp: last_conv_nth list_all2_conv_all_nth)
qed

lemma list_all2_snoc: "list_all2 P xs ys \<Longrightarrow> list_all2 P (xs @ [x]) (ys @ [y]) \<longleftrightarrow> P x y"
  by (simp add: list_all2_append list_all2_lengthD)

text \<open>The new states of two replicas after the same operation.\<close>

definition sm_agree :: "(Err \<times> Config list) option \<Rightarrow> (Err \<times> Config list) option \<Rightarrow> bool" where
  "sm_agree = rel_option (\<lambda>(e, csm) (e', csm'). e = e' \<and> list_all2 cfg_equiv csm csm')"

lemma sm_Join_cong:
  assumes ord: "valid_order ord" "valid_order ord'" and csm: "list_all2 cfg_equiv csm csm'" "csm \<noteq> []"
    and groups: "map_of groups = map_of groups'"
  shows "sm_agree (sm_Join ord groups csm) (sm_Join ord' groups' csm')"
proof -
  note L = last_equiv [OF csm]
  let ?g = "addGroups (ord 4 (keys groups)) groups (copyGroups ord (cfgGroups (last csm)))"
  let ?g' = "addGroups (ord' 4 (keys groups')) groups' (copyGroups ord' (cfgGroups (last csm')))"
  let ?m = "gidToShardsOf ord ?g (cfgShards (last csm))" and ?m' = "gidToShardsOf ord' ?g' (cfgShards (last csm'))"
  have g: "map_of ?g = map_of ?g'" "wf_map ?g" "wf_map ?g'"
    using map_of_joined [OF ord(1)] map_of_joined [OF ord(2)] L(3) groups
    by (auto simp: cfg_equiv_def intro: wf_addGroups)
  have sh: "cfgShards (last csm') = cfgShards (last csm)" "length (cfgShards (last csm)) = NShards"
    using L(3) by (auto simp: cfg_equiv_def)
  have "map_equiv ?m ?m'" using gidToShardsOf_cong [OF ord g(1)] sh by simp
  from rebalance_cong [OF this ord] show ?thesis
  proof (cases rule: option.rel_cases)
    case None
    then show ?thesis using L by (simp add: sm_agree_def sm_Join_def Let_def)
  next
    case (Some m m')
    have "part ?m []" using part_gidToShardsOf [OF ord(1)] sh by simp
    then have "part m []" using rebalance_part Some(1) by blast
    then obtain ns where "storeShards (ord 5 (keys m)) m (replicate NShards 0) = Some ns"
      "storeShards (ord' 5 (keys m')) m' (replicate NShards 0) = Some ns" "length ns = NShards"
      using store_cong [OF Some(3) _ ord] by blast
    with Some L csm g show ?thesis
      by (simp add: sm_agree_def sm_Join_def Let_def list_all2_snoc cfg_equiv_def)
  qed
qed

lemma removeGroups_cong:
  assumes "map_equiv g g'" and "map_equiv m m'"
  shows "\<exists>g1 g1' m1 m1' U1. removeGroups gids g m U = (g1, m1, U1) \<and> removeGroups gids g' m' U = (g1', m1', U1)
     \<and> map_equiv g1 g1' \<and> map_equiv m1 m1'"
  using assms
proof (induction gids arbitrary: g g' m m' U)
  case (Cons gid gids)
  define h where "h = (if map_of g gid \<noteq> None then AList.delete gid g else g)"
  define h' where "h' = (if map_of g' gid \<noteq> None then AList.delete gid g' else g')"
  have h: "map_equiv h h'"
    using Cons.prems(1) map_equiv_delete [OF Cons.prems(1)] by (auto simp: h_def h'_def map_equiv_def)
  have e: "map_of m' gid = map_of m gid" using Cons.prems(2) by (simp add: map_equiv_def)
  have 1: "removeGroups (gid # gids) g m U = (case map_of m gid of
        Some shards \<Rightarrow> removeGroups gids h (AList.delete gid m) (U @ shards) | None \<Rightarrow> removeGroups gids h m U)"
    unfolding h_def removeGroups.simps(2) Let_def ..
  have 2: "removeGroups (gid # gids) g' m' U = (case map_of m gid of
        Some shards \<Rightarrow> removeGroups gids h' (AList.delete gid m') (U @ shards) | None \<Rightarrow> removeGroups gids h' m' U)"
    unfolding h'_def removeGroups.simps(2) Let_def e ..
  show ?case
    unfolding 1 2
    using Cons.IH [OF h Cons.prems(2)] Cons.IH [OF h map_equiv_delete [OF Cons.prems(2)]]
    by (cases "map_of m gid") auto
qed auto

lemma assignShards_cong:
  assumes "map_equiv m m'" and "valid_order ord" "valid_order ord'"
  shows "map_equiv (assignShards ord U m) (assignShards ord' U m')"
  using assms(1)
proof (induction U arbitrary: m m')
  case (Cons s U)
  show ?case
    using gids_cong [OF Cons.prems assms(2,3)] map_equiv_slice [OF Cons.prems]
    by (auto simp: Let_def intro: Cons.IH map_equiv_update [OF Cons.prems])
qed simp

lemma assignShards_part: "part m U \<Longrightarrow> part (assignShards ord U m) []"
  by (induction U arbitrary: m) (auto simp: Let_def dest: part_assign)

lemma sm_Leave_cong:
  assumes ord: "valid_order ord" "valid_order ord'" and csm: "list_all2 cfg_equiv csm csm'" "csm \<noteq> []"
  shows "sm_agree (sm_Leave ord gids csm) (sm_Leave ord' gids csm')"
proof -
  note L = last_equiv [OF csm]
  let ?g = "copyGroups ord (cfgGroups (last csm))" and ?g' = "copyGroups ord' (cfgGroups (last csm'))"
  let ?m = "gidToShardsOf ord ?g (cfgShards (last csm))" and ?m' = "gidToShardsOf ord' ?g' (cfgShards (last csm'))"
  have sh: "cfgShards (last csm') = cfgShards (last csm)" "length (cfgShards (last csm)) = NShards"
    using L(3) by (auto simp: cfg_equiv_def)
  have g: "map_of ?g = map_of ?g'" "map_equiv ?g ?g'" using ord L(3) by (auto simp: cfg_equiv_def map_equiv_def)
  have m: "map_equiv ?m ?m'" using gidToShardsOf_cong [OF ord g(1)] sh by simp
  obtain g1 g1' m1 m1' U where r: "removeGroups gids ?g ?m [] = (g1, m1, U)"
    "removeGroups gids ?g' ?m' [] = (g1', m1', U)" "map_equiv g1 g1'" "map_equiv m1 m1'"
    using removeGroups_cong [OF g(2) m, of gids "[]"] by blast
  have empty: "g1' = [] \<longleftrightarrow> g1 = []"
    using r(3) keys_eq_map_of [of g1 g1'] by (auto simp: map_equiv_def keys_def)
  have "part ?m []" using part_gidToShardsOf [OF ord(1)] sh by simp
  then have p: "part (assignShards ord U m1) []"
    using removeGroups_correct [OF _ wf_copyGroups r(1)] assignShards_part by blast
  obtain ns where "storeShards (ord 6 (keys (assignShards ord U m1))) (assignShards ord U m1) (replicate NShards 0) = Some ns"
    "storeShards (ord' 6 (keys (assignShards ord' U m1'))) (assignShards ord' U m1') (replicate NShards 0) = Some ns"
    "length ns = NShards"
    using store_cong [OF assignShards_cong [OF r(4) ord] p ord] by blast
  with L csm r empty show ?thesis
    by (cases "g1 = []") (simp_all add: sm_agree_def sm_Leave_def Let_def list_all2_snoc cfg_equiv_def map_equiv_def)
qed

lemma sm_Move_cong:
  assumes ord: "valid_order ord" "valid_order ord'" and csm: "list_all2 cfg_equiv csm csm'" "csm \<noteq> []"
  shows "sm_agree (sm_Move ord s g csm) (sm_Move ord' s g csm')"
proof -
  note L = last_equiv [OF csm]
  have sh: "cfgShards (last csm') = cfgShards (last csm)" using L(3) by (simp add: cfg_equiv_def)
  show ?thesis
  proof (cases "go_upd (cfgShards (last csm)) s g")
    case None
    with L sh show ?thesis by (simp add: sm_agree_def sm_Move_def Let_def)
  next
    case (Some ns)
    then have "length ns = length (cfgShards (last csm))" by (rule go_upd_length)
    with Some L sh csm ord show ?thesis
      by (simp add: sm_agree_def sm_Move_def Let_def list_all2_snoc cfg_equiv_def)
  qed
qed

end
