(* ===== verification/ShardServer.thy ===== *)
theory ShardServer
  imports ShardCtrler KVRaft
begin

section \<open>The shard controller's server and clerk, \<open>shardctrler/server.go\<close> and \<open>client.go\<close>\<close>

text \<open>
  The same shape as \<open>kvraft\<close>, with four operations and no snapshots: every handler goes through
  \<open>command\<close>. An operation may panic (\<open>Move\<close> of a shard that does not exist).
\<close>

subsection \<open>Operations and replies\<close>

datatype sc_OperationType = OpJoin | OpLeave | OpMove | OpQuery

record sc_Op =
  scServers :: "servers gomap"
  scGIDs :: "int list"
  scShard :: int
  scGID :: int
  scNum :: int
  scOpType :: sc_OperationType
  scClientId :: int
  scSeqId :: int

record sc_OpReply =
  ControllerConfig :: Config
  scErr :: Err

record JoinArgs =
  jaServers :: "servers gomap"
  jaClientId :: int
  jaSeqId :: int

record LeaveArgs =
  laGIDs :: "int list"
  laClientId :: int
  laSeqId :: int

record MoveArgs =
  maShard :: int
  maGID :: int
  maClientId :: int
  maSeqId :: int

record QueryArgs =
  qaNum :: int

text \<open>\<open>JoinReply\<close>, \<open>LeaveReply\<close> and \<open>MoveReply\<close> have the same fields;
  \<open>WrongLeader\<close> is never written.\<close>

record JoinReply =
  jrWrongLeader :: bool
  jrErr :: Err

record QueryReply =
  qrWrongLeader :: bool
  qrErr :: Err
  qrConfig :: Config

text \<open>The zero values of the structs.\<close>

definition zeroConfig :: Config where
  "zeroConfig = \<lparr>cfgNum = 0, cfgShards = replicate NShards 0, cfgGroups = []\<rparr>"

definition zeroOp :: sc_Op where
  "zeroOp = \<lparr>scServers = [], scGIDs = [], scShard = 0, scGID = 0, scNum = 0, scOpType = OpJoin,
             scClientId = 0, scSeqId = 0\<rparr>"

subsection \<open>The server\<close>

record ShardCtrler =
  sc_me :: int
  sc_rf :: "(sc_Op, unit) Raft"
  sc_configs :: "Config list"
  sc_dead :: int
  sc_lastApplied :: int
  sc_stateMachine :: "Config list"
  sc_notifyChans :: "sc_OpReply chans"
  sc_duplicateTable :: "sc_OpReply dup_table"

definition sc_requestDuplicated :: "int \<Rightarrow> int \<Rightarrow> ShardCtrler \<Rightarrow> bool" where
  "sc_requestDuplicated clientId seqId sc =
     (case sc_duplicateTable sc clientId of None \<Rightarrow> False | Some info \<Rightarrow> seqId \<le> loSeqId info)"

definition sc_getNotifyChannel :: "int \<Rightarrow> ShardCtrler \<Rightarrow> nat \<times> ShardCtrler" where
  "sc_getNotifyChannel index sc =
     (let (c, cs) = chan_get index (sc_notifyChans sc) in (c, sc\<lparr>sc_notifyChans := cs\<rparr>))"

definition sc_removeNotifyChannel :: "int \<Rightarrow> ShardCtrler \<Rightarrow> ShardCtrler" where
  "sc_removeNotifyChannel index sc = sc\<lparr>sc_notifyChans := chan_remove index (sc_notifyChans sc)\<rparr>"

text \<open>\<open>command\<close> up to \<open>Start\<close>: a reply at once, or the index to wait for.\<close>

definition sc_command :: "sc_Op \<Rightarrow> ShardCtrler \<Rightarrow> (sc_OpReply + int) \<times> ShardCtrler" where
  "sc_command args sc =
     (if scOpType args \<noteq> OpQuery \<and> sc_requestDuplicated (scClientId args) (scSeqId args) sc
      then (Inl \<lparr>ControllerConfig = zeroConfig,
                 scErr = scErr (loReply (the (sc_duplicateTable sc (scClientId args))))\<rparr>, sc)
      else
        (let ((index, _, isLeader), rf) = Start args (sc_rf sc); sc1 = sc\<lparr>sc_rf := rf\<rparr> in
         if \<not> isLeader then (Inl \<lparr>ControllerConfig = zeroConfig, scErr = ErrWrongLeader\<rparr>, sc1)
         else (Inr index, sc1)))"

text \<open>The \<open>select\<close> at the end of \<open>command\<close>.\<close>

definition sc_await :: "nat \<Rightarrow> bool \<Rightarrow> ShardCtrler \<Rightarrow> (sc_OpReply \<times> ShardCtrler) option" where
  "sc_await c timedOut sc =
     (if timedOut then Some (\<lparr>ControllerConfig = zeroConfig, scErr = ErrTimeout\<rparr>, sc)
      else case chan_recv c (sc_notifyChans sc) of
        Some (result, cs) \<Rightarrow> Some (result, sc\<lparr>sc_notifyChans := cs\<rparr>)
      | None \<Rightarrow> None)"

definition sc_Join :: "JoinArgs \<Rightarrow> ShardCtrler \<Rightarrow> (sc_OpReply + int) \<times> ShardCtrler" where
  "sc_Join args = sc_command (zeroOp\<lparr>scOpType := OpJoin, scClientId := jaClientId args,
                                scSeqId := jaSeqId args, scServers := jaServers args\<rparr>)"

definition sc_Leave :: "LeaveArgs \<Rightarrow> ShardCtrler \<Rightarrow> (sc_OpReply + int) \<times> ShardCtrler" where
  "sc_Leave args = sc_command (zeroOp\<lparr>scOpType := OpLeave, scClientId := laClientId args,
                                scSeqId := laSeqId args, scGIDs := laGIDs args\<rparr>)"

definition sc_Move :: "MoveArgs \<Rightarrow> ShardCtrler \<Rightarrow> (sc_OpReply + int) \<times> ShardCtrler" where
  "sc_Move args = sc_command (zeroOp\<lparr>scOpType := OpMove, scClientId := maClientId args,
                                scSeqId := maSeqId args, scShard := maShard args, scGID := maGID args\<rparr>)"

definition sc_Query :: "QueryArgs \<Rightarrow> ShardCtrler \<Rightarrow> (sc_OpReply + int) \<times> ShardCtrler" where
  "sc_Query args = sc_command (zeroOp\<lparr>scOpType := OpQuery, scNum := qaNum args\<rparr>)"

text \<open>What the handlers copy from the reply of \<open>command\<close> into theirs.\<close>

definition sc_joinReply :: "sc_OpReply \<Rightarrow> JoinReply" where
  "sc_joinReply opReply = \<lparr>jrWrongLeader = False, jrErr = scErr opReply\<rparr>"

definition sc_queryReply :: "sc_OpReply \<Rightarrow> QueryReply" where
  "sc_queryReply opReply =
     \<lparr>qrWrongLeader = False, qrErr = scErr opReply, qrConfig = ControllerConfig opReply\<rparr>"

definition sc_applyToStateMachine ::
  "order \<Rightarrow> sc_Op \<Rightarrow> Config list \<Rightarrow> (sc_OpReply \<times> Config list) option" where
  "sc_applyToStateMachine ord op csm =
     (case scOpType op of
        OpQuery \<Rightarrow> map_option (\<lambda>(cfg, err). (\<lparr>ControllerConfig = cfg, scErr = err\<rparr>, csm)) (sm_Query (scNum op) csm)
      | OpJoin \<Rightarrow> map_option (\<lambda>(err, csm'). (\<lparr>ControllerConfig = zeroConfig, scErr = err\<rparr>, csm'))
                    (sm_Join ord (scServers op) csm)
      | OpLeave \<Rightarrow> map_option (\<lambda>(err, csm'). (\<lparr>ControllerConfig = zeroConfig, scErr = err\<rparr>, csm'))
                    (sm_Leave ord (scGIDs op) csm)
      | OpMove \<Rightarrow> map_option (\<lambda>(err, csm'). (\<lparr>ControllerConfig = zeroConfig, scErr = err\<rparr>, csm'))
                    (sm_Move ord (scShard op) (scGID op) csm))"

definition sc_execute :: "order \<Rightarrow> sc_Op \<Rightarrow> ShardCtrler \<Rightarrow> (sc_OpReply \<times> ShardCtrler) option" where
  "sc_execute ord op sc =
     (if scOpType op \<noteq> OpQuery \<and> sc_requestDuplicated (scClientId op) (scSeqId op) sc
      then Some (loReply (the (sc_duplicateTable sc (scClientId op))), sc)
      else do {
        (opReply, csm) \<leftarrow> sc_applyToStateMachine ord op (sc_stateMachine sc);
        let sc1 = sc\<lparr>sc_stateMachine := csm\<rparr>;
        Some (opReply,
              if scOpType op \<noteq> OpQuery
              then sc1\<lparr>sc_duplicateTable := (sc_duplicateTable sc1)
                         (scClientId op \<mapsto> \<lparr>loSeqId = scSeqId op, loReply = opReply\<rparr>)\<rparr>
              else sc1) })"

definition sc_notify :: "int \<Rightarrow> sc_OpReply \<Rightarrow> ShardCtrler \<Rightarrow> stop + ShardCtrler" where
  "sc_notify index opReply sc =
     (if snd (GetState (sc_rf sc)) then
        (let (c, sc1) = sc_getNotifyChannel index sc in
         case chan_send c opReply (sc_notifyChans sc1) of
           Inl s \<Rightarrow> Inl s
         | Inr cs \<Rightarrow> Inr (sc1\<lparr>sc_notifyChans := cs\<rparr>))
      else Inr sc)"

definition sc_killed :: "ShardCtrler \<Rightarrow> bool" where
  "sc_killed sc \<longleftrightarrow> sc_dead sc = 1"

definition sc_Kill :: "ShardCtrler \<Rightarrow> ShardCtrler" where
  "sc_Kill sc = sc\<lparr>sc_dead := 1, sc_rf := Kill (sc_rf sc)\<rparr>"

definition sc_Raft :: "ShardCtrler \<Rightarrow> (sc_Op, unit) Raft" where
  "sc_Raft sc = sc_rf sc"

definition sc_applyTask :: "order \<Rightarrow> (sc_Op, unit) ApplyMsg \<Rightarrow> ShardCtrler \<Rightarrow> stop + ShardCtrler" where
  "sc_applyTask ord message sc =
     (if sc_killed sc then Inr sc
      else if CommandValid message then
        (if CommandIndex message \<le> sc_lastApplied sc then Inr sc
         else
           (let sc1 = sc\<lparr>sc_lastApplied := CommandIndex message\<rparr> in
            case Command message of
              None \<Rightarrow> Inl Panicked
            | Some op \<Rightarrow>
                (case sc_execute ord op sc1 of
                   None \<Rightarrow> Inl Panicked
                 | Some (opReply, sc2) \<Rightarrow> sc_notify (CommandIndex message) opReply sc2)))
      else Inr sc)"

definition sc_StartServer :: "int \<Rightarrow> int \<Rightarrow> (sc_Op, unit) Persister \<Rightarrow> ShardCtrler" where
  "sc_StartServer servers i ps =
     \<lparr>sc_me = i, sc_rf = Make servers i ps, sc_configs = [zeroConfig], sc_dead = 0, sc_lastApplied = 0,
      sc_stateMachine = NewCtrlerStateMachine, sc_notifyChans = no_chans, sc_duplicateTable = Map.empty\<rparr>"

subsection \<open>The clerk\<close>

text \<open>The struct is that of \<open>kvraft\<close>'s clerk.\<close>

definition sc_MakeClerk :: "int \<Rightarrow> int \<Rightarrow> Clerk" where
  "sc_MakeClerk servers rand = \<lparr>ck_servers = servers, ck_leaderId = 0, ck_clientId = rand, ck_seqId = 0\<rparr>"

definition sc_clerk_Query :: "(QueryArgs \<Rightarrow> QueryReply calls) \<Rightarrow> int \<Rightarrow> Clerk \<Rightarrow> (Config \<times> Clerk) option" where
  "sc_clerk_Query send num ck =
     map_option (\<lambda>(reply, l). (qrConfig reply, ck\<lparr>ck_leaderId := l\<rparr>))
       (clerk_retry qrErr (ck_servers ck) (send \<lparr>qaNum = num\<rparr>) 0 (ck_leaderId ck))"

definition sc_clerk_Join :: "(JoinArgs \<Rightarrow> JoinReply calls) \<Rightarrow> servers gomap \<Rightarrow> Clerk \<Rightarrow> Clerk option" where
  "sc_clerk_Join send srvs ck =
     map_option (\<lambda>(reply, l). ck\<lparr>ck_leaderId := l, ck_seqId := ck_seqId ck + 1\<rparr>)
       (clerk_retry jrErr (ck_servers ck)
          (send \<lparr>jaServers = srvs, jaClientId = ck_clientId ck, jaSeqId = ck_seqId ck\<rparr>) 0 (ck_leaderId ck))"

definition sc_clerk_Leave :: "(LeaveArgs \<Rightarrow> JoinReply calls) \<Rightarrow> int list \<Rightarrow> Clerk \<Rightarrow> Clerk option" where
  "sc_clerk_Leave send gids ck =
     map_option (\<lambda>(reply, l). ck\<lparr>ck_leaderId := l, ck_seqId := ck_seqId ck + 1\<rparr>)
       (clerk_retry jrErr (ck_servers ck)
          (send \<lparr>laGIDs = gids, laClientId = ck_clientId ck, laSeqId = ck_seqId ck\<rparr>) 0 (ck_leaderId ck))"

definition sc_clerk_Move :: "(MoveArgs \<Rightarrow> JoinReply calls) \<Rightarrow> int \<Rightarrow> int \<Rightarrow> Clerk \<Rightarrow> Clerk option" where
  "sc_clerk_Move send shard gid ck =
     map_option (\<lambda>(reply, l). ck\<lparr>ck_leaderId := l, ck_seqId := ck_seqId ck + 1\<rparr>)
       (clerk_retry jrErr (ck_servers ck)
          (send \<lparr>maShard = shard, maGID = gid, maClientId = ck_clientId ck, maSeqId = ck_seqId ck\<rparr>) 0 (ck_leaderId ck))"

subsection \<open>The contract of the duplicate table\<close>

definition sc_exec :: "order \<Rightarrow> ShardCtrler \<Rightarrow> sc_Op \<Rightarrow> Config list \<times> sc_OpReply dup_table
    \<Rightarrow> (sc_OpReply \<times> Config list \<times> sc_OpReply dup_table) option" where
  "sc_exec ord sc op = (\<lambda>(csm, tbl).
     map_option (\<lambda>(r, sc'). (r, sc_stateMachine sc', sc_duplicateTable sc'))
       (sc_execute ord op (sc\<lparr>sc_stateMachine := csm, sc_duplicateTable := tbl\<rparr>)))"

definition is_query :: "sc_Op \<Rightarrow> bool" where
  "is_query op \<longleftrightarrow> scOpType op = OpQuery"

interpretation sc: dedup_machine "sc_applyToStateMachine ord" "sc_exec ord sc0" is_query scClientId scSeqId
proof (unfold_locales, goal_cases)
  case (1 op st tbl)
  then show ?case
    by (cases "sc_applyToStateMachine ord op st")
      (auto simp: sc_exec_def sc_execute_def is_query_def Let_def)
next
  case (2 op tbl info st)
  then show ?case by (simp add: sc_exec_def sc_execute_def is_query_def sc_requestDuplicated_def)
next
  case (3 op tbl st)
  have "\<not> sc_requestDuplicated (scClientId op) (scSeqId op)
      (sc0\<lparr>sc_stateMachine := st, sc_duplicateTable := tbl\<rparr>)"
    using 3(2) by (auto simp: sc_requestDuplicated_def split: option.splits)
  with 3(1) show ?case
    by (cases "sc_applyToStateMachine ord op st") (auto simp: sc_exec_def sc_execute_def is_query_def Let_def)
qed

subsection \<open>The apply loop\<close>

definition sc_view :: "ShardCtrler \<Rightarrow> Config list \<times> sc_OpReply dup_table" where
  "sc_view sc = (sc_stateMachine sc, sc_duplicateTable sc)"

lemma sc_execute_view:
  assumes "sc_execute ord op sc = Some (r, sc')"
  shows "sc_exec ord sc0 op (sc_view sc) = Some (r, sc_view sc')"
    "sc_lastApplied sc' = sc_lastApplied sc" "sc_dead sc' = sc_dead sc"
  using assms
  by (auto simp: sc_exec_def sc_view_def sc_execute_def sc_requestDuplicated_def Let_def
      split: if_splits dest!: bind_eq_SomeD)

lemma sc_notify_same:
  assumes "sc_notify i r sc = Inr sc'"
  shows "sc_view sc' = sc_view sc" "sc_lastApplied sc' = sc_lastApplied sc" "sc_dead sc' = sc_dead sc"
  using assms
  by (auto simp: sc_notify_def sc_getNotifyChannel_def sc_view_def Let_def split_def split: if_splits sum.splits)

lemma sc_applyTask_command:
  assumes "sc_applyTask ord msg sc = Inr sc'" and "\<not> sc_killed sc" and "CommandValid msg"
    and "sc_lastApplied sc < CommandIndex msg" and "Command msg = Some op"
  shows "map_option snd (sc_exec ord sc0 op (sc_view sc)) = Some (sc_view sc')"
    "sc_lastApplied sc' = CommandIndex msg" "\<not> sc_killed sc'"
proof -
  let ?sc1 = "sc\<lparr>sc_lastApplied := CommandIndex msg\<rparr>"
  from assms obtain r sc2 where ex: "sc_execute ord op ?sc1 = Some (r, sc2)"
    and n: "sc_notify (CommandIndex msg) r sc2 = Inr sc'"
    by (auto simp: sc_applyTask_def split: option.splits)
  have "sc_view ?sc1 = sc_view sc" by (simp add: sc_view_def)
  with sc_execute_view(1) [OF ex, of sc0] sc_execute_view(2,3) [OF ex] sc_notify_same [OF n] assms(2)
  show "map_option snd (sc_exec ord sc0 op (sc_view sc)) = Some (sc_view sc')"
    "sc_lastApplied sc' = CommandIndex msg" "\<not> sc_killed sc'"
    by (auto simp: sc_killed_def)
qed

fun sc_applyAll :: "order \<Rightarrow> (sc_Op, unit) ApplyMsg list \<Rightarrow> ShardCtrler \<Rightarrow> stop + ShardCtrler" where
  "sc_applyAll ord [] sc = Inr sc"
| "sc_applyAll ord (msg # msgs) sc =
     (case sc_applyTask ord msg sc of Inl s \<Rightarrow> Inl s | Inr sc' \<Rightarrow> sc_applyAll ord msgs sc')"

lemma sc_applyAll_run:
  assumes "sc_applyAll ord msgs sc = Inr sc'" and "\<not> sc_killed sc"
    and "commands_from (sc_lastApplied sc) msgs"
  shows "run (sc_exec ord sc0) (ops_of msgs) (sc_view sc) = Some (sc_view sc')"
  using assms
proof (induction msgs arbitrary: sc)
  case (Cons msg msgs)
  then obtain sc1 op where 1: "sc_applyTask ord msg sc = Inr sc1" "sc_applyAll ord msgs sc1 = Inr sc'"
    and op: "Command msg = Some op"
    by (auto split: sum.splits)
  note A = sc_applyTask_command [OF 1(1) Cons.prems(2) _ _ op]
  have "run (sc_exec ord sc0) (ops_of msgs) (sc_view sc1) = Some (sc_view sc')"
    using Cons.prems A(2,3) by (intro Cons.IH [OF 1(2)]) auto
  moreover have "map_option snd (sc_exec ord sc0 op (sc_view sc)) = Some (sc_view sc1)"
    using Cons.prems A(1) by auto
  then obtain r where "sc_exec ord sc0 op (sc_view sc) = Some (r, sc_view sc1)" by auto
  ultimately show ?case using op by (simp add: ops_of_def)
qed (simp add: ops_of_def)

lemma sc_applyAll_effective:
  assumes "sc_applyAll ord msgs sc = Inr sc'" and "\<not> sc_killed sc"
    and "commands_from (sc_lastApplied sc) msgs"
  shows "run (sc_applyToStateMachine ord)
      (effective is_query scClientId scSeqId (seen_of (sc_duplicateTable sc)) (ops_of msgs)) (sc_stateMachine sc)
      = Some (sc_stateMachine sc')"
  using sc_applyAll_run [OF assms, of sc]
    sc.run_effective [of ord sc "ops_of msgs" "sc_stateMachine sc" "sc_duplicateTable sc"]
  by (simp add: sc_view_def)

subsection \<open>Replicas agree\<close>

text \<open>The same operation on two replicas: its map of servers may be listed in another order.\<close>

definition op_equiv :: "sc_Op \<Rightarrow> sc_Op \<Rightarrow> bool" where
  "op_equiv a b \<longleftrightarrow> map_of (scServers a) = map_of (scServers b) \<and> a\<lparr>scServers := []\<rparr> = b\<lparr>scServers := []\<rparr>"

lemma op_equivD:
  assumes "op_equiv a b"
  shows "scGIDs b = scGIDs a" "scShard b = scShard a" "scGID b = scGID a" "scNum b = scNum a"
    "scOpType b = scOpType a" "scClientId b = scClientId a" "scSeqId b = scSeqId a"
  using assms by (cases a; cases b; auto simp: op_equiv_def)+

lemma effective_rel:
  assumes "list_all2 R ops ops'" and "\<And>a b. R a b \<Longrightarrow> q a = q b \<and> client a = client b \<and> seq a = seq b"
  shows "list_all2 R (effective q client seq seen ops) (effective q client seq seen ops')"
  using assms(1)
proof (induction arbitrary: seen rule: list_all2_induct)
  case (Cons a ops b ops')
  have "fresh client seq seen a = fresh client seq seen b"
    using assms(2) [OF Cons.hyps(1)] by (auto simp: fresh_def split: option.splits)
  with assms(2) [OF Cons.hyps(1)] Cons show ?case by simp
qed simp

lemma sc_apply_cong:
  assumes "valid_order ord" "valid_order ord'" and "list_all2 cfg_equiv csm csm'" "csm \<noteq> []" "op_equiv a b"
  shows "rel_option (\<lambda>(r, s) (r', s'). list_all2 cfg_equiv s s' \<and> s \<noteq> [])
     (sc_applyToStateMachine ord a csm) (sc_applyToStateMachine ord' b csm')"
proof -
  note O = op_equivD [OF assms(5)]
  have new: "rel_option (\<lambda>(r, s) (r', s'). list_all2 cfg_equiv s s' \<and> s \<noteq> [])
      (map_option (\<lambda>(err, csm'). (\<lparr>ControllerConfig = zeroConfig, scErr = err\<rparr>, csm')) x)
      (map_option (\<lambda>(err, csm'). (\<lparr>ControllerConfig = zeroConfig, scErr = err\<rparr>, csm')) y)"
    if "sm_agree x y" "\<And>e s. x = Some (e, s) \<Longrightarrow> s \<noteq> []" for x y
    using that by (cases x; cases y) (auto simp: sm_agree_def)
  show ?thesis
  proof (cases "scOpType a")
    case OpJoin
    have "sm_agree (sm_Join ord (scServers a) csm) (sm_Join ord' (scServers b) csm')"
      using assms(5) by (intro sm_Join_cong assms(1-4)) (simp add: op_equiv_def)
    then show ?thesis
      using OpJoin O by (simp add: sc_applyToStateMachine_def)
        (rule new, auto simp: sm_Join_def Let_def dest!: bind_eq_SomeD)
  next
    case OpLeave
    have "sm_agree (sm_Leave ord (scGIDs a) csm) (sm_Leave ord' (scGIDs a) csm')"
      by (intro sm_Leave_cong assms(1-4))
    then show ?thesis
      using OpLeave O by (simp add: sc_applyToStateMachine_def)
        (rule new, auto simp: sm_Leave_def Let_def split: prod.splits dest!: bind_eq_SomeD)
  next
    case OpMove
    have "sm_agree (sm_Move ord (scShard a) (scGID a) csm) (sm_Move ord' (scShard a) (scGID a) csm')"
      by (intro sm_Move_cong assms(1-4))
    then show ?thesis
      using OpMove O by (simp add: sc_applyToStateMachine_def)
        (rule new, auto simp: sm_Move_def Let_def dest!: bind_eq_SomeD)
  next
    case OpQuery
    have len: "length csm' = length csm" using assms(3) list_all2_lengthD by force
    then have "sm_Query (scNum a) csm \<noteq> None" "sm_Query (scNum a) csm' \<noteq> None"
      using assms(4) by (auto simp: sm_Query_def go_at_def go_len_def)
    then show ?thesis
      using OpQuery O assms(3,4) by (auto simp: sc_applyToStateMachine_def)
  qed
qed

lemma sc_run_cong:
  assumes "valid_order ord" "valid_order ord'" and "list_all2 op_equiv ops ops'"
    and "list_all2 cfg_equiv csm csm'" "csm \<noteq> []"
  shows "rel_option (list_all2 cfg_equiv) (run (sc_applyToStateMachine ord) ops csm)
     (run (sc_applyToStateMachine ord') ops' csm')"
  using assms(3-5)
proof (induction ops ops' arbitrary: csm csm' rule: list_all2_induct)
  case (Cons a ops b ops')
  from sc_apply_cong [OF assms(1,2) Cons.prems Cons.hyps(1)] show ?case
  proof (cases rule: option.rel_cases)
    case None
    then show ?thesis by simp
  next
    case (Some x y)
    obtain r s r' s' where xy: "x = (r, s)" "y = (r', s')" by (cases x, cases y)
    with Some Cons.IH [of s s'] show ?thesis by simp
  qed
qed simp

subsection \<open>Properties of the shard controller\<close>

definition two_groups :: "servers gomap" where
  "two_groups = [(1, [''a'', ''b'']), (2, [''c''])]"

definition one_group :: "servers gomap" where
  "one_group = [(3, [''d''])]"

lemma sample_groups: "0 \<notin> set (keys two_groups)" "set (keys two_groups) \<noteq> {}"
  by (simp_all add: two_groups_def keys_def)

text \<open>C4: \<open>Join\<close> ends and balances. On a configuration in which every shard belongs to a listed group
  (or to group 0 while there is none), joining groups with valid ids neither panics nor loops for
  ever: it appends one configuration, with the old groups and the new ones, in which every shard
  belongs to one of these groups and the shares of any two groups differ by at most one.\<close>

theorem Join_balances:
  assumes "valid_order ord" and "csm \<noteq> []" and "cfg_ok (last csm)" and "0 \<notin> set (keys groups)"
    and "set (keys groups) \<union> set (keys (cfgGroups (last csm))) \<noteq> {}"
  shows "\<exists>c. sm_Join ord groups csm = Some (OK, csm @ [c]) \<and> cfg_ok c \<and> balanced c
     \<and> cfgNum c = go_len csm \<and> map_of (cfgGroups c) = map_of groups ++ map_of (cfgGroups (last csm))"
  using sm_Join_correct [OF assms] .

theorem Join_balances_witness:
  "\<exists>c. sm_Join reverse_order two_groups NewCtrlerStateMachine = Some (OK, NewCtrlerStateMachine @ [c])
     \<and> cfg_ok c \<and> balanced c"
  using Join_balances [OF valid_reverse_order, of NewCtrlerStateMachine two_groups] sample_groups cfg_ok_DefaultConfig(1)
  by (auto simp: NewCtrlerStateMachine_def)

text \<open>C21: \<open>Leave\<close> never panics on such a configuration: it appends one without the given groups, in which
  every shard belongs to a remaining group, or to group 0 when none remains; and if the shares
  were balanced before, they still are.\<close>

theorem Leave_reassigns:
  assumes "valid_order ord" and "csm \<noteq> []" and "cfg_ok (last csm)"
  shows "\<exists>c. sm_Leave ord gids csm = Some (OK, csm @ [c]) \<and> cfg_ok c
     \<and> (balanced (last csm) \<longrightarrow> balanced c) \<and> cfgNum c = go_len csm
     \<and> map_of (cfgGroups c) = (\<lambda>k. if k \<in> set gids then None else map_of (cfgGroups (last csm)) k)"
  using sm_Leave_correct [OF assms] .

definition joined :: "Config list" where
  "joined = snd (the (sm_Join source_order two_groups NewCtrlerStateMachine))"

theorem Leave_reassigns_witness:
  "\<exists>c. sm_Leave source_order [1] joined = Some (OK, joined @ [c]) \<and> cfg_ok c \<and> balanced c"
proof -
  have f: "joined \<noteq> []" "cfg_ok (last joined)" "balanced (last joined)" by code_simp+
  from Leave_reassigns [OF valid_source_order f(1,2), of "[1]"] f(3) show ?thesis by auto
qed

text \<open>C22: replicas agree. Two servers that apply the same operations, starting from equal states, end with
  the same configurations, although Go visits the keys of a map in another order on each of them
  and every loop; one panics exactly if the other does.\<close>

theorem replicas_agree:
  assumes "valid_order ord" and "valid_order ord'"
    and "list_all2 op_equiv ops ops'" and "list_all2 cfg_equiv csm csm'" and "csm \<noteq> []"
    and "seen_of tbl = seen_of tbl'"
  shows "rel_option (list_all2 cfg_equiv)
     (map_option fst (run (sc_exec ord sc0) ops (csm, tbl)))
     (map_option fst (run (sc_exec ord' sc0') ops' (csm', tbl')))"
  unfolding sc.run_effective assms(6)
  using assms(3)
  by (intro sc_run_cong effective_rel assms) (auto simp: is_query_def dest: op_equivD)

definition sample_ops :: "sc_Op list" where
  "sample_ops =
     [zeroOp\<lparr>scOpType := OpJoin, scServers := two_groups, scClientId := 5, scSeqId := 0\<rparr>,
      zeroOp\<lparr>scOpType := OpJoin, scServers := one_group, scClientId := 5, scSeqId := 1\<rparr>,
      zeroOp\<lparr>scOpType := OpLeave, scGIDs := [2], scClientId := 6, scSeqId := 0\<rparr>]"

definition sample_server :: ShardCtrler where
  "sample_server = sc_StartServer 3 0 MakePersister"

theorem replicas_agree_witness:
  "rel_option (list_all2 cfg_equiv)
     (map_option fst (run (sc_exec source_order sample_server) sample_ops (NewCtrlerStateMachine, Map.empty)))
     (map_option fst (run (sc_exec reverse_order sample_server) sample_ops (NewCtrlerStateMachine, Map.empty)))"
proof (rule replicas_agree [OF valid_source_order valid_reverse_order])
  show "list_all2 op_equiv sample_ops sample_ops" by (rule list_all2_refl) (simp add: op_equiv_def)
  show "list_all2 cfg_equiv NewCtrlerStateMachine NewCtrlerStateMachine"
    by (simp add: NewCtrlerStateMachine_def cfg_equiv_def DefaultConfig_def wf_map_def keys_def)
qed (simp_all add: NewCtrlerStateMachine_def)

text \<open>The history of configurations: numbered from 0, one per operation that changes something.\<close>

definition history_ok :: "Config list \<Rightarrow> bool" where
  "history_ok csm \<longleftrightarrow> csm \<noteq> [] \<and> (\<forall>i < length csm. cfgNum (csm ! i) = int i)"

lemma sc_apply_history:
  assumes "sc_applyToStateMachine ord op csm = Some (r, csm')" and "csm \<noteq> []"
  shows "csm' = (if is_query op then csm else csm @ [last csm']) \<and> csm' \<noteq> []
     \<and> (\<not> is_query op \<longrightarrow> cfgNum (last csm') = go_len csm)"
  using assms
  by (cases "scOpType op") (auto simp: sc_applyToStateMachine_def is_query_def sm_Join_def sm_Leave_def sm_Move_def
      Let_def split: prod.splits dest!: bind_eq_SomeD)

lemma run_history:
  "run (sc_applyToStateMachine ord) ops csm = Some csm' \<Longrightarrow> history_ok csm \<Longrightarrow>
     history_ok csm' \<and> (\<exists>new. csm' = csm @ new \<and> length new = length (filter (\<lambda>op. \<not> is_query op) ops))"
proof (induction ops arbitrary: csm)
  case (Cons op ops)
  then obtain r s where 1: "sc_applyToStateMachine ord op csm = Some (r, s)"
    "run (sc_applyToStateMachine ord) ops s = Some csm'" by (auto dest!: bind_eq_SomeD)
  note H = sc_apply_history [OF 1(1)]
  have ne: "csm \<noteq> []" using Cons.prems(2) by (simp add: history_ok_def)
  have s: "history_ok s \<and> (\<exists>new. s = csm @ new \<and> length new = (if is_query op then 0 else 1))"
  proof (cases "is_query op")
    case True
    with H [OF ne] Cons.prems(2) show ?thesis by auto
  next
    case False
    then obtain c where "s = csm @ [c]" "cfgNum c = go_len csm" using H [OF ne] by (metis last_snoc)
    with False Cons.prems(2) show ?thesis by (auto simp: history_ok_def nth_append less_Suc_eq go_len_def)
  qed
  with Cons.IH [OF 1(2)] show ?case by fastforce
qed simp

lemma sm_Query_eq:
  assumes "history_ok csm"
  shows "\<exists>c. sm_Query num csm = Some (c, OK)
     \<and> c \<in> set csm \<and> cfgNum c = (if 0 \<le> num \<and> num < go_len csm then num else go_len csm - 1)"
proof -
  define i where "i = (if num < 0 \<or> num \<ge> go_len csm then length csm - 1 else nat num)"
  have i: "i < length csm" using assms by (auto simp: i_def history_ok_def go_len_def)
  have "sm_Query num csm = Some (csm ! i, OK)"
    using assms by (auto simp: sm_Query_def i_def go_at_def go_len_def history_ok_def nat_diff_distrib Suc_le_eq)
  moreover have "cfgNum (csm ! i) = int i" using assms i by (simp add: history_ok_def)
  moreover have "int i = (if 0 \<le> num \<and> num < go_len csm then num else go_len csm - 1)"
    using assms by (auto simp: i_def go_len_def history_ok_def Suc_le_eq)
  ultimately show ?thesis using i by auto
qed

text \<open>C23: the history of configurations is append-only and numbered. Whatever a server applies, the
  configurations it had stay as they are, every effective \<open>Join\<close>, \<open>Leave\<close> and \<open>Move\<close> adds
  exactly one, numbered by its position, repeated requests add none, and a later \<open>Query\<close> never
  panics and returns the configuration of the given number, or the newest one for a number that
  does not exist.\<close>

theorem history_append_only:
  assumes "sc_applyAll ord msgs sc = Inr sc'" and "\<not> sc_killed sc"
    and "commands_from (sc_lastApplied sc) msgs" and "history_ok (sc_stateMachine sc)"
  defines "ops \<equiv> effective is_query scClientId scSeqId (seen_of (sc_duplicateTable sc)) (ops_of msgs)"
  shows "(\<exists>new. sc_stateMachine sc' = sc_stateMachine sc @ new
              \<and> length new = length (filter (\<lambda>op. \<not> is_query op) ops))
    \<and> history_ok (sc_stateMachine sc')
    \<and> (\<exists>c. sm_Query num (sc_stateMachine sc') = Some (c, OK)
         \<and> cfgNum c = (if 0 \<le> num \<and> num < go_len (sc_stateMachine sc') then num
                      else go_len (sc_stateMachine sc') - 1))"
proof -
  have "run (sc_applyToStateMachine ord) ops (sc_stateMachine sc) = Some (sc_stateMachine sc')"
    using sc_applyAll_effective [OF assms(1-3)] by (simp add: ops_def)
  from run_history [OF this assms(4)] sm_Query_eq [of "sc_stateMachine sc'" num] show ?thesis by blast
qed

definition sc_message :: "int \<Rightarrow> sc_Op \<Rightarrow> (sc_Op, unit) ApplyMsg" where
  "sc_message i op = \<lparr>CommandValid = True, Command = Some op, CommandIndex = i,
     SnapshotValid = False, Snapshot = [], SnapshotTerm = 0, SnapshotIndex = 0\<rparr>"

definition sample_msgs :: "(sc_Op, unit) ApplyMsg list" where
  "sample_msgs = [sc_message 1 (sample_ops ! 0), sc_message 2 (sample_ops ! 0)]"

theorem history_append_only_witness:
  "\<exists>sc'. sc_applyAll source_order sample_msgs sample_server = Inr sc' \<and> length (sc_stateMachine sc') = 2"
proof -
  have "(case sc_applyAll source_order sample_msgs sample_server of Inl _ \<Rightarrow> False | Inr _ \<Rightarrow> True)" by code_simp
  then obtain sc' where sc': "sc_applyAll source_order sample_msgs sample_server = Inr sc'"
    by (auto split: sum.splits)
  have f: "\<not> sc_killed sample_server" "commands_from (sc_lastApplied sample_server) sample_msgs"
    "length (filter (\<lambda>op. \<not> is_query op) (effective is_query scClientId scSeqId
        (seen_of (sc_duplicateTable sample_server)) (ops_of sample_msgs))) = 1"
    by code_simp+
  have h: "history_ok (sc_stateMachine sample_server)"
    by (simp add: sample_server_def sc_StartServer_def NewCtrlerStateMachine_def history_ok_def DefaultConfig_def)
  have "length (sc_stateMachine sample_server) = 1" by code_simp
  with history_append_only [OF sc' f(1,2) h, of 0] f(3) sc' show ?thesis by auto
qed

text \<open>\<open>Join\<close> of an empty set of groups on the initial configuration gives every shard to group -1,
  a group that does not exist and that the invariant above rules out.\<close>

theorem Join_nothing:
  assumes "valid_order ord"
  shows "map_option (\<lambda>(e, csm). (e, cfgShards (last csm), cfgGroups (last csm)))
      (sm_Join ord [] NewCtrlerStateMachine) = Some (OK, replicate NShards (-1), [])"
proof -
  have "rel_option (\<lambda>(e, csm) (e', csm'). e = e' \<and> list_all2 cfg_equiv csm csm')
      (sm_Join ord [] NewCtrlerStateMachine) (sm_Join source_order [] NewCtrlerStateMachine)"
    unfolding sm_agree_def [symmetric]
    by (rule sm_Join_cong [OF assms valid_source_order])
      (simp_all add: NewCtrlerStateMachine_def cfg_equiv_def DefaultConfig_def wf_map_def keys_def)
  moreover have "map_option (\<lambda>(e, csm). (e, length csm, cfgShards (last csm), cfgGroups (last csm)))
      (sm_Join source_order [] NewCtrlerStateMachine) = Some (OK, 2, replicate NShards (-1), [])"
    by code_simp
  ultimately obtain csm csm' where j: "sm_Join ord [] NewCtrlerStateMachine = Some (OK, csm)"
    "length csm' = 2" "cfgShards (last csm') = replicate NShards (-1)" "cfgGroups (last csm') = []"
    "list_all2 cfg_equiv csm csm'"
    by (cases "sm_Join ord [] NewCtrlerStateMachine") auto
  then have "csm \<noteq> []" by auto
  from last_equiv(3) [OF j(5) this] j show ?thesis
    by (simp add: cfg_equiv_def)
qed

theorem Join_nothing_witness:
  "map_option (\<lambda>(e, csm). cfgShards (last csm)) (sm_Join reverse_order [] NewCtrlerStateMachine)
     = Some (replicate NShards (-1))"
  using Join_nothing [OF valid_reverse_order]
  by (cases "sm_Join reverse_order [] NewCtrlerStateMachine") auto

end
