(* ===== verification/Service_Tester.thy ===== *)
theory Service_Tester
  imports Raft_Tester_Properties KVRaft ShardServer "HOL-Library.Word"
begin

section \<open>The testers of the services, \<open>kvraft/config.go\<close> and \<open>shardctrler/config.go\<close>\<close>

text \<open>
  The two harnesses differ in the server that they run. The struct has a common part, the record
  \<open>harness\<close>, and the operations that only touch this part are defined once, on every extension of
  it; the lines are those of \<open>kvraft/config.go\<close>, and the file of the shard controller has the same
  text. The operations that start, stop and look at servers are defined for each service.

  A clerk is known to the harness by its address, a number. A client end is its name. Random
  bytes and numbers are arguments. A running server shares its persister with the harness. Failures
  are those of the tester of Raft.
\<close>

subsection \<open>Random names and orders\<close>

text \<open>\<open>base64.URLEncoding\<close>.\<close>

definition b64_char :: "nat \<Rightarrow> char" where
  "b64_char n =
     (if n < 26 then char_of (65 + n) else if n < 52 then char_of (97 + (n - 26))
      else if n < 62 then char_of (48 + (n - 52)) else if n = 62 then CHR ''-'' else CHR ''_'')"

fun b64_encode :: "8 word list \<Rightarrow> string" where
  "b64_encode [] = []"
| "b64_encode [a] = [b64_char (unat a div 4), b64_char (unat a mod 4 * 16), CHR ''='', CHR ''='']"
| "b64_encode [a, b] =
     [b64_char (unat a div 4), b64_char (unat a mod 4 * 16 + unat b div 16), b64_char (unat b mod 16 * 4), CHR ''='']"
| "b64_encode (a # b # c # bs) =
     b64_char (unat a div 4) # b64_char (unat a mod 4 * 16 + unat b div 16)
     # b64_char (unat b mod 16 * 4 + unat c div 64) # b64_char (unat c mod 64) # b64_encode bs"

text \<open>\<open>b\<close> is what \<open>crand.Read\<close> fills the \<open>2 * n\<close> bytes with.\<close>

definition randstring :: "int \<Rightarrow> 8 word list \<Rightarrow> string option" where
  "randstring n b = go_upto (b64_encode b) n"

definition swap_at :: "'a list \<Rightarrow> nat \<Rightarrow> nat \<Rightarrow> 'a list" where
  "swap_at sa i j = sa[i := sa ! j, j := sa ! i]"

text \<open>\<open>js ! i\<close> is the result of \<open>rand.Intn(i + 1)\<close>.\<close>

definition random_handles :: "nat list \<Rightarrow> 'a list \<Rightarrow> 'a list" where
  "random_handles js kvh = foldl (\<lambda>sa i. swap_at sa i (js ! i)) kvh [0..<length kvh]"

subsection \<open>The common part of a harness\<close>

record harness =
  hs_net :: "(string, nat) Network"
  hs_n :: nat
  hs_endnames :: "string list option list"
  hs_clerks :: "nat \<rightharpoonup> string list"
  hs_nextClientId :: int

type_synonym 'a checkedk = "Op failure + 'a"

definition bindk :: "'e + 'a \<Rightarrow> ('a \<Rightarrow> 'e + 'b) \<Rightarrow> 'e + 'b" where
  "bindk r f = (case r of Inl e \<Rightarrow> Inl e | Inr x \<Rightarrow> f x)"

fun for_each :: "('x \<Rightarrow> 's \<Rightarrow> 'e + 's) \<Rightarrow> 'x list \<Rightarrow> 's \<Rightarrow> 'e + 's" where
  "for_each f [] s = Inr s"
| "for_each f (x # xs) s = bindk (f x s) (for_each f xs)"

text \<open>\<open>endnames[i][j]\<close>, which panics out of range and on a nil slice.\<close>

definition hs_end :: "'z harness_scheme \<Rightarrow> nat \<Rightarrow> nat \<Rightarrow> string option" where
  "hs_end cfg i j =
     (if i < length (hs_endnames cfg)
      then case hs_endnames cfg ! i of None \<Rightarrow> None | Some es \<Rightarrow> if j < length es then Some (es ! j) else None
      else None)"

definition hs_nil :: "'z harness_scheme \<Rightarrow> nat \<Rightarrow> bool" where
  "hs_nil cfg i \<longleftrightarrow> i < length (hs_endnames cfg) \<and> hs_endnames cfg ! i = None"

definition hs_switch :: "bool \<Rightarrow> string option list \<Rightarrow> 'z harness_scheme \<Rightarrow> 'z harness_scheme checkedk" where
  "hs_switch yes es cfg =
     (if None \<in> set es then Inl Panic else Inr (cfg\<lparr>hs_net := enable_ends yes (map the es) (hs_net cfg)\<rparr>))"

definition connectUnlocked :: "nat \<Rightarrow> nat list \<Rightarrow> 'z harness_scheme \<Rightarrow> 'z harness_scheme checkedk" where
  "connectUnlocked i to cfg = hs_switch True (map (\<lambda>j. hs_end cfg i j) to @ map (\<lambda>j. hs_end cfg j i) to) cfg"

text \<open>The guard of the second loop reads \<open>endnames[j]\<close> for the position \<open>j\<close> in the list, and not for the
  server \<open>from[j]\<close> that it is about.\<close>

definition disconnectUnlocked :: "nat \<Rightarrow> nat list \<Rightarrow> 'z harness_scheme \<Rightarrow> 'z harness_scheme checkedk" where
  "disconnectUnlocked i frm cfg =
     hs_switch False
       (map (\<lambda>k. hs_end cfg i k) (filter (\<lambda>_. \<not> hs_nil cfg i) frm)
        @ map (\<lambda>(j, k). if j < length (hs_endnames cfg) then hs_end cfg k i else None)
            (filter (\<lambda>(j, k). \<not> hs_nil cfg j) (enumerate 0 frm))) cfg"

definition hs_All :: "'z harness_scheme \<Rightarrow> nat list" where
  "hs_All cfg = [0..<hs_n cfg]"

definition ConnectAll :: "'z harness_scheme \<Rightarrow> 'z harness_scheme checkedk" where
  "ConnectAll cfg = for_each (\<lambda>i cfg. connectUnlocked i (hs_All cfg) cfg) [0..<hs_n cfg] cfg"

definition partition_side :: "nat list \<Rightarrow> nat list \<Rightarrow> 'z harness_scheme \<Rightarrow> 'z harness_scheme checkedk" where
  "partition_side p q = for_each (\<lambda>i cfg. bindk (disconnectUnlocked i q cfg) (connectUnlocked i p)) p"

definition hs_partition :: "nat list \<Rightarrow> nat list \<Rightarrow> 'z harness_scheme \<Rightarrow> 'z harness_scheme checkedk" where
  "hs_partition p1 p2 cfg = bindk (partition_side p1 p2 cfg) (partition_side p2 p1)"

text \<open>Clients.\<close>

definition client_ends :: "nat \<Rightarrow> nat list \<Rightarrow> 'z harness_scheme \<Rightarrow> string option list" where
  "client_ends ck js cfg =
     (let endnames = (case hs_clerks cfg ck of None \<Rightarrow> [] | Some es \<Rightarrow> es) in map (\<lambda>j. go_at endnames (int j)) js)"

definition ConnectClient :: "nat \<Rightarrow> nat list \<Rightarrow> 'z harness_scheme \<Rightarrow> 'z harness_scheme checkedk" where
  "ConnectClient ck to cfg = hs_switch True (client_ends ck to cfg) cfg"

definition DisconnectClient :: "nat \<Rightarrow> nat list \<Rightarrow> 'z harness_scheme \<Rightarrow> 'z harness_scheme checkedk" where
  "DisconnectClient ck frm cfg = hs_switch False (client_ends ck frm cfg) cfg"

text \<open>\<open>names\<close> are the random names, \<open>js\<close> the choices of \<open>random_handles\<close>, \<open>rand\<close> the client id that the clerk
  draws, \<open>ck\<close> its address. The result has the ends in the order in which the clerk holds them.\<close>

definition makeClient ::
    "nat list \<Rightarrow> string list \<Rightarrow> nat list \<Rightarrow> int \<Rightarrow> nat \<Rightarrow> 'z harness_scheme \<Rightarrow> (Clerk \<times> string list \<times> 'z harness_scheme) checkedk" where
  "makeClient to names js rand ck cfg =
     bindk (cf_make_ends 0 names (hs_net cfg)) (\<lambda>rn.
       let handles = random_handles js names;
           cfg = cfg\<lparr>hs_net := rn, hs_clerks := (hs_clerks cfg)(ck \<mapsto> names), hs_nextClientId := hs_nextClientId cfg + 1\<rparr>
       in bindk (ConnectClient ck to cfg) (\<lambda>cfg. Inr (MakeClerk (go_len handles) rand, handles, cfg)))"

text \<open>The files that \<open>deleteClient\<close> removes have not existed since the ends are names and not sockets.\<close>

definition deleteClient :: "nat \<Rightarrow> 'z harness_scheme \<Rightarrow> 'z harness_scheme" where
  "deleteClient ck cfg = cfg\<lparr>hs_clerks := (hs_clerks cfg)(ck := None)\<rparr>"

text \<open>\<open>make_partition\<close>: the loop over the servers, then the leader is put at the end of the smaller part.\<close>

fun fill_parts :: "nat \<Rightarrow> nat list \<Rightarrow> nat list \<Rightarrow> nat list \<Rightarrow> nat \<Rightarrow> (nat list \<times> nat list) option" where
  "fill_parts l [] p1 p2 j = Some (p1, p2)"
| "fill_parts l (i # is) p1 p2 j =
     (if i \<noteq> l
      then if j < length p1 then fill_parts l is (p1[j := i]) p2 (j + 1)
           else case go_upd p2 (int (j - length p1)) i of None \<Rightarrow> None | Some p2 \<Rightarrow> fill_parts l is p1 p2 (j + 1)
      else fill_parts l is p1 p2 j)"

definition make_parts :: "nat \<Rightarrow> nat \<Rightarrow> (nat list \<times> nat list) checkedk" where
  "make_parts n l =
     (case fill_parts l [0..<n] (replicate (n div 2 + 1) 0) (replicate (n div 2) 0) 0 of
        None \<Rightarrow> Inl Panic
      | Some (p1, p2) \<Rightarrow> (case go_upd p2 (go_len p2 - 1) l of None \<Rightarrow> Inl Panic | Some p2 \<Rightarrow> Inr (p1, p2)))"

definition hs_checkTimeout :: "bool \<Rightarrow> int \<Rightarrow> unit checkedk" where
  "hs_checkTimeout failed elapsed = (if \<not> failed \<and> elapsed > 120 then Inl TookTooLong else Inr ())"

definition hs_cleanup :: "bool \<Rightarrow> int \<Rightarrow> 'z harness_scheme \<Rightarrow> 'z harness_scheme checkedk" where
  "hs_cleanup failed elapsed cfg =
     (case Cleanup (hs_net cfg) of
        None \<Rightarrow> Inl Panic
      | Some rn \<Rightarrow> bindk (hs_checkTimeout failed elapsed) (\<lambda>_. Inr (cfg\<lparr>hs_net := rn\<rparr>)))"

subsection \<open>The harness of \<open>kvraft\<close>\<close>

record kvconfig = harness +
  kc_kvservers :: "KVServer option list"
  kc_saved :: "(Op, kvgob) Persister option list"
  kc_maxraftstate :: int
  kc_rpcs0 :: int
  kc_ops :: "32 word"

text \<open>The content of \<open>saved[i]\<close>.\<close>

definition kc_persister :: "kvconfig \<Rightarrow> nat \<Rightarrow> (Op, kvgob) Persister option" where
  "kc_persister cfg i = (case kc_kvservers cfg ! i of Some kv \<Rightarrow> Some (persister (kv_rf kv)) | None \<Rightarrow> kc_saved cfg ! i)"

definition kc_cleanup :: "bool \<Rightarrow> int \<Rightarrow> kvconfig \<Rightarrow> kvconfig checkedk" where
  "kc_cleanup failed elapsed cfg =
     hs_cleanup failed elapsed (cfg\<lparr>kc_kvservers := map (map_option kv_Kill) (kc_kvservers cfg)\<rparr>)"

text \<open>The maxima; a nil persister panics.\<close>

fun max_size :: "int \<Rightarrow> int option list \<Rightarrow> int checkedk" where
  "max_size best [] = Inr best"
| "max_size best (None # ns) = Inl Panic"
| "max_size best (Some n # ns) = max_size (if n > best then n else best) ns"

definition kc_LogSize :: "(Op gob list \<Rightarrow> int) \<Rightarrow> kvconfig \<Rightarrow> int checkedk" where
  "kc_LogSize bytes cfg = max_size 0 (map (\<lambda>i. map_option (RaftStateSize bytes) (kc_persister cfg i)) [0..<hs_n cfg])"

definition kc_SnapshotSize :: "kvconfig \<Rightarrow> int checkedk" where
  "kc_SnapshotSize cfg = max_size 0 (map (\<lambda>i. map_option SnapshotSize (kc_persister cfg i)) [0..<hs_n cfg])"

text \<open>\<open>ShutdownServer\<close>: the old server is killed after its persister was copied, so what it still
  writes is lost.\<close>

definition kc_ShutdownServer :: "nat \<Rightarrow> kvconfig \<Rightarrow> kvconfig checkedk" where
  "kc_ShutdownServer i cfg =
     bindk (disconnectUnlocked i (hs_All cfg) cfg) (\<lambda>cfg.
       if hs_n cfg \<le> i then Inl Panic
       else let cfg = cfg\<lparr>hs_net := DeleteServer i (hs_net cfg)\<rparr>;
                cfg = cfg\<lparr>kc_saved := (kc_saved cfg)[i := map_option ps_Copy (kc_persister cfg i)]\<rparr>
            in Inr (cfg\<lparr>kc_kvservers := (kc_kvservers cfg)[i := None]\<rparr>))"

definition kc_StartServer :: "nat \<Rightarrow> string list \<Rightarrow> nat \<Rightarrow> kvconfig \<Rightarrow> kvconfig checkedk" where
  "kc_StartServer i names srv cfg =
     (if hs_n cfg \<le> i then Inl Panic
      else let cfg = cfg\<lparr>hs_endnames := (hs_endnames cfg)[i := Some names]\<rparr> in
        bindk (cf_make_ends 0 names (hs_net cfg)) (\<lambda>rn.
          let ps = (case kc_persister cfg i of Some ps \<Rightarrow> ps_Copy ps | None \<Rightarrow> MakePersister);
              cfg = cfg\<lparr>hs_net := rn, kc_saved := (kc_saved cfg)[i := Some ps]\<rparr>
          in case StartKVServer (int (hs_n cfg)) (int i) ps (kc_maxraftstate cfg) of
               Inl _ \<Rightarrow> Inl Panic
             | Inr kv \<Rightarrow> Inr (cfg\<lparr>kc_kvservers := (kc_kvservers cfg)[i := Some kv], hs_net := AddServer i srv (hs_net cfg)\<rparr>)))"

text \<open>\<open>Leader\<close> panics on a server that is down.\<close>

fun kc_leader_loop :: "nat list \<Rightarrow> kvconfig \<Rightarrow> (bool \<times> nat) checkedk" where
  "kc_leader_loop [] cfg = Inr (False, 0)"
| "kc_leader_loop (i # is) cfg =
     (case kc_kvservers cfg ! i of
        None \<Rightarrow> Inl Panic
      | Some kv \<Rightarrow> if snd (GetState (kv_rf kv)) then Inr (True, i) else kc_leader_loop is cfg)"

definition kc_Leader :: "kvconfig \<Rightarrow> (bool \<times> nat) checkedk" where
  "kc_Leader cfg = kc_leader_loop [0..<hs_n cfg] cfg"

definition kc_make_partition :: "kvconfig \<Rightarrow> (nat list \<times> nat list) checkedk" where
  "kc_make_partition cfg = bindk (kc_Leader cfg) (\<lambda>(_, l). make_parts (hs_n cfg) l)"

definition kc_new :: "nat \<Rightarrow> int \<Rightarrow> kvconfig" where
  "kc_new n maxraftstate = \<lparr>hs_net = MakeNetwork, hs_n = n, hs_endnames = replicate n None, hs_clerks = Map.empty,
     hs_nextClientId = int n + 1000, kc_kvservers = replicate n None, kc_saved = replicate n None,
     kc_maxraftstate = maxraftstate, kc_rpcs0 = 0, kc_ops = 0\<rparr>"

definition kc_make_config :: "nat \<Rightarrow> bool \<Rightarrow> int \<Rightarrow> (nat \<Rightarrow> string list) \<Rightarrow> (nat \<Rightarrow> nat) \<Rightarrow> kvconfig checkedk" where
  "kc_make_config n unreliable maxraftstate names srvs =
     bindk (for_each (\<lambda>i. kc_StartServer i (names i) (srvs i)) [0..<n] (kc_new n maxraftstate)) (\<lambda>cfg.
     bindk (ConnectAll cfg) (\<lambda>cfg. Inr (cfg\<lparr>hs_net := Reliable (\<not> unreliable) (hs_net cfg)\<rparr>)))"

definition kc_rpcTotal :: "kvconfig \<Rightarrow> int" where
  "kc_rpcTotal cfg = GetTotalCount (hs_net cfg)"

definition kc_begin :: "kvconfig \<Rightarrow> kvconfig" where
  "kc_begin cfg = cfg\<lparr>kc_rpcs0 := kc_rpcTotal cfg, kc_ops := 0\<rparr>"

definition kc_op :: "kvconfig \<Rightarrow> kvconfig" where
  "kc_op cfg = cfg\<lparr>kc_ops := kc_ops cfg + 1\<rparr>"

text \<open>The numbers that \<open>end\<close> prints: peers, RPCs, operations.\<close>

definition kc_end :: "bool \<Rightarrow> int \<Rightarrow> kvconfig \<Rightarrow> (nat \<times> int \<times> int) option checkedk" where
  "kc_end failed elapsed cfg =
     bindk (hs_checkTimeout failed elapsed) (\<lambda>_.
       Inr (if failed then None else Some (hs_n cfg, kc_rpcTotal cfg - kc_rpcs0 cfg, sint (kc_ops cfg))))"

subsection \<open>The harness of the shard controller\<close>

record scconfig = harness +
  tc_servers :: "ShardCtrler option list"
  tc_saved :: "(sc_Op, unit) Persister option list"

definition tc_persister :: "scconfig \<Rightarrow> nat \<Rightarrow> (sc_Op, unit) Persister option" where
  "tc_persister cfg i = (case tc_servers cfg ! i of Some sc \<Rightarrow> Some (persister (sc_rf sc)) | None \<Rightarrow> tc_saved cfg ! i)"

definition tc_cleanup :: "bool \<Rightarrow> int \<Rightarrow> scconfig \<Rightarrow> scconfig checkedk" where
  "tc_cleanup failed elapsed cfg =
     hs_cleanup failed elapsed (cfg\<lparr>tc_servers := map (map_option sc_Kill) (tc_servers cfg)\<rparr>)"

definition tc_LogSize :: "(sc_Op gob list \<Rightarrow> int) \<Rightarrow> scconfig \<Rightarrow> int checkedk" where
  "tc_LogSize bytes cfg = max_size 0 (map (\<lambda>i. map_option (RaftStateSize bytes) (tc_persister cfg i)) [0..<hs_n cfg])"

definition tc_ShutdownServer :: "nat \<Rightarrow> scconfig \<Rightarrow> scconfig checkedk" where
  "tc_ShutdownServer i cfg =
     bindk (disconnectUnlocked i (hs_All cfg) cfg) (\<lambda>cfg.
       if hs_n cfg \<le> i then Inl Panic
       else let cfg = cfg\<lparr>hs_net := DeleteServer i (hs_net cfg)\<rparr>;
                cfg = cfg\<lparr>tc_saved := (tc_saved cfg)[i := map_option ps_Copy (tc_persister cfg i)]\<rparr>
            in Inr (cfg\<lparr>tc_servers := (tc_servers cfg)[i := None]\<rparr>))"

definition tc_StartServer :: "nat \<Rightarrow> string list \<Rightarrow> nat \<Rightarrow> scconfig \<Rightarrow> scconfig checkedk" where
  "tc_StartServer i names srv cfg =
     (if hs_n cfg \<le> i then Inl Panic
      else let cfg = cfg\<lparr>hs_endnames := (hs_endnames cfg)[i := Some names]\<rparr> in
        bindk (cf_make_ends 0 names (hs_net cfg)) (\<lambda>rn.
          let ps = (case tc_persister cfg i of Some ps \<Rightarrow> ps_Copy ps | None \<Rightarrow> MakePersister);
              cfg = cfg\<lparr>hs_net := rn, tc_saved := (tc_saved cfg)[i := Some ps]\<rparr>;
              sc = sc_StartServer (int (hs_n cfg)) (int i) ps
          in Inr (cfg\<lparr>tc_servers := (tc_servers cfg)[i := Some sc], hs_net := AddServer i srv (hs_net cfg)\<rparr>)))"

text \<open>\<open>Leader\<close> passes over a server that is down.\<close>

fun tc_leader_loop :: "nat list \<Rightarrow> scconfig \<Rightarrow> bool \<times> nat" where
  "tc_leader_loop [] cfg = (False, 0)"
| "tc_leader_loop (i # is) cfg =
     (case tc_servers cfg ! i of
        None \<Rightarrow> tc_leader_loop is cfg
      | Some sc \<Rightarrow> if snd (GetState (sc_rf sc)) then (True, i) else tc_leader_loop is cfg)"

definition tc_Leader :: "scconfig \<Rightarrow> bool \<times> nat" where
  "tc_Leader cfg = tc_leader_loop [0..<hs_n cfg] cfg"

definition tc_make_partition :: "scconfig \<Rightarrow> (nat list \<times> nat list) checkedk" where
  "tc_make_partition cfg = make_parts (hs_n cfg) (snd (tc_Leader cfg))"

definition tc_new :: "nat \<Rightarrow> scconfig" where
  "tc_new n = \<lparr>hs_net = MakeNetwork, hs_n = n, hs_endnames = replicate n None, hs_clerks = Map.empty,
     hs_nextClientId = int n + 1000, tc_servers = replicate n None, tc_saved = replicate n None\<rparr>"

definition tc_make_config :: "nat \<Rightarrow> bool \<Rightarrow> (nat \<Rightarrow> string list) \<Rightarrow> (nat \<Rightarrow> nat) \<Rightarrow> scconfig checkedk" where
  "tc_make_config n unreliable names srvs =
     bindk (for_each (\<lambda>i. tc_StartServer i (names i) (srvs i)) [0..<n] (tc_new n)) (\<lambda>cfg.
     bindk (ConnectAll cfg) (\<lambda>cfg. Inr (cfg\<lparr>hs_net := Reliable (\<not> unreliable) (hs_net cfg)\<rparr>)))"

end
