(* ===== verification/Service_Tester_Properties.thy ===== *)
theory Service_Tester_Properties
  imports Service_Tester
begin

section \<open>What the testers of the services guarantee\<close>

text \<open>
  Names collide only when the random bytes behind them do, the order of a clerk's servers is a fair
  choice, a partition cuts exactly the calls it should and puts the leader into the minority, and
  a server that is started again has the state it had saved.
\<close>

subsection \<open>Random names and orders\<close>

lemma b64_char_inj: "m < 64 \<Longrightarrow> k < 64 \<Longrightarrow> b64_char m = b64_char k \<longleftrightarrow> m = k"
proof -
  have "distinct (map b64_char [0..<64])" by code_simp
  then show "m < 64 \<Longrightarrow> k < 64 \<Longrightarrow> b64_char m = b64_char k \<longleftrightarrow> m = k"
    by (auto simp: distinct_conv_nth)
qed

lemma unat_8: "unat (a :: 8 word) < 256"
  using unsigned_less [of a] by simp

lemma b64_encode_length: "length (b64_encode bs) = 4 * ((length bs + 2) div 3)"
proof (induction bs rule: b64_encode.induct)
  case (4 a b c bs)
  have "(length (a # b # c # bs) + 2) div 3 = Suc ((length bs + 2) div 3)"
    using div_add_self2 [of 3 "length bs + 2"] by (simp add: algebra_simps)
  with 4 show ?case by simp
qed auto

lemma three_more: "3 * Suc k \<le> length (bs :: 8 word list) \<Longrightarrow> \<exists>a b c cs. bs = a # b # c # cs \<and> 3 * k \<le> length cs"
  by (cases bs rule: b64_encode.cases) auto

lemma b64_encode_take: "3 * k \<le> length bs \<Longrightarrow> take (4 * k) (b64_encode bs) = b64_encode (take (3 * k) bs)"
proof (induction k arbitrary: bs)
  case (Suc k)
  then obtain a b c cs where bs: "bs = a # b # c # cs" "3 * k \<le> length cs" using three_more by blast
  have "4 * Suc k = Suc (Suc (Suc (Suc (4 * k))))" "3 * Suc k = Suc (Suc (Suc (3 * k)))" by simp_all
  with bs Suc.IH [OF bs(2)] show ?case by (simp only: bs b64_encode.simps take_Suc_Cons)
qed simp

lemma radix_inj:
  assumes "p * m + x = q * m + y" "x < m" "y < (m :: nat)"
  shows "p = q \<and> x = y"
proof -
  have "p = (p * m + x) div m" "x = (p * m + x) mod m" "q = (q * m + y) div m" "y = (q * m + y) mod m"
    using assms(2,3) by simp_all
  with assms(1) show ?thesis by metis
qed

lemma b64_group_inj:
  assumes "a div 4 = a' div 4" "a mod 4 * 16 + b div 16 = a' mod 4 * 16 + b' div 16"
    "b mod 16 * 4 + c div 64 = b' mod 16 * 4 + c' div 64" "c mod 64 = c' mod 64"
    and "a < 256" "b < 256" "c < 256" "a' < 256" "b' < 256" "c' < (256 :: nat)"
  shows "a = a' \<and> b = b' \<and> c = c'"
proof -
  have "b div 16 < 16" "b' div 16 < 16" "c div 64 < 4" "c' div 64 < 4" using assms(5-) by linarith+
  then have "a mod 4 = a' mod 4" "b div 16 = b' div 16" "b mod 16 = b' mod 16" "c div 64 = c' div 64"
    using radix_inj [OF assms(2)] radix_inj [OF assms(3)] by blast+
  then show ?thesis using assms(1,4) by (metis mult_div_mod_eq)
qed

lemma b64_encode_inj:
  "length bs = 3 * k \<Longrightarrow> length cs = 3 * k \<Longrightarrow> b64_encode bs = b64_encode cs \<longleftrightarrow> bs = cs"
proof (induction k arbitrary: bs cs)
  case (Suc k)
  obtain a b c bs' where bs: "bs = a # b # c # bs'" using three_more [of k bs] Suc.prems by auto
  obtain a' b' c' cs' where cs: "cs = a' # b' # c' # cs'" using three_more [of k cs] Suc.prems by auto
  have lt: "unat x div 4 < 64" "unat x mod 4 * 16 + unat y div 16 < 64" "unat x mod 16 * 4 + unat y div 64 < 64"
      "unat x mod 64 < 64" for x y :: "8 word"
    using unat_8 [of x] unat_8 [of y] by linarith+
  show ?case
  proof
    assume "b64_encode bs = b64_encode cs"
    then have eq: "unat a div 4 = unat a' div 4" "unat a mod 4 * 16 + unat b div 16 = unat a' mod 4 * 16 + unat b' div 16"
        "unat b mod 16 * 4 + unat c div 64 = unat b' mod 16 * 4 + unat c' div 64" "unat c mod 64 = unat c' mod 64"
      and rest: "b64_encode bs' = b64_encode cs'"
      by (simp_all add: bs cs b64_char_inj lt)
    have "unat a = unat a' \<and> unat b = unat b' \<and> unat c = unat c'" by (rule b64_group_inj [OF eq]) (rule unat_8)+
    moreover have "bs' = cs'" using Suc.IH [of bs' cs'] Suc.prems rest by (simp add: bs cs)
    ultimately show "bs = cs" by (simp add: bs cs word_unat_eq_iff)
  qed simp
qed simp

text \<open>A name is made of the first 15 of the 40 random bytes: two names are equal only when these 120 bits are.\<close>

theorem randstring_collision:
  assumes "length b = 40" "length c = 40"
  shows "randstring 20 b = randstring 20 c \<longleftrightarrow> take 15 b = take 15 c"
    "\<exists>s. randstring 20 b = Some s \<and> length s = 20"
proof -
  have s: "randstring 20 bs = Some (b64_encode (take 15 bs))" if "length bs = 40" for bs
    using b64_encode_take [of 5 bs] that by (simp add: randstring_def go_upto_def b64_encode_length)
  show "randstring 20 b = randstring 20 c \<longleftrightarrow> take 15 b = take 15 c"
    using b64_encode_inj [of "take 15 b" 5 "take 15 c"] assms by (simp add: s)
  show "\<exists>s. randstring 20 b = Some s \<and> length s = 20" using assms by (simp add: s b64_encode_length)
qed

text \<open>The choices of \<open>rand.Intn\<close> in a call of \<open>random_handles\<close> on \<open>n\<close> ends.\<close>

definition choices :: "nat \<Rightarrow> nat list \<Rightarrow> bool" where
  "choices n js \<longleftrightarrow> length js = n \<and> (\<forall>i < n. js ! i \<le> i)"

lemma choices_snoc: "choices (Suc n) (js @ [j]) \<longleftrightarrow> choices n js \<and> j \<le> n"
  by (auto simp: choices_def nth_append less_Suc_eq)

lemma choices_Suc_cases:
  assumes "choices (Suc n) js'"
  obtains js j where "js' = js @ [j]" "choices n js" "j \<le> n"
proof (cases js' rule: rev_cases)
  case (snoc js j)
  then have "choices n js" "j \<le> n" using assms by (simp_all add: choices_snoc)
  with snoc show ?thesis by (rule that)
qed (use assms in \<open>simp add: choices_def\<close>)

lemma mset_swap_at: "i < length xs \<Longrightarrow> j < length xs \<Longrightarrow> mset (swap_at xs i j) = mset xs"
  by (simp add: swap_at_def mset_swap)

lemma length_swap_at [simp]: "length (swap_at xs i j) = length xs"
  by (simp add: swap_at_def)

lemma swap_at_swap_at: "i < length xs \<Longrightarrow> j < length xs \<Longrightarrow> swap_at (swap_at xs i j) i j = xs"
  by (rule nth_equalityI) (auto simp: swap_at_def nth_list_update)

lemma random_handles_length [simp]: "length (random_handles js xs) = length xs"
proof -
  have "length (foldl (\<lambda>sa i. swap_at sa i (js ! i)) xs is) = length xs" for "is" :: "nat list"
    by (induction "is" arbitrary: xs) auto
  then show ?thesis by (simp add: random_handles_def)
qed

lemma shuffle_front:
  assumes "\<forall>i \<in> set is. i < length xs \<and> js ! i < length xs" "length js = length xs"
  shows "foldl (\<lambda>sa i. swap_at sa i ((js @ [j]) ! i)) (xs @ [x]) is = foldl (\<lambda>sa i. swap_at sa i (js ! i)) xs is @ [x]"
  using assms
proof (induction "is" arbitrary: xs)
  case (Cons i "is")
  have "swap_at (xs @ [x]) i ((js @ [j]) ! i) = swap_at xs i (js ! i) @ [x]"
    using Cons.prems by (simp add: swap_at_def nth_append list_update_append)
  then show ?case using Cons.IH [of "swap_at xs i (js ! i)"] Cons.prems by simp
qed simp

lemma random_handles_snoc:
  assumes "choices (length xs) js"
  shows "random_handles (js @ [j]) (xs @ [x]) = swap_at (random_handles js xs @ [x]) (length xs) j"
proof -
  have "\<forall>i \<in> set [0..<length xs]. i < length xs \<and> js ! i < length xs" "length js = length xs"
    using assms by (auto simp: choices_def intro: le_less_trans)
  from shuffle_front [OF this, of j x] have
    "foldl (\<lambda>sa i. swap_at sa i ((js @ [j]) ! i)) (xs @ [x]) [0..<length xs] = random_handles js xs @ [x]"
    by (simp add: random_handles_def)
  with assms show ?thesis by (simp only: random_handles_def length_append_singleton upt_Suc_append foldl_append foldl.simps)
    (simp add: choices_def nth_append)
qed

lemma random_handles_mset: "choices (length xs) js \<Longrightarrow> mset (random_handles js xs) = mset xs"
proof (induction xs arbitrary: js rule: rev_induct)
  case (snoc x xs)
  then obtain js0 j where js: "js = js0 @ [j]" "choices (length xs) js0" "j \<le> length xs"
    by (auto elim: choices_Suc_cases)
  show ?case unfolding js(1) random_handles_snoc [OF js(2)]
    using snoc.IH [OF js(2)] js(3) by (simp add: mset_swap_at)
qed (simp add: random_handles_def)

lemma distinct_nth_last: "distinct (ys @ [x]) \<Longrightarrow> k < length (ys @ [x]) \<Longrightarrow> (ys @ [x]) ! k = x \<Longrightarrow> k = length ys"
  using nth_eq_iff_index_eq [of "ys @ [x]" k "length ys"] by simp

lemma random_handles_unique:
  assumes "distinct xs" "choices (length xs) js" "choices (length xs) ks" "random_handles js xs = random_handles ks xs"
  shows "js = ks"
  using assms
proof (induction xs arbitrary: js ks rule: rev_induct)
  case (snoc x xs)
  let ?n = "length xs"
  obtain js0 j where js: "js = js0 @ [j]" "choices ?n js0" "j \<le> ?n" using snoc.prems(2) by (auto elim: choices_Suc_cases)
  obtain ls l where ks: "ks = ls @ [l]" "choices ?n ls" "l \<le> ?n" using snoc.prems(3) by (auto elim: choices_Suc_cases)
  let ?u = "random_handles js0 xs @ [x]" and ?v = "random_handles ls xs @ [x]"
  have d: "distinct ?u" "distinct ?v"
    using snoc.prems(1) random_handles_mset [OF js(2)] random_handles_mset [OF ks(2)]
    by (metis distinct.simps(2) distinct_append mset_eq_imp_distinct_iff mset_append snoc.prems(1))+
  have eq: "swap_at ?u ?n j = swap_at ?v ?n l"
    using snoc.prems(4) unfolding js(1) ks(1) random_handles_snoc [OF js(2)] random_handles_snoc [OF ks(2)] .
  have "swap_at ?u ?n j ! j = x" "swap_at ?v ?n l ! l = x" using js(3) ks(3)
    by (simp_all add: swap_at_def nth_append nth_list_update)
  moreover have "distinct (swap_at ?u ?n j)" 
    using d(1) js(3) mset_eq_imp_distinct_iff [OF mset_swap_at [of ?n ?u j]] by simp
  moreover have "swap_at ?u ?n j ! l = x" using eq \<open>swap_at ?v ?n l ! l = x\<close> by simp
  ultimately have "j = l" using nth_eq_iff_index_eq [of "swap_at ?u ?n j" j l] js(3) ks(3) by simp
  moreover from this eq have "?u = ?v" using js(3) swap_at_swap_at [of ?n ?u j] swap_at_swap_at [of ?n ?v j] by simp
  then have "js0 = ls" using snoc.IH [of js0 ls] snoc.prems(1) js(2) ks(2) by simp
  ultimately show ?case by (simp add: js(1) ks(1))
qed (simp add: choices_def)

lemma random_handles_reach:
  assumes "mset zs = mset xs"
  shows "\<exists>js. choices (length xs) js \<and> random_handles js xs = zs"
  using assms
proof (induction xs arbitrary: zs rule: rev_induct)
  case (snoc x xs)
  let ?n = "length xs"
  have len: "length zs = Suc ?n" using snoc.prems by (metis length_append_singleton mset_eq_length)
  have "x \<in> set zs" using mset_eq_setD [OF snoc.prems] by simp
  then obtain j where j: "j \<le> ?n" "zs ! j = x" using len by (metis in_set_conv_nth less_Suc_eq_le)
  let ?w = "swap_at zs ?n j"
  have "last ?w = ?w ! ?n" using len by (metis diff_Suc_1 last_conv_nth length_0_conv length_swap_at nat.simps(3))
  also have "\<dots> = x" using j len by (auto simp: swap_at_def nth_list_update)
  finally have "last ?w = x" .
  then have w: "?w = butlast ?w @ [x]" using len by (metis append_butlast_last_id length_0_conv length_swap_at nat.simps(3))
  have "mset (butlast ?w @ [x]) = mset (xs @ [x])"
    using mset_swap_at [of ?n zs j] j len snoc.prems w by simp
  then have "mset (butlast ?w) = mset xs" by simp
  from snoc.IH [OF this] obtain js where js: "choices ?n js" "random_handles js xs = butlast ?w" by blast
  have "random_handles (js @ [j]) (xs @ [x]) = swap_at ?w ?n j" using random_handles_snoc [OF js(1)] js(2) w by simp
  also have "\<dots> = zs" using j len by (simp add: swap_at_swap_at)
  finally show ?case using js(1) j(1) by (intro exI [of _ "js @ [j]"]) (simp add: choices_snoc)
qed (simp add: choices_def random_handles_def)

text \<open>Every order of different ends comes from exactly one sequence of random choices, so all orders are
  equally likely; and nothing but a reordering comes out.\<close>

theorem random_handles_fair:
  assumes "distinct kvh"
  shows "mset zs = mset kvh \<longleftrightarrow> (\<exists>!js. choices (length kvh) js \<and> random_handles js kvh = zs)"
  using random_handles_reach random_handles_unique [OF assms] random_handles_mset by metis

subsection \<open>Connections\<close>

lemma bindk_simps [simp]: "bindk (Inr x) f = f x" "bindk (Inl e) f = Inl e"
  by (simp_all add: bindk_def)

lemma bindk_Inr: "bindk r f = Inr y \<longleftrightarrow> (\<exists>x. r = Inr x \<and> f x = Inr y)"
  by (auto simp: bindk_def split: sum.splits)

text \<open>The ends of the present servers are all different and lead where they should.\<close>

definition hs_inv :: "nat \<Rightarrow> 'z harness_scheme \<Rightarrow> bool" where
  "hs_inv n cfg \<longleftrightarrow> hs_n cfg = n \<and> length (hs_endnames cfg) = n
     \<and> (\<forall>i < n. \<forall>es. hs_endnames cfg ! i = Some es \<longrightarrow> length es = n)
     \<and> (\<forall>i < n. \<forall>j < n. \<forall>e. hs_end cfg i j = Some e \<longrightarrow> e \<in> ends (hs_net cfg) \<and> connections (hs_net cfg) e = Some j)
     \<and> (\<forall>i < n. \<forall>j < n. \<forall>i' < n. \<forall>j' < n. \<forall>e. hs_end cfg i j = Some e \<and> hs_end cfg i' j' = Some e \<longrightarrow> i' = i \<and> j' = j)"

definition hs_started :: "'z harness_scheme \<Rightarrow> bool" where
  "hs_started cfg \<longleftrightarrow> None \<notin> set (hs_endnames cfg)"

lemma hs_inv_cong:
  assumes "hs_inv n cfg" "hs_n cfg' = hs_n cfg" "hs_endnames cfg' = hs_endnames cfg"
    and "ends (hs_net cfg) \<subseteq> ends (hs_net cfg')"
    and "\<And>e. e \<in> ends (hs_net cfg) \<Longrightarrow> connections (hs_net cfg') e = connections (hs_net cfg) e"
  shows "hs_inv n cfg'"
proof -
  have "hs_end cfg' = hs_end cfg" by (simp add: hs_end_def fun_eq_iff assms(3))
  with assms show ?thesis unfolding hs_inv_def by (simp add: subset_iff)
qed

lemma hs_end_started:
  assumes "hs_inv n cfg" "hs_started cfg" "i < n" "j < n"
  shows "\<exists>e. hs_end cfg i j = Some e" "\<not> hs_nil cfg i"
proof -
  have "i < length (hs_endnames cfg)" using assms(1,3) by (simp add: hs_inv_def)
  moreover from this assms(2) obtain es where "hs_endnames cfg ! i = Some es"
    by (metis hs_started_def not_None_eq nth_mem)
  ultimately show "\<exists>e. hs_end cfg i j = Some e" "\<not> hs_nil cfg i" using assms by (auto simp: hs_inv_def hs_end_def hs_nil_def)
qed

text \<open>Operations that only switch ends.\<close>

definition switches :: "'z harness_scheme \<Rightarrow> 'z harness_scheme \<Rightarrow> bool" where
  "switches cfg cfg' \<longleftrightarrow> (\<exists>f. cfg' = cfg\<lparr>hs_net := (hs_net cfg)\<lparr>enabled := f\<rparr>\<rparr>)"

lemma enable_ends_update:
  "enable_ends b es rn = rn\<lparr>enabled := (\<lambda>e. if e \<in> set es then b else enabled rn e)\<rparr>"
  by (induction es arbitrary: rn) (auto simp: enable_ends_def Enable_def fun_eq_iff)

lemma switches_trans: "switches a b \<Longrightarrow> switches b c \<Longrightarrow> switches a c"
  by (auto simp: switches_def)

lemma hs_switch_switches: "hs_switch b es cfg = Inr cfg' \<Longrightarrow> switches cfg cfg'"
  by (auto simp: hs_switch_def switches_def enable_ends_update split: if_splits)

lemma for_each_switches:
  "(\<And>x c c'. f x c = Inr c' \<Longrightarrow> switches c c') \<Longrightarrow> for_each f xs cfg = Inr cfg' \<Longrightarrow> switches cfg cfg'"
proof (induction xs arbitrary: cfg)
  case Nil
  then show ?case by (auto simp: switches_def intro: exI [of _ "enabled (hs_net cfg)"])
next
  case (Cons x xs)
  then show ?case by (fastforce simp: bindk_Inr intro: switches_trans)
qed

lemma connectUnlocked_switches: "connectUnlocked i to cfg = Inr cfg' \<Longrightarrow> switches cfg cfg'"
  by (simp add: connectUnlocked_def hs_switch_switches)

lemma disconnectUnlocked_switches: "disconnectUnlocked i to cfg = Inr cfg' \<Longrightarrow> switches cfg cfg'"
  by (simp add: disconnectUnlocked_def hs_switch_switches)

lemma ConnectAll_switches: "ConnectAll cfg = Inr cfg' \<Longrightarrow> switches cfg cfg'"
  unfolding ConnectAll_def by (rule for_each_switches [rotated]) (auto intro: connectUnlocked_switches)

lemma partition_side_switches: "partition_side p q cfg = Inr cfg' \<Longrightarrow> switches cfg cfg'"
  unfolding partition_side_def
  by (rule for_each_switches [rotated])
    (auto simp: bindk_Inr intro: switches_trans [OF disconnectUnlocked_switches connectUnlocked_switches])

lemma partition_switches: "hs_partition p1 p2 cfg = Inr cfg' \<Longrightarrow> switches cfg cfg'"
  by (auto simp: hs_partition_def bindk_Inr intro: switches_trans [OF partition_side_switches partition_side_switches])

lemma switches_inv:
  assumes "switches cfg cfg'"
  shows "hs_inv n cfg' \<longleftrightarrow> hs_inv n cfg" "hs_started cfg' \<longleftrightarrow> hs_started cfg" "hs_end cfg' = hs_end cfg"
    "hs_clerks cfg' = hs_clerks cfg" "hs_n cfg' = hs_n cfg" "hs_endnames cfg' = hs_endnames cfg"
proof -
  from assms obtain f where f: "cfg' = cfg\<lparr>hs_net := (hs_net cfg)\<lparr>enabled := f\<rparr>\<rparr>" by (auto simp: switches_def)
  show e: "hs_end cfg' = hs_end cfg" by (simp add: f hs_end_def fun_eq_iff)
  show "hs_inv n cfg' \<longleftrightarrow> hs_inv n cfg" unfolding hs_inv_def e by (simp add: f)
qed (use assms in \<open>auto simp: switches_def hs_started_def\<close>)

lemma map_enumerate: "length ks \<le> L \<Longrightarrow> map (\<lambda>(j, k). if j < L then g k else None) (enumerate 0 ks) = map g ks"
  by (rule nth_equalityI) (auto simp: nth_enumerate_eq)

lemma disconnect_started:
  assumes "hs_inv n cfg" "hs_started cfg" "i < n" "length ks \<le> n"
  shows "disconnectUnlocked i ks cfg = hs_switch False (map (\<lambda>k. hs_end cfg i k) ks @ map (\<lambda>k. hs_end cfg k i) ks) cfg"
proof -
  have len: "length (hs_endnames cfg) = n" using assms(1) by (simp add: hs_inv_def)
  have nil: "\<not> hs_nil cfg k" if "k < n" for k using hs_end_started(2) [OF assms(1,2) that that] .
  have "filter (\<lambda>(j, k). \<not> hs_nil cfg j) (enumerate 0 ks) = enumerate 0 ks"
    using nil assms(4) by (auto simp: filter_id_conv in_set_enumerate_eq)
  then show ?thesis using nil [OF assms(3)] map_enumerate [OF assms(4), of "\<lambda>k. hs_end cfg k i"]
    by (simp add: disconnectUnlocked_def len)
qed

text \<open>Switching the ends between \<open>i\<close> and the servers \<open>ks\<close>, in both directions.\<close>

lemma hs_switch_between:
  assumes "hs_inv n cfg" "hs_started cfg" "i < n" "set ks \<subseteq> {..<n}"
  obtains f where
    "hs_switch b (map (\<lambda>k. hs_end cfg i k) ks @ map (\<lambda>k. hs_end cfg k i) ks) cfg
       = Inr (cfg\<lparr>hs_net := (hs_net cfg)\<lparr>enabled := f\<rparr>\<rparr>)"
    "\<forall>a < n. \<forall>c < n. f (the (hs_end cfg a c)) \<longleftrightarrow>
       (if a = i \<and> c \<in> set ks \<or> c = i \<and> a \<in> set ks then b else enabled (hs_net cfg) (the (hs_end cfg a c)))"
    "\<forall>e. (\<forall>a < n. \<forall>c < n. hs_end cfg a c \<noteq> Some e) \<longrightarrow> f e = enabled (hs_net cfg) e"
proof -
  let ?es = "map (\<lambda>k. hs_end cfg i k) ks @ map (\<lambda>k. hs_end cfg k i) ks"
  let ?f = "\<lambda>e. if e \<in> set (map the ?es) then b else enabled (hs_net cfg) e"
  note up = hs_end_started(1) [OF assms(1,2)]
  have inj: "hs_end cfg a c = hs_end cfg a' c' \<longleftrightarrow> a = a' \<and> c = c'" if "a < n" "c < n" "a' < n" "c' < n" for a c a' c'
    using up [OF that(1,2)] assms(1) that unfolding hs_inv_def by metis
  have none: "None \<notin> set ?es" using up assms(3,4) by force
  have mem: "e \<in> set (map the ?es) \<longleftrightarrow> (\<exists>k \<in> set ks. hs_end cfg i k = Some e \<or> hs_end cfg k i = Some e)" for e
  proof -
    have m: "Some e \<in> set (map g ks) \<longleftrightarrow> (\<exists>k \<in> set ks. g k = Some e)" for g by (induction ks) auto
    show ?thesis unfolding the_map [OF none] set_append Un_iff m by blast
  qed
  have at: "the (hs_end cfg a c) \<in> set (map the ?es) \<longleftrightarrow> a = i \<and> c \<in> set ks \<or> c = i \<and> a \<in> set ks" if "a < n" "c < n" for a c
  proof -
    obtain e where e: "hs_end cfg a c = Some e" using up [OF \<open>a < n\<close> \<open>c < n\<close>] by blast
    have "hs_end cfg i k = Some e \<longleftrightarrow> i = a \<and> k = c" "hs_end cfg k i = Some e \<longleftrightarrow> k = a \<and> i = c" if "k \<in> set ks" for k
      using inj [of i k a c] inj [of k i a c] e \<open>a < n\<close> \<open>c < n\<close> that assms(3,4) by auto
    then show ?thesis unfolding mem e option.sel by auto
  qed
  have "?f e = enabled (hs_net cfg) e" if "\<forall>a < n. \<forall>c < n. hs_end cfg a c \<noteq> Some e" for e
  proof -
    have "e \<notin> set (map the ?es)" unfolding mem using that assms(3,4) by auto
    then show ?thesis by simp
  qed
  then show thesis
    using none at by (intro that [of ?f]) (simp_all only: hs_switch_def enable_ends_update if_False simp_thms, simp_all)
qed

text \<open>One server of a part: it is cut off from the other part and connected to its own.\<close>

lemma partition_one:
  assumes inv: "hs_inv n cfg" "hs_started cfg" and i: "i < n"
    and p: "set p \<subseteq> {..<n}" and q: "set q \<subseteq> {..<n}" "length q \<le> n" and dis: "set p \<inter> set q = {}"
  obtains f where
    "bindk (disconnectUnlocked i q cfg) (connectUnlocked i p) = Inr (cfg\<lparr>hs_net := (hs_net cfg)\<lparr>enabled := f\<rparr>\<rparr>)"
    "\<forall>a < n. \<forall>c < n. f (the (hs_end cfg a c)) \<longleftrightarrow>
       (if a = i \<and> c \<in> set p \<or> c = i \<and> a \<in> set p then True
        else if a = i \<and> c \<in> set q \<or> c = i \<and> a \<in> set q then False else enabled (hs_net cfg) (the (hs_end cfg a c)))"
    "\<forall>e. (\<forall>a < n. \<forall>c < n. hs_end cfg a c \<noteq> Some e) \<longrightarrow> f e = enabled (hs_net cfg) e"
proof -
  obtain f where f: "disconnectUnlocked i q cfg = Inr (cfg\<lparr>hs_net := (hs_net cfg)\<lparr>enabled := f\<rparr>\<rparr>)"
    "\<forall>a < n. \<forall>c < n. f (the (hs_end cfg a c)) \<longleftrightarrow>
       (if a = i \<and> c \<in> set q \<or> c = i \<and> a \<in> set q then False else enabled (hs_net cfg) (the (hs_end cfg a c)))"
    "\<forall>e. (\<forall>a < n. \<forall>c < n. hs_end cfg a c \<noteq> Some e) \<longrightarrow> f e = enabled (hs_net cfg) e"
    unfolding disconnect_started [OF inv i q(2)] by (rule hs_switch_between [OF inv i q(1), of False])
  let ?c = "cfg\<lparr>hs_net := (hs_net cfg)\<lparr>enabled := f\<rparr>\<rparr>"
  have "switches cfg ?c" by (auto simp: switches_def)
  note sw = switches_inv [OF this]
  obtain g where g: "connectUnlocked i p ?c = Inr (?c\<lparr>hs_net := (hs_net ?c)\<lparr>enabled := g\<rparr>\<rparr>)"
    "\<forall>a < n. \<forall>c < n. g (the (hs_end cfg a c)) \<longleftrightarrow>
       (if a = i \<and> c \<in> set p \<or> c = i \<and> a \<in> set p then True else enabled (hs_net ?c) (the (hs_end cfg a c)))"
    "\<forall>e. (\<forall>a < n. \<forall>c < n. hs_end cfg a c \<noteq> Some e) \<longrightarrow> g e = enabled (hs_net ?c) e"
    using hs_switch_between [of n ?c i p True, unfolded sw(1-3), OF inv i p] unfolding connectUnlocked_def sw(3) by blast
  show thesis
  proof (rule that [of g])
    show "bindk (disconnectUnlocked i q cfg) (connectUnlocked i p) = Inr (cfg\<lparr>hs_net := (hs_net cfg)\<lparr>enabled := g\<rparr>\<rparr>)"
      using f(1) g(1) by simp
  qed (use f(2,3) g(2,3) in simp_all)
qed

text \<open>The loop over the servers of one part.\<close>

lemma partition_loop:
  assumes "hs_inv n cfg" "hs_started cfg" "set xs \<subseteq> set p"
    and p: "set p \<subseteq> {..<n}" and q: "set q \<subseteq> {..<n}" "length q \<le> n" and dis: "set p \<inter> set q = {}"
  obtains f where
    "for_each (\<lambda>i cfg. bindk (disconnectUnlocked i q cfg) (connectUnlocked i p)) xs cfg
       = Inr (cfg\<lparr>hs_net := (hs_net cfg)\<lparr>enabled := f\<rparr>\<rparr>)"
    "\<forall>a < n. \<forall>c < n. f (the (hs_end cfg a c)) \<longleftrightarrow>
       (if a \<in> set xs \<and> c \<in> set p \<or> c \<in> set xs \<and> a \<in> set p then True
        else if a \<in> set xs \<and> c \<in> set q \<or> c \<in> set xs \<and> a \<in> set q then False
        else enabled (hs_net cfg) (the (hs_end cfg a c)))"
    "\<forall>e. (\<forall>a < n. \<forall>c < n. hs_end cfg a c \<noteq> Some e) \<longrightarrow> f e = enabled (hs_net cfg) e"
  using assms(1-3)
proof (induction xs arbitrary: cfg thesis)
  case Nil
  show ?case by (rule Nil.prems(1) [of "enabled (hs_net cfg)"]) simp_all
next
  case (Cons i xs)
  have i: "i < n" "i \<in> set p" "i \<notin> set q" "set xs \<subseteq> set p" using Cons.prems(4) p dis by auto
  obtain f where f: "bindk (disconnectUnlocked i q cfg) (connectUnlocked i p) = Inr (cfg\<lparr>hs_net := (hs_net cfg)\<lparr>enabled := f\<rparr>\<rparr>)"
    "\<forall>a < n. \<forall>c < n. f (the (hs_end cfg a c)) \<longleftrightarrow>
       (if a = i \<and> c \<in> set p \<or> c = i \<and> a \<in> set p then True
        else if a = i \<and> c \<in> set q \<or> c = i \<and> a \<in> set q then False else enabled (hs_net cfg) (the (hs_end cfg a c)))"
    "\<forall>e. (\<forall>a < n. \<forall>c < n. hs_end cfg a c \<noteq> Some e) \<longrightarrow> f e = enabled (hs_net cfg) e"
    by (rule partition_one [OF Cons.prems(2,3) i(1) p q dis])
  let ?c = "cfg\<lparr>hs_net := (hs_net cfg)\<lparr>enabled := f\<rparr>\<rparr>"
  have "switches cfg ?c" by (auto simp: switches_def)
  note sw = switches_inv [OF this]
  obtain g where g: "for_each (\<lambda>i cfg. bindk (disconnectUnlocked i q cfg) (connectUnlocked i p)) xs ?c
       = Inr (?c\<lparr>hs_net := (hs_net ?c)\<lparr>enabled := g\<rparr>\<rparr>)"
    "\<forall>a < n. \<forall>c < n. g (the (hs_end cfg a c)) \<longleftrightarrow>
       (if a \<in> set xs \<and> c \<in> set p \<or> c \<in> set xs \<and> a \<in> set p then True
        else if a \<in> set xs \<and> c \<in> set q \<or> c \<in> set xs \<and> a \<in> set q then False
        else enabled (hs_net ?c) (the (hs_end cfg a c)))"
    "\<forall>e. (\<forall>a < n. \<forall>c < n. hs_end cfg a c \<noteq> Some e) \<longrightarrow> g e = enabled (hs_net ?c) e"
    using Cons.IH [of ?c, unfolded sw(1-3), OF _ Cons.prems(2,3) i(4)] by blast
  show ?case
  proof (rule Cons.prems(1) [of g])
    show "for_each (\<lambda>i cfg. bindk (disconnectUnlocked i q cfg) (connectUnlocked i p)) (i # xs) cfg
       = Inr (cfg\<lparr>hs_net := (hs_net cfg)\<lparr>enabled := g\<rparr>\<rparr>)" using f(1) g(1) by simp
    have "a \<in> set xs \<Longrightarrow> a \<notin> set q" "a \<in> set p \<Longrightarrow> a \<notin> set q" for a using i(4) dis by auto
    with f(2) g(2) i(2-) show "\<forall>a < n. \<forall>c < n. g (the (hs_end cfg a c)) \<longleftrightarrow>
       (if a \<in> set (i # xs) \<and> c \<in> set p \<or> c \<in> set (i # xs) \<and> a \<in> set p then True
        else if a \<in> set (i # xs) \<and> c \<in> set q \<or> c \<in> set (i # xs) \<and> a \<in> set q then False
        else enabled (hs_net cfg) (the (hs_end cfg a c)))" by auto
  qed (use f(3) g(3) in simp)
qed

text \<open>\<open>partition\<close> for two parts that make up all servers: it enables exactly the ends within each part, and
  leaves the ends of the clients alone.\<close>

lemma partition_sides:
  assumes inv: "hs_inv n cfg" "hs_started cfg" and p: "set p1 \<union> set p2 = {..<n}" "set p1 \<inter> set p2 = {}"
    and len: "length p1 \<le> n" "length p2 \<le> n"
  obtains f where
    "hs_partition p1 p2 cfg = Inr (cfg\<lparr>hs_net := (hs_net cfg)\<lparr>enabled := f\<rparr>\<rparr>)"
    "\<forall>a < n. \<forall>c < n. f (the (hs_end cfg a c)) \<longleftrightarrow> (a \<in> set p1 \<longleftrightarrow> c \<in> set p1)"
    "\<forall>e. (\<forall>a < n. \<forall>c < n. hs_end cfg a c \<noteq> Some e) \<longrightarrow> f e = enabled (hs_net cfg) e"
proof -
  have sub: "set p1 \<subseteq> {..<n}" "set p2 \<subseteq> {..<n}" using p(1) by blast+
  obtain f where f: "partition_side p1 p2 cfg = Inr (cfg\<lparr>hs_net := (hs_net cfg)\<lparr>enabled := f\<rparr>\<rparr>)"
    "\<forall>a < n. \<forall>c < n. f (the (hs_end cfg a c)) \<longleftrightarrow>
       (if a \<in> set p1 \<and> c \<in> set p1 \<or> c \<in> set p1 \<and> a \<in> set p1 then True
        else if a \<in> set p1 \<and> c \<in> set p2 \<or> c \<in> set p1 \<and> a \<in> set p2 then False
        else enabled (hs_net cfg) (the (hs_end cfg a c)))"
    "\<forall>e. (\<forall>a < n. \<forall>c < n. hs_end cfg a c \<noteq> Some e) \<longrightarrow> f e = enabled (hs_net cfg) e"
    unfolding partition_side_def by (rule partition_loop [OF inv order_refl sub len(2) p(2)])
  let ?c = "cfg\<lparr>hs_net := (hs_net cfg)\<lparr>enabled := f\<rparr>\<rparr>"
  have "switches cfg ?c" by (auto simp: switches_def)
  note sw = switches_inv [OF this]
  have dis: "set p2 \<inter> set p1 = {}" using p(2) by blast
  obtain g where g: "partition_side p2 p1 ?c = Inr (?c\<lparr>hs_net := (hs_net ?c)\<lparr>enabled := g\<rparr>\<rparr>)"
    "\<forall>a < n. \<forall>c < n. g (the (hs_end cfg a c)) \<longleftrightarrow>
       (if a \<in> set p2 \<and> c \<in> set p2 \<or> c \<in> set p2 \<and> a \<in> set p2 then True
        else if a \<in> set p2 \<and> c \<in> set p1 \<or> c \<in> set p2 \<and> a \<in> set p1 then False
        else enabled (hs_net ?c) (the (hs_end cfg a c)))"
    "\<forall>e. (\<forall>a < n. \<forall>c < n. hs_end cfg a c \<noteq> Some e) \<longrightarrow> g e = enabled (hs_net ?c) e"
    unfolding partition_side_def
    using partition_loop [of n ?c p2 p2 p1, unfolded sw(1-3), OF inv order_refl sub(2,1) len(1) dis] by blast
  show thesis
  proof (rule that [of g])
    show "hs_partition p1 p2 cfg = Inr (cfg\<lparr>hs_net := (hs_net cfg)\<lparr>enabled := g\<rparr>\<rparr>)"
      using f(1) g(1) by (simp add: hs_partition_def)
    have "a < n \<Longrightarrow> a \<in> set p2 \<longleftrightarrow> a \<notin> set p1" for a using p by auto
    with f(2) g(2) show "\<forall>a < n. \<forall>c < n. g (the (hs_end cfg a c)) \<longleftrightarrow> (a \<in> set p1 \<longleftrightarrow> c \<in> set p1)" by simp
  qed (use f(3) g(3) in simp)
qed

subsection \<open>The parts of \<open>make_partition\<close>\<close>

lemma list_update_sides:
  "(p1 @ p2)[j := i] = (if j < length p1 then p1[j := i] @ p2 else p1 @ p2[j - length p1 := i])"
  by (auto simp: list_update_append)

lemma fill_parts_eq:
  assumes "j + length (filter (\<lambda>i. i \<noteq> l) is) \<le> length p1 + length p2"
  obtains q1 q2 where "fill_parts l is p1 p2 j = Some (q1, q2)" "length q1 = length p1" "length q2 = length p2"
    "q1 @ q2 = take j (p1 @ p2) @ filter (\<lambda>i. i \<noteq> l) is @ drop (j + length (filter (\<lambda>i. i \<noteq> l) is)) (p1 @ p2)"
  using assms
proof (induction "is" arbitrary: p1 p2 j thesis)
  case Nil
  show ?case by (rule Nil.prems(1) [of p1 p2]) (simp_all add: append_take_drop_id del: take_append drop_append)
next
  case (Cons i "is")
  show ?case
  proof (cases "i = l")
    case True
    with Cons.prems(2) obtain q1 q2 where "fill_parts l is p1 p2 j = Some (q1, q2)" "length q1 = length p1" "length q2 = length p2"
      "q1 @ q2 = take j (p1 @ p2) @ filter (\<lambda>i. i \<noteq> l) is @ drop (j + length (filter (\<lambda>i. i \<noteq> l) is)) (p1 @ p2)"
      using Cons.IH [of p1 p2 j] by auto
    with True show ?thesis by (intro Cons.prems(1) [of q1 q2]) simp_all
  next
    case False
    let ?fs = "filter (\<lambda>i. i \<noteq> l) is"
    define r1 where "r1 = (if j < length p1 then p1[j := i] else p1)"
    define r2 where "r2 = (if j < length p1 then p2 else p2[j - length p1 := i])"
    have r: "r1 @ r2 = (p1 @ p2)[j := i]" "length r1 = length p1" "length r2 = length p2"
      by (auto simp: r1_def r2_def list_update_append)
    have j: "j < length (p1 @ p2)" "j + 1 + length ?fs \<le> length r1 + length r2" using Cons.prems(2) False r by auto
    have step: "fill_parts l (i # is) p1 p2 j = fill_parts l is r1 r2 (j + 1)"
    proof -
      have "nat (int j - int (length p1)) = j - length p1" by linarith
      with False j(1) show ?thesis by (simp add: r1_def r2_def go_upd_def)
    qed
    obtain q1 q2 where q: "fill_parts l is r1 r2 (j + 1) = Some (q1, q2)" "length q1 = length r1" "length q2 = length r2"
      "q1 @ q2 = take (j + 1) (r1 @ r2) @ ?fs @ drop (j + 1 + length ?fs) (r1 @ r2)"
      using Cons.IH [of r1 r2 "j + 1"] j(2) by blast
    have "take (j + 1) (r1 @ r2) = take j (p1 @ p2) @ [i]" unfolding r(1) using j(1)
      by (simp add: take_Suc_conv_app_nth del: take_append)
    moreover have "drop (j + 1 + length ?fs) (r1 @ r2) = drop (j + 1 + length ?fs) (p1 @ p2)" unfolding r(1) by simp
    ultimately show ?thesis using q r(2,3) False step by (intro Cons.prems(1) [of q1 q2]) simp_all
  qed
qed

lemma without_leader: "l < n \<Longrightarrow> length (filter (\<lambda>i. i \<noteq> l) [0..<n]) = n - 1"
proof -
  assume l: "l < n"
  have "set (filter (\<lambda>i. i \<noteq> l) [0..<n]) = {0..<n} - {l}" by auto
  then have "card (set (filter (\<lambda>i. i \<noteq> l) [0..<n])) = n - 1" using l by (simp add: card_Diff_singleton)
  moreover have "distinct (filter (\<lambda>i. i \<noteq> l) [0..<n])" by simp
  ultimately show ?thesis by (metis distinct_card)
qed

lemma last_update: "ys \<noteq> [] \<Longrightarrow> ys[length ys - 1 := x] = butlast ys @ [x]"
  by (cases ys rule: rev_cases) auto

text \<open>The parts in a row: the other servers, then what was not filled, then the leader.\<close>

lemma make_parts_eq:
  assumes "l < n" "1 < n"
  obtains p1 p2 where "make_parts n l = Inr (p1, p2)" "length p1 = n div 2 + 1" "length p2 = n div 2"
    "p1 @ p2 = filter (\<lambda>i. i \<noteq> l) [0..<n] @ (if odd n then [l] else [0, l])"
proof -
  let ?fs = "filter (\<lambda>i. i \<noteq> l) [0..<n]" and ?z1 = "replicate (n div 2 + 1) (0 :: nat)" and ?z2 = "replicate (n div 2) (0 :: nat)"
  have len: "length ?fs = n - 1" by (rule without_leader [OF assms(1)])
  have room: "0 + length ?fs \<le> length ?z1 + length ?z2" unfolding len by simp
  obtain p1 p2 where p: "fill_parts l [0..<n] ?z1 ?z2 0 = Some (p1, p2)" "length p1 = length ?z1" "length p2 = length ?z2"
    "p1 @ p2 = take 0 (?z1 @ ?z2) @ ?fs @ drop (0 + length ?fs) (?z1 @ ?z2)" by (rule fill_parts_eq [OF room])
  let ?q = "butlast p2 @ [l]"
  have ne: "p2 \<noteq> []" using p(3) assms(2) by auto
  have "?z1 @ ?z2 = replicate (2 * (n div 2) + 1) 0" by (simp add: replicate_add [symmetric] mult_2)
  then have "p1 @ p2 = ?fs @ replicate (2 * (n div 2) + 1 - (n - 1)) 0"
    using p(4) len by (simp only: take_0 append_Nil add_0 drop_replicate)
  also have "2 * (n div 2) + 1 - (n - 1) = (if odd n then 1 else 2)" using assms(2) by (auto elim!: evenE oddE)
  finally have all: "p1 @ p2 = ?fs @ (if odd n then [0] else [0, 0])" by (simp add: numeral_2_eq_2 split: if_splits)
  have "p1 @ ?q = butlast (p1 @ p2) @ [l]" using ne by (simp add: butlast_append)
  then have row: "p1 @ ?q = ?fs @ (if odd n then [l] else [0, l])" unfolding all by (simp add: butlast_append)
  have "go_upd p2 (go_len p2 - 1) l = Some ?q"
    using ne last_update [OF ne, of l] by (simp add: go_upd_def go_len_def nat_diff_distrib Suc_le_eq)
  then have "make_parts n l = Inr (p1, ?q)" using p(1) by (simp add: make_parts_def)
  moreover have "length ?q = n div 2" using p(3) ne by (cases p2 rule: rev_cases) simp_all
  ultimately show thesis using p(2) row by (intro that [of p1 ?q]) simp_all
qed

text \<open>With an even number of servers a place of the minority is left at its zero value: server 0 stands in
  both parts when it does not lead, so that no partition is set up.\<close>

theorem make_parts_even:
  assumes "even n" "0 < l" "l < n" "2 < n"
  shows "\<exists>p1 p2. make_parts n l = Inr (p1, p2) \<and> 0 \<in> set p1 \<and> 0 \<in> set p2"
proof -
  from assms obtain p1 p2 where p: "make_parts n l = Inr (p1, p2)" "length p1 = n div 2 + 1" "length p2 = n div 2"
    "p1 @ p2 = filter (\<lambda>i. i \<noteq> l) [0..<n] @ [0, l]" using make_parts_eq [of l n] by auto
  have "p2 = drop (length p1) (filter (\<lambda>i. i \<noteq> l) [0..<n]) @ [0, l]"
    using p(2-4) without_leader [OF assms(3)] assms(1,4) by (auto simp: append_eq_append_conv_if elim!: evenE)
  moreover have "hd (p1 @ p2) = 0" unfolding p(4) using assms(2,3) by (simp add: upt_conv_Cons)
  then have "0 \<in> set p1" using p(2) by (metis One_nat_def add_gr_0 hd_append2 hd_in_set length_0_conv less_numeral_extra(3) zero_less_Suc)
  ultimately show ?thesis using p(1) by auto
qed

subsection \<open>Runs of a harness\<close>

text \<open>The ends of the clerks are none of the ends of the servers.\<close>

definition hs_clients :: "nat \<Rightarrow> 'z harness_scheme \<Rightarrow> bool" where
  "hs_clients n cfg \<longleftrightarrow> (\<forall>ck es e. hs_clerks cfg ck = Some es \<and> e \<in> set es \<longrightarrow>
     e \<in> ends (hs_net cfg) \<and> (\<forall>a < n. \<forall>c < n. hs_end cfg a c \<noteq> Some e))"

text \<open>Steps that leave the ends as they are, or add one for each of some new names.\<close>

lemma hs_step_cong:
  assumes "hs_n cfg' = hs_n cfg" "hs_endnames cfg' = hs_endnames cfg" "hs_clerks cfg' = hs_clerks cfg"
    and "ends (hs_net cfg') = ends (hs_net cfg)" "connections (hs_net cfg') = connections (hs_net cfg)"
  shows "hs_inv n cfg' \<longleftrightarrow> hs_inv n cfg" "hs_started cfg' \<longleftrightarrow> hs_started cfg" "hs_clients n cfg' \<longleftrightarrow> hs_clients n cfg"
proof -
  have "hs_end cfg' = hs_end cfg" by (simp add: hs_end_def fun_eq_iff assms(2))
  with assms show "hs_inv n cfg' \<longleftrightarrow> hs_inv n cfg" "hs_started cfg' \<longleftrightarrow> hs_started cfg" "hs_clients n cfg' \<longleftrightarrow> hs_clients n cfg"
    unfolding hs_inv_def hs_started_def hs_clients_def by simp_all
qed

lemma switches_cong:
  "switches cfg cfg' \<Longrightarrow> hs_inv n cfg' \<longleftrightarrow> hs_inv n cfg" "switches cfg cfg' \<Longrightarrow> hs_started cfg' \<longleftrightarrow> hs_started cfg"
  "switches cfg cfg' \<Longrightarrow> hs_clients n cfg' \<longleftrightarrow> hs_clients n cfg"
  unfolding switches_def by (elim exE, rule hs_step_cong; simp)+

lemma hs_end_update:
  assumes "length (hs_endnames cfg) = n" "i < n"
  shows "hs_end (cfg\<lparr>hs_endnames := (hs_endnames cfg)[i := Some names], hs_net := rn\<rparr>) a c
    = (if a = i then if c < length names then Some (names ! c) else None else hs_end cfg a c)"
  using assms by (auto simp: hs_end_def)

lemma new_server_ends:
  assumes inv: "hs_inv n cfg" and i: "i < n" and len: "length names = n"
    and mk: "cf_make_ends 0 names (hs_net cfg) = (Inr rn :: (Op, (string, nat) Network) checkedt)"
  shows "hs_inv n (cfg\<lparr>hs_endnames := (hs_endnames cfg)[i := Some names], hs_net := rn\<rparr>)"
    "hs_clients n cfg \<Longrightarrow> hs_clients n (cfg\<lparr>hs_endnames := (hs_endnames cfg)[i := Some names], hs_net := rn\<rparr>)"
proof -
  let ?c = "cfg\<lparr>hs_endnames := (hs_endnames cfg)[i := Some names], hs_net := rn\<rparr>"
  note m = cf_make_ends_sel [OF mk]
  have l: "length (hs_endnames cfg) = n" using inv by (simp add: hs_inv_def)
  note e = hs_end_update [OF l i, where names = names and rn = rn]
  have old: "e' \<in> ends (hs_net cfg)" "e' \<notin> set names" "connections rn e' = Some c" if "a < n" "c < n" "hs_end cfg a c = Some e'" for a c e'
  proof -
    show k: "e' \<in> ends (hs_net cfg)" using inv that unfolding hs_inv_def by blast
    with m(2) show "e' \<notin> set names" by blast
    with m(5) [of e'] inv that show "connections rn e' = Some c" unfolding hs_inv_def by metis
  qed
  have new: "names ! c \<in> ends rn" "connections rn (names ! c) = Some c" if "c < n" for c using m(3,6) that len by auto
  have at: "e' \<in> ends rn \<and> connections rn e' = Some c" if "a < n" "c < n" "hs_end ?c a c = Some e'" for a c e'
    using that old(1,3) [of a c e'] new [of c] m(3) len unfolding e by (auto split: if_splits)
  have inj: "a' = a \<and> c' = c"
    if "a < n" "c < n" "a' < n" "c' < n" "hs_end ?c a c = Some e'" "hs_end ?c a' c' = Some e'" for a c a' c' e'
  proof (cases "a = i \<or> a' = i")
    case True
    moreover have "e' \<in> set names \<longleftrightarrow> a = i" "e' \<in> set names \<longleftrightarrow> a' = i"
      using that old(2) [of a c e'] old(2) [of a' c' e'] len unfolding e by (auto split: if_splits)
    ultimately show ?thesis using that m(1) len unfolding e by (auto simp: nth_eq_iff_index_eq)
  next
    case False
    with that inv show ?thesis unfolding e hs_inv_def by (metis (no_types, lifting))
  qed
  have lens: "\<forall>a < n. \<forall>es. hs_endnames ?c ! a = Some es \<longrightarrow> length es = n"
    using inv len l i by (auto simp: hs_inv_def nth_list_update split: if_splits)
  from lens at inj show "hs_inv n ?c" using inv by (simp add: hs_inv_def)
  show "hs_clients n ?c" if "hs_clients n cfg"
  proof -
    have "e' \<in> ends rn \<and> hs_end ?c a c \<noteq> Some e'"
      if "hs_clerks cfg ck = Some es" "e' \<in> set es" "a < n" "c < n" for ck es e' a c
    proof -
      have k: "e' \<in> ends (hs_net cfg)" "hs_end cfg a c \<noteq> Some e'"
        using \<open>hs_clients n cfg\<close> that unfolding hs_clients_def by blast+
      then have "e' \<notin> set names" using m(2) by blast
      with k show ?thesis unfolding e using m(3) len that by auto
    qed
    moreover have "e' \<in> ends rn" if "hs_clerks cfg ck = Some es" "e' \<in> set es" for ck es e'
      using \<open>hs_clients n cfg\<close> that m(3) unfolding hs_clients_def by blast
    ultimately show ?thesis by (simp add: hs_clients_def) blast
  qed
qed

lemma makeClient_ok:
  assumes inv: "hs_inv n cfg" "hs_started cfg" "hs_clients n cfg"
    and mk: "makeClient to names js rand ck cfg = Inr (clerk, handles, cfg')"
  shows "hs_inv n cfg'" "hs_started cfg'" "hs_clients n cfg'"
proof -
  from mk obtain rn where rn: "cf_make_ends 0 names (hs_net cfg) = (Inr rn :: (Op, (string, nat) Network) checkedt)"
    and c: "ConnectClient ck to (cfg\<lparr>hs_net := rn, hs_clerks := (hs_clerks cfg)(ck \<mapsto> names),
        hs_nextClientId := hs_nextClientId cfg + 1\<rparr>) = Inr cfg'" (is "ConnectClient ck to ?c = _")
    by (auto simp: makeClient_def bindk_Inr Let_def)
  note m = cf_make_ends_sel [OF rn]
  have sw: "switches ?c cfg'" using c unfolding ConnectClient_def by (rule hs_switch_switches)
  have e: "hs_end ?c = hs_end cfg" by (simp add: hs_end_def fun_eq_iff)
  have "connections rn e = connections (hs_net cfg) e" if "e \<in> ends (hs_net cfg)" for e using m(2,5) that by blast
  then have "hs_inv n ?c" using inv(1) m(3) by (intro hs_inv_cong [OF inv(1)]) auto
  then show "hs_inv n cfg'" using switches_cong(1) [OF sw] by blast
  show "hs_started cfg'" unfolding switches_cong(2) [OF sw] using inv(2) by (simp add: hs_started_def)
  have "hs_end cfg a d \<noteq> Some x" if "x \<in> set names" "a < n" "d < n" for x a d
    using inv(1) m(2) that unfolding hs_inv_def by blast
  then have "hs_clients n ?c" unfolding hs_clients_def e using inv(3) m(3) by (auto simp: hs_clients_def)
  then show "hs_clients n cfg'" using switches_cong(3) [OF sw] by blast
qed

definition hs_ok :: "nat \<Rightarrow> 'z harness_scheme \<Rightarrow> bool" where
  "hs_ok n cfg \<longleftrightarrow> hs_inv n cfg \<and> hs_started cfg \<and> hs_clients n cfg"

lemma hs_ok_switches: "switches cfg cfg' \<Longrightarrow> hs_ok n cfg' \<longleftrightarrow> hs_ok n cfg"
  unfolding hs_ok_def by (simp add: switches_cong)

lemma hs_ok_cong:
  assumes "hs_n cfg' = hs_n cfg" "hs_endnames cfg' = hs_endnames cfg" "hs_clerks cfg' = hs_clerks cfg"
    and "ends (hs_net cfg') = ends (hs_net cfg)" "connections (hs_net cfg') = connections (hs_net cfg)"
  shows "hs_ok n cfg' \<longleftrightarrow> hs_ok n cfg"
  using hs_step_cong [OF assms] by (simp add: hs_ok_def)

lemma hs_ok_deleteClient: "hs_ok n cfg \<Longrightarrow> hs_ok n (deleteClient ck cfg)"
proof -
  have e: "hs_end (deleteClient ck cfg) = hs_end cfg" by (simp add: hs_end_def deleteClient_def fun_eq_iff)
  show "hs_ok n cfg \<Longrightarrow> hs_ok n (deleteClient ck cfg)"
    unfolding hs_ok_def hs_inv_def hs_clients_def hs_started_def e by (simp add: deleteClient_def)
qed

text \<open>What starting a server does to the common part.\<close>

lemma kc_StartServer_Inr:
  assumes "kc_StartServer i names srv cfg = Inr cfg'"
  obtains rn kv where "i < hs_n cfg" "cf_make_ends 0 names (hs_net cfg) = (Inr rn :: (Op, (string, nat) Network) checkedt)"
    "StartKVServer (int (hs_n cfg)) (int i) (case kc_persister cfg i of Some ps \<Rightarrow> ps_Copy ps | None \<Rightarrow> MakePersister)
       (kc_maxraftstate cfg) = Inr kv"
    "cfg' = cfg\<lparr>hs_endnames := (hs_endnames cfg)[i := Some names],
       kc_saved := (kc_saved cfg)[i := Some (case kc_persister cfg i of Some ps \<Rightarrow> ps_Copy ps | None \<Rightarrow> MakePersister)],
       kc_kvservers := (kc_kvservers cfg)[i := Some kv], hs_net := AddServer i srv rn\<rparr>"
proof -
  have p: "kc_persister (cfg\<lparr>hs_endnames := es\<rparr>) i = kc_persister cfg i" for es by (simp add: kc_persister_def split: option.split)
  let ?start = "StartKVServer (int (hs_n cfg)) (int i)
    (case kc_persister cfg i of Some ps \<Rightarrow> ps_Copy ps | None \<Rightarrow> MakePersister) (kc_maxraftstate cfg)"
  have i: "i < hs_n cfg" using assms by (auto simp: kc_StartServer_def split: if_splits)
  then obtain rn where rn: "cf_make_ends 0 names (hs_net cfg) = (Inr rn :: (Op, (string, nat) Network) checkedt)"
    using assms by (auto simp: kc_StartServer_def bindk_Inr Let_def)
  moreover from i rn assms obtain kv where kv: "?start = Inr kv"
    by (cases ?start) (simp_all add: kc_StartServer_def Let_def p)
  ultimately show thesis using i assms by (intro that [OF i rn kv]) (simp add: kc_StartServer_def Let_def p)
qed

lemma kc_StartServer_ok:
  assumes "kc_StartServer i names srv cfg = Inr cfg'" "hs_inv n cfg" "length names = n"
  shows "hs_inv n cfg'" "hs_clients n cfg \<Longrightarrow> hs_clients n cfg'" "hs_endnames cfg' = (hs_endnames cfg)[i := Some names]"
proof -
  from assms(1) obtain rn kv where c: "i < hs_n cfg"
    "cf_make_ends 0 names (hs_net cfg) = (Inr rn :: (Op, (string, nat) Network) checkedt)"
    "cfg' = cfg\<lparr>hs_endnames := (hs_endnames cfg)[i := Some names],
       kc_saved := (kc_saved cfg)[i := Some (case kc_persister cfg i of Some ps \<Rightarrow> ps_Copy ps | None \<Rightarrow> MakePersister)],
       kc_kvservers := (kc_kvservers cfg)[i := Some kv], hs_net := AddServer i srv rn\<rparr>" by (rule kc_StartServer_Inr)
  have i: "i < n" using c(1) assms(2) by (simp add: hs_inv_def)
  let ?c = "cfg\<lparr>hs_endnames := (hs_endnames cfg)[i := Some names], hs_net := rn\<rparr>"
  have "hs_inv n cfg' \<longleftrightarrow> hs_inv n ?c" "hs_clients n cfg' \<longleftrightarrow> hs_clients n ?c"
    by (rule hs_step_cong; simp add: c(3) AddServer_def)+
  then show "hs_inv n cfg'" "hs_clients n cfg \<Longrightarrow> hs_clients n cfg'"
    using new_server_ends [OF assms(2) i assms(3) c(2)] by blast+
qed (use assms(1) in \<open>auto elim: kc_StartServer_Inr\<close>)

lemma kc_start_all:
  assumes "for_each (\<lambda>i. kc_StartServer i (names i) (srvs i)) is cfg = Inr cfg'" "\<forall>i. length (names i) = n"
    and "hs_inv n cfg" "hs_clients n cfg"
  shows "hs_inv n cfg' \<and> hs_clients n cfg' \<and> (\<forall>i < n. i \<in> set is \<or> hs_endnames cfg ! i \<noteq> None \<longrightarrow> hs_endnames cfg' ! i \<noteq> None)"
  using assms(1,3,4)
proof (induction "is" arbitrary: cfg)
  case (Cons i "is")
  from Cons.prems(1) obtain c where c: "kc_StartServer i (names i) (srvs i) cfg = Inr c"
    "for_each (\<lambda>i. kc_StartServer i (names i) (srvs i)) is c = Inr cfg'" by (auto simp: bindk_Inr)
  have n: "length (names i) = n" using assms(2) by simp
  note s = kc_StartServer_ok [OF c(1) Cons.prems(2) n]
  have "length (hs_endnames cfg) = n" using Cons.prems(2) by (simp add: hs_inv_def)
  then have "k = i \<or> hs_endnames cfg ! k \<noteq> None \<Longrightarrow> hs_endnames c ! k \<noteq> None" if "k < n" for k
    using that by (cases "k = i") (simp_all add: s(3))
  then show ?case using Cons.IH [OF c(2) s(1) s(2) [OF Cons.prems(3)]] by auto
qed simp

lemma kc_make_config_ok:
  assumes "kc_make_config n unreliable maxraftstate names srvs = Inr cfg" "\<forall>i. length (names i) = n"
  shows "hs_ok n cfg"
proof -
  from assms(1) obtain c1 c2 where c: "for_each (\<lambda>i. kc_StartServer i (names i) (srvs i)) [0..<n] (kc_new n maxraftstate) = Inr c1"
    "ConnectAll c1 = Inr c2" "cfg = c2\<lparr>hs_net := Reliable (\<not> unreliable) (hs_net c2)\<rparr>"
    by (auto simp: kc_make_config_def bindk_Inr)
  have "hs_inv n (kc_new n maxraftstate)" "hs_clients n (kc_new n maxraftstate)"
    by (simp_all add: hs_inv_def hs_clients_def kc_new_def hs_end_def)
  note a = kc_start_all [OF c(1) assms(2) this]
  then have "hs_started c1" by (auto simp: hs_started_def in_set_conv_nth hs_inv_def)
  with a have "hs_ok n c1" by (simp add: hs_ok_def)
  then have "hs_ok n c2" using hs_ok_switches [OF ConnectAll_switches [OF c(2)]] by blast
  moreover have "hs_ok n cfg \<longleftrightarrow> hs_ok n c2" by (rule hs_ok_cong) (simp_all add: c(3) Reliable_def)
  ultimately show ?thesis by simp
qed

text \<open>Runs of the harness of \<open>kvraft\<close>: whatever a test does with it, while the servers go on.\<close>

inductive kv_tester_run :: "nat \<Rightarrow> kvconfig \<Rightarrow> bool" for n where
  made: "kc_make_config n unreliable maxraftstate names srvs = Inr cfg \<Longrightarrow> \<forall>i. length (names i) = n \<Longrightarrow> kv_tester_run n cfg"
| serves: "kv_tester_run n cfg \<Longrightarrow> length kvs = length (kc_kvservers cfg) \<Longrightarrow> kv_tester_run n (cfg\<lparr>kc_kvservers := kvs\<rparr>)"
| sends: "kv_tester_run n cfg \<Longrightarrow> kv_tester_run n (cfg\<lparr>hs_net := (hs_net cfg)\<lparr>rpcCount := k, rpcBytes := b\<rparr>\<rparr>)"
| begins: "kv_tester_run n cfg \<Longrightarrow> kv_tester_run n (kc_begin cfg)"
| counts: "kv_tester_run n cfg \<Longrightarrow> kv_tester_run n (kc_op cfg)"
| starts: "kv_tester_run n cfg \<Longrightarrow> length names = n \<Longrightarrow> kc_StartServer i names srv cfg = Inr cfg' \<Longrightarrow> kv_tester_run n cfg'"
| shuts: "kv_tester_run n cfg \<Longrightarrow> kc_ShutdownServer i cfg = Inr cfg' \<Longrightarrow> kv_tester_run n cfg'"
| connects: "kv_tester_run n cfg \<Longrightarrow> connectUnlocked i to cfg = Inr cfg' \<Longrightarrow> kv_tester_run n cfg'"
| disconnects: "kv_tester_run n cfg \<Longrightarrow> disconnectUnlocked i frm cfg = Inr cfg' \<Longrightarrow> kv_tester_run n cfg'"
| all: "kv_tester_run n cfg \<Longrightarrow> ConnectAll cfg = Inr cfg' \<Longrightarrow> kv_tester_run n cfg'"
| partitions: "kv_tester_run n cfg \<Longrightarrow> hs_partition p1 p2 cfg = Inr cfg' \<Longrightarrow> kv_tester_run n cfg'"
| client: "kv_tester_run n cfg \<Longrightarrow> makeClient to names js rand ck cfg = Inr (clerk, handles, cfg') \<Longrightarrow> kv_tester_run n cfg'"
| deletes: "kv_tester_run n cfg \<Longrightarrow> kv_tester_run n (deleteClient ck cfg)"
| connectsClient: "kv_tester_run n cfg \<Longrightarrow> ConnectClient ck to cfg = Inr cfg' \<Longrightarrow> kv_tester_run n cfg'"
| disconnectsClient: "kv_tester_run n cfg \<Longrightarrow> DisconnectClient ck frm cfg = Inr cfg' \<Longrightarrow> kv_tester_run n cfg'"

lemma kc_ShutdownServer_Inr:
  assumes "kc_ShutdownServer i cfg = Inr cfg'"
  obtains c where "disconnectUnlocked i (hs_All cfg) cfg = Inr c" "i < hs_n c"
    "cfg' = c\<lparr>hs_net := DeleteServer i (hs_net c), kc_saved := (kc_saved c)[i := map_option ps_Copy (kc_persister c i)],
       kc_kvservers := (kc_kvservers c)[i := None]\<rparr>"
proof -
  have p: "kc_persister (c\<lparr>hs_net := rn\<rparr>) i = kc_persister c i" for rn c by (simp add: kc_persister_def split: option.split)
  show thesis using assms that by (auto simp: kc_ShutdownServer_def bindk_Inr Let_def p split: if_splits)
qed

lemma kc_ShutdownServer_ok:
  assumes "kc_ShutdownServer i cfg = Inr cfg'" "hs_ok n cfg"
  shows "hs_ok n cfg'"
proof -
  from assms(1) obtain c where c: "disconnectUnlocked i (hs_All cfg) cfg = Inr c"
    "cfg' = c\<lparr>hs_net := DeleteServer i (hs_net c), kc_saved := (kc_saved c)[i := map_option ps_Copy (kc_persister c i)],
       kc_kvservers := (kc_kvservers c)[i := None]\<rparr>" by (rule kc_ShutdownServer_Inr)
  have "hs_ok n c" using assms(2) hs_ok_switches [OF disconnectUnlocked_switches [OF c(1)]] by blast
  moreover have "hs_ok n cfg' \<longleftrightarrow> hs_ok n c" by (rule hs_ok_cong) (simp_all add: c(2) DeleteServer_def)
  ultimately show ?thesis by simp
qed

lemma kv_tester_ok: "kv_tester_run n cfg \<Longrightarrow> hs_ok n cfg"
proof (induction rule: kv_tester_run.induct)
  case (made unreliable maxraftstate names srvs cfg)
  then show ?case by (rule kc_make_config_ok)
next
  case (starts cfg names i srv cfg')
  then have "hs_inv n cfg" "hs_clients n cfg" "hs_started cfg" by (simp_all add: hs_ok_def)
  moreover have "None \<notin> set ((hs_endnames cfg)[i := Some names])" if "hs_started cfg"
    using that set_update_subset_insert [of "hs_endnames cfg" i "Some names"] by (auto simp: hs_started_def)
  ultimately show ?case using kc_StartServer_ok [OF starts(3) _ starts(2)] by (simp add: hs_ok_def hs_started_def)
next
  case (client cfg to names js rand ck clerk handles cfg')
  then show ?case using makeClient_ok by (metis hs_ok_def)
next
  case (serves cfg kvs)
  moreover have "hs_ok n (cfg\<lparr>kc_kvservers := kvs\<rparr>) \<longleftrightarrow> hs_ok n cfg" by (rule hs_ok_cong) simp_all
  ultimately show ?case by simp
next
  case (sends cfg b k)
  moreover have "hs_ok n (cfg\<lparr>hs_net := (hs_net cfg)\<lparr>rpcCount := k, rpcBytes := b\<rparr>\<rparr>) \<longleftrightarrow> hs_ok n cfg" by (rule hs_ok_cong) simp_all
  ultimately show ?case by simp
next
  case (begins cfg)
  moreover have "hs_ok n (kc_begin cfg) \<longleftrightarrow> hs_ok n cfg" by (rule hs_ok_cong) (simp_all add: kc_begin_def)
  ultimately show ?case by simp
next
  case (counts cfg)
  moreover have "hs_ok n (kc_op cfg) \<longleftrightarrow> hs_ok n cfg" by (rule hs_ok_cong) (simp_all add: kc_op_def)
  ultimately show ?case by simp
qed (use hs_ok_switches connectUnlocked_switches disconnectUnlocked_switches ConnectAll_switches partition_switches
    kc_ShutdownServer_ok hs_ok_deleteClient hs_switch_switches in \<open>metis ConnectClient_def DisconnectClient_def\<close>)+

subsection \<open>The leader in the minority\<close>

lemma kc_leader_loop_up:
  assumes "\<forall>i \<in> set is. kc_kvservers cfg ! i \<noteq> None"
  obtains b l where "kc_leader_loop is cfg = Inr (b, l)" "b \<longrightarrow> l \<in> set is \<and> (\<exists>kv. kc_kvservers cfg ! l = Some kv \<and> snd (GetState (kv_rf kv)))"
    "\<not> b \<longrightarrow> l = 0 \<and> (\<forall>i \<in> set is. \<forall>kv. kc_kvservers cfg ! i = Some kv \<longrightarrow> \<not> snd (GetState (kv_rf kv)))"
  using assms
proof (induction "is" arbitrary: thesis)
  case (Cons i "is")
  then obtain kv where kv: "kc_kvservers cfg ! i = Some kv" by auto
  show ?case
  proof (cases "snd (GetState (kv_rf kv))")
    case True
    with kv show ?thesis by (intro Cons.prems(1) [of True i]) simp_all
  next
    case False
    obtain b l where "kc_leader_loop is cfg = Inr (b, l)"
      "b \<longrightarrow> l \<in> set is \<and> (\<exists>kv. kc_kvservers cfg ! l = Some kv \<and> snd (GetState (kv_rf kv)))"
      "\<not> b \<longrightarrow> l = 0 \<and> (\<forall>i \<in> set is. \<forall>kv. kc_kvservers cfg ! i = Some kv \<longrightarrow> \<not> snd (GetState (kv_rf kv)))"
      using Cons.IH Cons.prems(2) by (metis list.set_intros(2))
    with False kv show ?thesis by (intro Cons.prems(1) [of b l]) auto
  qed
qed auto

lemma make_parts_odd:
  assumes "l < n" "1 < n" "odd n"
  obtains p1 p2 where "make_parts n l = Inr (p1, p2)" "length p1 = n div 2 + 1" "length p2 = n div 2"
    "distinct p1" "set p1 \<union> set p2 = {..<n}" "set p1 \<inter> set p2 = {}" "l \<in> set p2"
proof -
  obtain p1 p2 where p: "make_parts n l = Inr (p1, p2)" "length p1 = n div 2 + 1" "length p2 = n div 2"
    "p1 @ p2 = filter (\<lambda>i. i \<noteq> l) [0..<n] @ [l]" using make_parts_eq [OF assms(1,2)] assms(3) by auto
  have "distinct (p1 @ p2)" unfolding p(4) by simp
  then have d: "distinct p1" "set p1 \<inter> set p2 = {}" by simp_all
  have "set (p1 @ p2) = {..<n}" unfolding p(4) using assms(1) by auto
  then have u: "set p1 \<union> set p2 = {..<n}" by simp
  have "p2 \<noteq> []" using p(3) assms(2) by auto
  then have "last p2 = l" using p(4) by (metis last_appendR last_snoc)
  then have "l \<in> set p2" using \<open>p2 \<noteq> []\<close> last_in_set by metis
  then show thesis by (rule that [OF p(1-3) d(1) u d(2)])
qed

text \<open>C31: \<open>make_partition\<close> and \<open>partition\<close> of the tester of \<open>kvraft\<close> do what the partition tests rest on. In every
  run of the harness with an odd number of servers, all of them up, neither panics; the parts are a majority and a
  minority that together are all the servers; the leader, when \<open>Leader\<close> finds one, is in the minority; afterwards
  the end from one server to another is enabled exactly when both are in the same part; and no end of a clerk
  is switched.\<close>

theorem minority_leader:
  assumes "kv_tester_run n cfg" and "\<forall>i < n. kc_kvservers cfg ! i \<noteq> None" and "odd n" "1 < n"
  shows "\<exists>b l p1 p2 cfg'. kc_Leader cfg = Inr (b, l)
    \<and> (b \<longrightarrow> (\<exists>kv. kc_kvservers cfg ! l = Some kv \<and> snd (GetState (kv_rf kv))))
    \<and> kc_make_partition cfg = Inr (p1, p2) \<and> hs_partition p1 p2 cfg = Inr cfg'
    \<and> distinct p1 \<and> 2 * length p1 > n \<and> set p1 \<union> set p2 = {..<n} \<and> set p1 \<inter> set p2 = {} \<and> l \<in> set p2
    \<and> (\<forall>i < n. \<forall>j < n. \<exists>e. hs_end cfg i j = Some e \<and> (enabled (hs_net cfg') e \<longleftrightarrow> (i \<in> set p1 \<longleftrightarrow> j \<in> set p1)))
    \<and> (\<forall>ck es. hs_clerks cfg ck = Some es \<longrightarrow> (\<forall>e \<in> set es. enabled (hs_net cfg') e = enabled (hs_net cfg) e))"
proof -
  from kv_tester_ok [OF assms(1)] have ok: "hs_inv n cfg" "hs_started cfg" "hs_clients n cfg" by (simp_all add: hs_ok_def)
  then have n: "hs_n cfg = n" by (simp add: hs_inv_def)
  obtain b l where l: "kc_leader_loop [0..<n] cfg = Inr (b, l)"
    "b \<longrightarrow> l \<in> set [0..<n] \<and> (\<exists>kv. kc_kvservers cfg ! l = Some kv \<and> snd (GetState (kv_rf kv)))" "\<not> b \<longrightarrow> l = 0"
    using kc_leader_loop_up [of "[0..<n]" cfg] assms(2) by (metis atLeastLessThan_iff set_upt)
  have "l < n" using l(2,3) assms(4) by (cases b) auto
  from this assms(4,3) obtain p1 p2 where p: "make_parts n l = Inr (p1, p2)" "length p1 = n div 2 + 1" "length p2 = n div 2"
    "distinct p1" "set p1 \<union> set p2 = {..<n}" "set p1 \<inter> set p2 = {}" "l \<in> set p2" by (rule make_parts_odd)
  have len: "length p1 \<le> n" "length p2 \<le> n" using p(2,3) assms(4) by linarith+
  obtain f where f: "hs_partition p1 p2 cfg = Inr (cfg\<lparr>hs_net := (hs_net cfg)\<lparr>enabled := f\<rparr>\<rparr>)"
    "\<forall>a < n. \<forall>c < n. f (the (hs_end cfg a c)) \<longleftrightarrow> (a \<in> set p1 \<longleftrightarrow> c \<in> set p1)"
    "\<forall>e. (\<forall>a < n. \<forall>c < n. hs_end cfg a c \<noteq> Some e) \<longrightarrow> f e = enabled (hs_net cfg) e"
    by (rule partition_sides [OF ok(1,2) p(5,6) len])
  let ?c = "cfg\<lparr>hs_net := (hs_net cfg)\<lparr>enabled := f\<rparr>\<rparr>"
  have "\<exists>e. hs_end cfg i j = Some e \<and> (enabled (hs_net ?c) e \<longleftrightarrow> (i \<in> set p1 \<longleftrightarrow> j \<in> set p1))" if "i < n" "j < n" for i j
  proof -
    obtain e where "hs_end cfg i j = Some e" using hs_end_started(1) [OF ok(1,2) \<open>i < n\<close> \<open>j < n\<close>] by blast
    then show ?thesis using f(2) [rule_format, OF \<open>i < n\<close> \<open>j < n\<close>] by simp
  qed
  moreover have "enabled (hs_net ?c) e = enabled (hs_net cfg) e" if "hs_clerks cfg ck = Some es" "e \<in> set es" for ck es e
    using f(3) ok(3) that by (simp add: hs_clients_def)
  moreover have "2 * length p1 > n" using p(2) by linarith
  ultimately show ?thesis using l p(1,4-) f(1) n
    by (intro exI [of _ b] exI [of _ l] exI [of _ p1] exI [of _ p2] exI [of _ ?c]) (auto simp: kc_Leader_def kc_make_partition_def)
qed

text \<open>A server that is shut down and started again begins with what its last instance had persisted when it was shut
  down; and the network has the new server under its number.\<close>

theorem kc_restart:
  assumes "kc_ShutdownServer i cfg = Inr c1" "kc_StartServer i names srv c1 = Inr c2"
    and "length (kc_kvservers cfg) = hs_n cfg" "length (kc_saved cfg) = hs_n cfg" "kc_kvservers cfg ! i = Some kv"
  shows "\<exists>kv'. kc_kvservers c2 ! i = Some kv' \<and> servers (hs_net c2) i = Some srv
    \<and> StartKVServer (int (hs_n cfg)) (int i) (persister (kv_rf kv)) (kc_maxraftstate cfg) = Inr kv'"
proof -
  from assms(1) obtain c where c: "disconnectUnlocked i (hs_All cfg) cfg = Inr c" "i < hs_n c"
    "c1 = c\<lparr>hs_net := DeleteServer i (hs_net c), kc_saved := (kc_saved c)[i := map_option ps_Copy (kc_persister c i)],
       kc_kvservers := (kc_kvservers c)[i := None]\<rparr>" by (rule kc_ShutdownServer_Inr)
  from disconnectUnlocked_switches [OF c(1)] obtain f where f: "c = cfg\<lparr>hs_net := (hs_net cfg)\<lparr>enabled := f\<rparr>\<rparr>"
    by (auto simp: switches_def)
  have i: "i < length (kc_kvservers cfg)" "i < length (kc_saved cfg)" "kc_kvservers c = kc_kvservers cfg" "kc_saved c = kc_saved cfg"
    "hs_n c = hs_n cfg" "kc_maxraftstate c = kc_maxraftstate cfg"
    using c(2) assms(3,4) by (simp_all add: f)
  have copy: "ps_Copy ps = ps" for ps :: "(Op, kvgob) Persister" by (simp add: ps_Copy_def MakePersister_def)
  have ps: "kc_persister c1 i = Some (persister (kv_rf kv))"
    using i assms(5) by (simp add: c(3) kc_persister_def copy)
  from assms(2) obtain rn kv' where s: "StartKVServer (int (hs_n c1)) (int i)
       (case kc_persister c1 i of Some ps \<Rightarrow> ps_Copy ps | None \<Rightarrow> MakePersister) (kc_maxraftstate c1) = Inr kv'"
    "c2 = c1\<lparr>hs_endnames := (hs_endnames c1)[i := Some names],
       kc_saved := (kc_saved c1)[i := Some (case kc_persister c1 i of Some ps \<Rightarrow> ps_Copy ps | None \<Rightarrow> MakePersister)],
       kc_kvservers := (kc_kvservers c1)[i := Some kv'], hs_net := AddServer i srv rn\<rparr>" by (rule kc_StartServer_Inr)
  have "StartKVServer (int (hs_n cfg)) (int i) (persister (kv_rf kv)) (kc_maxraftstate cfg) = Inr kv'"
    using s(1) i(5,6) by (simp add: ps copy) (simp add: c(3))
  then show ?thesis using i(1,3) by (simp add: s(2) AddServer_def) (simp add: c(3))
qed

subsection \<open>Witness\<close>

definition kv_names :: "nat \<Rightarrow> string list" where
  "kv_names i = map (\<lambda>j. itoa (int i) @ ''-'' @ itoa (int j)) [0..<3]"

definition kv_up :: kvconfig where
  "kv_up = projr (kc_make_config 3 False (-1) kv_names id)"

lemma kv_tester_run_up: "kv_tester_run 3 kv_up"
proof -
  have "\<not> isl (kc_make_config 3 False (-1) kv_names id)" by code_simp
  then have "kc_make_config 3 False (-1) kv_names id = Inr kv_up" by (simp add: kv_up_def)
  then show ?thesis by (rule kv_tester_run.made) (simp add: kv_names_def)
qed

text \<open>Before an election server 0 counts as the leader: servers 1 and 2 make up the majority.\<close>

theorem minority_leader_witness:
  "\<exists>cfg'. hs_partition [1, 2] [0] kv_up = Inr cfg' \<and> enabled (hs_net cfg') ''1-2'' \<and> \<not> enabled (hs_net cfg') ''0-1''"
proof -
  have "\<forall>i < 3. kc_kvservers kv_up ! i \<noteq> None"
  proof -
    have "list_all (\<lambda>i. kc_kvservers kv_up ! i \<noteq> None) [0..<3]" by code_simp
    then show ?thesis by (simp add: list_all_iff)
  qed
  from minority_leader [OF kv_tester_run_up this] obtain p1 p2 cfg' where p: "kc_make_partition kv_up = Inr (p1, p2)"
    "hs_partition p1 p2 kv_up = Inr cfg'"
    "\<forall>i < 3. \<forall>j < 3. \<exists>e. hs_end kv_up i j = Some e \<and> (enabled (hs_net cfg') e \<longleftrightarrow> (i \<in> set p1 \<longleftrightarrow> j \<in> set p1))" by auto
  have "kc_make_partition kv_up = Inr ([1, 2], [0])" by code_simp
  then have e: "p1 = [1, 2]" "p2 = [0]" using p(1) by simp_all
  have "hs_end kv_up 1 2 = Some ''1-2''" "hs_end kv_up 0 1 = Some ''0-1''" by code_simp+
  with p(3) [rule_format, of 1 2] p(3) [rule_format, of 0 1] have "enabled (hs_net cfg') ''1-2''" "\<not> enabled (hs_net cfg') ''0-1''"
    by (simp_all add: e)
  with p(2) show ?thesis by (simp add: e)
qed

end
