(* ===== verification/GoUnicode.thy ===== *)
theory GoUnicode
  imports GoPrelude
begin

section \<open>Runes\<close>

text \<open>
  What the program uses of \<open>unicode/utf8\<close>, \<open>unicode\<close> and \<open>strings\<close> on characters: the decoder of
  a \<open>range\<close> over a string, the letter and upper-case tests, and \<open>strings.FieldsFunc\<close>. A string is
  a list of bytes. The Latin-1 part of the two tests is written out; the tables above it are data of
  the package \<open>unicode\<close> and arguments here, of which the properties use that no white space and
  not the replacement character is in them (\<open>table_ok\<close>).
\<close>

subsection \<open>Decoding\<close>

definition RuneError :: int where
  "RuneError = 0xFFFD"

definition byte :: "char \<Rightarrow> int" where
  "byte c = int (of_char c)"

text \<open>The length of an encoding by its first byte, with the range of the second byte.\<close>

definition first_byte :: "int \<Rightarrow> (nat \<times> int \<times> int) option" where
  "first_byte b =
     (if b < 0xC2 then None
      else if b \<le> 0xDF then Some (2, 0x80, 0xBF)
      else if b = 0xE0 then Some (3, 0xA0, 0xBF)
      else if b = 0xED then Some (3, 0x80, 0x9F)
      else if b \<le> 0xEF then Some (3, 0x80, 0xBF)
      else if b = 0xF0 then Some (4, 0x90, 0xBF)
      else if b \<le> 0xF3 then Some (4, 0x80, 0xBF)
      else if b = 0xF4 then Some (4, 0x80, 0x8F)
      else None)"

definition continues :: "char \<Rightarrow> bool" where
  "continues c \<longleftrightarrow> 0x80 \<le> byte c \<and> byte c \<le> 0xBF"

definition low6 :: "char \<Rightarrow> int" where
  "low6 c = byte c mod 64"

fun DecodeRune :: "string \<Rightarrow> int \<times> nat" where
  "DecodeRune [] = (RuneError, 0)"
| "DecodeRune (c # cs) =
     (if byte c < 0x80 then (byte c, 1)
      else case first_byte (byte c) of
        None \<Rightarrow> (RuneError, 1)
      | Some (sz, lo, hi) \<Rightarrow>
          if length (c # cs) < sz then (RuneError, 1)
          else if byte (cs ! 0) < lo \<or> hi < byte (cs ! 0) then (RuneError, 1)
          else if sz = 2 then (byte c mod 32 * 64 + low6 (cs ! 0), 2)
          else if \<not> continues (cs ! 1) then (RuneError, 1)
          else if sz = 3 then ((byte c mod 16 * 64 + low6 (cs ! 0)) * 64 + low6 (cs ! 1), 3)
          else if \<not> continues (cs ! 2) then (RuneError, 1)
          else (((byte c mod 8 * 64 + low6 (cs ! 0)) * 64 + low6 (cs ! 1)) * 64 + low6 (cs ! 2), 4))"

lemma byte_range [simp]: "0 \<le> byte c" "byte c < 256"
  using nat_of_char_less_256 [of c] by (simp_all add: byte_def)

lemma first_byte_Some:
  assumes "first_byte b = Some (sz, lo, hi)"
  shows "0xC2 \<le> b" "b \<le> 0xF4" "0x80 \<le> lo" "hi \<le> 0xBF" "sz = (if b \<le> 0xDF then 2 else if b \<le> 0xEF then 3 else 4)"
  using assms by (auto simp: first_byte_def split: if_splits)

lemma less_4_cases: "i < 4 \<Longrightarrow> i = 0 \<or> i = 1 \<or> i = 2 \<or> i = (3 :: nat)"
  by auto

lemma DecodeRune_cases:
  assumes "DecodeRune (c # cs) = (r, n)"
  obtains (error) "r = RuneError" "n = 1"
    | (ascii) "byte c < 0x80" "r = byte c" "n = 1"
    | (multi) lo hi where "\<not> byte c < 0x80" "first_byte (byte c) = Some (n, lo, hi)" "n \<le> Suc (length cs)"
        "lo \<le> byte (cs ! 0)" "byte (cs ! 0) \<le> hi" "2 < n \<Longrightarrow> continues (cs ! 1)" "3 < n \<Longrightarrow> continues (cs ! 2)"
proof (cases "byte c < 0x80 \<or> first_byte (byte c) = None")
  case True
  with assms error ascii show thesis by (auto split: if_splits)
next
  case False
  then obtain sz lo hi where f: "first_byte (byte c) = Some (sz, lo, hi)" by auto
  from first_byte_Some(5) [OF f] have sz: "sz = 2 \<or> sz = 3 \<or> sz = 4" by (simp split: if_splits)
  show thesis
  proof (cases "r = RuneError \<and> n = 1")
    case True
    with error show thesis by simp
  next
    case valid: False
    with assms f False have "sz \<le> Suc (length cs)" "lo \<le> byte (cs ! 0)" "byte (cs ! 0) \<le> hi"
      by (auto simp: Suc_le_eq split: if_splits)
    moreover from assms f False valid have "2 < sz \<Longrightarrow> continues (cs ! 1)" by (auto split: if_splits)
    moreover from assms f False valid sz have "3 < sz \<Longrightarrow> continues (cs ! 2)" by (auto split: if_splits)
    moreover from assms f False valid sz have "n = sz" by (auto split: if_splits)
    ultimately show thesis using multi [of lo hi] f False by simp
  qed
qed

lemma first_byte_size:
  assumes "first_byte b = Some (n, lo, hi)"
  shows "2 \<le> n" "n \<le> 4"
  using first_byte_Some(5) [OF assms] by (simp_all split: if_splits)

lemma DecodeRune_size:
  assumes "s \<noteq> []"
  shows "1 \<le> snd (DecodeRune s)" "snd (DecodeRune s) \<le> length s"
proof -
  obtain c cs r n where s: "s = c # cs" "DecodeRune (c # cs) = (r, n)"
    using assms by (cases s) (simp, metis surj_pair)
  from s(2) have "1 \<le> n \<and> n \<le> length s"
    by (cases rule: DecodeRune_cases) (use s(1) first_byte_size(1) in fastforce)+
  with s show "1 \<le> snd (DecodeRune s)" "snd (DecodeRune s) \<le> length s" by simp_all
qed

text \<open>A decoded character is followed by continuation bytes only, is no continuation byte itself, and
  does not depend on what comes after it.\<close>

lemma DecodeRune_valid:
  assumes "DecodeRune s = (r, n)" and "r \<noteq> RuneError"
  shows "s \<noteq> []" "1 \<le> n" "n \<le> length s" "\<not> continues (s ! 0)" "\<And>i. 0 < i \<Longrightarrow> i < n \<Longrightarrow> continues (s ! i)"
proof -
  show ne: "s \<noteq> []" using assms by auto
  show "1 \<le> n" "n \<le> length s" using DecodeRune_size [OF ne] assms(1) by simp_all
  obtain c cs where s: "s = c # cs" using ne by (cases s) auto
  have "\<not> continues (s ! 0) \<and> (0 < i \<and> i < n \<longrightarrow> continues (s ! i))" for i
    using assms(1) unfolding s
  proof (cases rule: DecodeRune_cases)
    case (multi lo hi)
    note fb = first_byte_Some [OF multi(2)]
    have "\<not> continues c" using fb(1) by (simp add: continues_def)
    moreover have "continues (cs ! 0)" using multi(4,5) fb(3,4) by (simp add: continues_def)
    ultimately show "\<not> continues ((c # cs) ! 0) \<and> (0 < i \<and> i < n \<longrightarrow> continues ((c # cs) ! i))"
      using multi(6,7) first_byte_size(2) [OF multi(2)] less_4_cases [of i]
      by (auto simp: numeral_2_eq_2 numeral_3_eq_3)
  qed (use assms(2) in \<open>simp_all add: continues_def\<close>)
  then show "\<not> continues (s ! 0)" "\<And>i. 0 < i \<Longrightarrow> i < n \<Longrightarrow> continues (s ! i)" by blast+
qed

lemma DecodeRune_prefix:
  assumes "DecodeRune s = (r, n)" and "r \<noteq> RuneError"
  shows "DecodeRune (take n s @ t) = (r, n)"
proof -
  obtain c cs where s: "s = c # cs" using DecodeRune_valid(1) [OF assms] by (cases s) auto
  from assms(1) [unfolded s] show ?thesis
  proof (cases rule: DecodeRune_cases)
    case ascii
    then show ?thesis by (simp add: s)
  next
    case (multi lo hi)
    note n = first_byte_size [OF multi(2)]
    have "take n s @ t = c # (take (n - 1) cs @ t)" using n(1) by (cases n) (simp_all add: s)
    moreover have "(take (n - 1) cs @ t) ! i = cs ! i" if "i < n - 1" for i
      using that multi(3) by (simp add: nth_append)
    moreover have "\<not> length (c # (take (n - 1) cs @ t)) < n" using multi(3) n(1) by simp
    moreover have "n = 2 \<or> n = 3 \<or> n = 4" using n by auto
    ultimately show ?thesis using assms(1) multi(1-5) n
      unfolding s by (auto simp: multi(6,7) split: if_splits)
  qed (use assms(2) in simp)
qed

lemma DecodeRune_pos: "(r, n) = DecodeRune (c # cs) \<Longrightarrow> 0 < n"
  using DecodeRune_size(1) [of "c # cs"] by (metis list.distinct(1) less_eq_Suc_le One_nat_def snd_conv)

declare DecodeRune.simps(2) [simp del]


subsection \<open>Letters\<close>

text \<open>\<open>unicode.IsLetter\<close> and \<open>unicode.IsUpper\<close>: the property bits of the Latin-1 characters, and a
  table for the others.\<close>

definition IsLetter :: "(int \<Rightarrow> bool) \<Rightarrow> int \<Rightarrow> bool" where
  "IsLetter tbl r =
     (if r \<le> 0xFF
      then 0x41 \<le> r \<and> r \<le> 0x5A \<or> 0x61 \<le> r \<and> r \<le> 0x7A \<or> r = 0xAA \<or> r = 0xB5 \<or> r = 0xBA
        \<or> 0xC0 \<le> r \<and> r \<noteq> 0xD7 \<and> r \<noteq> 0xF7
      else tbl r)"

definition IsUpper :: "(int \<Rightarrow> bool) \<Rightarrow> int \<Rightarrow> bool" where
  "IsUpper tbl r =
     (if r \<le> 0xFF then 0x41 \<le> r \<and> r \<le> 0x5A \<or> 0xC0 \<le> r \<and> r \<le> 0xDE \<and> r \<noteq> 0xD7 else tbl r)"

text \<open>\<open>unicode.White_Space\<close>.\<close>

definition white_space :: "int list" where
  "white_space = [0x09, 0x0A, 0x0B, 0x0C, 0x0D, 0x20, 0x85, 0xA0, 0x1680, 0x2000, 0x2001, 0x2002, 0x2003,
     0x2004, 0x2005, 0x2006, 0x2007, 0x2008, 0x2009, 0x200A, 0x2028, 0x2029, 0x202F, 0x205F, 0x3000]"

definition table_ok :: "(int \<Rightarrow> bool) \<Rightarrow> bool" where
  "table_ok tbl \<longleftrightarrow> \<not> tbl RuneError \<and> list_all (\<lambda>r. \<not> tbl r) white_space"

lemma IsLetter_space:
  assumes "table_ok tbl" and "IsLetter tbl r"
  shows "r \<noteq> RuneError" "r \<notin> set white_space"
  using assms by (auto simp: table_ok_def IsLetter_def white_space_def RuneError_def)


subsection \<open>Splitting at runes\<close>

text \<open>\<open>strings.FieldsFunc\<close>: the maximal runs of characters on which \<open>f\<close> does not hold; \<open>w\<close> is the
  run that is being read.\<close>

function fieldsFunc_loop :: "(int \<Rightarrow> bool) \<Rightarrow> string \<Rightarrow> string \<Rightarrow> string list" where
  "fieldsFunc_loop f w [] = (if w = [] then [] else [w])"
| "fieldsFunc_loop f w (c # cs) =
     (let (r, n) = DecodeRune (c # cs) in
      if f r then (if w = [] then [] else [w]) @ fieldsFunc_loop f [] (drop n (c # cs))
      else fieldsFunc_loop f (w @ take n (c # cs)) (drop n (c # cs)))"
  by pat_completeness auto
termination
  by (relation "measure (\<lambda>(f, w, s). length s)") (auto dest: DecodeRune_pos)

definition FieldsFunc :: "string \<Rightarrow> (int \<Rightarrow> bool) \<Rightarrow> string list" where
  "FieldsFunc s f = fieldsFunc_loop f [] s"

text \<open>A string of characters that all satisfy \<open>p\<close>.\<close>

inductive all_runes :: "(int \<Rightarrow> bool) \<Rightarrow> string \<Rightarrow> bool" for p where
  Nil: "all_runes p []"
| Rune: "DecodeRune (u @ s) = (r, length u) \<Longrightarrow> u \<noteq> [] \<Longrightarrow> p r \<Longrightarrow> all_runes p s \<Longrightarrow> all_runes p (u @ s)"

inductive_cases all_runes_ConsE: "all_runes p (c # s)"

lemma all_runes_single:
  assumes "DecodeRune s = (r, n)" and "r \<noteq> RuneError" and "p r"
  shows "all_runes p (take n s)"
proof -
  have "DecodeRune (take n s @ []) = (r, length (take n s))" "take n s \<noteq> []"
    using DecodeRune_prefix [OF assms(1,2), of "[]"] DecodeRune_valid(1-3) [OF assms(1,2)] by auto
  from all_runes.Rune [where p = p, OF this assms(3) all_runes.Nil] show ?thesis by simp
qed

lemma all_runes_append:
  assumes "all_runes p s" and "all_runes p t" and "\<not> p RuneError"
  shows "all_runes p (s @ t)"
  using assms(1)
proof induction
  case (Rune u s r)
  have "r \<noteq> RuneError" using Rune.hyps(3) assms(3) by blast
  from DecodeRune_prefix [OF Rune.hyps(1) this, of "s @ t"]
  have "DecodeRune (u @ s @ t) = (r, length u)" by simp
  from all_runes.Rune [OF this Rune.hyps(2,3) Rune.IH] show ?case by simp
qed (use assms(2) in simp)

text \<open>The fields are not empty and consist of characters on which \<open>f\<close> does not hold.\<close>

lemma fieldsFunc_loop_runes:
  assumes "f RuneError" and "all_runes (\<lambda>r. \<not> f r) w" and "v \<in> set (fieldsFunc_loop f w s)"
  shows "v \<noteq> [] \<and> all_runes (\<lambda>r. \<not> f r) v"
  using assms
proof (induction f w s rule: fieldsFunc_loop.induct)
  case (2 f w c cs)
  obtain r n where d: "DecodeRune (c # cs) = (r, n)" by fastforce
  show ?case
  proof (cases "f r")
    case True
    with 2 d all_runes.Nil show ?thesis by (auto split: if_splits)
  next
    case False
    then have "r \<noteq> RuneError" using 2(3) by blast
    from all_runes_single [OF d this, of "\<lambda>r. \<not> f r"] False
    have "all_runes (\<lambda>r. \<not> f r) (w @ take n (c # cs))" using 2(3,4) by (intro all_runes_append) auto
    with 2 d False show ?thesis by simp
  qed
qed (auto split: if_splits)

lemma FieldsFunc_runes:
  assumes "f RuneError" and "v \<in> set (FieldsFunc s f)"
  shows "v \<noteq> []" "all_runes (\<lambda>r. \<not> f r) v"
  using fieldsFunc_loop_runes [OF assms(1) all_runes.Nil assms(2) [unfolded FieldsFunc_def]] by simp_all

text \<open>A field is no longer than the string.\<close>

lemma fieldsFunc_loop_length:
  "v \<in> set (fieldsFunc_loop f w s) \<Longrightarrow> length v \<le> length w + length s"
proof (induction f w s rule: fieldsFunc_loop.induct)
  case (2 f w c cs)
  obtain r n where d: "DecodeRune (c # cs) = (r, n)" by fastforce
  have "n \<le> length (c # cs)" using DecodeRune_size(2) [of "c # cs"] d by simp
  then have t: "length (take n (c # cs)) + length (drop n (c # cs)) = length (c # cs)" by simp
  show ?case
  proof (cases "f r")
    case True
    with 2 d t show ?thesis by (fastforce split: if_splits)
  next
    case False
    with 2(2,3) d t show ?thesis by fastforce
  qed
qed (auto split: if_splits)

lemma FieldsFunc_length: "v \<in> set (FieldsFunc s f) \<Longrightarrow> length v \<le> length s"
  using fieldsFunc_loop_length [of v f "[]" s] by (simp add: FieldsFunc_def)

end
