(* ===== verification/ShardKV.thy ===== *)
theory ShardKV
  imports ShardServer GoUnicode
begin

section \<open>The sharded key/value service, \<open>shardkv\<close>\<close>

text \<open>
  The clerk of \<open>shardkv/client.go\<close> on top of the clerk of the shard controller, with the RPC types
  of \<open>common.go\<close> and the server of \<open>server.go\<close>, whose handlers have empty bodies. A server name
  stands for the end that \<open>make_end\<close> makes of it. In its \<open>k\<close>-th round a call to the \<open>si\<close>-th
  server of a group has the outcome \<open>call k si name\<close>: whether a reply came, and the reply; the
  question to the controller at the end of the round has the outcomes \<open>query k\<close>.
\<close>

subsection \<open>\<open>common.go\<close>\<close>

type_synonym skv_Err = string

abbreviation (input) skv_OK :: skv_Err where "skv_OK \<equiv> ''OK''"
abbreviation (input) skv_ErrNoKey :: skv_Err where "skv_ErrNoKey \<equiv> ''ErrNoKey''"
abbreviation (input) skv_ErrWrongGroup :: skv_Err where "skv_ErrWrongGroup \<equiv> ''ErrWrongGroup''"
abbreviation (input) skv_ErrWrongLeader :: skv_Err where "skv_ErrWrongLeader \<equiv> ''ErrWrongLeader''"

record skv_PutAppendArgs =
  spaKey :: string
  spaValue :: string
  spaOp :: string

record skv_PutAppendReply =
  sprErr :: skv_Err

record skv_GetArgs =
  sgaKey :: string

record skv_GetReply =
  sgrErr :: skv_Err
  sgrValue :: string

subsection \<open>\<open>client.go\<close>\<close>

definition key2shard :: "string \<Rightarrow> int" where
  "key2shard key =
     (let shard = 0;
          shard = (if 0 < go_len key then byte (key ! 0) else shard)
      in shard mod int NShards)"

record skv_Clerk =
  skSm :: Clerk
  skConfig :: Config

text \<open>A new clerk holds the zero configuration, which has no group.\<close>

definition skv_MakeClerk :: "int \<Rightarrow> int \<Rightarrow> skv_Clerk" where
  "skv_MakeClerk ctrlers rand =
     \<lparr>skSm = sc_MakeClerk ctrlers rand, skConfig = \<lparr>cfgNum = 0, cfgShards = replicate NShards 0, cfgGroups = []\<rparr>\<rparr>"

text \<open>The inner loops: the servers of the group in turn, until one answers or says that the group is
  the wrong one.\<close>

fun skv_try_Get :: "(nat \<Rightarrow> string \<Rightarrow> bool \<times> skv_GetReply) \<Rightarrow> nat \<Rightarrow> string list \<Rightarrow> skv_GetReply option" where
  "skv_try_Get call si [] = None"
| "skv_try_Get call si (srv # servers) =
     (let (ok, reply) = call si srv in
      if ok \<and> (sgrErr reply = skv_OK \<or> sgrErr reply = skv_ErrNoKey) then Some reply
      else if ok \<and> sgrErr reply = skv_ErrWrongGroup then None
      else skv_try_Get call (si + 1) servers)"

fun skv_try_PutAppend :: "(nat \<Rightarrow> string \<Rightarrow> bool \<times> skv_PutAppendReply) \<Rightarrow> nat \<Rightarrow> string list \<Rightarrow> skv_PutAppendReply option" where
  "skv_try_PutAppend call si [] = None"
| "skv_try_PutAppend call si (srv # servers) =
     (let (ok, reply) = call si srv in
      if ok \<and> sprErr reply = skv_OK then Some reply
      else if ok \<and> sprErr reply = skv_ErrWrongGroup then None
      else skv_try_PutAppend call (si + 1) servers)"

text \<open>The group that a configuration makes responsible for a key, if it exists.\<close>

definition skv_group :: "string \<Rightarrow> Config \<Rightarrow> string list option" where
  "skv_group key config =
     (let shard = key2shard key;
          gid = cfgShards config ! nat shard
      in map_of (cfgGroups config) gid)"

definition skv_refresh :: "(QueryArgs \<Rightarrow> QueryReply calls) \<Rightarrow> skv_Clerk \<Rightarrow> skv_Clerk option" where
  "skv_refresh send ck =
     map_option (\<lambda>(config, sm). ck\<lparr>skSm := sm, skConfig := config\<rparr>) (sc_clerk_Query send (-1) (skSm ck))"

text \<open>The outer loop, which the two methods share: \<open>attempt\<close> is the inner loop.\<close>

partial_function (option) skv_loop ::
  "(nat \<Rightarrow> string list \<Rightarrow> 'reply option) \<Rightarrow> (nat \<Rightarrow> QueryArgs \<Rightarrow> QueryReply calls) \<Rightarrow> string \<Rightarrow> nat
     \<Rightarrow> skv_Clerk \<Rightarrow> ('reply \<times> skv_Clerk) option" where
  "skv_loop attempt query key k ck =
     (case Option.bind (skv_group key (skConfig ck)) (attempt k) of
        Some reply \<Rightarrow> Some (reply, ck)
      | None \<Rightarrow> Option.bind (skv_refresh (query k) ck) (\<lambda>ck. skv_loop attempt query key (Suc k) ck))"

declare skv_loop.simps [code]

definition skv_clerk_Get ::
  "(skv_GetArgs \<Rightarrow> nat \<Rightarrow> nat \<Rightarrow> string \<Rightarrow> bool \<times> skv_GetReply) \<Rightarrow> (nat \<Rightarrow> QueryArgs \<Rightarrow> QueryReply calls)
     \<Rightarrow> string \<Rightarrow> skv_Clerk \<Rightarrow> (string \<times> skv_Clerk) option" where
  "skv_clerk_Get call query key ck =
     (let args = \<lparr>sgaKey = key\<rparr>
      in map_option (\<lambda>(reply, ck). (sgrValue reply, ck))
           (skv_loop (\<lambda>k. skv_try_Get (call args k) 0) query key 0 ck))"

definition skv_clerk_PutAppend ::
  "(skv_PutAppendArgs \<Rightarrow> nat \<Rightarrow> nat \<Rightarrow> string \<Rightarrow> bool \<times> skv_PutAppendReply) \<Rightarrow> (nat \<Rightarrow> QueryArgs \<Rightarrow> QueryReply calls)
     \<Rightarrow> string \<Rightarrow> string \<Rightarrow> string \<Rightarrow> skv_Clerk \<Rightarrow> skv_Clerk option" where
  "skv_clerk_PutAppend call query key val op ck =
     (let args = \<lparr>spaKey = key, spaValue = val, spaOp = op\<rparr>
      in map_option snd (skv_loop (\<lambda>k. skv_try_PutAppend (call args k) 0) query key 0 ck))"

definition skv_clerk_Put ::
  "(skv_PutAppendArgs \<Rightarrow> nat \<Rightarrow> nat \<Rightarrow> string \<Rightarrow> bool \<times> skv_PutAppendReply) \<Rightarrow> (nat \<Rightarrow> QueryArgs \<Rightarrow> QueryReply calls)
     \<Rightarrow> string \<Rightarrow> string \<Rightarrow> skv_Clerk \<Rightarrow> skv_Clerk option" where
  "skv_clerk_Put call query key val ck = skv_clerk_PutAppend call query key val ''Put'' ck"

definition skv_clerk_Append ::
  "(skv_PutAppendArgs \<Rightarrow> nat \<Rightarrow> nat \<Rightarrow> string \<Rightarrow> bool \<times> skv_PutAppendReply) \<Rightarrow> (nat \<Rightarrow> QueryArgs \<Rightarrow> QueryReply calls)
     \<Rightarrow> string \<Rightarrow> string \<Rightarrow> skv_Clerk \<Rightarrow> skv_Clerk option" where
  "skv_clerk_Append call query key val ck = skv_clerk_PutAppend call query key val ''Append'' ck"

subsection \<open>\<open>server.go\<close>\<close>

text \<open>\<open>Op\<close> has no field.\<close>

type_synonym skv_Op = unit

record ShardKV =
  skv_me :: int
  skv_rf :: "(skv_Op, unit) Raft"
  skv_gid :: int
  skv_ctrlers :: int
  skv_maxraftstate :: int

definition skv_Get :: "skv_GetArgs \<Rightarrow> skv_GetReply \<Rightarrow> ShardKV \<Rightarrow> skv_GetReply \<times> ShardKV" where
  "skv_Get args reply kv = (reply, kv)"

definition skv_PutAppend :: "skv_PutAppendArgs \<Rightarrow> skv_PutAppendReply \<Rightarrow> ShardKV \<Rightarrow> skv_PutAppendReply \<times> ShardKV" where
  "skv_PutAppend args reply kv = (reply, kv)"

definition skv_Kill :: "ShardKV \<Rightarrow> ShardKV" where
  "skv_Kill kv = kv\<lparr>skv_rf := Kill (skv_rf kv)\<rparr>"

definition skv_StartServer :: "int \<Rightarrow> int \<Rightarrow> (skv_Op, unit) Persister \<Rightarrow> int \<Rightarrow> int \<Rightarrow> int \<Rightarrow> ShardKV" where
  "skv_StartServer servers i ps maxraftstate gid ctrlers =
     \<lparr>skv_me = i, skv_rf = Make servers i ps, skv_gid = gid, skv_ctrlers = ctrlers, skv_maxraftstate = maxraftstate\<rparr>"

subsection \<open>Rounds of the clerk\<close>

text \<open>The clerk after \<open>n\<close> rounds that ended with a question to the controller.\<close>

fun skv_clerk_at :: "(nat \<Rightarrow> QueryArgs \<Rightarrow> QueryReply calls) \<Rightarrow> nat \<Rightarrow> nat \<Rightarrow> skv_Clerk \<Rightarrow> skv_Clerk option" where
  "skv_clerk_at query k 0 ck = Some ck"
| "skv_clerk_at query k (Suc n) ck = Option.bind (skv_refresh (query k) ck) (skv_clerk_at query (Suc k) n)"

definition skv_attempt :: "(nat \<Rightarrow> string list \<Rightarrow> 'reply option) \<Rightarrow> string \<Rightarrow> nat \<Rightarrow> skv_Clerk \<Rightarrow> 'reply option" where
  "skv_attempt attempt key k ck = Option.bind (skv_group key (skConfig ck)) (attempt k)"

lemma skv_loop_returns:
  assumes "skv_loop attempt query key k ck = Some (reply, ck')"
  shows "\<exists>n. skv_clerk_at query k n ck = Some ck' \<and> skv_attempt attempt key (k + n) ck' = Some reply"
proof -
  have "\<exists>n. skv_clerk_at query k n ck = Some (snd y) \<and> skv_attempt attempt key (k + n) (snd y) = Some (fst y)"
    if "skv_loop attempt query key k ck = Some y" for y
  proof (rule skv_loop.raw_induct [OF _ that], goal_cases)
    case (1 f attempt query key k ck y)
    show ?case
    proof (cases "skv_attempt attempt key k ck")
      case (Some r)
      with 1(2) show ?thesis by (intro exI [of _ 0]) (auto simp: skv_attempt_def)
    next
      case None
      with 1(2) obtain ck2 where "skv_refresh (query k) ck = Some ck2" "f attempt query key (Suc k) ck2 = Some y"
        by (auto simp: skv_attempt_def bind_eq_Some_conv)
      with 1(1) obtain n where "skv_clerk_at query (Suc k) n ck2 = Some (snd y)"
        "skv_attempt attempt key (Suc k + n) (snd y) = Some (fst y)" by blast
      with \<open>skv_refresh (query k) ck = Some ck2\<close> show ?thesis by (intro exI [of _ "Suc n"]) simp
    qed
  qed
  with assms show ?thesis by fastforce
qed

lemma skv_loop_succeeds:
  assumes "skv_clerk_at query k n ck = Some ck'" and "skv_attempt attempt key (k + n) ck' \<noteq> None"
  shows "skv_loop attempt query key k ck \<noteq> None"
  using assms
proof (induction n arbitrary: k ck)
  case 0
  then show ?case by (subst skv_loop.simps) (auto simp: skv_attempt_def split: option.splits)
next
  case (Suc n)
  then obtain ck2 where r: "skv_refresh (query k) ck = Some ck2" "skv_clerk_at query (Suc k) n ck2 = Some ck'"
    by (auto simp: bind_eq_Some_conv)
  from Suc.IH [OF r(2)] Suc.prems(2) have "skv_loop attempt query key (Suc k) ck2 \<noteq> None" by simp
  then show ?case by (subst skv_loop.simps) (auto simp: r(1) split: option.splits)
qed

lemma skv_try_Get_Some:
  "skv_try_Get call si servers = Some reply \<Longrightarrow>
     \<exists>j < length servers. call (si + j) (servers ! j) = (True, reply) \<and> (sgrErr reply = skv_OK \<or> sgrErr reply = skv_ErrNoKey)"
proof (induction servers arbitrary: si)
  case (Cons srv servers)
  obtain ok r where c: "call si srv = (ok, r)" by fastforce
  show ?case
  proof (cases "ok \<and> (sgrErr r = skv_OK \<or> sgrErr r = skv_ErrNoKey)")
    case True
    with Cons.prems c show ?thesis by (intro exI [of _ 0]) (auto split: if_splits)
  next
    case False
    with Cons.prems c have "skv_try_Get call (si + 1) servers = Some reply" by (auto split: if_splits)
    from Cons.IH [OF this] obtain j where "j < length servers" "call (si + 1 + j) (servers ! j) = (True, reply)"
      "sgrErr reply = skv_OK \<or> sgrErr reply = skv_ErrNoKey" by blast
    then show ?thesis by (intro exI [of _ "Suc j"]) simp
  qed
qed simp

lemma skv_try_Get_first:
  assumes "j < length servers" and "call (si + j) (servers ! j) = (True, reply)"
    and "sgrErr reply = skv_OK \<or> sgrErr reply = skv_ErrNoKey"
    and "\<forall>i < j. fst (call (si + i) (servers ! i)) \<longrightarrow> sgrErr (snd (call (si + i) (servers ! i))) \<noteq> skv_ErrWrongGroup"
  shows "skv_try_Get call si servers \<noteq> None"
  using assms
proof (induction servers arbitrary: si j)
  case (Cons srv servers)
  show ?case
  proof (cases j)
    case 0
    with Cons.prems(2,3) show ?thesis by auto
  next
    case (Suc i)
    have "skv_try_Get call (si + 1) servers \<noteq> None"
      using Cons.prems Suc by (intro Cons.IH [of i]) auto
    moreover have "fst (call si srv) \<longrightarrow> sgrErr (snd (call si srv)) \<noteq> skv_ErrWrongGroup"
      using Cons.prems(4) Suc by auto
    ultimately show ?thesis by (auto simp: case_prod_beta Let_def)
  qed
qed simp

definition skv_answers :: "(nat \<Rightarrow> string \<Rightarrow> bool \<times> skv_GetReply) \<Rightarrow> string list \<Rightarrow> nat \<Rightarrow> skv_GetReply \<Rightarrow> bool" where
  "skv_answers call servers j reply \<longleftrightarrow> j < length servers \<and> call j (servers ! j) = (True, reply)
     \<and> (sgrErr reply = skv_OK \<or> sgrErr reply = skv_ErrNoKey)"

lemma skv_Get_source:
  assumes "skv_clerk_Get call query key ck = Some (v, ck')"
  shows "\<exists>n servers j reply. skv_clerk_at query 0 n ck = Some ck' \<and> skv_group key (skConfig ck') = Some servers
     \<and> skv_answers (call \<lparr>sgaKey = key\<rparr> n) servers j reply \<and> v = sgrValue reply"
proof -
  let ?att = "\<lambda>k. skv_try_Get (call \<lparr>sgaKey = key\<rparr> k) 0"
  from assms obtain reply where l: "skv_loop ?att query key 0 ck = Some (reply, ck')" "v = sgrValue reply"
    by (auto simp: skv_clerk_Get_def)
  from skv_loop_returns [OF l(1)] obtain n where n: "skv_clerk_at query 0 n ck = Some ck'"
    "skv_attempt ?att key n ck' = Some reply" by auto
  then obtain servers where s: "skv_group key (skConfig ck') = Some servers"
    "skv_try_Get (call \<lparr>sgaKey = key\<rparr> n) 0 servers = Some reply" by (auto simp: skv_attempt_def bind_eq_Some_conv)
  from skv_try_Get_Some [OF s(2)] n(1) s(1) l(2) show ?thesis
    unfolding skv_answers_def by (metis add_0)
qed

lemma key2shard_range: "0 \<le> key2shard key" "key2shard key < int NShards"
  by (simp_all add: key2shard_def NShards_def)

subsection \<open>Properties\<close>

text \<open>C27: \<open>Get\<close> of the sharded service. What it returns is the value in an answer \<open>OK\<close> or
  \<open>ErrNoKey\<close> of a server of the group that the clerk's configuration at that moment makes responsible
  for the key's shard, never of another group; and it does return as soon as, in some round that it
  reaches, a server of the responsible group answers so and none before it in the group's list says
  that the group is the wrong one. The configurations are those that the controller's \<open>Query\<close>
  returned.\<close>

theorem skv_Get_routed:
  "(skv_clerk_Get call query key ck = Some (v, ck') \<longrightarrow>
      (\<exists>n servers j reply. skv_clerk_at query 0 n ck = Some ck' \<and> skv_group key (skConfig ck') = Some servers
         \<and> skv_answers (call \<lparr>sgaKey = key\<rparr> n) servers j reply \<and> v = sgrValue reply))
    \<and> (skv_clerk_at query 0 n ck = Some ck' \<and> skv_group key (skConfig ck') = Some servers
         \<and> skv_answers (call \<lparr>sgaKey = key\<rparr> n) servers j reply
         \<and> (\<forall>i < j. fst (call \<lparr>sgaKey = key\<rparr> n i (servers ! i))
              \<longrightarrow> sgrErr (snd (call \<lparr>sgaKey = key\<rparr> n i (servers ! i))) \<noteq> skv_ErrWrongGroup)
       \<longrightarrow> skv_clerk_Get call query key ck \<noteq> None)"
proof (intro conjI impI)
  let ?att = "\<lambda>k. skv_try_Get (call \<lparr>sgaKey = key\<rparr> k) 0"
  assume a: "skv_clerk_at query 0 n ck = Some ck' \<and> skv_group key (skConfig ck') = Some servers
    \<and> skv_answers (call \<lparr>sgaKey = key\<rparr> n) servers j reply
    \<and> (\<forall>i < j. fst (call \<lparr>sgaKey = key\<rparr> n i (servers ! i))
         \<longrightarrow> sgrErr (snd (call \<lparr>sgaKey = key\<rparr> n i (servers ! i))) \<noteq> skv_ErrWrongGroup)"
  then have "skv_try_Get (call \<lparr>sgaKey = key\<rparr> n) 0 servers \<noteq> None"
    unfolding skv_answers_def by (intro skv_try_Get_first [of j _ _ _ reply]) auto
  with a have "skv_attempt ?att key (0 + n) ck' \<noteq> None" by (simp add: skv_attempt_def)
  with a skv_loop_succeeds [of query 0 n ck ck' ?att key] show "skv_clerk_Get call query key ck \<noteq> None"
    by (simp add: skv_clerk_Get_def)
qed (rule skv_Get_source)

text \<open>A cluster of three controllers of which the second leads, and a group of two servers of which the
  second answers.\<close>

definition skv_sample_query :: "nat \<Rightarrow> QueryArgs \<Rightarrow> QueryReply calls" where
  "skv_sample_query k args i l =
     (True, if l = 1
        then \<lparr>qrWrongLeader = False, qrErr = OK, qrConfig = \<lparr>cfgNum = 1, cfgShards = replicate NShards 100, cfgGroups = [(100, [''x'', ''y''])]\<rparr>\<rparr>
        else \<lparr>qrWrongLeader = False, qrErr = ErrWrongLeader, qrConfig = DefaultConfig\<rparr>)"

definition skv_sample_call :: "skv_GetArgs \<Rightarrow> nat \<Rightarrow> nat \<Rightarrow> string \<Rightarrow> bool \<times> skv_GetReply" where
  "skv_sample_call args k si srv =
     (srv = ''y'', \<lparr>sgrErr = skv_OK, sgrValue = ''v''\<rparr>)"

theorem skv_Get_routed_witness:
  "skv_clerk_Get skv_sample_call skv_sample_query ''k'' (skv_MakeClerk 3 7) \<noteq> None"
proof -
  let ?ck = "skv_MakeClerk 3 7"
  have "map_option (\<lambda>c. skv_group ''k'' (skConfig c)) (skv_clerk_at skv_sample_query 0 1 ?ck) = Some (Some [''x'', ''y''])"
    by code_simp
  then obtain c where c: "skv_clerk_at skv_sample_query 0 1 ?ck = Some c" "skv_group ''k'' (skConfig c) = Some [''x'', ''y'']"
    by auto
  have "skv_answers (skv_sample_call \<lparr>sgaKey = ''k''\<rparr> 1) [''x'', ''y''] 1 \<lparr>sgrErr = skv_OK, sgrValue = ''v''\<rparr>"
    by (simp add: skv_answers_def skv_sample_call_def)
  with c skv_Get_routed [of skv_sample_call skv_sample_query "''k''" ?ck _ c 1 "[''x'', ''y'']" 1
      "\<lparr>sgrErr = skv_OK, sgrValue = ''v''\<rparr>"]
  show ?thesis by (simp add: skv_sample_call_def)
qed

text \<open>The server's handlers leave the reply as it is, with no error string: the clerk never returns.\<close>

theorem skv_skeleton_never_answers:
  assumes "\<And>args k si srv reply. call args k si srv = (True, reply)
      \<Longrightarrow> \<exists>kv. reply = fst (skv_Get args \<lparr>sgrErr = [], sgrValue = []\<rparr> kv)"
  shows "skv_clerk_Get call query key ck = None"
proof (rule ccontr)
  assume "skv_clerk_Get call query key ck \<noteq> None"
  then obtain v ck' where "skv_clerk_Get call query key ck = Some (v, ck')" by auto
  from skv_Get_source [OF this] obtain n servers j reply
    where "skv_answers (call \<lparr>sgaKey = key\<rparr> n) servers j reply" by blast
  with assms show False by (fastforce simp: skv_answers_def skv_Get_def)
qed

end
