(* ===== verification/ShardKV_Tester.thy ===== *)
theory ShardKV_Tester
  imports Service_Tester_Properties ShardKV
begin

section \<open>The tester of the sharded service, \<open>shardkv/config.go\<close>\<close>

text \<open>
  Three controllers and three groups of \<open>n\<close> servers on one network, on which servers are known by
  strings. The random names are arguments, one list for each loop that draws them; a clerk is known by its
  address. A running server shares its persister with the harness.
\<close>

datatype skfailure = SPanic | SDuplicateEnd | STookTooLong | SLogTooBig int int | SSnapshotNotEmpty

type_synonym 'a checkeds = "skfailure + 'a"

record group =
  gg_gid :: int
  gg_servers :: "ShardKV option list"
  gg_saved :: "(skv_Op, unit) Persister option list"
  gg_endnames :: "string list option list"
  gg_mendnames :: "string list option list"

record skconfig =
  sk_net :: "(string, string) Network"
  sk_nctrlers :: nat
  sk_ctrlerservers :: "ShardCtrler option list"
  sk_mck :: Clerk
  sk_ngroups :: nat
  sk_n :: nat
  sk_groups :: "group option list"
  sk_clerks :: "nat \<rightharpoonup> string list"
  sk_nextClientId :: int
  sk_maxraftstate :: int

definition ctrlername :: "nat \<Rightarrow> string" where
  "ctrlername i = ''ctrler'' @ itoa (int i)"

definition servername :: "int \<Rightarrow> nat \<Rightarrow> string" where
  "servername gid i = ''server-'' @ itoa gid @ ''-'' @ itoa (int i)"

definition sk_checkTimeout :: "bool \<Rightarrow> int \<Rightarrow> unit checkeds" where
  "sk_checkTimeout failed elapsed = (if \<not> failed \<and> elapsed > 120 then Inl STookTooLong else Inr ())"

text \<open>\<open>cfg.groups[gi]\<close>, which is then dereferenced.\<close>

definition sk_group :: "skconfig \<Rightarrow> nat \<Rightarrow> group checkeds" where
  "sk_group cfg gi = (case go_at (sk_groups cfg) (int gi) of Some (Some gg) \<Rightarrow> Inr gg | _ \<Rightarrow> Inl SPanic)"

text \<open>The content of \<open>saved[i]\<close>.\<close>

definition sk_persister :: "group \<Rightarrow> nat \<Rightarrow> (skv_Op, unit) Persister option" where
  "sk_persister gg i = (case gg_servers gg ! i of Some kv \<Rightarrow> Some (persister (skv_rf kv)) | None \<Rightarrow> gg_saved gg ! i)"

text \<open>\<open>checklogs\<close>: the servers of all groups in turn.\<close>

definition sk_checklog :: "(skv_Op gob list \<Rightarrow> int) \<Rightarrow> nat \<times> nat \<Rightarrow> skconfig \<Rightarrow> skconfig checkeds" where
  "sk_checklog bytes = (\<lambda>(gi, i) cfg.
     bindk (sk_group cfg gi) (\<lambda>gg.
       case (if i < length (gg_saved gg) then sk_persister gg i else None) of
         None \<Rightarrow> Inl SPanic
       | Some ps \<Rightarrow>
           let raft = RaftStateSize bytes ps; snap = go_len (ReadSnapshot ps) in
           if sk_maxraftstate cfg \<ge> 0 \<and> raft > 8 * sk_maxraftstate cfg then Inl (SLogTooBig raft (sk_maxraftstate cfg))
           else if sk_maxraftstate cfg < 0 \<and> snap > 0 then Inl SSnapshotNotEmpty
           else Inr cfg))"

definition sk_checklogs :: "(skv_Op gob list \<Rightarrow> int) \<Rightarrow> skconfig \<Rightarrow> skconfig checkeds" where
  "sk_checklogs bytes cfg = for_each (sk_checklog bytes) (List.product [0..<sk_ngroups cfg] [0..<sk_n cfg]) cfg"

text \<open>The loops that make ends: each is connected to a server and enabled at once.\<close>

fun sk_make_ends :: "(nat \<Rightarrow> string) \<Rightarrow> nat \<Rightarrow> string list \<Rightarrow> (string, string) Network \<Rightarrow> (string, string) Network checkeds" where
  "sk_make_ends to j [] rn = Inr rn"
| "sk_make_ends to j (e # es) rn =
     (case MakeEnd e rn of
        None \<Rightarrow> Inl SDuplicateEnd
      | Some rn \<Rightarrow> sk_make_ends to (Suc j) es (Enable e True (Connect e (to j) rn)))"

text \<open>The closure that clerks and servers get to reach a server by its name.\<close>

definition sk_make_end :: "string \<Rightarrow> string \<Rightarrow> skconfig \<Rightarrow> skconfig checkeds" where
  "sk_make_end endname srvname cfg =
     (case MakeEnd endname (sk_net cfg) of
        None \<Rightarrow> Inl SDuplicateEnd
      | Some rn \<Rightarrow> Inr (cfg\<lparr>sk_net := Enable endname True (Connect endname srvname rn)\<rparr>))"

text \<open>\<open>makeClient\<close>: the slice of names has \<open>n\<close> places and is filled with one name for each controller.\<close>

definition sk_makeClient :: "string list \<Rightarrow> int \<Rightarrow> nat \<Rightarrow> skconfig \<Rightarrow> (skv_Clerk \<times> skconfig) checkeds" where
  "sk_makeClient names rand ck cfg =
     bindk (sk_make_ends ctrlername 0 (take (sk_n cfg) names) (sk_net cfg)) (\<lambda>rn.
       if sk_n cfg < sk_nctrlers cfg then Inl SPanic
       else Inr (skv_MakeClerk (int (sk_nctrlers cfg)) rand,
                 cfg\<lparr>sk_net := rn, sk_clerks := (sk_clerks cfg)(ck \<mapsto> names @ replicate (sk_n cfg - sk_nctrlers cfg) []),
                     sk_nextClientId := sk_nextClientId cfg + 1\<rparr>))"

definition sk_deleteClient :: "nat \<Rightarrow> skconfig \<Rightarrow> skconfig" where
  "sk_deleteClient ck cfg = cfg\<lparr>sk_clerks := (sk_clerks cfg)(ck := None)\<rparr>"

definition sk_ShutdownServer :: "nat \<Rightarrow> nat \<Rightarrow> skconfig \<Rightarrow> skconfig checkeds" where
  "sk_ShutdownServer gi i cfg =
     bindk (sk_group cfg gi) (\<lambda>gg.
       let es = map (\<lambda>j. case go_at (gg_endnames gg) (int i) of Some (Some names) \<Rightarrow> go_at names (int j) | _ \<Rightarrow> None)
                  [0..<length (gg_servers gg)]
       in if None \<in> set es \<or> length (gg_mendnames gg) \<le> i \<or> length (gg_saved gg) \<le> i then Inl SPanic
          else let ms = (case gg_mendnames gg ! i of None \<Rightarrow> [] | Some ms \<Rightarrow> ms);
                   rn = enable_ends False (map the es @ ms) (sk_net cfg);
                   rn = DeleteServer (servername (gg_gid gg) i) rn;
                   gg = gg\<lparr>gg_saved := (gg_saved gg)[i := map_option ps_Copy (sk_persister gg i)]\<rparr>;
                   gg = gg\<lparr>gg_servers := (gg_servers gg)[i := None]\<rparr>
               in Inr (cfg\<lparr>sk_net := rn, sk_groups := (sk_groups cfg)[gi := Some gg]\<rparr>))"

definition sk_ShutdownGroup :: "nat \<Rightarrow> skconfig \<Rightarrow> skconfig checkeds" where
  "sk_ShutdownGroup gi cfg = for_each (sk_ShutdownServer gi) [0..<sk_n cfg] cfg"

text \<open>\<open>StartServer\<close>: \<open>names\<close> for the ends to the servers of the group, \<open>mnames\<close> for those to the controllers.\<close>

definition sk_StartServer :: "nat \<Rightarrow> string list \<Rightarrow> string list \<Rightarrow> nat \<Rightarrow> nat \<Rightarrow> skconfig \<Rightarrow> skconfig checkeds" where
  "sk_StartServer gi names mnames srv i cfg =
     bindk (sk_group cfg gi) (\<lambda>gg.
       if length (gg_endnames gg) \<le> i then Inl SPanic
       else bindk (sk_make_ends (servername (gg_gid gg)) 0 names (sk_net cfg)) (\<lambda>rn.
         if length (gg_mendnames gg) \<le> i then Inl SPanic
         else bindk (sk_make_ends ctrlername 0 mnames rn) (\<lambda>rn.
           let ps = (case sk_persister gg i of Some ps \<Rightarrow> ps_Copy ps | None \<Rightarrow> MakePersister);
               kv = skv_StartServer (int (sk_n cfg)) (int i) ps (sk_maxraftstate cfg) (gg_gid gg) (int (sk_nctrlers cfg));
               gg = gg\<lparr>gg_endnames := (gg_endnames gg)[i := Some names], gg_mendnames := (gg_mendnames gg)[i := Some mnames],
                       gg_saved := (gg_saved gg)[i := Some ps], gg_servers := (gg_servers gg)[i := Some kv]\<rparr>
           in Inr (cfg\<lparr>sk_net := AddServer (servername (gg_gid gg) i) srv rn, sk_groups := (sk_groups cfg)[gi := Some gg]\<rparr>))))"

definition sk_StartGroup ::
    "nat \<Rightarrow> (nat \<Rightarrow> string list) \<Rightarrow> (nat \<Rightarrow> string list) \<Rightarrow> (nat \<Rightarrow> nat) \<Rightarrow> skconfig \<Rightarrow> skconfig checkeds" where
  "sk_StartGroup gi names mnames srvs cfg =
     for_each (\<lambda>i. sk_StartServer gi (names i) (mnames i) (srvs i) i) [0..<sk_n cfg] cfg"

definition sk_StartCtrlerserver :: "string list \<Rightarrow> nat \<Rightarrow> nat \<Rightarrow> skconfig \<Rightarrow> skconfig checkeds" where
  "sk_StartCtrlerserver names srv i cfg =
     bindk (sk_make_ends ctrlername 0 names (sk_net cfg)) (\<lambda>rn.
       if length (sk_ctrlerservers cfg) \<le> i then Inl SPanic
       else let sc = sc_StartServer (int (sk_nctrlers cfg)) (int i) MakePersister
            in Inr (cfg\<lparr>sk_ctrlerservers := (sk_ctrlerservers cfg)[i := Some sc], sk_net := AddServer (ctrlername i) srv rn\<rparr>))"

definition sk_shardclerk :: "string list \<Rightarrow> int \<Rightarrow> skconfig \<Rightarrow> (Clerk \<times> skconfig) checkeds" where
  "sk_shardclerk names rand cfg =
     bindk (sk_make_ends ctrlername 0 names (sk_net cfg)) (\<lambda>rn.
       Inr (sc_MakeClerk (int (sk_nctrlers cfg)) rand, cfg\<lparr>sk_net := rn\<rparr>))"

text \<open>\<open>joinm\<close>: the map of the groups, then \<open>Join\<close> of the controller's clerk; \<open>None\<close> is a call that never returns.\<close>

fun sk_join_map :: "skconfig \<Rightarrow> nat list \<Rightarrow> servers gomap \<Rightarrow> servers gomap checkeds" where
  "sk_join_map cfg [] m = Inr m"
| "sk_join_map cfg (g # gis) m =
     bindk (sk_group cfg g) (\<lambda>gg.
       let servernames = map (servername (gg_gid gg)) [0..<sk_n cfg]
       in sk_join_map cfg gis (AList.update (gg_gid gg) servernames m))"

definition sk_joinm :: "(JoinArgs \<Rightarrow> JoinReply calls) \<Rightarrow> nat list \<Rightarrow> skconfig \<Rightarrow> skconfig option checkeds" where
  "sk_joinm send gis cfg =
     bindk (sk_join_map cfg gis []) (\<lambda>m. Inr (map_option (\<lambda>ck. cfg\<lparr>sk_mck := ck\<rparr>) (sc_clerk_Join send m (sk_mck cfg))))"

definition sk_join :: "(JoinArgs \<Rightarrow> JoinReply calls) \<Rightarrow> nat \<Rightarrow> skconfig \<Rightarrow> skconfig option checkeds" where
  "sk_join send gi cfg = sk_joinm send [gi] cfg"

fun sk_gids :: "skconfig \<Rightarrow> nat list \<Rightarrow> int list checkeds" where
  "sk_gids cfg [] = Inr []"
| "sk_gids cfg (g # gis) = bindk (sk_group cfg g) (\<lambda>gg. bindk (sk_gids cfg gis) (\<lambda>gids. Inr (gg_gid gg # gids)))"

definition sk_leavem :: "(LeaveArgs \<Rightarrow> JoinReply calls) \<Rightarrow> nat list \<Rightarrow> skconfig \<Rightarrow> skconfig option checkeds" where
  "sk_leavem send gis cfg =
     bindk (sk_gids cfg gis) (\<lambda>gids. Inr (map_option (\<lambda>ck. cfg\<lparr>sk_mck := ck\<rparr>) (sc_clerk_Leave send gids (sk_mck cfg))))"

definition sk_leave :: "(LeaveArgs \<Rightarrow> JoinReply calls) \<Rightarrow> nat \<Rightarrow> skconfig \<Rightarrow> skconfig option checkeds" where
  "sk_leave send gi cfg = sk_leavem send [gi] cfg"

definition sk_cleanup :: "bool \<Rightarrow> int \<Rightarrow> skconfig \<Rightarrow> skconfig checkeds" where
  "sk_cleanup failed elapsed cfg =
     bindk (for_each sk_ShutdownGroup [0..<sk_ngroups cfg] cfg) (\<lambda>cfg.
       if None \<in> set (take (sk_nctrlers cfg) (sk_ctrlerservers cfg)) then Inl SPanic
       else let cfg = cfg\<lparr>sk_ctrlerservers := map (map_option sc_Kill) (sk_ctrlerservers cfg)\<rparr> in
         case Cleanup (sk_net cfg) of
           None \<Rightarrow> Inl SPanic
         | Some rn \<Rightarrow> bindk (sk_checkTimeout failed elapsed) (\<lambda>_. Inr (cfg\<lparr>sk_net := rn\<rparr>)))"

text \<open>\<open>make_config\<close>: a group has a place for every server, but as many places for the names of the ends to
  the controllers as there are controllers.\<close>

definition sk_new :: "int \<Rightarrow> skconfig" where
  "sk_new maxraftstate = \<lparr>sk_net = MakeNetwork, sk_nctrlers = 3, sk_ctrlerservers = replicate 3 None,
     sk_mck = \<lparr>ck_servers = 0, ck_leaderId = 0, ck_clientId = 0, ck_seqId = 0\<rparr>, sk_ngroups = 0, sk_n = 0, sk_groups = [],
     sk_clerks = Map.empty, sk_nextClientId = 0, sk_maxraftstate = maxraftstate\<rparr>"

definition new_group :: "nat \<Rightarrow> nat \<Rightarrow> nat \<Rightarrow> group" where
  "new_group n nctrlers gi = \<lparr>gg_gid = 100 + int gi, gg_servers = replicate n None, gg_saved = replicate n None,
     gg_endnames = replicate n None, gg_mendnames = replicate nctrlers None\<rparr>"

definition sk_make_group ::
    "(nat \<Rightarrow> nat \<Rightarrow> string list) \<Rightarrow> (nat \<Rightarrow> nat \<Rightarrow> string list) \<Rightarrow> (nat \<Rightarrow> nat \<Rightarrow> nat) \<Rightarrow> nat \<Rightarrow> skconfig \<Rightarrow> skconfig checkeds" where
  "sk_make_group names mnames srvs gi cfg =
     sk_StartGroup gi (names gi) (mnames gi) (srvs gi)
       (cfg\<lparr>sk_groups := (sk_groups cfg)[gi := Some (new_group (sk_n cfg) (sk_nctrlers cfg) gi)]\<rparr>)"

definition sk_make_config ::
    "nat \<Rightarrow> bool \<Rightarrow> int \<Rightarrow> (nat \<Rightarrow> string list) \<Rightarrow> (nat \<Rightarrow> nat) \<Rightarrow> string list \<Rightarrow> int
     \<Rightarrow> (nat \<Rightarrow> nat \<Rightarrow> string list) \<Rightarrow> (nat \<Rightarrow> nat \<Rightarrow> string list) \<Rightarrow> (nat \<Rightarrow> nat \<Rightarrow> nat) \<Rightarrow> skconfig checkeds" where
  "sk_make_config n unreliable maxraftstate cnames csrvs knames rand names mnames srvs =
     bindk (for_each (\<lambda>i. sk_StartCtrlerserver (cnames i) (csrvs i) i) [0..<3] (sk_new maxraftstate)) (\<lambda>cfg.
     bindk (sk_shardclerk knames rand cfg) (\<lambda>(ck, cfg).
       let cfg = cfg\<lparr>sk_mck := ck, sk_ngroups := 3, sk_groups := replicate 3 None, sk_n := n\<rparr> in
     bindk (for_each (sk_make_group names mnames srvs) [0..<3] cfg) (\<lambda>cfg.
       Inr (cfg\<lparr>sk_clerks := Map.empty, sk_nextClientId := int n + 1000, sk_net := Reliable (\<not> unreliable) (sk_net cfg)\<rparr>))))"

end
