(* ===== verification/ShardKV_Tester_Properties.thy ===== *)
theory ShardKV_Tester_Properties
  imports ShardKV_Tester
begin

section \<open>What the tester of the sharded service guarantees\<close>

text \<open>
  Servers of all groups and the controllers have different names; the names that \<open>join\<close> tells the controller
  are those under which the servers run; shutting a group down stops this group and no other server. The
  harness works for three servers in a group and for no other number.
\<close>

subsection \<open>Names\<close>

lemma servername_inj:
  assumes "0 \<le> g" "0 \<le> g'"
  shows "servername g i = servername g' i' \<longleftrightarrow> g = g' \<and> i = i'"
  using assms split_at_char [of "CHR ''-''" "itoa g" "itoa g'" "itoa (int i)" "itoa (int i')"]
  by (auto simp: servername_def itoa_chars itoa_inj)

lemma ctrlername_inj: "ctrlername i = ctrlername i' \<longleftrightarrow> i = i'"
  by (simp add: ctrlername_def itoa_inj)

lemma ctrlername_servername: "ctrlername i \<noteq> servername g j"
  by (simp add: ctrlername_def servername_def)

subsection \<open>Starting and stopping servers\<close>

lemma sk_make_ends_servers: "sk_make_ends to j es rn = Inr rn' \<Longrightarrow> servers rn' = servers rn"
  by (induction to j es rn rule: sk_make_ends.induct)
    (auto simp: MakeEnd_def Connect_def Enable_def split: option.splits if_splits)

lemma sk_group_Inr: "sk_group cfg gi = Inr gg \<longleftrightarrow> gi < length (sk_groups cfg) \<and> sk_groups cfg ! gi = Some gg"
  by (auto simp: sk_group_def go_at_def split: option.splits)

definition same_shape :: "group \<Rightarrow> group \<Rightarrow> bool" where
  "same_shape gg gg' \<longleftrightarrow> gg_gid gg' = gg_gid gg \<and> length (gg_servers gg') = length (gg_servers gg)
     \<and> length (gg_saved gg') = length (gg_saved gg) \<and> length (gg_endnames gg') = length (gg_endnames gg)
     \<and> length (gg_mendnames gg') = length (gg_mendnames gg)"

lemma sk_StartServer_Inr:
  assumes "sk_StartServer gi names mnames srv i cfg = Inr cfg'"
  obtains gg gg' rn where "gi < length (sk_groups cfg)" "sk_groups cfg ! gi = Some gg" "same_shape gg gg'"
    "i < length (gg_endnames gg)" "i < length (gg_mendnames gg)"
    "cfg' = cfg\<lparr>sk_net := rn, sk_groups := (sk_groups cfg)[gi := Some gg']\<rparr>"
    "servers rn = (servers (sk_net cfg))(servername (gg_gid gg) i := Some srv)"
proof -
  from assms obtain gg r1 r2 where g: "gi < length (sk_groups cfg)" "sk_groups cfg ! gi = Some gg"
    "i < length (gg_endnames gg)" "i < length (gg_mendnames gg)"
    "sk_make_ends (servername (gg_gid gg)) 0 names (sk_net cfg) = Inr r1" "sk_make_ends ctrlername 0 mnames r1 = Inr r2"
    by (auto simp: sk_StartServer_def bindk_Inr sk_group_Inr Let_def split: if_splits)
  let ?ps = "case sk_persister gg i of Some ps \<Rightarrow> ps_Copy ps | None \<Rightarrow> MakePersister"
  let ?gg = "gg\<lparr>gg_endnames := (gg_endnames gg)[i := Some names], gg_mendnames := (gg_mendnames gg)[i := Some mnames],
    gg_saved := (gg_saved gg)[i := Some ?ps], gg_servers := (gg_servers gg)[i := Some (skv_StartServer (int (sk_n cfg))
      (int i) ?ps (sk_maxraftstate cfg) (gg_gid gg) (int (sk_nctrlers cfg)))]\<rparr>"
  have "sk_group cfg gi = Inr gg" using g(1,2) by (simp add: sk_group_Inr)
  with assms g(3-) have c: "cfg' = cfg\<lparr>sk_net := AddServer (servername (gg_gid gg) i) srv r2, sk_groups := (sk_groups cfg)[gi := Some ?gg]\<rparr>"
    by (simp add: sk_StartServer_def Let_def)
  have shape: "same_shape gg ?gg" by (simp add: same_shape_def)
  have "servers r2 = servers (sk_net cfg)" using sk_make_ends_servers g(5,6) by metis
  then have "servers (AddServer (servername (gg_gid gg) i) srv r2) = (servers (sk_net cfg))(servername (gg_gid gg) i := Some srv)"
    by (simp add: AddServer_def)
  then show thesis by (rule that [OF g(1,2) shape g(3,4) c])
qed

text \<open>Starting some servers of a group.\<close>

lemma start_each:
  assumes "for_each (\<lambda>i. sk_StartServer gi (names i) (mnames i) (srvs i) i) is cfg = Inr cfg'"
    and "gi < length (sk_groups cfg)" "sk_groups cfg ! gi = Some gg"
  shows "\<exists>gg' rn. same_shape gg gg' \<and> cfg' = cfg\<lparr>sk_net := rn, sk_groups := (sk_groups cfg)[gi := Some gg']\<rparr>
    \<and> (\<forall>x. servers rn x \<noteq> None \<longleftrightarrow> servers (sk_net cfg) x \<noteq> None \<or> x \<in> servername (gg_gid gg) ` set is)
    \<and> (\<forall>i \<in> set is. i < length (gg_endnames gg) \<and> i < length (gg_mendnames gg))"
  using assms
proof (induction "is" arbitrary: cfg gg)
  case Nil
  have "(sk_groups cfg)[gi := Some gg] = sk_groups cfg" using Nil.prems(3) by (metis list_update_id)
  with Nil show ?case by (intro exI [of _ gg] exI [of _ "sk_net cfg"]) (simp add: same_shape_def)
next
  case (Cons i "is")
  from Cons.prems(1) obtain c where c: "sk_StartServer gi (names i) (mnames i) (srvs i) i cfg = Inr c"
    "for_each (\<lambda>i. sk_StartServer gi (names i) (mnames i) (srvs i) i) is c = Inr cfg'" by (auto simp: bindk_Inr)
  from c(1) Cons.prems(3) obtain g1 rn where g: "same_shape gg g1" "i < length (gg_endnames gg)" "i < length (gg_mendnames gg)"
    "c = cfg\<lparr>sk_net := rn, sk_groups := (sk_groups cfg)[gi := Some g1]\<rparr>"
    "servers rn = (servers (sk_net cfg))(servername (gg_gid gg) i := Some (srvs i))"
    by (auto elim: sk_StartServer_Inr)
  have "gi < length (sk_groups c)" "sk_groups c ! gi = Some g1" using Cons.prems(2) by (simp_all add: g(4))
  from Cons.IH [OF c(2) this] obtain g2 rn' where h: "same_shape g1 g2"
    "cfg' = c\<lparr>sk_net := rn', sk_groups := (sk_groups c)[gi := Some g2]\<rparr>"
    "\<forall>x. servers rn' x \<noteq> None \<longleftrightarrow> servers (sk_net c) x \<noteq> None \<or> x \<in> servername (gg_gid g1) ` set is"
    "\<forall>i \<in> set is. i < length (gg_endnames g1) \<and> i < length (gg_mendnames g1)" by blast
  have "same_shape gg g2" using g(1) h(1) by (simp add: same_shape_def)
  moreover have "cfg' = cfg\<lparr>sk_net := rn', sk_groups := (sk_groups cfg)[gi := Some g2]\<rparr>" by (simp add: h(2) g(4))
  moreover have "servers rn' x \<noteq> None \<longleftrightarrow> servers (sk_net cfg) x \<noteq> None \<or> x \<in> servername (gg_gid gg) ` set (i # is)" for x
    using h(3) g(1,4,5) by (auto simp: same_shape_def)
  moreover have "\<forall>j \<in> set (i # is). j < length (gg_endnames gg) \<and> j < length (gg_mendnames gg)"
    using h(4) g(1-3) by (auto simp: same_shape_def)
  ultimately show ?case by blast
qed

lemma sk_make_group_Inr:
  assumes "sk_make_group names mnames srvs gi cfg = Inr cfg'" "gi < length (sk_groups cfg)"
  shows "\<exists>gg rn. gg_gid gg = 100 + int gi \<and> cfg' = cfg\<lparr>sk_net := rn, sk_groups := (sk_groups cfg)[gi := Some gg]\<rparr>
    \<and> (\<forall>x. servers rn x \<noteq> None \<longleftrightarrow> servers (sk_net cfg) x \<noteq> None \<or> x \<in> servername (100 + int gi) ` {..<sk_n cfg})
    \<and> sk_n cfg \<le> sk_nctrlers cfg"
proof -
  let ?g = "new_group (sk_n cfg) (sk_nctrlers cfg) gi"
  let ?c = "cfg\<lparr>sk_groups := (sk_groups cfg)[gi := Some ?g]\<rparr>"
  have s: "for_each (\<lambda>i. sk_StartServer gi (names gi i) (mnames gi i) (srvs gi i) i) [0..<sk_n cfg] ?c = Inr cfg'"
    using assms(1) by (simp add: sk_make_group_def sk_StartGroup_def)
  have "gi < length (sk_groups ?c)" "sk_groups ?c ! gi = Some ?g" using assms(2) by simp_all
  from start_each [OF s this] obtain gg rn where g: "same_shape ?g gg" "cfg' = ?c\<lparr>sk_net := rn, sk_groups := (sk_groups ?c)[gi := Some gg]\<rparr>"
    "\<forall>x. servers rn x \<noteq> None \<longleftrightarrow> servers (sk_net cfg) x \<noteq> None \<or> x \<in> servername (gg_gid ?g) ` set [0..<sk_n cfg]"
    "\<forall>i \<in> set [0..<sk_n cfg]. i < length (gg_mendnames ?g)" by auto
  have "gg_gid ?g = 100 + int gi" "set [0..<sk_n cfg] = {..<sk_n cfg}" by (auto simp: new_group_def)
  moreover have "sk_n cfg \<le> sk_nctrlers cfg"
  proof (rule ccontr)
    assume "\<not> sk_n cfg \<le> sk_nctrlers cfg"
    then have "sk_nctrlers cfg \<in> set [0..<sk_n cfg]" by simp
    with g(4) have "sk_nctrlers cfg < length (gg_mendnames ?g)" by blast
    then show False by (simp add: new_group_def)
  qed
  ultimately show ?thesis using g(1-3) by (intro exI [of _ gg] exI [of _ rn]) (simp add: same_shape_def)
qed

lemma make_groups:
  assumes "for_each (sk_make_group names mnames srvs) gis cfg = Inr cfg'" "\<forall>gi \<in> set gis. gi < length (sk_groups cfg)"
  shows "(\<exists>rn gs. cfg' = cfg\<lparr>sk_net := rn, sk_groups := gs\<rparr>) \<and> length (sk_groups cfg') = length (sk_groups cfg)
    \<and> (\<forall>x. servers (sk_net cfg') x \<noteq> None \<longleftrightarrow> servers (sk_net cfg) x \<noteq> None
        \<or> (\<exists>gi \<in> set gis. x \<in> servername (100 + int gi) ` {..<sk_n cfg}))
    \<and> (\<forall>gi. gi \<notin> set gis \<longrightarrow> sk_groups cfg' ! gi = sk_groups cfg ! gi)
    \<and> (\<forall>gi \<in> set gis. \<exists>gg. sk_groups cfg' ! gi = Some gg \<and> gg_gid gg = 100 + int gi)
    \<and> (gis \<noteq> [] \<longrightarrow> sk_n cfg \<le> sk_nctrlers cfg)"
  using assms
proof (induction gis arbitrary: cfg)
  case (Cons gi gis)
  from Cons.prems(1) obtain c where c: "sk_make_group names mnames srvs gi cfg = Inr c"
    "for_each (sk_make_group names mnames srvs) gis c = Inr cfg'" by (auto simp: bindk_Inr)
  from sk_make_group_Inr [OF c(1)] Cons.prems(2) obtain gg rn where g: "gg_gid gg = 100 + int gi"
    "c = cfg\<lparr>sk_net := rn, sk_groups := (sk_groups cfg)[gi := Some gg]\<rparr>"
    "\<forall>x. servers rn x \<noteq> None \<longleftrightarrow> servers (sk_net cfg) x \<noteq> None \<or> x \<in> servername (100 + int gi) ` {..<sk_n cfg}"
    "sk_n cfg \<le> sk_nctrlers cfg" by auto
  have "\<forall>gi \<in> set gis. gi < length (sk_groups c)" using Cons.prems(2) by (simp add: g(2))
  note IH = Cons.IH [OF c(2) this]
  have new: "sk_groups c ! gi = Some gg" "sk_n c = sk_n cfg" "length (sk_groups c) = length (sk_groups cfg)"
    "\<And>k. k \<noteq> gi \<Longrightarrow> sk_groups c ! k = sk_groups cfg ! k" "servers (sk_net c) = servers rn" using Cons.prems(2) by (simp_all add: g(2))
  have "\<exists>gg. sk_groups cfg' ! k = Some gg \<and> gg_gid gg = 100 + int k" if "k \<in> set (gi # gis)" for k
    using that IH new(1) g(1) by (cases "k \<in> set gis") auto
  moreover have "\<exists>rn gs. cfg' = cfg\<lparr>sk_net := rn, sk_groups := gs\<rparr>" using IH unfolding g(2) by force
  moreover have "servers (sk_net cfg') x \<noteq> None \<longleftrightarrow> servers (sk_net cfg) x \<noteq> None
      \<or> (\<exists>k \<in> set (gi # gis). x \<in> servername (100 + int k) ` {..<sk_n cfg})" for x
    using IH g(3) new(2,5) by auto
  moreover have "sk_groups cfg' ! k = sk_groups cfg ! k" if "k \<notin> set (gi # gis)" for k using IH that new(4) by auto
  ultimately show ?case using IH new(3) g(4) by auto
next
  case Nil
  then show ?case by (auto intro!: exI [of _ "sk_net cfg'"] exI [of _ "sk_groups cfg'"])
qed

lemma start_ctrlers:
  "for_each (\<lambda>i. sk_StartCtrlerserver (cnames i) (csrvs i) i) is cfg = Inr cfg' \<Longrightarrow> sk_nctrlers cfg' = sk_nctrlers cfg"
  by (induction "is" arbitrary: cfg) (fastforce simp: bindk_Inr sk_StartCtrlerserver_def Let_def split: if_splits)+

lemma sk_make_config_Inr:
  assumes "sk_make_config n unreliable maxraftstate cnames csrvs knames rand names mnames srvs = Inr cfg"
  shows "n \<le> 3" "sk_n cfg = n" "sk_nctrlers cfg = 3" "length (sk_groups cfg) = 3"
    "gi < 3 \<Longrightarrow> \<exists>gg. sk_groups cfg ! gi = Some gg \<and> gg_gid gg = 100 + int gi"
    "gi < 3 \<Longrightarrow> i < n \<Longrightarrow> servers (sk_net cfg) (servername (100 + int gi) i) \<noteq> None"
proof -
  from assms obtain c1 ck c2 c4 where c: "for_each (\<lambda>i. sk_StartCtrlerserver (cnames i) (csrvs i) i) [0..<3] (sk_new maxraftstate) = Inr c1"
    "sk_shardclerk knames rand c1 = Inr (ck, c2)"
    "for_each (sk_make_group names mnames srvs) [0..<3] (c2\<lparr>sk_mck := ck, sk_ngroups := 3, sk_groups := replicate 3 None, sk_n := n\<rparr>) = Inr c4"
    "cfg = c4\<lparr>sk_clerks := Map.empty, sk_nextClientId := int n + 1000, sk_net := Reliable (\<not> unreliable) (sk_net c4)\<rparr>"
    by (auto simp: sk_make_config_def bindk_Inr)
  let ?c = "c2\<lparr>sk_mck := ck, sk_ngroups := 3, sk_groups := replicate 3 None, sk_n := n\<rparr>"
  have n2: "sk_nctrlers c2 = 3" using c(2) start_ctrlers [OF c(1)] by (auto simp: sk_shardclerk_def bindk_Inr sk_new_def)
  have "\<forall>gi \<in> set [0..<3]. gi < length (sk_groups ?c)" by simp
  note g = make_groups [OF c(3) this]
  from g obtain rn gs where c4: "c4 = ?c\<lparr>sk_net := rn, sk_groups := gs\<rparr>" by blast
  show "n \<le> 3" using g n2 by simp
  show "sk_n cfg = n" "sk_nctrlers cfg = 3" using n2 by (simp_all add: c(4) c4)
  have gr: "sk_groups cfg = sk_groups c4" "servers (sk_net cfg) = servers (sk_net c4)" by (simp_all add: c(4) Reliable_def)
  show "length (sk_groups cfg) = 3" "gi < 3 \<Longrightarrow> \<exists>gg. sk_groups cfg ! gi = Some gg \<and> gg_gid gg = 100 + int gi"
    unfolding gr using g by simp_all
  show "gi < 3 \<Longrightarrow> i < n \<Longrightarrow> servers (sk_net cfg) (servername (100 + int gi) i) \<noteq> None"
    unfolding gr using g by fastforce
qed

text \<open>\<open>make_config\<close> never succeeds for groups of more than three servers, whose ends to the controllers have no place;
  and for fewer than three no client can be made.\<close>

theorem sk_three_servers:
  assumes "sk_make_config n unreliable maxraftstate cnames csrvs knames rand names mnames srvs = Inr cfg"
  shows "n \<le> 3" "n < 3 \<Longrightarrow> \<exists>e. sk_makeClient cn r ck cfg = Inl e"
proof -
  show "n \<le> 3" by (rule sk_make_config_Inr(1) [OF assms])
  show "\<exists>e. sk_makeClient cn r ck cfg = Inl e" if "n < 3"
    using that sk_make_config_Inr(2,3) [OF assms] by (auto simp: sk_makeClient_def bindk_def split: sum.split)
qed

lemma sk_join_map_Inr:
  assumes "sk_join_map cfg gis m = Inr m'" "map_of m' gid = Some ns"
  shows "map_of m gid = Some ns \<or> (\<exists>gi \<in> set gis. \<exists>gg. sk_group cfg gi = Inr gg \<and> gid = gg_gid gg \<and> ns = map (servername gid) [0..<sk_n cfg])"
  using assms(1)
proof (induction gis arbitrary: m)
  case (Cons g gis)
  then obtain gg where gg: "sk_group cfg g = Inr gg"
    "sk_join_map cfg gis (AList.update (gg_gid gg) (map (servername (gg_gid gg)) [0..<sk_n cfg]) m) = Inr m'"
    by (auto simp: bindk_Inr Let_def)
  from Cons.IH [OF gg(2)] gg(1) show ?case by (auto simp: map_of_update split: if_splits)
qed (use assms(2) in simp)

text \<open>What \<open>join\<close> tells the controller is true: after \<open>make_config\<close> the servers of every group that is joined run
  under the names that are announced for it.\<close>

theorem joined_servers_run:
  assumes "sk_make_config n unreliable maxraftstate cnames csrvs knames rand names mnames srvs = Inr cfg"
    and "sk_join_map cfg gis [] = Inr m" "map_of m gid = Some ns"
  shows "\<exists>gi \<in> set gis. gid = 100 + int gi \<and> ns = map (servername gid) [0..<n]
    \<and> (\<forall>x \<in> set ns. servers (sk_net cfg) x \<noteq> None)"
proof -
  note mc = sk_make_config_Inr [OF assms(1)]
  from sk_join_map_Inr [OF assms(2,3)] obtain gi gg where g: "gi \<in> set gis" "sk_group cfg gi = Inr gg" "gid = gg_gid gg"
    "ns = map (servername gid) [0..<sk_n cfg]" by auto
  have "gi < 3" using g(2) mc(4) by (simp add: sk_group_Inr)
  moreover from this have "gid = 100 + int gi" using mc(5) [of gi] g(2,3) by (auto simp: sk_group_Inr)
  ultimately show ?thesis using g(1,4) mc(2) mc(6) [of gi] by (intro bexI [of _ gi]) auto
qed

subsection \<open>Shutting a group down\<close>

text \<open>The ends that a server sends on.\<close>

definition sk_sends :: "group \<Rightarrow> nat \<Rightarrow> string set" where
  "sk_sends gg i = {e. \<exists>j names. j < length (gg_servers gg) \<and> gg_endnames gg ! i = Some names \<and> e = names ! j}
     \<union> {e. \<exists>names. gg_mendnames gg ! i = Some names \<and> e \<in> set names}"

lemma sk_ShutdownServer_Inr:
  assumes "sk_ShutdownServer gi i cfg = Inr cfg'"
  obtains gg gg' rn where "gi < length (sk_groups cfg)" "sk_groups cfg ! gi = Some gg" "same_shape gg gg'"
    "gg_endnames gg' = gg_endnames gg" "gg_mendnames gg' = gg_mendnames gg"
    "gg_servers gg' = (gg_servers gg)[i := None]"
    "cfg' = cfg\<lparr>sk_net := rn, sk_groups := (sk_groups cfg)[gi := Some gg']\<rparr>"
    "servers rn = (servers (sk_net cfg))(servername (gg_gid gg) i := None)"
    "\<forall>e. enabled rn e \<longleftrightarrow> enabled (sk_net cfg) e \<and> e \<notin> sk_sends gg i"
proof -
  from assms obtain gg where gg: "gi < length (sk_groups cfg)" "sk_groups cfg ! gi = Some gg" "sk_group cfg gi = Inr gg"
    by (auto simp: sk_ShutdownServer_def bindk_Inr sk_group_Inr)
  let ?es = "map (\<lambda>j. case go_at (gg_endnames gg) (int i) of Some (Some names) \<Rightarrow> go_at names (int j) | _ \<Rightarrow> None) [0..<length (gg_servers gg)]"
  let ?ms = "case gg_mendnames gg ! i of None \<Rightarrow> [] | Some ms \<Rightarrow> ms"
  let ?gg = "gg\<lparr>gg_saved := (gg_saved gg)[i := map_option ps_Copy (sk_persister gg i)], gg_servers := (gg_servers gg)[i := None]\<rparr>"
  let ?rn = "DeleteServer (servername (gg_gid gg) i) (enable_ends False (map the ?es @ ?ms) (sk_net cfg))"
  have ok: "None \<notin> set ?es" and c: "cfg' = cfg\<lparr>sk_net := ?rn, sk_groups := (sk_groups cfg)[gi := Some ?gg]\<rparr>"
    using assms gg(3) by (auto simp: sk_ShutdownServer_def Let_def simp del: set_map split: if_splits)
  have sends: "set (map the ?es @ ?ms) = sk_sends gg i"
  proof -
    have "e \<in> set (map the ?es) \<longleftrightarrow> (\<exists>j names. j < length (gg_servers gg) \<and> gg_endnames gg ! i = Some names \<and> e = names ! j)" for e
    proof -
      have at: "\<exists>names. gg_endnames gg ! i = Some names \<and> ?es ! j = Some (names ! j)" if "j < length (gg_servers gg)" for j
      proof -
        have "?es ! j \<noteq> None" using ok that by (metis (no_types, lifting) length_map length_upt minus_nat.diff_0 nth_mem)
        then show ?thesis using that by (auto simp: go_at_def split: option.splits if_splits)
      qed
      have "e \<in> set (map the xs) \<longleftrightarrow> (\<exists>j < length xs. e = the (xs ! j))" for xs by (force simp: in_set_conv_nth)
      from this [of ?es] have "e \<in> set (map the ?es) \<longleftrightarrow> (\<exists>j < length (gg_servers gg). e = the (?es ! j))"
        by (simp only: length_map length_upt minus_nat.diff_0)
      also have "\<dots> \<longleftrightarrow> (\<exists>j names. j < length (gg_servers gg) \<and> gg_endnames gg ! i = Some names \<and> e = names ! j)"
        using at by (metis option.inject option.sel)
      finally show ?thesis .
    qed
    then show ?thesis unfolding sk_sends_def set_append by (auto split: option.splits)
  qed
  have "enabled ?rn e \<longleftrightarrow> enabled (sk_net cfg) e \<and> e \<notin> sk_sends gg i" for e
    unfolding sends [symmetric] by (simp add: DeleteServer_def enable_ends_update)
  moreover have "servers ?rn = (servers (sk_net cfg))(servername (gg_gid gg) i := None)"
    by (simp add: DeleteServer_def enable_ends_update)
  ultimately show thesis by (intro that [OF gg(1,2) _ _ _ _ c]) (simp_all add: same_shape_def)
qed

lemma shutdown_each:
  assumes "for_each (sk_ShutdownServer gi) is cfg = Inr cfg'" "sk_groups cfg ! gi = Some gg"
  shows "(\<forall>x. servers (sk_net cfg') x = (if x \<in> servername (gg_gid gg) ` set is then None else servers (sk_net cfg) x))
    \<and> (\<forall>e. enabled (sk_net cfg') e \<longleftrightarrow> enabled (sk_net cfg) e \<and> (\<forall>i \<in> set is. e \<notin> sk_sends gg i))
    \<and> (\<exists>gg'. sk_groups cfg' = (sk_groups cfg)[gi := Some gg'])"
  using assms
proof (induction "is" arbitrary: cfg gg)
  case (Cons i "is")
  from Cons.prems(1) obtain c where c: "sk_ShutdownServer gi i cfg = Inr c" "for_each (sk_ShutdownServer gi) is c = Inr cfg'"
    by (auto simp: bindk_Inr)
  from c(1) Cons.prems(2) obtain g1 rn where g: "gi < length (sk_groups cfg)" "same_shape gg g1" "gg_endnames g1 = gg_endnames gg"
    "gg_mendnames g1 = gg_mendnames gg" "c = cfg\<lparr>sk_net := rn, sk_groups := (sk_groups cfg)[gi := Some g1]\<rparr>"
    "servers rn = (servers (sk_net cfg))(servername (gg_gid gg) i := None)"
    "\<forall>e. enabled rn e \<longleftrightarrow> enabled (sk_net cfg) e \<and> e \<notin> sk_sends gg i" by (auto elim: sk_ShutdownServer_Inr)
  have s: "sk_sends g1 = sk_sends gg" "gg_gid g1 = gg_gid gg" using g(2-4) by (auto simp: sk_sends_def same_shape_def fun_eq_iff)
  have "sk_groups c ! gi = Some g1" using g(1) by (simp add: g(5))
  from Cons.IH [OF c(2) this] have IH: "\<And>x. servers (sk_net cfg') x = (if x \<in> servername (gg_gid gg) ` set is then None else servers rn x)"
    "\<And>e. enabled (sk_net cfg') e \<longleftrightarrow> enabled rn e \<and> (\<forall>i \<in> set is. e \<notin> sk_sends gg i)"
    "\<exists>gg'. sk_groups cfg' = (sk_groups c)[gi := Some gg']" unfolding s by (simp_all add: g(5))
  show ?case using IH g(6,7) by (auto simp: g(5))
next
  case Nil
  then show ?case by (auto intro!: exI [of _ gg]) (metis list_update_id)
qed

text \<open>\<open>ShutdownGroup\<close>: no server of the group is reachable, and none of its ends can send; the other groups and
  the controllers stay reachable as they were.\<close>

theorem ShutdownGroup_isolates:
  assumes "sk_ShutdownGroup gi cfg = Inr cfg'" "sk_groups cfg ! gi = Some gg" "0 \<le> gg_gid gg"
  shows "i < sk_n cfg \<Longrightarrow> servers (sk_net cfg') (servername (gg_gid gg) i) = None"
    "i < sk_n cfg \<Longrightarrow> e \<in> sk_sends gg i \<Longrightarrow> \<not> enabled (sk_net cfg') e"
    "0 \<le> gid \<Longrightarrow> gid \<noteq> gg_gid gg \<Longrightarrow> servers (sk_net cfg') (servername gid j) = servers (sk_net cfg) (servername gid j)"
    "servers (sk_net cfg') (ctrlername j) = servers (sk_net cfg) (ctrlername j)"
    "gj \<noteq> gi \<Longrightarrow> sk_groups cfg' ! gj = sk_groups cfg ! gj"
proof -
  note s = shutdown_each [OF assms(1) [unfolded sk_ShutdownGroup_def] assms(2)]
  show "i < sk_n cfg \<Longrightarrow> servers (sk_net cfg') (servername (gg_gid gg) i) = None"
    "i < sk_n cfg \<Longrightarrow> e \<in> sk_sends gg i \<Longrightarrow> \<not> enabled (sk_net cfg') e" using s by auto
  show "0 \<le> gid \<Longrightarrow> gid \<noteq> gg_gid gg \<Longrightarrow> servers (sk_net cfg') (servername gid j) = servers (sk_net cfg) (servername gid j)"
    using s servername_inj [OF _ assms(3)] by auto
  show "servers (sk_net cfg') (ctrlername j) = servers (sk_net cfg) (ctrlername j)" using s ctrlername_servername by fastforce
  show "gj \<noteq> gi \<Longrightarrow> sk_groups cfg' ! gj = sk_groups cfg ! gj" using s by auto
qed

subsection \<open>The harness with three servers in a group\<close>

definition three_names :: "string \<Rightarrow> string list" where
  "three_names s = map (\<lambda>j. s @ [j]) ''abc''"

definition sk_three :: "skconfig checkeds" where
  "sk_three = sk_make_config 3 False (-1) (\<lambda>i. three_names (''c'' @ itoa (int i))) id (three_names ''k'') 7
     (\<lambda>gi i. three_names (''s'' @ itoa (int gi) @ itoa (int i))) (\<lambda>gi i. three_names (''m'' @ itoa (int gi) @ itoa (int i)))
     (\<lambda>gi i. 10 * (gi + 1) + i)"

text \<open>With three servers in a group the harness starts, a client can be made, and the joined servers run.\<close>

theorem joined_servers_run_witness:
  "\<exists>cfg. sk_three = Inr cfg \<and> (\<forall>i < 3. servers (sk_net cfg) (servername 101 i) \<noteq> None)
    \<and> (\<exists>r. sk_makeClient (three_names ''x'') 5 0 cfg = Inr r)"
proof -
  let ?m = "[(101, map (servername 101) [0..<3])]"
  have "case sk_three of Inl _ \<Rightarrow> False
    | Inr cfg \<Rightarrow> sk_join_map cfg [1] [] = Inr ?m \<and> \<not> isl (sk_makeClient (three_names ''x'') 5 0 cfg)" by code_simp
  then obtain cfg where up: "sk_three = Inr cfg" "sk_join_map cfg [1] [] = Inr ?m" "\<not> isl (sk_makeClient (three_names ''x'') 5 0 cfg)"
    by (auto split: sum.splits)
  have "\<forall>x \<in> set (map (servername 101) [0..<3]). servers (sk_net cfg) x \<noteq> None"
    using joined_servers_run [OF up(1) [unfolded sk_three_def] up(2), of 101 "map (servername 101) [0..<3]"] by simp
  moreover obtain r where "sk_makeClient (three_names ''x'') 5 0 cfg = Inr r"
    using up(3) by (cases "sk_makeClient (three_names ''x'') 5 0 cfg") simp_all
  ultimately show ?thesis using up(1) by (intro exI [of _ cfg]) auto
qed

end
