(* ===== verification/ShardOriginal.thy ===== *)
theory ShardOriginal
  imports ShardServer
begin

section \<open>The first version of the shard controller, \<open>shardctrler_original\<close>\<close>

text \<open>
  The package kept beside \<open>shardctrler\<close>. Its data types (\<open>common.go\<close>) are those of
  \<open>shardctrler\<close>, and its server is the same up to print statements; its state machine and its
  clerk differ. The balancing loop of \<open>Join\<close> may
  run for ever here, so it is a partial function: the outer \<open>None\<close> means that it does not return,
  the inner one that it panics.
\<close>

subsection \<open>\<open>state_machine.go\<close>\<close>

definition sco_copyGroups :: "order \<Rightarrow> servers gomap \<Rightarrow> servers gomap" where
  "sco_copyGroups ord groups = copyGroups_loop (ord 0 (keys groups)) groups []"

definition sco_gidWithMaxShards :: "order \<Rightarrow> int list gomap \<Rightarrow> int" where
  "sco_gidWithMaxShards ord m =
     (if map_of m 0 \<noteq> None \<and> go_len (slice_at m 0) > 0 then 0
      else maxLoop (sort (ord 1 (keys m))) m (-1) (-1))"

definition sco_gidWithMinShards :: "order \<Rightarrow> int list gomap \<Rightarrow> int" where
  "sco_gidWithMinShards ord m =
     (if map_of m 0 \<noteq> None \<and> go_len (slice_at m 0) > 0 then 0
      else minLoop (sort (ord 2 (keys m))) m (-1) (int NShards + 1))"

text \<open>One move of the loop: \<open>None\<close> when the slice of \<open>maxGid\<close> is empty.\<close>

definition sco_move :: "int \<Rightarrow> int \<Rightarrow> int list gomap \<Rightarrow> int list gomap option" where
  "sco_move maxGid minGid m = do {
     shard \<leftarrow> go_at (slice_at m maxGid) 0;
     let m1 = AList.update minGid (slice_at m minGid @ [shard]) m;
     rest \<leftarrow> go_from (slice_at m1 maxGid) 1;
     Some (AList.update maxGid rest m1) }"

partial_function (option) sco_rebalance :: "order \<Rightarrow> int list gomap \<Rightarrow> int list gomap option option" where
  "sco_rebalance ord m =
     (let maxGid = sco_gidWithMaxShards ord m; minGid = sco_gidWithMinShards ord m in
      if maxGid \<noteq> 0 \<and> go_len (slice_at m maxGid) - go_len (slice_at m minGid) \<le> 1 then Some (Some m)
      else case sco_move maxGid minGid m of
        None \<Rightarrow> Some None
      | Some m1 \<Rightarrow> sco_rebalance ord m1)"

definition sco_Join :: "order \<Rightarrow> servers gomap \<Rightarrow> Config list \<Rightarrow> (Err \<times> Config list) option option" where
  "sco_Join ord groups csm =
     (let num = go_len csm in
      case go_at csm (num - 1) of
        None \<Rightarrow> Some None
      | Some lastConfig \<Rightarrow>
          (let newGroups = addGroups (ord 4 (keys groups)) groups (sco_copyGroups ord (cfgGroups lastConfig)) in
           case sco_rebalance ord (gidToShardsOf ord newGroups (cfgShards lastConfig)) of
             None \<Rightarrow> None
           | Some None \<Rightarrow> Some None
           | Some (Some m) \<Rightarrow> Some (do {
               newShards \<leftarrow> storeShards (ord 5 (keys m)) m (replicate NShards 0);
               Some (OK, csm @ [\<lparr>cfgNum = num, cfgShards = newShards, cfgGroups = newGroups\<rparr>]) })))"

fun sco_assignShards :: "order \<Rightarrow> int list \<Rightarrow> int list gomap \<Rightarrow> int list gomap" where
  "sco_assignShards ord [] m = m"
| "sco_assignShards ord (shard # shards) m =
     (let minGid = sco_gidWithMinShards ord m in
      sco_assignShards ord shards (AList.update minGid (slice_at m minGid @ [shard]) m))"

definition sco_Leave :: "order \<Rightarrow> int list \<Rightarrow> Config list \<Rightarrow> (Err \<times> Config list) option" where
  "sco_Leave ord gids csm = do {
     let num = go_len csm;
     lastConfig \<leftarrow> go_at csm (num - 1);
     let (newGroups, m, unassigned) =
           removeGroups gids (sco_copyGroups ord (cfgGroups lastConfig))
             (gidToShardsOf ord (sco_copyGroups ord (cfgGroups lastConfig)) (cfgShards lastConfig)) [];
     newShards \<leftarrow> (if go_len unassigned > 0 then
                     (let m1 = sco_assignShards ord (sort unassigned) m
                      in storeShards (ord 6 (keys m1)) m1 (replicate NShards 0))
                   else Some (replicate NShards 0));
     Some (OK, csm @ [\<lparr>cfgNum = num, cfgShards = newShards, cfgGroups = newGroups\<rparr>]) }"

definition sco_Move :: "order \<Rightarrow> int \<Rightarrow> int \<Rightarrow> Config list \<Rightarrow> (Err \<times> Config list) option" where
  "sco_Move ord shard gid csm = do {
     let num = go_len csm;
     lastConfig \<leftarrow> go_at csm (num - 1);
     newShards \<leftarrow> go_upd (cfgShards lastConfig) shard gid;
     Some (OK, csm @ [\<lparr>cfgNum = num, cfgShards = newShards, cfgGroups = sco_copyGroups ord (cfgGroups lastConfig)\<rparr>]) }"

definition sco_Query :: "int \<Rightarrow> Config list \<Rightarrow> (Config \<times> Err) option" where
  "sco_Query num csm = do {
     c \<leftarrow> (if num < 0 \<or> num \<ge> go_len csm then go_at csm (go_len csm - 1) else go_at csm num);
     Some (c, OK) }"

subsection \<open>\<open>server.go\<close>\<close>

definition sco_requestDuplicated :: "int \<Rightarrow> int \<Rightarrow> ShardCtrler \<Rightarrow> bool" where
  "sco_requestDuplicated clientId seqId sc =
     (case sc_duplicateTable sc clientId of None \<Rightarrow> False | Some info \<Rightarrow> seqId \<le> loSeqId info)"

definition sco_getNotifyChannel :: "int \<Rightarrow> ShardCtrler \<Rightarrow> nat \<times> ShardCtrler" where
  "sco_getNotifyChannel index sc =
     (let (c, cs) = chan_get index (sc_notifyChans sc) in (c, sc\<lparr>sc_notifyChans := cs\<rparr>))"

definition sco_removeNotifyChannel :: "int \<Rightarrow> ShardCtrler \<Rightarrow> ShardCtrler" where
  "sco_removeNotifyChannel index sc = sc\<lparr>sc_notifyChans := chan_remove index (sc_notifyChans sc)\<rparr>"

definition sco_command :: "sc_Op \<Rightarrow> ShardCtrler \<Rightarrow> (sc_OpReply + int) \<times> ShardCtrler" where
  "sco_command args sc =
     (if scOpType args \<noteq> OpQuery \<and> sco_requestDuplicated (scClientId args) (scSeqId args) sc
      then (Inl \<lparr>ControllerConfig = zeroConfig,
                 scErr = scErr (loReply (the (sc_duplicateTable sc (scClientId args))))\<rparr>, sc)
      else
        (let ((index, _, isLeader), rf) = Start args (sc_rf sc); sc1 = sc\<lparr>sc_rf := rf\<rparr> in
         if \<not> isLeader then (Inl \<lparr>ControllerConfig = zeroConfig, scErr = ErrWrongLeader\<rparr>, sc1)
         else (Inr index, sc1)))"

definition sco_await :: "nat \<Rightarrow> bool \<Rightarrow> ShardCtrler \<Rightarrow> (sc_OpReply \<times> ShardCtrler) option" where
  "sco_await c timedOut sc =
     (if timedOut then Some (\<lparr>ControllerConfig = zeroConfig, scErr = ErrTimeout\<rparr>, sc)
      else map_option (\<lambda>(result, cs). (result, sc\<lparr>sc_notifyChans := cs\<rparr>)) (chan_recv c (sc_notifyChans sc)))"

text \<open>The handlers, named after the methods of the server.\<close>

definition sco_handle_Join :: "JoinArgs \<Rightarrow> ShardCtrler \<Rightarrow> (sc_OpReply + int) \<times> ShardCtrler" where
  "sco_handle_Join args = sco_command (zeroOp\<lparr>scOpType := OpJoin, scClientId := jaClientId args,
                                         scSeqId := jaSeqId args, scServers := jaServers args\<rparr>)"

definition sco_handle_Leave :: "LeaveArgs \<Rightarrow> ShardCtrler \<Rightarrow> (sc_OpReply + int) \<times> ShardCtrler" where
  "sco_handle_Leave args = sco_command (zeroOp\<lparr>scOpType := OpLeave, scClientId := laClientId args,
                                          scSeqId := laSeqId args, scGIDs := laGIDs args\<rparr>)"

definition sco_handle_Move :: "MoveArgs \<Rightarrow> ShardCtrler \<Rightarrow> (sc_OpReply + int) \<times> ShardCtrler" where
  "sco_handle_Move args = sco_command (zeroOp\<lparr>scOpType := OpMove, scClientId := maClientId args,
                             scSeqId := maSeqId args, scShard := maShard args, scGID := maGID args\<rparr>)"

definition sco_handle_Query :: "QueryArgs \<Rightarrow> ShardCtrler \<Rightarrow> (sc_OpReply + int) \<times> ShardCtrler" where
  "sco_handle_Query args = sco_command (zeroOp\<lparr>scOpType := OpQuery, scNum := qaNum args\<rparr>)"

definition sco_Kill :: "ShardCtrler \<Rightarrow> ShardCtrler" where
  "sco_Kill sc = sc\<lparr>sc_dead := 1, sc_rf := Kill (sc_rf sc)\<rparr>"

definition sco_killed :: "ShardCtrler \<Rightarrow> bool" where
  "sco_killed sc \<longleftrightarrow> sc_dead sc = 1"

definition sco_Raft :: "ShardCtrler \<Rightarrow> (sc_Op, unit) Raft" where
  "sco_Raft sc = sc_rf sc"

definition sco_StartServer :: "int \<Rightarrow> int \<Rightarrow> (sc_Op, unit) Persister \<Rightarrow> ShardCtrler" where
  "sco_StartServer servers i ps =
     \<lparr>sc_me = i, sc_rf = Make servers i ps, sc_configs = [zeroConfig], sc_dead = 0, sc_lastApplied = 0,
      sc_stateMachine = NewCtrlerStateMachine, sc_notifyChans = no_chans, sc_duplicateTable = Map.empty\<rparr>"

definition sco_applyToStateMachine ::
  "order \<Rightarrow> sc_Op \<Rightarrow> Config list \<Rightarrow> (sc_OpReply \<times> Config list) option option" where
  "sco_applyToStateMachine ord op csm =
     (let reply = (\<lambda>(err, csm'). (\<lparr>ControllerConfig = zeroConfig, scErr = err\<rparr>, csm')) in
      case scOpType op of
        OpQuery \<Rightarrow> Some (map_option (\<lambda>(cfg, err). (\<lparr>ControllerConfig = cfg, scErr = err\<rparr>, csm)) (sco_Query (scNum op) csm))
      | OpJoin \<Rightarrow> map_option (map_option reply) (sco_Join ord (scServers op) csm)
      | OpLeave \<Rightarrow> Some (map_option reply (sco_Leave ord (scGIDs op) csm))
      | OpMove \<Rightarrow> Some (map_option reply (sco_Move ord (scShard op) (scGID op) csm)))"

definition sco_notify :: "int \<Rightarrow> sc_OpReply \<Rightarrow> ShardCtrler \<Rightarrow> stop + ShardCtrler" where
  "sco_notify index opReply sc =
     (if snd (GetState (sc_rf sc)) then
        (let (c, sc1) = sco_getNotifyChannel index sc in
         case chan_send c opReply (sc_notifyChans sc1) of
           Inl s \<Rightarrow> Inl s
         | Inr cs \<Rightarrow> Inr (sc1\<lparr>sc_notifyChans := cs\<rparr>))
      else Inr sc)"

text \<open>One iteration of the apply loop; \<open>None\<close> when it does not end.\<close>

definition sco_applyTask :: "order \<Rightarrow> (sc_Op, unit) ApplyMsg \<Rightarrow> ShardCtrler \<Rightarrow> (stop + ShardCtrler) option" where
  "sco_applyTask ord message sc =
     (if sco_killed sc then Some (Inr sc)
      else if CommandValid message then
        (if CommandIndex message \<le> sc_lastApplied sc then Some (Inr sc)
         else
           (let sc1 = sc\<lparr>sc_lastApplied := CommandIndex message\<rparr> in
            case Command message of
              None \<Rightarrow> Some (Inl Panicked)
            | Some op \<Rightarrow>
                (if scOpType op \<noteq> OpQuery \<and> sco_requestDuplicated (scClientId op) (scSeqId op) sc1
                 then Some (sco_notify (CommandIndex message)
                              (loReply (the (sc_duplicateTable sc1 (scClientId op)))) sc1)
                 else case sco_applyToStateMachine ord op (sc_stateMachine sc1) of
                   None \<Rightarrow> None
                 | Some None \<Rightarrow> Some (Inl Panicked)
                 | Some (Some (opReply, csm)) \<Rightarrow>
                     (let sc2 = sc1\<lparr>sc_stateMachine := csm\<rparr>;
                          sc3 = (if scOpType op \<noteq> OpQuery
                                 then sc2\<lparr>sc_duplicateTable := (sc_duplicateTable sc2)
                                        (scClientId op \<mapsto> \<lparr>loSeqId = scSeqId op, loReply = opReply\<rparr>)\<rparr>
                                 else sc2)
                      in Some (sco_notify (CommandIndex message) opReply sc3)))))
      else Some (Inr sc))"

subsection \<open>\<open>client.go\<close>\<close>

definition sco_MakeClerk :: "int \<Rightarrow> int \<Rightarrow> Clerk" where
  "sco_MakeClerk servers rand = \<lparr>ck_servers = servers, ck_leaderId = 0, ck_clientId = rand, ck_seqId = 0\<rparr>"

text \<open>\<open>Join\<close> has no \<open>return\<close>: after an answer it counts up and sends the same arguments
  again. The state is the leader and the sequence number.\<close>

partial_function (option) sco_clerk_Join_loop ::
  "int \<Rightarrow> JoinReply calls \<Rightarrow> nat \<Rightarrow> int \<Rightarrow> int \<Rightarrow> (int \<times> int) option" where
  "sco_clerk_Join_loop servers call k leaderId seqId =
     (if \<not> fst (call k leaderId) \<or> jrErr (snd (call k leaderId)) = ErrWrongLeader
           \<or> jrErr (snd (call k leaderId)) = ErrTimeout
      then sco_clerk_Join_loop servers call (Suc k) ((leaderId + 1) mod servers) seqId
      else sco_clerk_Join_loop servers call (Suc k) leaderId (seqId + 1))"

definition sco_clerk_Join :: "(JoinArgs \<Rightarrow> JoinReply calls) \<Rightarrow> servers gomap \<Rightarrow> Clerk \<Rightarrow> Clerk option" where
  "sco_clerk_Join send srvs ck =
     map_option (\<lambda>(l, n). ck\<lparr>ck_leaderId := l, ck_seqId := n\<rparr>)
       (sco_clerk_Join_loop (ck_servers ck)
          (send \<lparr>jaServers = srvs, jaClientId = ck_clientId ck, jaSeqId = ck_seqId ck\<rparr>) 0 (ck_leaderId ck) (ck_seqId ck))"

definition sco_clerk_Query :: "(QueryArgs \<Rightarrow> QueryReply calls) \<Rightarrow> int \<Rightarrow> Clerk \<Rightarrow> (Config \<times> Clerk) option" where
  "sco_clerk_Query send num ck =
     map_option (\<lambda>(reply, l). (qrConfig reply, ck\<lparr>ck_leaderId := l\<rparr>))
       (clerk_retry qrErr (ck_servers ck) (send \<lparr>qaNum = num\<rparr>) 0 (ck_leaderId ck))"

definition sco_clerk_Leave :: "(LeaveArgs \<Rightarrow> JoinReply calls) \<Rightarrow> int list \<Rightarrow> Clerk \<Rightarrow> Clerk option" where
  "sco_clerk_Leave send gids ck =
     map_option (\<lambda>(reply, l). ck\<lparr>ck_leaderId := l, ck_seqId := ck_seqId ck + 1\<rparr>)
       (clerk_retry jrErr (ck_servers ck)
          (send \<lparr>laGIDs = gids, laClientId = ck_clientId ck, laSeqId = ck_seqId ck\<rparr>) 0 (ck_leaderId ck))"

definition sco_clerk_Move :: "(MoveArgs \<Rightarrow> JoinReply calls) \<Rightarrow> int \<Rightarrow> int \<Rightarrow> Clerk \<Rightarrow> Clerk option" where
  "sco_clerk_Move send shard gid ck =
     map_option (\<lambda>(reply, l). ck\<lparr>ck_leaderId := l, ck_seqId := ck_seqId ck + 1\<rparr>)
       (clerk_retry jrErr (ck_servers ck)
          (send \<lparr>maShard = shard, maGID = gid, maClientId = ck_clientId ck, maSeqId = ck_seqId ck\<rparr>) 0 (ck_leaderId ck))"

subsection \<open>What this version does not do\<close>

lemma sco_rebalance_zero:
  assumes "sco_rebalance ord m = Some y"
  shows "slice_at m 0 = []"
proof (rule sco_rebalance.raw_induct [OF _ assms], rule ccontr)
  fix f ord m y
  assume IH: "\<And>ord m y. f ord m = Some y \<Longrightarrow> slice_at m 0 = []"
    and body: "(let maxGid = sco_gidWithMaxShards ord m; minGid = sco_gidWithMinShards ord m in
      if maxGid \<noteq> 0 \<and> go_len (slice_at m maxGid) - go_len (slice_at m minGid) \<le> 1 then Some (Some m)
      else case sco_move maxGid minGid m of None \<Rightarrow> Some None | Some m1 \<Rightarrow> f ord m1) = Some y"
    and ne: "slice_at m 0 \<noteq> []"
  then obtain x xs where x: "slice_at m 0 = x # xs" by (cases "slice_at m 0") auto
  then have "map_of m 0 \<noteq> None" by (auto simp: slice_at_def split: option.splits)
  with x have z: "sco_gidWithMaxShards ord m = 0" "sco_gidWithMinShards ord m = 0"
    by (auto simp: sco_gidWithMaxShards_def sco_gidWithMinShards_def go_len_def)
  let ?m = "AList.update 0 (xs @ [x]) (AList.update 0 (x # xs @ [x]) m)"
  have "sco_move 0 0 m = Some ?m"
    using x by (simp add: sco_move_def go_at_def go_from_def slice_at_update Let_def)
  with body z have "f ord ?m = Some y" by simp
  from IH [OF this] show False by (simp add: slice_at_update)
qed

text \<open>C40: \<open>Join\<close> of the first version never returns while a shard is unassigned, in particular not
  on the initial configuration, so the first group can never join and the apply loop hangs:
  \<open>gidWithMinShards\<close> returns 0 like \<open>gidWithMaxShards\<close>, and the loop moves shards from group
  0 to group 0.\<close>

theorem original_Join_diverges:
  assumes "valid_order ord" and "csm \<noteq> []" and "0 \<in> set (cfgShards (last csm))"
  shows "sco_Join ord groups csm = None"
proof -
  let ?g = "addGroups (ord 4 (keys groups)) groups (sco_copyGroups ord (cfgGroups (last csm)))"
  obtain i where i: "i < length (cfgShards (last csm))" "cfgShards (last csm) ! i = 0"
    using assms(3) by (auto simp: in_set_conv_nth)
  have "int i \<in> set (positions 0 0 (cfgShards (last csm)))"
    unfolding set_positions using i by simp
  then have "slice_at (gidToShardsOf ord ?g (cfgShards (last csm))) 0 \<noteq> []"
    using gidToShardsOf_view(1) [OF assms(1)] by auto
  then have "sco_rebalance ord (gidToShardsOf ord ?g (cfgShards (last csm))) = None"
    using sco_rebalance_zero by (meson not_None_eq)
  then show ?thesis using last_config [OF assms(2)] by (simp add: sco_Join_def Let_def)
qed

theorem original_Join_diverges_witness: "sco_Join source_order two_groups NewCtrlerStateMachine = None"
  using original_Join_diverges [OF valid_source_order, of NewCtrlerStateMachine two_groups]
  by (simp add: NewCtrlerStateMachine_def DefaultConfig_def NShards_def)

lemma removeGroups_nothing:
  assumes "\<forall>g \<in> set gids. slice_at m g = []" and "removeGroups gids groups m [] = (groups', m', U)"
  shows "U = []"
  using assms
proof (induction gids arbitrary: groups m)
  case (Cons g gids)
  have "slice_at (AList.delete g m) k = []" if "k \<in> set gids" for k
    using Cons.prems(1) that by (simp add: slice_at_delete)
  then have left: "\<forall>k \<in> set gids. slice_at (AList.delete g m) k = []" by blast
  have here: "xs = []" if "map_of m g = Some xs" for xs
    using Cons.prems(1) that by (simp add: slice_at_def)
  have rest: "\<forall>k \<in> set gids. slice_at m k = []" using Cons.prems(1) by simp
  show ?case
    using Cons.prems(2) Cons.IH [OF left] Cons.IH [OF rest] here
    by (auto simp: Let_def split: if_splits option.splits)
qed simp

text \<open>\<open>Leave\<close> of the first version forgets the assignment when the groups that leave own no shard:
  the new configuration lists the remaining groups, but every shard is given to group 0, from
  where no later \<open>Join\<close> recovers it.\<close>

theorem original_Leave_forgets:
  assumes "valid_order ord" and "csm \<noteq> []" and "\<forall>g \<in> set gids. g \<notin> set (cfgShards (last csm))"
  shows "\<exists>c. sco_Leave ord gids csm = Some (OK, csm @ [c]) \<and> cfgShards c = replicate NShards 0
     \<and> (\<forall>ord' groups. valid_order ord' \<longrightarrow> sco_Join ord' groups (csm @ [c]) = None)"
proof -
  let ?c = "last csm" let ?g = "sco_copyGroups ord (cfgGroups ?c)" let ?m = "gidToShardsOf ord ?g (cfgShards ?c)"
  obtain groups m U where rem: "removeGroups gids ?g ?m [] = (groups, m, U)" by (cases "removeGroups gids ?g ?m []")
  have "slice_at ?m g = []" if "g \<in> set gids" for g
  proof -
    have "i \<notin> set (positions g 0 (cfgShards ?c))" for i
      unfolding set_positions using assms(3) that nth_mem by fastforce
    then have "positions g 0 (cfgShards ?c) = []" by (metis last_in_set)
    then show ?thesis using gidToShardsOf_view(1) [OF assms(1)] by simp
  qed
  then have "U = []" using removeGroups_nothing [OF _ rem] by blast
  then have "sco_Leave ord gids csm
      = Some (OK, csm @ [\<lparr>cfgNum = go_len csm, cfgShards = replicate NShards 0, cfgGroups = groups\<rparr>])"
    using last_config [OF assms(2)] rem by (simp add: sco_Leave_def Let_def)
  moreover have "sco_Join ord' gs (csm @ [\<lparr>cfgNum = go_len csm, cfgShards = replicate NShards 0, cfgGroups = groups\<rparr>]) = None"
    if "valid_order ord'" for ord' gs
  proof -
    let ?csm = "csm @ [\<lparr>cfgNum = go_len csm, cfgShards = replicate NShards 0, cfgGroups = groups\<rparr>]"
    let ?gs = "addGroups (ord' 4 (keys gs)) gs (sco_copyGroups ord' (cfgGroups (last ?csm)))"
    have "slice_at (gidToShardsOf ord' ?gs (cfgShards (last ?csm))) 0 \<noteq> []"
      using gidToShardsOf_view(1) [OF that] by (simp add: NShards_def numeral_eq_Suc)
    then have "sco_rebalance ord' (gidToShardsOf ord' ?gs (cfgShards (last ?csm))) = None"
      using sco_rebalance_zero by (meson not_None_eq)
    then show ?thesis using last_config [of ?csm] by (simp add: sco_Join_def Let_def)
  qed
  ultimately show ?thesis by auto
qed

theorem original_Leave_forgets_witness:
  "\<exists>c. sco_Leave source_order [7] joined = Some (OK, joined @ [c]) \<and> cfgShards c = replicate NShards 0"
proof -
  have "joined \<noteq> []" "\<forall>g \<in> set [7]. g \<notin> set (cfgShards (last joined))" by code_simp+
  from original_Leave_forgets [OF valid_source_order this] show ?thesis by blast
qed

text \<open>The first version's client never returns from \<open>Join\<close>, whatever the servers answer.\<close>

theorem original_clerk_Join_never_returns: "sco_clerk_Join send srvs ck = None"
proof -
  have "False" if "sco_clerk_Join_loop n call k l q = Some y" for n call k l q y
    by (rule sco_clerk_Join_loop.raw_induct [OF _ that]) (auto split: if_splits)
  then have "sco_clerk_Join_loop n call k l q = None" for n call k l q
    by (cases "sco_clerk_Join_loop n call k l q") blast+
  then show ?thesis by (simp add: sco_clerk_Join_def)
qed

end
