(* ===== verification/MRWorker.thy ===== *)
theory MRWorker
  imports GoPrelude "HOL-Library.Word" "HOL-Library.Char_ord" "HOL-Library.List_Lexorder"
begin

section \<open>MapReduce: the worker and the sequential program\<close>

text \<open>
  \<open>mr/worker.go\<close> without its RPC calls, and \<open>main/mrsequential.go\<close>. The file system is a
  map from names to contents. What the operating system may refuse, and how \<open>%v\<close> prints a time,
  is the environment \<open>os_env\<close>. The map and reduce functions come from a plugin and are
  parameters. \<open>sort.Slice\<close> and \<open>sort.Sort\<close> are not stable: the sorting function is a
  parameter that returns the same elements, ordered by key (\<open>valid_sort\<close>).

  A task ends in one of three ways (\<open>worker_end\<close>): \<open>log.Fatalf\<close> ends the process without
  running deferred functions; otherwise the deferred function reports the task, as
  \<open>Completed\<close> or, after a panic, as \<open>Idle\<close>; and it may itself panic after that.
\<close>

unbundle bit_operations_syntax

subsection \<open>Strings, lines and fields\<close>

abbreviation nl :: char where "nl \<equiv> CHR 0x0A"

text \<open>\<open>unicode.IsSpace\<close> on the UTF-8 bytes at the head of a string: the number of bytes of the
  white-space character there, 0 if there is none. No encoding of a character contains that of
  a white-space character at a later position, so fields can be cut byte by byte.\<close>

definition ascii_space :: "char \<Rightarrow> bool" where
  "ascii_space c \<longleftrightarrow> c = CHR 0x09 \<or> c = nl \<or> c = CHR 0x0B \<or> c = CHR 0x0C \<or> c = CHR 0x0D \<or> c = CHR '' ''"

definition space2 :: "string list" where
  "space2 = [[CHR 0xC2, CHR 0x85], [CHR 0xC2, CHR 0xA0]]"

definition space3 :: "string list" where
  "space3 = [CHR 0xE1, CHR 0x9A, CHR 0x80] # [CHR 0xE3, CHR 0x80, CHR 0x80] # [CHR 0xE2, CHR 0x81, CHR 0x9F]
     # map (\<lambda>c. [CHR 0xE2, CHR 0x80, c])
         [CHR 0x80, CHR 0x81, CHR 0x82, CHR 0x83, CHR 0x84, CHR 0x85, CHR 0x86, CHR 0x87, CHR 0x88, CHR 0x89,
          CHR 0x8A, CHR 0xA8, CHR 0xA9, CHR 0xAF]"

definition space_len :: "string \<Rightarrow> nat" where
  "space_len s =
     (if s = [] then 0
      else if ascii_space (hd s) then 1
      else if take 2 s \<in> set space2 then 2
      else if take 3 s \<in> set space3 then 3
      else 0)"

text \<open>\<open>strings.Fields\<close>; \<open>w\<close> is the field that is being read.\<close>

function fields_loop :: "string \<Rightarrow> string \<Rightarrow> string list" where
  "fields_loop w [] = (if w = [] then [] else [w])"
| "fields_loop w (c # cs) =
     (case space_len (c # cs) of
        0 \<Rightarrow> fields_loop (w @ [c]) cs
      | Suc n \<Rightarrow> (if w = [] then [] else [w]) @ fields_loop [] (drop n cs))"
  by pat_completeness auto
termination by (relation "measure (\<lambda>(w, s). length s)") auto

definition Fields :: "string \<Rightarrow> string list" where
  "Fields s = fields_loop [] s"

text \<open>\<open>bufio.Scanner\<close> with \<open>ScanLines\<close>: the lines without \<open>\n\<close> and a trailing
  \<open>\r\<close>; it stops at a line that does not fit into its buffer of 64 kB.\<close>

definition dropCR :: "string \<Rightarrow> string" where
  "dropCR line = (if line \<noteq> [] \<and> last line = CHR 0x0D then butlast line else line)"

definition MaxScanTokenSize :: nat where
  "MaxScanTokenSize = 65536"

function scan_lines :: "string \<Rightarrow> string list" where
  "scan_lines [] = []"
| "scan_lines (c # cs) =
     (let line = takeWhile (\<lambda>x. x \<noteq> nl) (c # cs); rest = dropWhile (\<lambda>x. x \<noteq> nl) (c # cs) in
      if MaxScanTokenSize \<le> length line then []
      else dropCR line # scan_lines (drop 1 rest))"
  by pat_completeness auto
termination
proof (relation "measure length")
  fix c :: char and cs line rest :: string
  assume "rest = dropWhile (\<lambda>x. x \<noteq> nl) (c # cs)"
  moreover have "length (dropWhile (\<lambda>x. x \<noteq> nl) (c # cs)) \<le> length (c # cs)" by (rule length_dropWhile_le)
  ultimately show "(drop 1 rest, c # cs) \<in> measure length" by (auto simp del: dropWhile.simps)
qed simp

subsection \<open>Pairs, the hash, files\<close>

record KeyValue =
  kvKey :: string
  kvValue :: string

definition ihash :: "string \<Rightarrow> int" where
  "ihash key =
     (let h = foldl (\<lambda>h c. (h XOR of_nat (of_char c)) * 16777619) (2166136261 :: 32 word) key
      in uint (h AND 0x7fffffff))"

type_synonym files = "string \<rightharpoonup> string"

record os_env =
  readOk :: "string \<Rightarrow> bool"
  mkdirOk :: bool
  createOk :: "string \<Rightarrow> bool"
  writeOk :: "string \<Rightarrow> bool"
  renameOk :: "string \<Rightarrow> bool"
  showTime :: "int \<Rightarrow> string"

datatype TaskType = UnknownTask | MapTask | ReduceTask | AllTasksDone

datatype TaskState = Idle | InProgress | Completed

record Task =
  tkType :: TaskType
  FileNames :: "string list"
  tkId :: int
  StartTime :: int
  tkState :: TaskState
  NMap :: int
  NReduce :: int

datatype worker_end = Exits | Reports TaskState | ReportsAndPanics TaskState

type_synonym mapf = "string \<Rightarrow> string \<Rightarrow> KeyValue list"
type_synonym reducef = "string \<Rightarrow> string list \<Rightarrow> string"
type_synonym sorter = "KeyValue list \<Rightarrow> KeyValue list"

definition valid_sort :: "sorter \<Rightarrow> bool" where
  "valid_sort sorter \<longleftrightarrow> (\<forall>kvs. mset (sorter kvs) = mset kvs \<and> sorted (map kvKey (sorter kvs)))"

text \<open>\<open>filepath.Ext\<close>, \<open>strings.TrimSuffix\<close> and \<open>filepath.Base\<close>.\<close>

definition Ext :: "string \<Rightarrow> string" where
  "Ext path =
     (let tail = takeWhile (\<lambda>c. c \<noteq> CHR ''.'' \<and> c \<noteq> CHR ''/'') (rev path) in
      if length tail < length path \<and> rev path ! length tail = CHR ''.''
      then CHR ''.'' # rev tail else [])"

definition TrimSuffix :: "string \<Rightarrow> string \<Rightarrow> string" where
  "TrimSuffix s suf =
     (if length suf \<le> length s \<and> drop (length s - length suf) s = suf
      then take (length s - length suf) s else s)"

definition Base :: "string \<Rightarrow> string" where
  "Base path =
     (if path = [] then ''.''
      else
        (let p = rev (dropWhile (\<lambda>c. c = CHR ''/'') (rev path));
             b = rev (takeWhile (\<lambda>c. c \<noteq> CHR ''/'') (rev p))
         in if b = [] then ''/'' else b))"

definition mr_name :: "int \<Rightarrow> int \<Rightarrow> string" where
  "mr_name j i = ''./intermediates'' @ ''/mr-'' @ itoa j @ ''-'' @ itoa i"

definition tmp_name :: "int \<Rightarrow> int \<Rightarrow> int \<Rightarrow> string" where
  "tmp_name j i t = mr_name j i @ ''.tmp'' @ itoa t"

definition kv_line :: "string \<Rightarrow> string \<Rightarrow> string" where
  "kv_line k v = k @ '' '' @ v @ [nl]"

subsection \<open>\<open>HandleMapTask\<close>\<close>

text \<open>The three loops over the bucket files. The flag tells whether the loop came to its end: the
  first and the last one end the process, the middle one panics.\<close>

fun createBuckets :: "os_env \<Rightarrow> string list \<Rightarrow> files \<Rightarrow> bool \<times> files" where
  "createBuckets env [] fs = (True, fs)"
| "createBuckets env (f # names) fs =
     (if createOk env f then createBuckets env names (fs(f \<mapsto> [])) else (False, fs))"

fun writeBuckets :: "os_env \<Rightarrow> string list \<Rightarrow> KeyValue list \<Rightarrow> files \<Rightarrow> bool \<times> files" where
  "writeBuckets env names [] fs = (True, fs)"
| "writeBuckets env names (kv # kvs) fs =
     (if names = [] then (False, fs)
      else
        (let f = names ! nat (ihash (kvKey kv) mod go_len names) in
         if writeOk env f
         then writeBuckets env names kvs (fs(f \<mapsto> the (fs f) @ kv_line (kvKey kv) (kvValue kv)))
         else (False, fs)))"

fun renameBuckets :: "os_env \<Rightarrow> string list \<Rightarrow> files \<Rightarrow> bool \<times> files" where
  "renameBuckets env [] fs = (True, fs)"
| "renameBuckets env (f # names) fs =
     (if renameOk env f
      then renameBuckets env names (fs(TrimSuffix f (Ext f) := fs f, f := None))
      else (False, fs))"

definition removeAll_files :: "string list \<Rightarrow> files \<Rightarrow> files" where
  "removeAll_files names fs = (\<lambda>f. if f \<in> set names then None else fs f)"

text \<open>The files the deferred function removes: their names are not those of the temporary files.\<close>

definition cleanup_names :: "os_env \<Rightarrow> Task \<Rightarrow> string \<Rightarrow> string list" where
  "cleanup_names env task file =
     map (\<lambda>i. ''./intermediates/mr-'' @ TrimSuffix (Base file) ''.txt'' @ ''-'' @ itoa i @ ''.tmp''
                 @ showTime env (StartTime task)) [0..NReduce task - 1]"

definition HandleMapTask :: "os_env \<Rightarrow> mapf \<Rightarrow> Task \<Rightarrow> files \<Rightarrow> worker_end \<times> files" where
  "HandleMapTask env mapf task fs =
     (case go_at (FileNames task) 0 of
        None \<Rightarrow> (if NReduce task > 0 then ReportsAndPanics Idle else Reports Idle, fs)
      | Some file \<Rightarrow>
          (case fs file of
             None \<Rightarrow> (Exits, fs)
           | Some content \<Rightarrow>
               (if \<not> readOk env file then (Exits, fs)
                else
                  (let kvs = mapf file content;
                       names = map (\<lambda>i. tmp_name (tkId task) i (StartTime task)) [0..NReduce task - 1]
                   in if \<not> mkdirOk env then (Exits, fs)
                      else if NReduce task < 0 then (Reports Idle, fs)
                      else
                        (case createBuckets env names fs of
                           (False, fs1) \<Rightarrow> (Exits, fs1)
                         | (True, fs1) \<Rightarrow>
                             (case writeBuckets env names kvs fs1 of
                                (False, fs2) \<Rightarrow> (Reports Idle, removeAll_files (cleanup_names env task file) fs2)
                              | (True, fs2) \<Rightarrow>
                                  (case renameBuckets env names fs2 of
                                     (False, fs3) \<Rightarrow> (Exits, fs3)
                                   | (True, fs3) \<Rightarrow>
                                       (Reports Completed, removeAll_files (cleanup_names env task file) fs3))))))))"

subsection \<open>\<open>HandleReduceTask\<close>\<close>

text \<open>The pairs of the lines of a file; \<open>None\<close> when a line has not two fields.\<close>

fun parse_lines :: "string list \<Rightarrow> KeyValue list option" where
  "parse_lines [] = Some []"
| "parse_lines (line # ls) =
     (case Fields line of
        [k, v] \<Rightarrow> map_option (\<lambda>kvs. \<lparr>kvKey = k, kvValue = v\<rparr> # kvs) (parse_lines ls)
      | _ \<Rightarrow> None)"

text \<open>The loop over the sorted pairs, from the start of a run of equal keys on.\<close>

function reduce_loop :: "reducef \<Rightarrow> KeyValue list \<Rightarrow> (string \<times> string) list" where
  "reduce_loop reducef [] = []"
| "reduce_loop reducef (kv # kvs) =
     (let same = takeWhile (\<lambda>kv'. kvKey kv' = kvKey kv) kvs
      in (kvKey kv, reducef (kvKey kv) (map kvValue (kv # same)))
           # reduce_loop reducef (drop (length same) kvs))"
  by pat_completeness auto
termination by (relation "measure (\<lambda>(r, kvs). length kvs)") auto

definition reduce_output :: "(string \<times> string) list \<Rightarrow> string" where
  "reduce_output outs = concat (map (\<lambda>(k, v). kv_line k v) outs)"

definition out_name :: "int \<Rightarrow> string" where
  "out_name i = ''mr-out-'' @ itoa i"

definition out_tmp :: "os_env \<Rightarrow> Task \<Rightarrow> string" where
  "out_tmp env task = out_name (tkId task) @ ''.tmp'' @ showTime env (StartTime task)"

text \<open>One iteration of the loop over the input files, with the pairs read so far; \<open>False\<close> after a
  panic. Errors of writing and renaming are ignored.\<close>

definition write_output :: "os_env \<Rightarrow> Task \<Rightarrow> string \<Rightarrow> files \<Rightarrow> files" where
  "write_output env task text fs =
     (let oname = out_tmp env task;
          fs1 = fs(oname \<mapsto> (if writeOk env oname then text else []))
      in if renameOk env oname
         then fs1(TrimSuffix oname (''.tmp'' @ showTime env (StartTime task)) := fs1 oname, oname := None)
         else fs1)"

fun reduce_files ::
  "os_env \<Rightarrow> sorter \<Rightarrow> reducef \<Rightarrow> Task \<Rightarrow> string list \<Rightarrow> KeyValue list \<Rightarrow> files \<Rightarrow> bool \<times> files" where
  "reduce_files env sorter reducef task [] kvs fs = (True, fs)"
| "reduce_files env sorter reducef task (f # names) kvs fs =
     (case fs f of
        None \<Rightarrow> (False, fs)
      | Some content \<Rightarrow>
          (case parse_lines (scan_lines content) of
             None \<Rightarrow> (False, fs)
           | Some new \<Rightarrow>
               (if createOk env (out_tmp env task)
                then
                  (let kvs' = sorter (kvs @ new)
                   in reduce_files env sorter reducef task names kvs'
                        (write_output env task (reduce_output (reduce_loop reducef kvs')) fs))
                else (False, fs))))"

definition HandleReduceTask :: "os_env \<Rightarrow> sorter \<Rightarrow> reducef \<Rightarrow> Task \<Rightarrow> files \<Rightarrow> worker_end \<times> files" where
  "HandleReduceTask env sorter reducef task fs =
     (case reduce_files env sorter reducef task (FileNames task) [] fs of
        (ok, fs1) \<Rightarrow> (Reports (if ok then Completed else Idle), fs1(out_tmp env task := None)))"

subsection \<open>\<open>main/mrsequential.go\<close>\<close>

fun seq_read :: "os_env \<Rightarrow> mapf \<Rightarrow> files \<Rightarrow> string list \<Rightarrow> KeyValue list \<Rightarrow> KeyValue list option" where
  "seq_read env mapf fs [] intermediate = Some intermediate"
| "seq_read env mapf fs (f # names) intermediate =
     (case fs f of
        None \<Rightarrow> None
      | Some content \<Rightarrow>
          (if readOk env f then seq_read env mapf fs names (intermediate @ mapf f content) else None))"

definition seq_groups :: "os_env \<Rightarrow> mapf \<Rightarrow> sorter \<Rightarrow> reducef \<Rightarrow> string list \<Rightarrow> files \<Rightarrow> (string \<times> string) list option" where
  "seq_groups env mapf sorter reducef names fs =
     map_option (\<lambda>kvs. reduce_loop reducef (sorter kvs)) (seq_read env mapf fs names [])"

text \<open>\<open>main\<close> after the plugin is loaded; \<open>None\<close> when it exits with an error.\<close>

definition mrsequential :: "os_env \<Rightarrow> mapf \<Rightarrow> sorter \<Rightarrow> reducef \<Rightarrow> string list \<Rightarrow> files \<Rightarrow> files option" where
  "mrsequential env mapf sorter reducef names fs =
     map_option (\<lambda>outs. fs(''mr-out-0'' \<mapsto> reduce_output outs)) (seq_groups env mapf sorter reducef names fs)"

subsection \<open>Reading back what was written\<close>

text \<open>A string that \<open>strings.Fields\<close> reads as one field.\<close>

definition clean :: "string \<Rightarrow> bool" where
  "clean w \<longleftrightarrow> w \<noteq> [] \<and> list_all (\<lambda>i. space_len (drop i w) = 0) [0..<length w]"

text \<open>A pair that survives the intermediate file.\<close>

definition fits :: "KeyValue \<Rightarrow> bool" where
  "fits kv \<longleftrightarrow> clean (kvKey kv) \<and> clean (kvValue kv)
     \<and> length (kvKey kv) + length (kvValue kv) + 1 < MaxScanTokenSize"

lemma space_len_append:
  assumes "u \<noteq> []" and "space_len u = 0" and "c = CHR '' '' \<or> c = nl"
  shows "space_len (u @ c # t) = 0"
proof -
  have h: "\<not> ascii_space (hd u)" "take 2 u \<notin> set space2" "take 3 u \<notin> set space3"
    using assms(1,2) by (auto simp: space_len_def split: if_splits)
  have "take 2 (u @ c # t) \<notin> set space2"
    using assms(1,3) h(2) by (cases u rule: list.exhaust; cases "tl u") (auto simp: space2_def)
  moreover have "take 3 (u @ c # t) \<notin> set space3"
  proof (cases "length u \<ge> 3")
    case False
    then consider x where "u = [x]" | x y where "u = [x, y]"
      using assms(1) by (cases u; cases "tl u"; cases "tl (tl u)") auto
    then show ?thesis using assms(3) by cases (auto simp: space3_def numeral_3_eq_3)
  qed (use h(3) in simp)
  ultimately show ?thesis using assms(1) h(1) by (simp add: space_len_def)
qed

lemma fields_loop_word:
  assumes "\<forall>i < length u. space_len (drop i u) = 0"
  shows "fields_loop w (u @ CHR '' '' # t) = (if w @ u = [] then [] else [w @ u]) @ fields_loop [] t"
    "fields_loop w u = (if w @ u = [] then [] else [w @ u])"
proof -
  have "fields_loop w (u @ CHR '' '' # t) = (if w @ u = [] then [] else [w @ u]) @ fields_loop [] t
      \<and> fields_loop w u = (if w @ u = [] then [] else [w @ u])"
    using assms
  proof (induction u arbitrary: w)
    case Nil
    have "space_len (CHR '' '' # t) = 1" by (simp add: space_len_def ascii_space_def)
    then show ?case by simp
  next
    case (Cons c u)
    have "space_len (c # u) = 0" using Cons.prems by force
    moreover from this have "space_len (c # u @ CHR '' '' # t) = 0"
      using space_len_append [of "c # u" "CHR '' ''" t] by simp
    moreover have "\<forall>i < length u. space_len (drop i u) = 0" using Cons.prems by force
    ultimately show ?case using Cons.IH [of "w @ [c]"] by simp
  qed
  then show "fields_loop w (u @ CHR '' '' # t) = (if w @ u = [] then [] else [w @ u]) @ fields_loop [] t"
    "fields_loop w u = (if w @ u = [] then [] else [w @ u])" by simp_all
qed

lemma Fields_pair: "clean k \<Longrightarrow> clean v \<Longrightarrow> Fields (k @ '' '' @ v) = [k, v]"
  by (simp add: Fields_def clean_def list_all_iff fields_loop_word)

lemma clean_chars:
  assumes "clean w" and "c \<in> set w"
  shows "\<not> ascii_space c"
proof -
  obtain i where i: "i < length w" "w ! i = c" using assms(2) by (auto simp: in_set_conv_nth)
  then have "hd (drop i w) = c" "drop i w \<noteq> []" by (simp_all add: hd_drop_conv_nth)
  with assms(1) i(1) show ?thesis by (auto simp: clean_def list_all_iff space_len_def split: if_splits)
qed

lemma dropCR_clean: "clean v \<Longrightarrow> dropCR (u @ v) = u @ v"
proof -
  assume v: "clean v"
  then have "v \<noteq> []" "last v \<noteq> CHR 0x0D"
    using clean_chars [OF v last_in_set] by (auto simp: clean_def ascii_space_def)
  then show ?thesis by (simp add: dropCR_def)
qed

lemma scan_lines_line:
  assumes "fits kv"
  shows "scan_lines (kv_line (kvKey kv) (kvValue kv) @ rest) = (kvKey kv @ '' '' @ kvValue kv) # scan_lines rest"
proof -
  let ?line = "kvKey kv @ '' '' @ kvValue kv" and ?s = "kv_line (kvKey kv) (kvValue kv) @ rest"
  have "nl \<notin> set ?line"
    using assms clean_chars [of "kvKey kv" nl] clean_chars [of "kvValue kv" nl]
    by (auto simp: fits_def ascii_space_def)
  then have tw: "takeWhile (\<lambda>x. x \<noteq> nl) ?s = ?line" and dw: "dropWhile (\<lambda>x. x \<noteq> nl) ?s = nl # rest"
    by (auto simp: kv_line_def takeWhile_append dropWhile_append takeWhile_eq_all_conv)
  obtain c cs where s: "?s = c # cs" by (cases ?s) (auto simp: kv_line_def)
  have "scan_lines ?s = dropCR ?line # scan_lines rest"
    unfolding s scan_lines.simps(2) using tw dw assms by (simp add: s fits_def Let_def)
  moreover have "dropCR ?line = ?line"
    using dropCR_clean [of "kvValue kv" "kvKey kv @ '' ''"] assms by (simp add: fits_def)
  ultimately show ?thesis by simp
qed

lemma parse_written:
  "list_all fits kvs \<Longrightarrow>
     parse_lines (scan_lines (concat (map (\<lambda>kv. kv_line (kvKey kv) (kvValue kv)) kvs))) = Some kvs"
proof (induction kvs)
  case (Cons kv kvs)
  then have "Fields (kvKey kv @ '' '' @ kvValue kv) = [kvKey kv, kvValue kv]"
    by (intro Fields_pair) (simp_all add: fits_def)
  with Cons show ?case by (simp add: scan_lines_line)
qed simp


subsection \<open>Grouping\<close>

definition values_of :: "string \<Rightarrow> KeyValue list \<Rightarrow> string list" where
  "values_of k kvs = map kvValue (filter (\<lambda>kv. kvKey kv = k) kvs)"

text \<open>What the reduce loop should give: one entry for every key, in ascending order, with all values
  of the key.\<close>

definition grouped :: "reducef \<Rightarrow> KeyValue list \<Rightarrow> (string \<times> string) list" where
  "grouped reducef kvs = map (\<lambda>k. (k, reducef k (values_of k kvs))) (sorted_list_of_set (kvKey ` set kvs))"

text \<open>The reduce function does not depend on the order of the values, as their order is left to
  the sorting function.\<close>

definition order_free :: "reducef \<Rightarrow> bool" where
  "order_free reducef \<longleftrightarrow> (\<forall>k vs vs'. mset vs = mset vs' \<longrightarrow> reducef k vs = reducef k vs')"

lemma sorted_list_of_set_less:
  fixes x :: "'a::linorder"
  assumes "finite A" and "\<forall>y \<in> A. x < y"
  shows "sorted_list_of_set (insert x A) = x # sorted_list_of_set A"
proof -
  have "x \<notin> A" using assms(2) by blast
  moreover have "insort x (sorted_list_of_set A) = x # sorted_list_of_set A"
    using assms by (intro insort_is_Cons) (auto simp: less_imp_le)
  ultimately show ?thesis using assms(1) by simp
qed

lemma reduce_loop_grouped:
  "sorted (map kvKey kvs) \<Longrightarrow> reduce_loop reducef kvs = grouped reducef kvs"
proof (induction reducef kvs rule: reduce_loop.induct)
  case (2 reducef kv kvs)
  let ?k = "kvKey kv" let ?same = "takeWhile (\<lambda>kv'. kvKey kv' = ?k) kvs" let ?rest = "drop (length ?same) kvs"
  have kvs: "kvs = ?same @ ?rest" by (metis append_take_drop_id takeWhile_eq_take)
  have rest: "?rest = dropWhile (\<lambda>kv'. kvKey kv' = ?k) kvs" by (simp add: dropWhile_eq_drop)
  have srt: "sorted (map kvKey ?rest)"
    using 2(2) by (simp add: drop_map [symmetric] sorted_wrt_drop)
  have above: "?k < kvKey x" if "x \<in> set ?rest" for x
  proof -
    have "?rest \<noteq> []" using that by (rule contrapos_pn) (simp only: list.set empty_iff not_False_eq_True)
    then obtain y ys where r: "?rest = y # ys" by (meson neq_Nil_conv)
    have "kvKey y \<noteq> ?k"
      using hd_dropWhile [of "\<lambda>kv'. kvKey kv' = ?k" kvs] r unfolding rest by simp
    moreover have "y \<in> set kvs" using r by (metis in_set_dropD list.set_intros(1))
    ultimately have "?k < kvKey y" using 2(2) by (auto simp: order_less_le)
    also have "kvKey y \<le> kvKey x" using srt that r by auto
    finally show ?thesis .
  qed
  have sv: "filter (\<lambda>kv'. kvKey kv' = ?k) kvs = ?same"
  proof -
    have "filter (\<lambda>kv'. kvKey kv' = ?k) ?rest = []" using above by (fastforce simp: filter_empty_conv)
    moreover have "filter (\<lambda>kv'. kvKey kv' = ?k) ?same = ?same"
      by (auto simp: filter_id_conv dest: set_takeWhileD)
    ultimately show ?thesis by (metis kvs filter_append append_Nil2)
  qed
  have other: "values_of k (kv # kvs) = values_of k ?rest" if "k \<noteq> ?k" for k
  proof -
    have "filter (\<lambda>kv'. kvKey kv' = k) ?same = []"
      using that by (auto simp: filter_empty_conv dest: set_takeWhileD)
    moreover have "filter (\<lambda>kv'. kvKey kv' = k) kvs
        = filter (\<lambda>kv'. kvKey kv' = k) ?same @ filter (\<lambda>kv'. kvKey kv' = k) ?rest"
      using arg_cong [OF kvs, of "filter (\<lambda>kv'. kvKey kv' = k)"] by (simp only: filter_append)
    ultimately show ?thesis using that by (simp add: values_of_def)
  qed
  have "set ?same \<subseteq> {x. kvKey x = ?k}" by (auto dest: set_takeWhileD)
  then have "kvKey ` set (kv # kvs) = insert ?k (kvKey ` set ?rest)"
    using arg_cong [OF kvs, of "\<lambda>xs. kvKey ` set xs"] by (auto simp only: set_append image_Un list.set image_insert)
  then have "sorted_list_of_set (kvKey ` set (kv # kvs)) = ?k # sorted_list_of_set (kvKey ` set ?rest)"
    using sorted_list_of_set_less [of "kvKey ` set ?rest" ?k] above by auto
  moreover have "map (\<lambda>k. (k, reducef k (values_of k (kv # kvs)))) (sorted_list_of_set (kvKey ` set ?rest))
      = grouped reducef ?rest"
  proof -
    have "values_of (kvKey x) (kv # kvs) = values_of (kvKey x) ?rest" if "x \<in> set ?rest" for x
      using above [OF that] by (intro other) simp
    then show ?thesis by (auto simp: grouped_def)
  qed
  moreover have "values_of ?k (kv # kvs) = map kvValue (kv # ?same)" by (simp add: values_of_def sv)
  ultimately show ?case using 2(1) [OF refl srt] by (simp add: grouped_def Let_def)
qed (simp add: grouped_def)

lemma grouped_mset:
  assumes "order_free reducef" and "mset kvs = mset kvs'"
  shows "grouped reducef kvs = grouped reducef kvs'"
proof -
  have "reducef k (values_of k kvs) = reducef k (values_of k kvs')" for k
  proof -
    have "mset (values_of k kvs) = mset (values_of k kvs')" using assms(2) by (simp add: values_of_def mset_filter)
    then show ?thesis using assms(1) unfolding order_free_def by blast
  qed
  moreover have "set kvs = set kvs'" using assms(2) by (rule mset_eq_setD)
  ultimately show ?thesis by (simp add: grouped_def)
qed

lemma reduce_loop_sorter:
  assumes "valid_sort sorter" and "order_free reducef"
  shows "reduce_loop reducef (sorter kvs) = grouped reducef kvs"
  using assms grouped_mset [OF assms(2), of "sorter kvs" kvs]
  by (simp add: valid_sort_def reduce_loop_grouped)

lemma grouped_filter:
  "grouped reducef (filter (\<lambda>kv. P (kvKey kv)) kvs) = filter (\<lambda>(k, v). P k) (grouped reducef kvs)"
proof -
  have "kvKey ` set (filter (\<lambda>kv. P (kvKey kv)) kvs) = Set.filter P (kvKey ` set kvs)" by auto
  moreover have "sorted_list_of_set (Set.filter P A) = filter P (sorted_list_of_set A)" if "finite A" for A :: "string set"
    using that by (intro sorted_distinct_set_unique) (auto simp: sorted_wrt_filter)
  moreover have "values_of k (filter (\<lambda>kv. P (kvKey kv)) kvs) = values_of k kvs" if "P k" for k
    using that by (auto simp: values_of_def intro!: arg_cong [of _ _ "map kvValue"] filter_cong)
  ultimately show ?thesis by (auto simp: grouped_def filter_map o_def)
qed


subsection \<open>File names\<close>

lemma mr_name_inj:
  assumes "0 \<le> j" and "0 \<le> i" and "0 \<le> j'" and "0 \<le> i'"
  shows "mr_name j i = mr_name j' i' \<longleftrightarrow> j = j' \<and> i = i'"
  using assms split_at_char [of "CHR ''-''" "itoa j" "itoa j'" "itoa i" "itoa i'"]
  by (auto simp: mr_name_def itoa_chars itoa_inj)

lemma out_name_inj: "0 \<le> i \<Longrightarrow> 0 \<le> i' \<Longrightarrow> out_name i = out_name i' \<longleftrightarrow> i = i'"
  by (simp add: out_name_def itoa_inj)

lemma mr_name_out_name [simp]: "mr_name j i \<noteq> out_name k" "out_name k \<noteq> mr_name j i"
  by (auto simp: mr_name_def out_name_def)

text \<open>Names of temporary files.\<close>

definition is_tmp :: "string \<Rightarrow> bool" where
  "is_tmp f \<longleftrightarrow> (\<exists>a b. f = a @ ''.tmp'' @ b)"

lemma is_tmp_names [simp]:
  "is_tmp (tmp_name j i t)" "is_tmp (out_tmp env task)" "f \<in> set (cleanup_names env task file) \<Longrightarrow> is_tmp f"
proof -
  show "is_tmp (tmp_name j i t)" by (auto simp: is_tmp_def tmp_name_def)
  show "is_tmp (out_tmp env task)" by (auto simp: is_tmp_def out_tmp_def)
  assume "f \<in> set (cleanup_names env task file)"
  then obtain i where "f = (''./intermediates/mr-'' @ TrimSuffix (Base file) ''.txt'' @ ''-'' @ itoa i) @ ''.tmp''
      @ showTime env (StartTime task)" by (auto simp: cleanup_names_def)
  then show "is_tmp f" unfolding is_tmp_def by blast
qed

lemma not_is_tmp [simp]: "\<not> is_tmp (mr_name j i)" "\<not> is_tmp (out_name k)"
proof -
  have tail: "s \<noteq> a @ ''.tmp'' @ b" if "CHR ''.'' \<notin> set s" for a b s using that by auto
  have "CHR ''.'' \<notin> set (out_name k)" using itoa_chars(1) by (simp add: out_name_def)
  then show "\<not> is_tmp (out_name k)" unfolding is_tmp_def using tail by blast
  show "\<not> is_tmp (mr_name j i)"
  proof
    assume "is_tmp (mr_name j i)"
    then obtain a b where e: "mr_name j i = a @ ''.tmp'' @ b" by (auto simp: is_tmp_def)
    obtain s where s: "mr_name j i = CHR ''.'' # CHR ''/'' # s" "CHR ''.'' \<notin> set s"
      using itoa_chars(1) by (auto simp: mr_name_def)
    then show False
      using e tail [of s "tl (tl a)" b] by (cases a rule: list.exhaust; cases "tl a") (auto simp: Cons_eq_append_conv)
  qed
qed

lemma Ext_dot:
  assumes "CHR ''.'' \<notin> set s" and "CHR ''/'' \<notin> set s"
  shows "Ext (p @ CHR ''.'' # s) = CHR ''.'' # s"
proof -
  have "takeWhile (\<lambda>c. c \<noteq> CHR ''.'' \<and> c \<noteq> CHR ''/'') (rev (p @ CHR ''.'' # s)) = rev s"
    using assms by (simp add: takeWhile_append takeWhile_eq_all_conv)
      (metis (mono_tags, lifting) set_rev takeWhile_eq_all_conv)
  then show ?thesis by (simp add: Ext_def nth_append)
qed

lemma TrimSuffix_append [simp]: "TrimSuffix (p @ s) s = p"
  by (simp add: TrimSuffix_def)

lemma final_name: "TrimSuffix (tmp_name j i t) (Ext (tmp_name j i t)) = mr_name j i"
proof -
  have "Ext (mr_name j i @ CHR ''.'' # (''tmp'' @ itoa t)) = CHR ''.'' # (''tmp'' @ itoa t)"
    by (rule Ext_dot) (auto simp: itoa_chars)
  then have "Ext (tmp_name j i t) = ''.tmp'' @ itoa t" by (simp add: tmp_name_def)
  then show ?thesis unfolding tmp_name_def by (simp only: TrimSuffix_append)
qed


subsection \<open>What a map task does\<close>

definition healthy :: "os_env \<Rightarrow> bool" where
  "healthy env \<longleftrightarrow> mkdirOk env
     \<and> (\<forall>f. readOk env f \<and> createOk env f \<and> writeOk env f \<and> renameOk env f)"

text \<open>The pairs of a bucket, and the text of a file of pairs.\<close>

definition bucket :: "int \<Rightarrow> int \<Rightarrow> KeyValue list \<Rightarrow> KeyValue list" where
  "bucket n i kvs = filter (\<lambda>kv. ihash (kvKey kv) mod n = i) kvs"

definition kvs_text :: "KeyValue list \<Rightarrow> string" where
  "kvs_text kvs = concat (map (\<lambda>kv. kv_line (kvKey kv) (kvValue kv)) kvs)"

lemma createBuckets_eq:
  "healthy env \<Longrightarrow> createBuckets env names fs = (True, \<lambda>f. if f \<in> set names then Some [] else fs f)"
  by (induction names arbitrary: fs) (auto simp: healthy_def fun_eq_iff)

lemma writeBuckets_eq:
  assumes "healthy env" and "names \<noteq> []" and "distinct names"
  shows "\<exists>fs'. writeBuckets env names kvs fs = (True, fs')
    \<and> (\<forall>i < length names. fs (names ! i) \<noteq> None \<longrightarrow>
         fs' (names ! i) = Some (the (fs (names ! i)) @ kvs_text (bucket (go_len names) (int i) kvs)))
    \<and> (\<forall>f. f \<notin> set names \<longrightarrow> fs' f = fs f)"
proof (induction kvs arbitrary: fs)
  case (Cons kv kvs)
  have "0 \<le> ihash (kvKey kv) mod go_len names" "ihash (kvKey kv) mod go_len names < go_len names"
    using assms(2) by (simp_all add: go_len_def)
  then obtain k where k: "ihash (kvKey kv) mod go_len names = int k" "k < length names"
    by (metis go_len_def nonneg_int_cases of_nat_less_iff)
  let ?line = "kv_line (kvKey kv) (kvValue kv)"
  let ?fs1 = "fs(names ! k \<mapsto> the (fs (names ! k)) @ ?line)"
  from Cons [of ?fs1] obtain fs' where fs': "writeBuckets env names kvs ?fs1 = (True, fs')"
    "\<And>i. i < length names \<Longrightarrow> ?fs1 (names ! i) \<noteq> None \<Longrightarrow> fs' (names ! i)
        = Some (the (?fs1 (names ! i)) @ kvs_text (bucket (go_len names) (int i) kvs))"
    "\<And>f. f \<notin> set names \<Longrightarrow> fs' f = ?fs1 f" by blast
  have "fs' (names ! i) = Some (the (fs (names ! i)) @ kvs_text (bucket (go_len names) (int i) (kv # kvs)))"
    if i: "i < length names" "fs (names ! i) \<noteq> None" for i
  proof (cases "i = k")
    case True
    with fs'(2) [OF i(1)] k(1) show ?thesis by (simp add: bucket_def kvs_text_def)
  next
    case False
    then have "names ! i \<noteq> names ! k" using k(2) i(1) assms(3) by (auto simp: nth_eq_iff_index_eq)
    with fs'(2) [OF i(1)] i(2) k(1) False show ?thesis by (simp add: bucket_def)
  qed
  moreover have "fs' f = fs f" if "f \<notin> set names" for f using fs'(3) [OF that] that k(2) by auto
  moreover have "writeBuckets env names (kv # kvs) fs = (True, fs')"
    using fs'(1) assms(1,2) k(1) by (simp add: healthy_def Let_def)
  ultimately show ?case by blast
qed (simp add: bucket_def kvs_text_def)

lemma tmp_name_inj: "0 \<le> j \<Longrightarrow> 0 \<le> i \<Longrightarrow> 0 \<le> i' \<Longrightarrow> tmp_name j i t = tmp_name j i' t \<longleftrightarrow> i = i'"
  by (simp add: tmp_name_def mr_name_inj)

lemma renameBuckets_eq:
  assumes "healthy env" and "0 \<le> j" and "\<forall>i \<in> set is. 0 \<le> i" and "distinct is"
  shows "\<exists>fs'. renameBuckets env (map (\<lambda>i. tmp_name j i t) is) fs = (True, fs')
    \<and> (\<forall>i \<in> set is. fs' (mr_name j i) = fs (tmp_name j i t))
    \<and> (\<forall>f. \<not> is_tmp f \<and> f \<notin> mr_name j ` set is \<longrightarrow> fs' f = fs f)"
  using assms(3,4)
proof (induction "is" arbitrary: fs)
  case (Cons k ks)
  let ?fs1 = "fs(mr_name j k := fs (tmp_name j k t), tmp_name j k t := None)"
  obtain fs' where fs': "renameBuckets env (map (\<lambda>i. tmp_name j i t) ks) ?fs1 = (True, fs')"
    "\<And>i. i \<in> set ks \<Longrightarrow> fs' (mr_name j i) = ?fs1 (tmp_name j i t)"
    "\<And>f. \<not> is_tmp f \<Longrightarrow> f \<notin> mr_name j ` set ks \<Longrightarrow> fs' f = ?fs1 f" using Cons by force
  have nt: "mr_name j a \<noteq> tmp_name j b t" for a b using is_tmp_names(1) not_is_tmp(1) by metis
  have "mr_name j k \<notin> mr_name j ` set ks" using Cons.prems assms(2) by (auto simp: mr_name_inj)
  then have k: "fs' (mr_name j k) = fs (tmp_name j k t)" using fs'(3) [of "mr_name j k"] nt by simp
  have "fs' (mr_name j i) = fs (tmp_name j i t)" if "i \<in> set ks" for i
    using fs'(2) [OF that] Cons.prems that assms(2) nt [of k i] by (auto simp: tmp_name_inj)
  moreover have "fs' f = fs f" if "\<not> is_tmp f" "f \<notin> mr_name j ` set (k # ks)" for f
    using fs'(3) [of f] that is_tmp_names(1) [of j k t] by auto
  ultimately show ?case using k fs'(1) assms(1) by (auto simp: healthy_def final_name)
qed simp

lemma HandleMapTask_effect:
  assumes "healthy env" and "FileNames task = [file]" and "fs file = Some content"
    and "0 < NReduce task" and "0 \<le> tkId task"
  obtains fs' where "HandleMapTask env mapf task fs = (Reports Completed, fs')"
    and "\<And>i. 0 \<le> i \<Longrightarrow> i < NReduce task \<Longrightarrow>
           fs' (mr_name (tkId task) i) = Some (kvs_text (bucket (NReduce task) i (mapf file content)))"
    and "\<And>f. \<not> is_tmp f \<Longrightarrow> f \<notin> mr_name (tkId task) ` {0..<NReduce task} \<Longrightarrow> fs' f = fs f"
proof -
  let ?j = "tkId task" and ?t = "StartTime task" and ?is = "[0..NReduce task - 1]" and ?kvs = "mapf file content"
  let ?names = "map (\<lambda>i. tmp_name ?j i ?t) ?is"
  let ?fs1 = "\<lambda>f. if f \<in> set ?names then Some [] else fs f"
  have len: "go_len ?names = NReduce task" using assms(4) by (simp add: go_len_def)
  have dist: "distinct ?names"
    using assms(5) by (auto simp: distinct_map inj_on_def tmp_name_inj)
  have "?names \<noteq> []" using assms(4) by simp
  from writeBuckets_eq [OF assms(1) this dist, of ?kvs ?fs1] obtain fs2 where
    w: "writeBuckets env ?names ?kvs ?fs1 = (True, fs2)"
    and w1: "\<And>i. i < length ?names \<Longrightarrow> fs2 (?names ! i) = Some (kvs_text (bucket (NReduce task) (int i) ?kvs))"
    and w2: "\<And>f. f \<notin> set ?names \<Longrightarrow> fs2 f = ?fs1 f" unfolding len by fastforce
  have w1': "fs2 (tmp_name ?j i ?t) = Some (kvs_text (bucket (NReduce task) i ?kvs))" if "0 \<le> i" "i < NReduce task" for i
    using w1 [of "nat i"] that by simp
  from renameBuckets_eq [OF assms(1,5), of ?is ?t fs2] obtain fs3 where
    r: "renameBuckets env ?names fs2 = (True, fs3)"
    and r1: "\<And>i. i \<in> set ?is \<Longrightarrow> fs3 (mr_name ?j i) = fs2 (tmp_name ?j i ?t)"
    and r2: "\<And>f. \<not> is_tmp f \<Longrightarrow> f \<notin> mr_name ?j ` set ?is \<Longrightarrow> fs3 f = fs2 f" by auto
  let ?fs' = "removeAll_files (cleanup_names env task file) fs3"
  have clean_frame: "?fs' f = fs3 f" if "\<not> is_tmp f" for f
    using that is_tmp_names(3) by (auto simp: removeAll_files_def)
  show thesis
  proof
    show "HandleMapTask env mapf task fs = (Reports Completed, ?fs')"
      using assms w r createBuckets_eq [OF assms(1), of ?names fs]
      by (simp add: HandleMapTask_def go_at_def Let_def healthy_def)
    show "?fs' (mr_name ?j i) = Some (kvs_text (bucket (NReduce task) i ?kvs))" if "0 \<le> i" "i < NReduce task" for i
      using clean_frame r1 w1' that by simp
    show "?fs' f = fs f" if "\<not> is_tmp f" "f \<notin> mr_name ?j ` {0..<NReduce task}" for f
    proof -
      have "set ?is = {0..<NReduce task}" by auto
      then have "?fs' f = fs2 f" using clean_frame [OF that(1)] r2 [of f] that by simp
      moreover have "f \<notin> set ?names" using that(1) by auto
      ultimately show ?thesis using w2 by simp
    qed
  qed
qed


subsection \<open>What a reduce task does\<close>

lemma out_tmp_out_name [simp]: "out_tmp env task \<noteq> out_name k" "out_name k \<noteq> out_tmp env task"
  using is_tmp_names(2) not_is_tmp(2) by metis+

lemma write_output_eq:
  "healthy env \<Longrightarrow> write_output env task text fs = fs(out_name (tkId task) \<mapsto> text, out_tmp env task := None)"
proof -
  assume "healthy env"
  moreover have "TrimSuffix (out_tmp env task) (''.tmp'' @ showTime env (StartTime task)) = out_name (tkId task)"
    unfolding out_tmp_def by (rule TrimSuffix_append)
  ultimately show ?thesis by (simp add: write_output_def healthy_def Let_def fun_eq_iff)
qed

lemma reduce_files_effect:
  assumes "healthy env" and "valid_sort sorter" and "order_free reducef"
    and "list_all2 (\<lambda>f new. fs f = Some (kvs_text new) \<and> list_all fits new) names news"
    and "\<forall>f \<in> set names. \<not> is_tmp f \<and> f \<noteq> out_name (tkId task)"
  shows "\<exists>fs'. reduce_files env sorter reducef task names kvs fs = (True, fs')
    \<and> (names \<noteq> [] \<longrightarrow> fs' (out_name (tkId task)) = Some (reduce_output (grouped reducef (kvs @ concat news))))
    \<and> (\<forall>f. \<not> is_tmp f \<and> f \<noteq> out_name (tkId task) \<longrightarrow> fs' f = fs f)"
  using assms(4,5)
proof (induction names arbitrary: news kvs fs)
  case (Cons f names)
  obtain new rest where news: "news = new # rest" "fs f = Some (kvs_text new)" "list_all fits new"
    "list_all2 (\<lambda>f new. fs f = Some (kvs_text new) \<and> list_all fits new) names rest"
    using Cons.prems(1) by (auto simp: list_all2_Cons1)
  let ?kvs = "sorter (kvs @ new)"
  let ?text = "reduce_output (reduce_loop reducef ?kvs)"
  let ?fs1 = "fs(out_name (tkId task) \<mapsto> ?text, out_tmp env task := None)"
  have "?fs1 g = fs g" if "g \<in> set names" for g using Cons.prems(2) that by auto
  then have "list_all2 (\<lambda>f new. ?fs1 f = Some (kvs_text new) \<and> list_all fits new) names rest"
    using news(4) by (auto simp: list_all2_conv_all_nth)
  moreover have "\<forall>f \<in> set names. \<not> is_tmp f \<and> f \<noteq> out_name (tkId task)" using Cons.prems(2) by simp
  ultimately obtain fs' where fs':
    "reduce_files env sorter reducef task names ?kvs ?fs1 = (True, fs')"
    "names \<noteq> [] \<Longrightarrow> fs' (out_name (tkId task)) = Some (reduce_output (grouped reducef (?kvs @ concat rest)))"
    "\<And>f. \<not> is_tmp f \<Longrightarrow> f \<noteq> out_name (tkId task) \<Longrightarrow> fs' f = ?fs1 f" using Cons.IH [of ?fs1 rest ?kvs] by blast
  have "reduce_files env sorter reducef task (f # names) kvs fs = (True, fs')"
    using fs'(1) news(2) parse_written [OF news(3)] assms(1)
    by (simp add: kvs_text_def healthy_def write_output_eq [OF assms(1)] Let_def)
  moreover have "fs' (out_name (tkId task)) = Some (reduce_output (grouped reducef (kvs @ concat news)))"
  proof (cases "names = []")
    case True
    then show ?thesis
      using fs'(1) news(1,4) reduce_loop_sorter [OF assms(2,3)] by auto
  next
    case False
    have "mset (?kvs @ concat rest) = mset (kvs @ concat news)"
      using assms(2) by (simp add: valid_sort_def news(1))
    then show ?thesis using fs'(2) [OF False] grouped_mset [OF assms(3)] by metis
  qed
  moreover have "fs' g = fs g" if "\<not> is_tmp g" "g \<noteq> out_name (tkId task)" for g
    using fs'(3) [OF that] that is_tmp_names(2) [of env task] by auto
  ultimately show ?case by blast
qed simp

lemma HandleReduceTask_effect:
  assumes "healthy env" and "valid_sort sorter" and "order_free reducef" and "FileNames task \<noteq> []"
    and "list_all2 (\<lambda>f new. fs f = Some (kvs_text new) \<and> list_all fits new) (FileNames task) news"
    and "\<forall>f \<in> set (FileNames task). \<not> is_tmp f \<and> f \<noteq> out_name (tkId task)"
  obtains fs' where "HandleReduceTask env sorter reducef task fs = (Reports Completed, fs')"
    and "fs' (out_name (tkId task)) = Some (reduce_output (grouped reducef (concat news)))"
    and "\<And>f. \<not> is_tmp f \<Longrightarrow> f \<noteq> out_name (tkId task) \<Longrightarrow> fs' f = fs f"
proof -
  obtain fs1 where fs1: "reduce_files env sorter reducef task (FileNames task) [] fs = (True, fs1)"
    "fs1 (out_name (tkId task)) = Some (reduce_output (grouped reducef (concat news)))"
    "\<And>f. \<not> is_tmp f \<Longrightarrow> f \<noteq> out_name (tkId task) \<Longrightarrow> fs1 f = fs f"
    using reduce_files_effect [OF assms(1-3,5,6), of "[]"] assms(4) by auto
  show thesis
  proof
    show "HandleReduceTask env sorter reducef task fs = (Reports Completed, fs1(out_tmp env task := None))"
      using fs1(1) by (simp add: HandleReduceTask_def)
    show "(fs1(out_tmp env task := None)) (out_name (tkId task))
        = Some (reduce_output (grouped reducef (concat news)))" using fs1(2) by simp
    show "(fs1(out_tmp env task := None)) f = fs f" if "\<not> is_tmp f" "f \<noteq> out_name (tkId task)" for f
      using fs1(3) [OF that] that is_tmp_names(2) [of env task] by auto
  qed
qed

text \<open>The sequential program.\<close>

lemma seq_read_eq:
  assumes "healthy env" and "list_all2 (\<lambda>f c. fs f = Some c) names contents"
  shows "seq_read env mapf fs names kvs = Some (kvs @ concat (map2 mapf names contents))"
  using assms(2)
proof (induction names arbitrary: contents kvs)
  case (Cons f names)
  then show ?case using assms(1) by (auto simp: list_all2_Cons1 healthy_def)
qed simp

lemma seq_groups_eq:
  assumes "healthy env" and "valid_sort sorter" and "order_free reducef"
    and "list_all2 (\<lambda>f c. fs f = Some c) names contents"
  shows "seq_groups env mapf sorter reducef names fs = Some (grouped reducef (concat (map2 mapf names contents)))"
  using seq_read_eq [OF assms(1,4), of mapf "[]"] reduce_loop_sorter [OF assms(2,3)]
  by (simp add: seq_groups_def)

lemma bucket_concat: "concat (map (bucket n i) kvss) = bucket n i (concat kvss)"
  by (induction kvss) (simp_all add: bucket_def)

lemma grouped_bucket:
  "grouped reducef (bucket n i kvs) = filter (\<lambda>(k, v). ihash k mod n = i) (grouped reducef kvs)"
  unfolding bucket_def by (rule grouped_filter)


subsection \<open>The reduce functions of the applications\<close>

definition wc_Reduce :: reducef where
  "wc_Reduce key values = itoa (go_len values)"

fun Join :: "string list \<Rightarrow> string \<Rightarrow> string" where
  "Join [] sep = []"
| "Join [x] sep = x"
| "Join (x # y # xs) sep = x @ sep @ Join (y # xs) sep"

definition indexer_Reduce :: reducef where
  "indexer_Reduce key values = itoa (go_len values) @ '' '' @ Join (sort values) '',''"

text \<open>The reduce functions of the word count and of the indexer do not depend on the order in which
  the values of a key arrive, which Go's unstable sort leaves open.\<close>

theorem apps_order_free: "order_free wc_Reduce \<and> order_free indexer_Reduce"
proof -
  have "go_len vs = go_len vs'" "sort vs = sort vs'" if "mset vs = mset vs'" for vs vs' :: "string list"
  proof -
    show "go_len vs = go_len vs'" using mset_eq_length [OF that] by (simp add: go_len_def)
    show "sort vs = sort vs'" using that by (metis mset_sort properties_for_sort sorted_sort)
  qed
  then show ?thesis unfolding order_free_def wc_Reduce_def indexer_Reduce_def by metis
qed

text \<open>C25: the bucket of a key is always a valid index. The hash is a non-negative number below
  2 ^ 31, so that on 64 bits the remainder by the number of buckets is between 0 and that number.\<close>

theorem bucket_in_range:
  assumes "0 < n"
  shows "0 \<le> ihash key \<and> ihash key < 2 ^ 31 \<and> 0 \<le> ihash key mod n \<and> ihash key mod n < n"
proof -
  have "uint (h AND 0x7fffffff) < 2 ^ 31" for h :: "32 word"
  proof -
    have "h AND 0x7fffffff = take_bit 31 h" by (simp add: take_bit_eq_mask mask_eq_exp_minus_1)
    then show ?thesis using take_bit_int_less_exp [of 31 "uint h"] by (simp add: unsigned_take_bit_eq)
  qed
  then show ?thesis using assms by (simp add: ihash_def Let_def)
qed

theorem bucket_in_range_witness: "ihash ''x'' mod 10 < 10"
  using bucket_in_range [of 10 "''x''"] by simp

text \<open>A reduce task reads back exactly the pairs that the map tasks wrote, in their order, as long as
  no key and no value is empty or contains white space and a line fits into the scanner's
  buffer.\<close>

theorem intermediate_roundtrip:
  assumes "list_all fits kvs"
  shows "parse_lines (scan_lines (concat (map (\<lambda>kv. kv_line (kvKey kv) (kvValue kv)) kvs))) = Some kvs"
  by (rule parse_written [OF assms])

theorem intermediate_roundtrip_witness:
  "parse_lines (scan_lines (concat (map (\<lambda>kv. kv_line (kvKey kv) (kvValue kv))
     [\<lparr>kvKey = ''a'', kvValue = ''1''\<rparr>, \<lparr>kvKey = ''b'', kvValue = ''2''\<rparr>])))
   = Some [\<lparr>kvKey = ''a'', kvValue = ''1''\<rparr>, \<lparr>kvKey = ''b'', kvValue = ''2''\<rparr>]"
proof -
  have "clean ''a''" "clean ''b''" "clean ''1''" "clean ''2''" by code_simp+
  then have "list_all fits [\<lparr>kvKey = ''a'', kvValue = ''1''\<rparr>, \<lparr>kvKey = ''b'', kvValue = ''2''\<rparr>]"
    by (simp add: fits_def MaxScanTokenSize_def)
  from intermediate_roundtrip [OF this] show ?thesis .
qed

end
