(* ===== verification/MRCoordinator.thy ===== *)
theory MRCoordinator
  imports MRWorker
begin

section \<open>MapReduce: the coordinator\<close>

text \<open>
  \<open>mr/coordinator.go\<close> and the RPC side of \<open>mr/worker.go\<close>. A time is a number of
  nanoseconds; every handler takes the time at which it runs. A reply carries a copy of a task, as
  the RPC library encodes it. The fields \<open>nMap\<close>, \<open>finishedMap\<close> and
  \<open>finishedReduce\<close> are kept as the code has them, although it never changes them.
\<close>

subsection \<open>State\<close>

datatype phase = duringMap | duringReduce | finish

record Coordinator =
  mapTasks :: "Task list"
  reduceTasks :: "Task list"
  nMap :: int
  nReduce :: int
  co_phase :: phase
  finishedMap :: int
  finishedReduce :: int

definition TaskTimeout :: int where
  "TaskTimeout = 10 * 1000000000"

text \<open>\<open>&Task{}\<close>: all fields zero.\<close>

definition zeroTask :: Task where
  "zeroTask = \<lparr>tkType = UnknownTask, FileNames = [], tkId = 0, StartTime = 0, tkState = Idle, NMap = 0, NReduce = 0\<rparr>"

subsection \<open>Handlers\<close>

fun findAvailableTask :: "int \<Rightarrow> Task list \<Rightarrow> Task option \<times> Task list" where
  "findAvailableTask now [] = (None, [])"
| "findAvailableTask now (task # tasks) =
     (if tkState task = Idle \<or> (tkState task = InProgress \<and> now - StartTime task > TaskTimeout)
      then (let task' = task\<lparr>StartTime := now, tkState := InProgress\<rparr> in (Some task', task' # tasks))
      else (let (found, tasks') = findAvailableTask now tasks in (found, task # tasks')))"

definition HandleGetTaskRequest :: "int \<Rightarrow> Coordinator \<Rightarrow> Task option \<times> Coordinator" where
  "HandleGetTaskRequest now c =
     (if co_phase c = duringMap
      then (let (found, tasks) = findAvailableTask now (mapTasks c) in (found, c\<lparr>mapTasks := tasks\<rparr>))
      else if co_phase c = duringReduce
      then (let (found, tasks) = findAvailableTask now (reduceTasks c) in (found, c\<lparr>reduceTasks := tasks\<rparr>))
      else (Some (zeroTask\<lparr>tkType := AllTasksDone\<rparr>), c))"

definition GenerateReduceTasksWithLock :: "Coordinator \<Rightarrow> Coordinator" where
  "GenerateReduceTasksWithLock c =
     (if co_phase c \<noteq> duringReduce then c
      else c\<lparr>reduceTasks := reduceTasks c
               @ map (\<lambda>i. zeroTask\<lparr>tkType := ReduceTask, tkId := i, NMap := go_len (mapTasks c),
                            NReduce := nReduce c, tkState := Idle\<rparr>) [0..nReduce c - 1],
             co_phase := duringReduce\<rparr>)"

text \<open>The loop over the reduce tasks; \<open>None\<close> when there is no task \<open>i\<close>.\<close>

fun assign_loop :: "int list \<Rightarrow> int \<Rightarrow> Task list \<Rightarrow> Task list option" where
  "assign_loop [] maps tasks = Some tasks"
| "assign_loop (i # is) maps tasks = do {
     task \<leftarrow> go_at tasks i;
     tasks' \<leftarrow> go_upd tasks i (task\<lparr>FileNames := FileNames task @ map (\<lambda>j. mr_name j i) [0..maps - 1],
                                   tkState := Idle\<rparr>);
     assign_loop is maps tasks' }"

definition AssignReduceTasksWithLock :: "Coordinator \<Rightarrow> Coordinator option" where
  "AssignReduceTasksWithLock c =
     map_option (\<lambda>tasks. c\<lparr>reduceTasks := tasks\<rparr>)
       (assign_loop [0..nReduce c - 1] (go_len (mapTasks c)) (reduceTasks c))"

fun markCompleted :: "int \<Rightarrow> Task list \<Rightarrow> Task list" where
  "markCompleted i [] = []"
| "markCompleted i (task # tasks) =
     (if tkId task = i then task\<lparr>tkState := Completed\<rparr> # tasks else task # markCompleted i tasks)"

definition allCompleted :: "Task list \<Rightarrow> bool" where
  "allCompleted tasks \<longleftrightarrow> list_all (\<lambda>task. tkState task = Completed) tasks"

definition TaskDoneMap :: "Task \<Rightarrow> Coordinator \<Rightarrow> Coordinator option" where
  "TaskDoneMap task c =
     (let c1 = c\<lparr>mapTasks := markCompleted (tkId task) (mapTasks c)\<rparr> in
      if allCompleted (mapTasks c1)
      then AssignReduceTasksWithLock (GenerateReduceTasksWithLock (c1\<lparr>co_phase := duringReduce\<rparr>))
      else Some c1)"

definition TaskDoneReduce :: "Task \<Rightarrow> Coordinator \<Rightarrow> Coordinator" where
  "TaskDoneReduce task c =
     (let c1 = c\<lparr>reduceTasks := markCompleted (tkId task) (reduceTasks c)\<rparr> in
      if allCompleted (reduceTasks c1) then c1\<lparr>co_phase := finish\<rparr> else c1)"

text \<open>\<open>None\<close>: the handler panics.\<close>

definition TaskDone :: "Task \<Rightarrow> Coordinator \<Rightarrow> Coordinator option" where
  "TaskDone task c =
     (if tkType task = MapTask then TaskDoneMap task c
      else if tkType task = ReduceTask then Some (TaskDoneReduce task c)
      else Some c)"

definition Done :: "Coordinator \<Rightarrow> bool" where
  "Done c \<longleftrightarrow> co_phase c = finish"

definition MakeCoordinator :: "string list \<Rightarrow> int \<Rightarrow> Coordinator" where
  "MakeCoordinator inputs n =
     \<lparr>mapTasks = map (\<lambda>(i, file). zeroTask\<lparr>tkType := MapTask, FileNames := [file], tkId := i, tkState := Idle,
                                    NReduce := n\<rparr>) (zip [0..go_len inputs - 1] inputs),
      reduceTasks = [], nMap = go_len inputs, nReduce = n, co_phase = duringMap,
      finishedMap = 0, finishedReduce = 0\<rparr>"

subsection \<open>The worker's loop\<close>

text \<open>One round of \<open>Worker\<close>: what a task from \<open>CallGetTask\<close> makes it do. \<open>Some\<close> state is
  what it reports with \<open>notifyTaskDone\<close>; a worker that does not go on has returned or died.\<close>

datatype round = Stops | Rests | Works worker_end

definition worker_round ::
  "os_env \<Rightarrow> mapf \<Rightarrow> sorter \<Rightarrow> reducef \<Rightarrow> Task option \<Rightarrow> files \<Rightarrow> round \<times> files" where
  "worker_round env mapf sorter reducef found fs =
     (case found of
        None \<Rightarrow> (Rests, fs)
      | Some task \<Rightarrow>
          (case tkType task of
             MapTask \<Rightarrow> (let (e, fs') = HandleMapTask env mapf task fs in (Works e, fs'))
           | ReduceTask \<Rightarrow> (let (e, fs') = HandleReduceTask env sorter reducef task fs in (Works e, fs'))
           | AllTasksDone \<Rightarrow> (Stops, fs)
           | UnknownTask \<Rightarrow> (Rests, fs)))"

text \<open>The report of a task, \<open>None\<close> when the worker dies before it.\<close>

fun report_of :: "Task \<Rightarrow> worker_end \<Rightarrow> Task option" where
  "report_of task Exits = None"
| "report_of task (Reports st) = Some (task\<lparr>tkState := st\<rparr>)"
| "report_of task (ReportsAndPanics st) = Some (task\<lparr>tkState := st\<rparr>)"

subsection \<open>The whole system\<close>

text \<open>The coordinator, the shared files, the tasks that workers hold, and the reports on their way.
  Workers ask, work, die, and report in any order, at any time, and a report may be lost.\<close>

record mr_system =
  coord :: Coordinator
  files :: "string \<rightharpoonup> string"
  held :: "Task list"
  reports :: "Task list"

inductive mr_step ::
  "os_env \<Rightarrow> mapf \<Rightarrow> sorter \<Rightarrow> reducef \<Rightarrow> mr_system \<Rightarrow> mr_system \<Rightarrow> bool"
  for env mapf sorter reducef where
  asks: "HandleGetTaskRequest now (coord s) = (Some task, c) \<Longrightarrow>
     mr_step env mapf sorter reducef s (s\<lparr>coord := c, held := task # held s\<rparr>)"
| asks_in_vain: "HandleGetTaskRequest now (coord s) = (None, c) \<Longrightarrow>
     mr_step env mapf sorter reducef s (s\<lparr>coord := c\<rparr>)"
| works: "task \<in> set (held s) \<Longrightarrow> worker_round env mapf sorter reducef (Some task) (files s) = (Works e, fs) \<Longrightarrow>
     report_of task e = Some report \<Longrightarrow>
     mr_step env mapf sorter reducef s
       (s\<lparr>files := fs, held := remove1 task (held s), reports := report # reports s\<rparr>)"
| dies_working: "task \<in> set (held s) \<Longrightarrow> worker_round env mapf sorter reducef (Some task) (files s) = (Works Exits, fs) \<Longrightarrow>
     mr_step env mapf sorter reducef s (s\<lparr>files := fs, held := remove1 task (held s)\<rparr>)"
| dies: "mr_step env mapf sorter reducef s (s\<lparr>held := remove1 task (held s)\<rparr>)"
| reports: "report \<in> set (reports s) \<Longrightarrow> TaskDone report (coord s) = Some c \<Longrightarrow>
     mr_step env mapf sorter reducef s (s\<lparr>coord := c, reports := remove1 report (reports s)\<rparr>)"
| loses_report: "mr_step env mapf sorter reducef s (s\<lparr>reports := remove1 report (reports s)\<rparr>)"

definition mr_start :: "string list \<Rightarrow> int \<Rightarrow> files \<Rightarrow> mr_system" where
  "mr_start inputs n fs = \<lparr>coord = MakeCoordinator inputs n, files = fs, held = [], reports = []\<rparr>"

inductive mr_run ::
  "os_env \<Rightarrow> mapf \<Rightarrow> sorter \<Rightarrow> reducef \<Rightarrow> string list \<Rightarrow> int \<Rightarrow> files \<Rightarrow> mr_system \<Rightarrow> bool"
  for env mapf sorter reducef inputs n fs where
  start: "mr_run env mapf sorter reducef inputs n fs (mr_start inputs n fs)"
| step: "mr_run env mapf sorter reducef inputs n fs s \<Longrightarrow> mr_step env mapf sorter reducef s s' \<Longrightarrow>
     mr_run env mapf sorter reducef inputs n fs s'"


subsection \<open>What the handlers change\<close>

definition free :: "int \<Rightarrow> Task \<Rightarrow> bool" where
  "free now t \<longleftrightarrow> tkState t = Idle \<or> (tkState t = InProgress \<and> now - StartTime t > TaskTimeout)"

definition started :: "int \<Rightarrow> Task \<Rightarrow> Task" where
  "started now t = t\<lparr>StartTime := now, tkState := InProgress\<rparr>"

definition completed :: "Task \<Rightarrow> Task" where
  "completed t = t\<lparr>tkState := Completed\<rparr>"

lemma findAvailableTask_cases:
  assumes "findAvailableTask now ts = (found, ts')"
  obtains (none) "found = None" "ts' = ts"
    "\<forall>t \<in> set ts. \<not> free now t"
  | (some) k where "k < length ts" "found = Some (started now (ts ! k))"
    "ts' = ts[k := started now (ts ! k)]"
    "free now (ts ! k)"
proof -
  have "(found = None \<and> ts' = ts \<and> (\<forall>t \<in> set ts. \<not> free now t))
     \<or> (\<exists>k < length ts. found = Some (started now (ts ! k))
          \<and> ts' = ts[k := started now (ts ! k)]
          \<and> free now (ts ! k))"
    using assms
  proof (induction now ts arbitrary: found ts' rule: findAvailableTask.induct)
    case (2 now task tasks)
    show ?case
    proof (cases "free now task")
      case True
      then show ?thesis using "2.prems" by (intro disjI2 exI [of _ 0]) (auto simp: Let_def free_def started_def split: if_splits)
    next
      case False
      then have f: "\<not> (tkState task = Idle \<or> (tkState task = InProgress \<and> now - StartTime task > TaskTimeout))"
        by (simp add: free_def)
      obtain ts1 where ts1: "findAvailableTask now tasks = (found, ts1)" "ts' = task # ts1"
        using "2.prems" f by (cases "findAvailableTask now tasks") auto
      from "2.IH" [OF f ts1(1)] show ?thesis
      proof
        assume "\<exists>k < length tasks. found = Some (started now (tasks ! k))
          \<and> ts1 = tasks[k := started now (tasks ! k)]
          \<and> free now (tasks ! k)"
        then obtain k where "k < length tasks" "found = Some (started now (tasks ! k))"
          "ts1 = tasks[k := started now (tasks ! k)]"
          "free now (tasks ! k)"
          by blast
        then show ?thesis using ts1(2) by (intro disjI2 exI [of _ "Suc k"]) simp
      qed (use ts1 False in simp)
    qed
  qed simp
  then show thesis using that by blast
qed

lemma markCompleted_cases:
  obtains (none) "markCompleted i ts = ts" "\<forall>t \<in> set ts. tkId t \<noteq> i"
  | (some) k where "k < length ts" "tkId (ts ! k) = i" "\<forall>k' < k. tkId (ts ! k') \<noteq> i"
      "markCompleted i ts = ts[k := completed (ts ! k)]"
proof -
  have "(markCompleted i ts = ts \<and> (\<forall>t \<in> set ts. tkId t \<noteq> i))
     \<or> (\<exists>k < length ts. tkId (ts ! k) = i \<and> (\<forall>k' < k. tkId (ts ! k') \<noteq> i)
          \<and> markCompleted i ts = ts[k := completed (ts ! k)])"
  proof (induction i ts rule: markCompleted.induct)
    case (2 i task tasks)
    show ?case
    proof (cases "tkId task = i")
      case False
      from "2.IH" [OF False] show ?thesis
      proof
        assume "\<exists>k < length tasks. tkId (tasks ! k) = i \<and> (\<forall>k' < k. tkId (tasks ! k') \<noteq> i)
          \<and> markCompleted i tasks = tasks[k := completed (tasks ! k)]"
        then obtain k where "k < length tasks" "tkId (tasks ! k) = i" "\<forall>k' < k. tkId (tasks ! k') \<noteq> i"
          "markCompleted i tasks = tasks[k := completed (tasks ! k)]" by blast
        with False show ?thesis by (intro disjI2 exI [of _ "Suc k"]) (auto simp: nth_Cons split: nat.splits)
      qed (use False in simp)
    qed (auto simp: completed_def)
  qed simp
  then show thesis using that by blast
qed

text \<open>What assigning the files does to one task.\<close>

definition assigned :: "int \<Rightarrow> int \<Rightarrow> Task \<Rightarrow> Task" where
  "assigned maps i task = task\<lparr>FileNames := FileNames task @ map (\<lambda>j. mr_name j i) [0..maps - 1], tkState := Idle\<rparr>"

lemma assign_loop_eq:
  assumes "distinct is" and "\<forall>i \<in> set is. 0 \<le> i \<and> i < go_len tasks"
  shows "\<exists>tasks'. assign_loop is maps tasks = Some tasks' \<and> length tasks' = length tasks
    \<and> (\<forall>k < length tasks. tasks' ! k = (if int k \<in> set is then assigned maps (int k) (tasks ! k) else tasks ! k))"
  using assms
proof (induction "is" arbitrary: tasks)
  case (Cons i ks)
  let ?t1 = "tasks[nat i := assigned maps i (tasks ! nat i)]"
  have i: "0 \<le> i" "i < go_len tasks" using Cons.prems by auto
  then have at: "go_at tasks i = Some (tasks ! nat i)" and upd: "go_upd tasks i v = Some (tasks[nat i := v])" for v
    by (auto simp: go_simps)
  obtain tasks' where t': "assign_loop ks maps ?t1 = Some tasks'" "length tasks' = length tasks"
    "\<And>k. k < length tasks \<Longrightarrow> tasks' ! k = (if int k \<in> set ks then assigned maps (int k) (?t1 ! k) else ?t1 ! k)"
    using Cons.IH [of ?t1] Cons.prems by (auto simp: go_len_def)
  have "tasks' ! k = (if int k \<in> set (i # ks) then assigned maps (int k) (tasks ! k) else tasks ! k)"
    if k: "k < length tasks" for k
    using t'(3) [OF k] Cons.prems(1) i(1) k by (auto simp: nth_list_update)
  then show ?case using t'(1,2) at upd by (auto simp: assigned_def)
qed simp

text \<open>A report of a map task that leaves no map task open starts the reduce phase, again if need be.\<close>

lemma TaskDoneMap_all:
  assumes "0 \<le> nReduce c" and "allCompleted (markCompleted (tkId task) (mapTasks c))"
  obtains ts where
    "TaskDoneMap task c = Some (c\<lparr>mapTasks := markCompleted (tkId task) (mapTasks c), co_phase := duringReduce,
       reduceTasks := ts\<rparr>)"
    "length ts = length (reduceTasks c) + nat (nReduce c)"
    "\<And>k. k < length (reduceTasks c) \<Longrightarrow> ts ! k =
       (if k < nat (nReduce c) then assigned (go_len (mapTasks c)) (int k) (reduceTasks c ! k) else reduceTasks c ! k)"
    "\<And>k. k < nat (nReduce c) \<Longrightarrow> ts ! (length (reduceTasks c) + k) =
       (let t = zeroTask\<lparr>tkType := ReduceTask, tkId := int k, NMap := go_len (mapTasks c), NReduce := nReduce c\<rparr>
        in if length (reduceTasks c) + k < nat (nReduce c)
           then assigned (go_len (mapTasks c)) (int (length (reduceTasks c) + k)) t else t)"
proof -
  let ?m = "markCompleted (tkId task) (mapTasks c)" and ?n = "nReduce c" and ?old = "reduceTasks c"
  let ?fresh = "\<lambda>i. zeroTask\<lparr>tkType := ReduceTask, tkId := i, NMap := go_len (mapTasks c), NReduce := ?n\<rparr>"
  let ?new = "map ?fresh [0..?n - 1]"
  have len: "go_len ?m = go_len (mapTasks c)"
    by (cases rule: markCompleted_cases [of "tkId task" "mapTasks c"]) (simp_all add: go_len_def)
  have fresh: "zeroTask\<lparr>tkType := ReduceTask, tkId := i, NMap := k, NReduce := ?n, tkState := Idle\<rparr>
      = zeroTask\<lparr>tkType := ReduceTask, tkId := i, NMap := k, NReduce := ?n\<rparr>" for i k by (simp add: zeroTask_def)
  have r: "\<forall>i \<in> set [0..?n - 1]. 0 \<le> i \<and> i < go_len (?old @ ?new)" by (auto simp: go_len_def)
  obtain ts where ts: "assign_loop [0..?n - 1] (go_len (mapTasks c)) (?old @ ?new) = Some ts"
    "length ts = length (?old @ ?new)"
    "\<And>k. k < length (?old @ ?new) \<Longrightarrow> ts ! k = (if int k \<in> set [0..?n - 1]
        then assigned (go_len (mapTasks c)) (int k) ((?old @ ?new) ! k) else (?old @ ?new) ! k)"
    using assign_loop_eq [OF distinct_upto r, of "go_len (mapTasks c)"] by blast
  show thesis
  proof
    show "TaskDoneMap task c = Some (c\<lparr>mapTasks := ?m, co_phase := duringReduce, reduceTasks := ts\<rparr>)"
      using assms(2) ts(1)
      by (simp add: TaskDoneMap_def AssignReduceTasksWithLock_def GenerateReduceTasksWithLock_def len fresh Let_def)
    show "length ts = length ?old + nat ?n" using ts(2) by simp
    show "ts ! k = (if k < nat ?n then assigned (go_len (mapTasks c)) (int k) (?old ! k) else ?old ! k)"
      if "k < length ?old" for k using ts(3) [of k] that by (auto simp: nth_append)
    show "ts ! (length ?old + k) = (let t = ?fresh (int k) in if length ?old + k < nat ?n
        then assigned (go_len (mapTasks c)) (int (length ?old + k)) t else t)" if "k < nat ?n" for k
      using ts(3) [of "length ?old + k"] that by (auto simp: nth_append Let_def)
  qed
qed


subsection \<open>What every run of the coordinator keeps\<close>

text \<open>Whatever is asked and reported. The reduce tasks come in blocks of \<open>n\<close>; those after the first
  block are never completed, since a report completes the first task with its number.\<close>

definition co_inv :: "int \<Rightarrow> Coordinator \<Rightarrow> bool" where
  "co_inv n c \<longleftrightarrow> nReduce c = n \<and> nat n dvd length (reduceTasks c)
     \<and> (\<forall>k < length (reduceTasks c). tkId (reduceTasks c ! k) = int k mod n
           \<and> tkType (reduceTasks c ! k) = ReduceTask)
     \<and> (\<forall>k < length (reduceTasks c). nat n \<le> k \<longrightarrow> tkState (reduceTasks c ! k) \<noteq> Completed)
     \<and> (nat n < length (reduceTasks c) \<longrightarrow> co_phase c = duringReduce)"

inductive co_step :: "Coordinator \<Rightarrow> Coordinator \<Rightarrow> bool" where
  request: "HandleGetTaskRequest now c = (found, c') \<Longrightarrow> co_step c c'"
| report: "TaskDone task c = Some c' \<Longrightarrow> co_step c c'"

lemma HandleGetTaskRequest_cases:
  assumes "HandleGetTaskRequest now c = (found, c')"
  obtains (none) "c' = c" "found = None" "co_phase c \<noteq> finish"
  | (over) "c' = c" "found = Some (zeroTask\<lparr>tkType := AllTasksDone\<rparr>)" "co_phase c = finish"
  | (map) k where "co_phase c = duringMap" "k < length (mapTasks c)" "free now (mapTasks c ! k)"
      "found = Some (started now (mapTasks c ! k))"
      "c' = c\<lparr>mapTasks := (mapTasks c)[k := started now (mapTasks c ! k)]\<rparr>"
  | (reduce) k where "co_phase c = duringReduce" "k < length (reduceTasks c)" "free now (reduceTasks c ! k)"
      "found = Some (started now (reduceTasks c ! k))"
      "c' = c\<lparr>reduceTasks := (reduceTasks c)[k := started now (reduceTasks c ! k)]\<rparr>"
proof (cases "co_phase c")
  case duringMap
  then obtain ts where ts: "findAvailableTask now (mapTasks c) = (found, ts)" "c' = c\<lparr>mapTasks := ts\<rparr>"
    using assms by (auto simp: HandleGetTaskRequest_def split: prod.splits)
  from ts(1) show thesis
    by (cases rule: findAvailableTask_cases) (use duringMap ts(2) none map in auto)
next
  case duringReduce
  then obtain ts where ts: "findAvailableTask now (reduceTasks c) = (found, ts)" "c' = c\<lparr>reduceTasks := ts\<rparr>"
    using assms by (auto simp: HandleGetTaskRequest_def split: prod.splits)
  from ts(1) show thesis
    by (cases rule: findAvailableTask_cases) (use duringReduce ts(2) none reduce in auto)
next
  case finish
  then show thesis using assms over by (simp add: HandleGetTaskRequest_def)
qed

lemma started_sel [simp]:
  "tkId (started now t) = tkId t" "tkType (started now t) = tkType t" "FileNames (started now t) = FileNames t"
  "NReduce (started now t) = NReduce t" "tkState (started now t) = InProgress"
  by (simp_all add: started_def)

lemma completed_sel [simp]:
  "tkId (completed t) = tkId t" "tkType (completed t) = tkType t" "FileNames (completed t) = FileNames t"
  "NReduce (completed t) = NReduce t" "tkState (completed t) = Completed"
  by (simp_all add: completed_def)

lemma assigned_sel [simp]:
  "tkId (assigned m i t) = tkId t" "tkType (assigned m i t) = tkType t" "tkState (assigned m i t) = Idle"
  "FileNames (assigned m i t) = FileNames t @ map (\<lambda>j. mr_name j i) [0..m - 1]"
  by (simp_all add: assigned_def)

lemma co_inv_reduce:
  assumes "co_inv n c" and "0 < n"
  shows "co_inv n (TaskDoneReduce task c)"
proof -
  let ?ts = "reduceTasks c"
  have inv: "nReduce c = n" "nat n dvd length ?ts" "\<And>k. k < length ?ts \<Longrightarrow> tkId (?ts ! k) = int k mod n"
    "\<And>k. k < length ?ts \<Longrightarrow> tkType (?ts ! k) = ReduceTask"
    "\<And>k. k < length ?ts \<Longrightarrow> nat n \<le> k \<Longrightarrow> tkState (?ts ! k) \<noteq> Completed"
    "nat n < length ?ts \<Longrightarrow> co_phase c = duringReduce"
    using assms(1) by (auto simp: co_inv_def)
  show ?thesis
  proof (cases rule: markCompleted_cases [of "tkId task" ?ts])
    case none
    have "\<not> allCompleted ?ts" if "nat n < length ?ts"
      using inv(5) [OF that] nth_mem [OF that] by (auto simp: allCompleted_def list_all_iff)
    then show ?thesis using none inv by (auto simp: TaskDoneReduce_def co_inv_def Let_def)
  next
    case (some k)
    have "k < nat n"
    proof (rule ccontr)
      assume "\<not> k < nat n"
      then have "nat n \<le> k" by simp
      then have "tkId (?ts ! (k - nat n)) = tkId (?ts ! k)"
        using inv(3) [of k] inv(3) [of "k - nat n"] some(1) assms(2)
        by (simp add: of_nat_diff mod_diff_right_eq [symmetric])
      with some \<open>nat n \<le> k\<close> assms(2) show False by (metis diff_less le_trans less_le_trans zero_less_nat_eq)
    qed
    moreover have "\<not> allCompleted (?ts[k := completed (?ts ! k)])" if "nat n < length ?ts"
      using inv(5) [OF that] \<open>k < nat n\<close> that
      by (auto simp: allCompleted_def list_all_length intro!: exI [of _ "nat n"])
    ultimately show ?thesis using some inv
      by (auto simp: TaskDoneReduce_def co_inv_def Let_def nth_list_update)
  qed
qed

lemma co_inv_map:
  assumes "co_inv n c" and "0 < n" and "TaskDoneMap task c = Some c'"
  shows "co_inv n c'"
proof (cases "allCompleted (markCompleted (tkId task) (mapTasks c))")
  case True
  let ?old = "reduceTasks c"
  have n: "nReduce c = n" "0 \<le> nReduce c" using assms(1,2) by (auto simp: co_inv_def)
  obtain b where b: "length ?old = nat n * b" using assms(1) by (metis co_inv_def dvdE)
  obtain ts where ts: "TaskDoneMap task c = Some (c\<lparr>mapTasks := markCompleted (tkId task) (mapTasks c),
       co_phase := duringReduce, reduceTasks := ts\<rparr>)"
    "length ts = length ?old + nat n"
    "\<And>k. k < length ?old \<Longrightarrow> ts ! k = (if k < nat n then assigned (go_len (mapTasks c)) (int k) (?old ! k) else ?old ! k)"
    "\<And>k. k < nat n \<Longrightarrow> ts ! (length ?old + k) =
       (let t = zeroTask\<lparr>tkType := ReduceTask, tkId := int k, NMap := go_len (mapTasks c), NReduce := n\<rparr>
        in if length ?old + k < nat n then assigned (go_len (mapTasks c)) (int (length ?old + k)) t else t)"
    using TaskDoneMap_all [OF n(2) True] unfolding n(1) by blast
  have fresh: "tkId (ts ! (length ?old + k)) = int k" "tkState (ts ! (length ?old + k)) = Idle"
    "tkType (ts ! (length ?old + k)) = ReduceTask" if "k < nat n" for k
    using ts(4) [OF that] by (simp_all add: Let_def zeroTask_def)
  have "tkId (ts ! k) = int k mod n \<and> tkType (ts ! k) = ReduceTask \<and> (nat n \<le> k \<longrightarrow> tkState (ts ! k) \<noteq> Completed)"
    if "k < length ts" for k
  proof -
    consider "k < length ?old" | k' where "k = length ?old + k'" "k' < nat n"
      using \<open>k < length ts\<close> ts(2) by (metis add_less_cancel_left le_Suc_ex not_le)
    then show ?thesis
    proof cases
      case 1
      then show ?thesis using ts(3) [OF 1] assms(1) by (auto simp: co_inv_def)
    next
      case 2
      then have "int k mod n = int k'" using b assms(2) by (simp add: nat_mult_distrib)
      with 2 fresh show ?thesis by auto
    qed
  qed
  moreover have "nat n dvd length ts" using b ts(2) by simp
  ultimately show ?thesis using ts(1) n(1) assms(3) by (auto simp: co_inv_def)
next
  case False
  then show ?thesis using assms by (auto simp: TaskDoneMap_def co_inv_def Let_def)
qed

lemma co_inv_step:
  assumes "co_step c c'" and "co_inv n c" and "0 < n"
  shows "co_inv n c'"
  using assms(1)
proof cases
  case (request now found)
  then show ?thesis
    by (cases rule: HandleGetTaskRequest_cases) (use assms(2) in \<open>auto simp: co_inv_def nth_list_update\<close>)
next
  case (report task)
  then show ?thesis
    using assms(2,3) co_inv_map co_inv_reduce by (auto simp: TaskDone_def split: if_splits)
qed

lemma co_inv_steps: "co_step\<^sup>*\<^sup>* c c' \<Longrightarrow> co_inv n c \<Longrightarrow> 0 < n \<Longrightarrow> co_inv n c'"
  by (induction rule: rtranclp_induct) (auto intro: co_inv_step)

lemma co_inv_start: "co_inv n (MakeCoordinator inputs n)"
  by (simp add: co_inv_def MakeCoordinator_def)


subsection \<open>The files in a run\<close>

text \<open>A job: the functions, the input files with their contents, and the number of reduce tasks.\<close>

record job =
  jbEnv :: os_env
  jbMap :: mapf
  jbSort :: sorter
  jbReduce :: reducef
  jbInputs :: "string list"
  jbContents :: "string list"
  jbN :: int

definition job_ok :: "job \<Rightarrow> bool" where
  "job_ok J \<longleftrightarrow> healthy (jbEnv J) \<and> valid_sort (jbSort J) \<and> order_free (jbReduce J) \<and> 0 < jbN J
     \<and> jbInputs J \<noteq> [] \<and> length (jbContents J) = length (jbInputs J)
     \<and> (\<forall>f \<in> set (jbInputs J). \<not> is_tmp f \<and> (\<forall>j i. f \<noteq> mr_name j i) \<and> (\<forall>i. f \<noteq> out_name i))
     \<and> (\<forall>j < length (jbInputs J). list_all fits (jbMap J (jbInputs J ! j) (jbContents J ! j)))"

definition inputs_in :: "job \<Rightarrow> files \<Rightarrow> bool" where
  "inputs_in J fs \<longleftrightarrow> list_all2 (\<lambda>f c. fs f = Some c) (jbInputs J) (jbContents J)"

definition emitted :: "job \<Rightarrow> int \<Rightarrow> KeyValue list" where
  "emitted J j = jbMap J (jbInputs J ! nat j) (jbContents J ! nat j)"

definition all_emitted :: "job \<Rightarrow> KeyValue list" where
  "all_emitted J = concat (map2 (jbMap J) (jbInputs J) (jbContents J))"

text \<open>The files of a finished map task, and of a finished reduce task.\<close>

definition mapped :: "job \<Rightarrow> files \<Rightarrow> int \<Rightarrow> bool" where
  "mapped J fs j \<longleftrightarrow> (\<forall>i. 0 \<le> i \<and> i < jbN J \<longrightarrow> fs (mr_name j i) = Some (kvs_text (bucket (jbN J) i (emitted J j))))"

definition reduced :: "job \<Rightarrow> files \<Rightarrow> int \<Rightarrow> bool" where
  "reduced J fs i \<longleftrightarrow> fs (out_name i) = Some (reduce_output (grouped (jbReduce J) (bucket (jbN J) i (all_emitted J))))"

definition map_task :: "job \<Rightarrow> int \<Rightarrow> Task \<Rightarrow> bool" where
  "map_task J j t \<longleftrightarrow> tkType t = MapTask \<and> 0 \<le> j \<and> j < go_len (jbInputs J) \<and> tkId t = j
     \<and> FileNames t = [jbInputs J ! nat j] \<and> NReduce t = jbN J"

definition reduce_task :: "job \<Rightarrow> Task \<Rightarrow> bool" where
  "reduce_task J t \<longleftrightarrow> tkType t = ReduceTask \<and> 0 \<le> tkId t \<and> tkId t < jbN J
     \<and> FileNames t = map (\<lambda>j. mr_name j (tkId t)) [0..go_len (jbInputs J) - 1]"

lemma inputs_in_nth:
  assumes "inputs_in J fs" and "0 \<le> j" and "j < go_len (jbInputs J)"
  shows "fs (jbInputs J ! nat j) = Some (jbContents J ! nat j)"
  using assms by (auto simp: inputs_in_def go_len_def list_all2_conv_all_nth)

lemma inputs_in_frame:
  assumes "inputs_in J fs" and "\<And>f. f \<in> set (jbInputs J) \<Longrightarrow> fs' f = fs f"
  shows "inputs_in J fs'"
  using assms by (auto simp: inputs_in_def list_all2_conv_all_nth)

lemma map_work:
  assumes "job_ok J" and "inputs_in J fs" and "map_task J j t"
    and "HandleMapTask (jbEnv J) (jbMap J) t fs = (e, fs')"
  shows "e = Reports Completed" "inputs_in J fs'" "mapped J fs' j"
    "0 \<le> j' \<Longrightarrow> mapped J fs j' \<Longrightarrow> mapped J fs' j'" "reduced J fs i \<Longrightarrow> reduced J fs' i"
proof -
  have t: "FileNames t = [jbInputs J ! nat j]" "0 < NReduce t" "0 \<le> tkId t" "tkId t = j" "NReduce t = jbN J"
    "jbInputs J ! nat j \<in> set (jbInputs J)"
    using assms(1,3) by (auto simp: map_task_def job_ok_def go_len_def)
  have "healthy (jbEnv J)" using assms(1) by (simp add: job_ok_def)
  moreover have "fs (jbInputs J ! nat j) = Some (jbContents J ! nat j)"
    using inputs_in_nth [OF assms(2)] assms(3) by (simp add: map_task_def)
  ultimately obtain fs1 where h: "HandleMapTask (jbEnv J) (jbMap J) t fs = (Reports Completed, fs1)"
    "\<And>i. 0 \<le> i \<Longrightarrow> i < jbN J \<Longrightarrow> fs1 (mr_name j i) = Some (kvs_text (bucket (jbN J) i (emitted J j)))"
    "\<And>f. \<not> is_tmp f \<Longrightarrow> f \<notin> mr_name j ` {0..<jbN J} \<Longrightarrow> fs1 f = fs f"
    using HandleMapTask_effect [of "jbEnv J" t "jbInputs J ! nat j" fs "jbContents J ! nat j" "jbMap J"] t
    by (auto simp: emitted_def)
  then have fs': "fs' = fs1" "e = Reports Completed" using assms(4) by auto
  then show "e = Reports Completed" by simp
  show this_one: "mapped J fs' j" using h(2) fs' by (simp add: mapped_def)
  have "fs' f = fs f" if "f \<in> set (jbInputs J)" for f
    using h(3) [of f] fs' that assms(1) by (auto simp: job_ok_def)
  then show "inputs_in J fs'" by (rule inputs_in_frame [OF assms(2)])
  have "fs' (mr_name j' i) = fs (mr_name j' i)" if "0 \<le> j'" "0 \<le> i" "j' \<noteq> j" for j' i
  proof -
    have "mr_name j' i \<notin> mr_name j ` {0..<jbN J}" using that t(3,4) by (auto simp: mr_name_inj)
    then show ?thesis using h(3) fs' by simp
  qed
  with this_one show "mapped J fs' j'" if "0 \<le> j'" "mapped J fs j'" for j'
    using that by (cases "j' = j") (auto simp: mapped_def)
  have "out_name i \<notin> mr_name j ` {0..<jbN J}" by auto
  then show "reduced J fs' i" if "reduced J fs i"
    using that h(3) [of "out_name i"] fs' by (simp add: reduced_def)
qed

text \<open>A reduce task, whatever files it names, writes no other file than its output.\<close>

lemma reduce_files_frame:
  assumes "reduce_files env sorter reducef task names kvs fs = (ok, fs')" and "\<not> is_tmp f" and "f \<noteq> out_name (tkId task)"
  shows "fs' f = fs f"
  using assms(1)
proof (induction names arbitrary: kvs fs)
  case (Cons g names)
  have w: "write_output env task out fs f = fs f" for out
  proof -
    have "TrimSuffix (out_tmp env task) (''.tmp'' @ showTime env (StartTime task)) = out_name (tkId task)"
      unfolding out_tmp_def by (rule TrimSuffix_append)
    then show ?thesis using assms(2,3) is_tmp_names(2) [of env task] by (auto simp: write_output_def Let_def)
  qed
  from Cons.prems show ?case
    by (auto simp: Let_def w split: option.splits if_splits dest: Cons.IH)
qed simp

lemma reduce_frame:
  assumes "HandleReduceTask env sorter reducef task fs = (e, fs')" and "\<not> is_tmp f" and "f \<noteq> out_name (tkId task)"
  shows "fs' f = fs f"
proof -
  obtain ok fs1 where r: "reduce_files env sorter reducef task (FileNames task) [] fs = (ok, fs1)" by fastforce
  then have "fs' = fs1(out_tmp env task := None)" using assms(1) by (simp add: HandleReduceTask_def)
  then show ?thesis
    using reduce_files_frame [OF r assms(2,3)] assms(2) is_tmp_names(2) [of env task] by auto
qed

lemma reduce_keeps:
  assumes "HandleReduceTask (jbEnv J) (jbSort J) (jbReduce J) t fs = (e, fs')" and "job_ok J"
  shows "inputs_in J fs \<Longrightarrow> inputs_in J fs'" "mapped J fs j \<Longrightarrow> mapped J fs' j"
    "i \<noteq> tkId t \<Longrightarrow> 0 \<le> i \<Longrightarrow> 0 \<le> tkId t \<Longrightarrow> reduced J fs i \<Longrightarrow> reduced J fs' i"
proof -
  note frame = reduce_frame [OF assms(1)]
  show "inputs_in J fs'" if "inputs_in J fs"
    by (rule inputs_in_frame [OF that]) (use frame assms(2) in \<open>auto simp: job_ok_def\<close>)
  show "mapped J fs' j" if "mapped J fs j" using that frame by (simp add: mapped_def)
  show "reduced J fs' i" if "i \<noteq> tkId t" "0 \<le> i" "0 \<le> tkId t" "reduced J fs i"
    using that frame [of "out_name i"] by (simp add: reduced_def out_name_inj)
qed

lemma reduce_work:
  assumes "job_ok J" and "reduce_task J t" and "\<And>j. 0 \<le> j \<Longrightarrow> j < go_len (jbInputs J) \<Longrightarrow> mapped J fs j"
    and "HandleReduceTask (jbEnv J) (jbSort J) (jbReduce J) t fs = (e, fs')"
  shows "e = Reports Completed" "reduced J fs' (tkId t)"
proof -
  let ?i = "tkId t" and ?m = "go_len (jbInputs J)"
  let ?news = "map (\<lambda>j. bucket (jbN J) ?i (emitted J j)) [0..?m - 1]"
  have ok: "healthy (jbEnv J)" "valid_sort (jbSort J)" "order_free (jbReduce J)" "jbInputs J \<noteq> []"
    and t: "0 \<le> ?i" "?i < jbN J" "FileNames t = map (\<lambda>j. mr_name j ?i) [0..?m - 1]"
    using assms(1,2) by (auto simp: job_ok_def reduce_task_def)
  have "list_all fits (bucket (jbN J) ?i (emitted J j))" if "0 \<le> j" "j < ?m" for j
  proof -
    have "nat j < length (jbInputs J)" using that by (simp add: go_len_def)
    then show ?thesis using assms(1) by (auto simp: job_ok_def bucket_def emitted_def list_all_iff)
  qed
  then have news: "list_all2 (\<lambda>f new. fs f = Some (kvs_text new) \<and> list_all fits new) (FileNames t) ?news"
    using assms(3) t by (auto simp: list_all2_conv_all_nth mapped_def)
  have "FileNames t \<noteq> []" "\<forall>f \<in> set (FileNames t). \<not> is_tmp f \<and> f \<noteq> out_name ?i"
    using ok(4) t(3) by (auto simp: go_len_def)
  then obtain fs1 where "HandleReduceTask (jbEnv J) (jbSort J) (jbReduce J) t fs = (Reports Completed, fs1)"
    "fs1 (out_name ?i) = Some (reduce_output (grouped (jbReduce J) (concat ?news)))"
    using HandleReduceTask_effect [OF ok(1-3) _ news] by blast
  then have r: "e = Reports Completed" "fs' (out_name ?i) = Some (reduce_output (grouped (jbReduce J) (concat ?news)))"
    using assms(4) by auto
  have "map (emitted J) [0..?m - 1] = map2 (jbMap J) (jbInputs J) (jbContents J)"
  proof (rule nth_equalityI)
    have len: "length (jbContents J) = length (jbInputs J)" using assms(1) by (simp add: job_ok_def)
    then show "length (map (emitted J) [0..?m - 1]) = length (map2 (jbMap J) (jbInputs J) (jbContents J))"
      by (simp add: go_len_def)
    fix k assume "k < length (map (emitted J) [0..?m - 1])"
    with len show "map (emitted J) [0..?m - 1] ! k = map2 (jbMap J) (jbInputs J) (jbContents J) ! k"
      by (simp add: emitted_def go_len_def)
  qed
  then have "concat (map (bucket (jbN J) ?i) (map (emitted J) [0..?m - 1])) = bucket (jbN J) ?i (all_emitted J)"
    by (simp only: all_emitted_def bucket_concat)
  moreover have "map (bucket (jbN J) ?i) (map (emitted J) [0..?m - 1]) = ?news" by simp
  ultimately have "concat ?news = bucket (jbN J) ?i (all_emitted J)" by (simp only:)
  with r show "e = Reports Completed" "reduced J fs' ?i" by (simp_all add: reduced_def)
qed

end
