(* ===== verification/MapReduce.thy ===== *)
theory MapReduce
  imports MRCoordinator
begin

section \<open>MapReduce: properties of the whole system\<close>

text \<open>
  The invariant of the coordinator with its workers and files, and the properties of
  \<open>mr\<close>: a finished job has the output of the sequential program, whatever workers crash, stall and
  repeat; tasks are not handed out twice within the timeout; a worker that is never interrupted
  brings the job to its end; and two cases in which the coordinator goes wrong.
\<close>

subsection \<open>The invariant\<close>

text \<open>While there is one block of reduce tasks.\<close>

definition reduce_inv :: "job \<Rightarrow> mr_system \<Rightarrow> bool" where
  "reduce_inv J s \<longleftrightarrow>
     (co_phase (coord s) \<noteq> duringMap \<longrightarrow> length (reduceTasks (coord s)) = nat (jbN J))
   \<and> (\<forall>t \<in> set (reduceTasks (coord s)). reduce_task J t)
   \<and> (\<forall>t \<in> set (held s) \<union> set (reports s). tkType t = ReduceTask \<longrightarrow> reduce_task J t)
   \<and> (\<forall>t \<in> set (reports s). tkType t = ReduceTask \<longrightarrow> reduced J (files s) (tkId t))
   \<and> (\<forall>t \<in> set (reduceTasks (coord s)). tkState t = Completed \<longrightarrow> reduced J (files s) (tkId t))
   \<and> (co_phase (coord s) = finish \<longrightarrow> allCompleted (reduceTasks (coord s)))"

definition map_inv :: "job \<Rightarrow> mr_system \<Rightarrow> bool" where
  "map_inv J s \<longleftrightarrow>
     length (mapTasks (coord s)) = length (jbInputs J)
   \<and> (\<forall>k < length (jbInputs J). map_task J (int k) (mapTasks (coord s) ! k))
   \<and> inputs_in J (files s)
   \<and> (\<forall>t \<in> set (held s) \<union> set (reports s). tkType t = MapTask \<longrightarrow> map_task J (tkId t) t)
   \<and> (\<forall>t \<in> set (reports s). tkType t = MapTask \<longrightarrow> mapped J (files s) (tkId t))
   \<and> (\<forall>t \<in> set (mapTasks (coord s)). tkState t = Completed \<longrightarrow> mapped J (files s) (tkId t))
   \<and> (co_phase (coord s) \<noteq> duringMap \<longrightarrow> allCompleted (mapTasks (coord s)))
   \<and> (co_phase (coord s) = duringMap \<longrightarrow> reduceTasks (coord s) = []
        \<and> (\<forall>t \<in> set (held s) \<union> set (reports s). tkType t \<noteq> ReduceTask))"

definition mr_inv :: "job \<Rightarrow> mr_system \<Rightarrow> bool" where
  "mr_inv J s \<longleftrightarrow> co_inv (jbN J) (coord s) \<and> map_inv J s
     \<and> (length (reduceTasks (coord s)) \<le> nat (jbN J) \<longrightarrow> reduce_inv J s)"

lemma map_invD:
  assumes "map_inv J s"
  shows "length (mapTasks (coord s)) = length (jbInputs J)"
    "k < length (jbInputs J) \<Longrightarrow> map_task J (int k) (mapTasks (coord s) ! k)"
    "inputs_in J (files s)"
    "t \<in> set (held s) \<Longrightarrow> tkType t = MapTask \<Longrightarrow> map_task J (tkId t) t"
    "t \<in> set (reports s) \<Longrightarrow> tkType t = MapTask \<Longrightarrow> map_task J (tkId t) t"
    "t \<in> set (reports s) \<Longrightarrow> tkType t = MapTask \<Longrightarrow> mapped J (files s) (tkId t)"
    "t \<in> set (mapTasks (coord s)) \<Longrightarrow> tkState t = Completed \<Longrightarrow> mapped J (files s) (tkId t)"
    "co_phase (coord s) \<noteq> duringMap \<Longrightarrow> allCompleted (mapTasks (coord s))"
    "co_phase (coord s) = duringMap \<Longrightarrow> reduceTasks (coord s) = []"
    "co_phase (coord s) = duringMap \<Longrightarrow> t \<in> set (held s) \<Longrightarrow> tkType t \<noteq> ReduceTask"
    "co_phase (coord s) = duringMap \<Longrightarrow> t \<in> set (reports s) \<Longrightarrow> tkType t \<noteq> ReduceTask"
  using assms unfolding map_inv_def by blast+

lemma reduce_invD:
  assumes "reduce_inv J s"
  shows "co_phase (coord s) \<noteq> duringMap \<Longrightarrow> length (reduceTasks (coord s)) = nat (jbN J)"
    "t \<in> set (reduceTasks (coord s)) \<Longrightarrow> reduce_task J t"
    "t \<in> set (held s) \<Longrightarrow> tkType t = ReduceTask \<Longrightarrow> reduce_task J t"
    "t \<in> set (reports s) \<Longrightarrow> tkType t = ReduceTask \<Longrightarrow> reduce_task J t"
    "t \<in> set (reports s) \<Longrightarrow> tkType t = ReduceTask \<Longrightarrow> reduced J (files s) (tkId t)"
    "t \<in> set (reduceTasks (coord s)) \<Longrightarrow> tkState t = Completed \<Longrightarrow> reduced J (files s) (tkId t)"
    "co_phase (coord s) = finish \<Longrightarrow> allCompleted (reduceTasks (coord s))"
  using assms unfolding reduce_inv_def by blast+

text \<open>In the reduce phase all map tasks have left their files.\<close>

lemma all_mapped:
  assumes "map_inv J s" and "co_phase (coord s) \<noteq> duringMap" and "0 \<le> j" and "j < go_len (jbInputs J)"
  shows "mapped J (files s) j"
proof -
  let ?t = "mapTasks (coord s) ! nat j"
  have j: "nat j < length (jbInputs J)" using assms(3,4) by (simp add: go_len_def)
  then have "?t \<in> set (mapTasks (coord s))" using map_invD(1) [OF assms(1)] by simp
  moreover from this have "tkState ?t = Completed"
    using map_invD(8) [OF assms(1,2)] by (simp add: allCompleted_def list_all_iff)
  moreover have "tkId ?t = j" using map_invD(2) [OF assms(1) j] assms(3) by (simp add: map_task_def)
  ultimately show ?thesis using map_invD(7) [OF assms(1)] by metis
qed

lemma mr_inv_start:
  assumes "job_ok J" and "inputs_in J fs"
  shows "mr_inv J (mr_start (jbInputs J) (jbN J) fs)"
proof -
  let ?s = "mr_start (jbInputs J) (jbN J) fs"
  have "map_task J (int k) (mapTasks (coord ?s) ! k)" if "k < length (jbInputs J)" for k
    using that by (auto simp: mr_start_def MakeCoordinator_def map_task_def zeroTask_def go_len_def)
  moreover have "\<forall>t \<in> set (mapTasks (coord ?s)). tkState t = Idle"
    by (auto simp: mr_start_def MakeCoordinator_def zeroTask_def)
  ultimately have "map_inv J ?s"
    using assms(2) by (auto simp: map_inv_def mr_start_def MakeCoordinator_def go_len_def)
  moreover have "reduce_inv J ?s" by (simp add: reduce_inv_def mr_start_def MakeCoordinator_def)
  ultimately show ?thesis using co_inv_start [of "jbN J" "jbInputs J"] by (simp add: mr_inv_def mr_start_def)
qed

text \<open>Losing tasks and reports harms nothing.\<close>

lemma mr_inv_drop:
  assumes "mr_inv J s" and "set hs \<subseteq> set (held s)" and "set rs \<subseteq> set (reports s)"
  shows "mr_inv J (s\<lparr>held := hs, reports := rs\<rparr>)"
proof -
  have "map_inv J s \<Longrightarrow> map_inv J (s\<lparr>held := hs, reports := rs\<rparr>)"
    using assms(2,3) unfolding map_inv_def by (simp add: subset_iff) blast
  moreover have "reduce_inv J s \<Longrightarrow> reduce_inv J (s\<lparr>held := hs, reports := rs\<rparr>)"
    using assms(2,3) unfolding reduce_inv_def by (simp add: subset_iff) blast
  ultimately show ?thesis using assms(1) by (simp add: mr_inv_def)
qed

lemma mr_inv_asks:
  assumes "mr_inv J s" and pos: "0 < jbN J" and "HandleGetTaskRequest now (coord s) = (found, c)"
  shows "mr_inv J (s\<lparr>coord := c, held := (case found of None \<Rightarrow> [] | Some task \<Rightarrow> [task]) @ held s\<rparr>)"
proof -
  let ?s' = "s\<lparr>coord := c, held := (case found of None \<Rightarrow> [] | Some task \<Rightarrow> [task]) @ held s\<rparr>"
  have inv: "co_inv (jbN J) (coord s)" "map_inv J s" "length (reduceTasks (coord s)) \<le> nat (jbN J) \<Longrightarrow> reduce_inv J s"
    using assms(1) by (auto simp: mr_inv_def)
  from assms(3) show ?thesis
  proof (cases rule: HandleGetTaskRequest_cases)
    case none
    then show ?thesis using assms(1) by simp
  next
    case over
    then have "map_inv J ?s'" using inv(2) by (auto simp: map_inv_def zeroTask_def)
    moreover have "reduce_inv J ?s'" if "reduce_inv J s" using that over by (auto simp: reduce_inv_def zeroTask_def)
    ultimately show ?thesis using inv over by (simp add: mr_inv_def)
  next
    case (map k)
    let ?t = "mapTasks (coord s) ! k"
    have t: "map_task J (int k) ?t" using map_invD(1,2) [OF inv(2)] map(2) by simp
    then have st: "map_task J (int k) (started now ?t)" "tkId ?t = int k" by (auto simp: map_task_def)
    have "map_inv J ?s'"
      using inv(2) map st by (auto simp: map_inv_def nth_list_update map_task_def dest!: set_update_subset_insert [THEN subsetD])
    moreover have "reduce_inv J ?s'" if "reduce_inv J s"
      using that map st(1) by (auto simp: reduce_inv_def map_task_def)
    ultimately show ?thesis using inv map by (simp add: mr_inv_def co_inv_def)
  next
    case (reduce k)
    let ?t = "reduceTasks (coord s) ! k" and ?ts = "(reduceTasks (coord s))[k := started now (reduceTasks (coord s) ! k)]"
    have sub: "set ?ts \<subseteq> insert (started now ?t) (set (reduceTasks (coord s)))" by (rule set_update_subset_insert)
    have ty: "tkType ?t = ReduceTask" using inv(1) reduce(2) by (auto simp: co_inv_def)
    have "map_inv J ?s'" using inv(2) reduce ty by (auto simp: map_inv_def)
    moreover have "reduce_inv J ?s'" if r: "reduce_inv J s"
    proof -
      have "reduce_task J (started now ?t)"
        using reduce_invD(2) [OF r nth_mem [OF reduce(2)]] by (simp add: reduce_task_def)
      then show ?thesis using r sub reduce by (auto simp: reduce_inv_def dest: subsetD)
    qed
    moreover have "co_inv (jbN J) c" using co_inv_step [OF co_step.request [OF assms(3)] inv(1)] pos .
    ultimately show ?thesis using inv(3) reduce by (simp add: mr_inv_def)
  qed
qed


lemma map_tasks_typed:
  assumes "map_inv J s" and "x \<in> set (mapTasks (coord s))"
  shows "tkType x = MapTask" "0 \<le> tkId x"
proof -
  obtain k where "k < length (jbInputs J)" "x = mapTasks (coord s) ! k"
    using map_invD(1) [OF assms(1)] assms(2) by (auto simp: in_set_conv_nth)
  with map_invD(2) [OF assms(1), of k] show "tkType x = MapTask" "0 \<le> tkId x" by (simp_all add: map_task_def)
qed

text \<open>A worker finishes a map task.\<close>

lemma mr_inv_map_work:
  assumes "job_ok J" and "mr_inv J s" and "task \<in> set (held s)" and "tkType task = MapTask"
    and "HandleMapTask (jbEnv J) (jbMap J) task (files s) = (e, fs)"
  shows "e = Reports Completed"
    "mr_inv J (s\<lparr>files := fs, held := remove1 task (held s), reports := task\<lparr>tkState := st\<rparr> # reports s\<rparr>)"
proof -
  have inv: "map_inv J s" "co_inv (jbN J) (coord s)" using assms(2) by (simp_all add: mr_inv_def)
  have t: "map_task J (tkId task) task" by (rule map_invD(4) [OF inv(1) assms(3,4)])
  note work = map_work [OF assms(1) map_invD(3) [OF inv(1)] t assms(5)]
  show "e = Reports Completed" by (rule work(1))
  let ?s' = "s\<lparr>files := fs, held := remove1 task (held s), reports := task\<lparr>tkState := st\<rparr> # reports s\<rparr>"
  have hs: "x \<in> set (held s)" if "x \<in> set (remove1 task (held s))" for x using that by (meson notin_set_remove1)
  have rep: "mapped J fs (tkId x)" if "x \<in> set (reports s)" "tkType x = MapTask" for x
    using work(4) map_invD(5,6) [OF inv(1) that] by (simp add: map_task_def)
  have don: "mapped J fs (tkId x)" if "x \<in> set (mapTasks (coord s))" "tkState x = Completed" for x
    using work(4) map_invD(7) [OF inv(1) that] map_tasks_typed [OF inv(1) that(1)] by simp
  have "map_task J (tkId task) (task\<lparr>tkState := st\<rparr>)" using t by (simp add: map_task_def)
  then have "map_inv J ?s'"
    using map_invD [OF inv(1)] work(2,3) rep don hs assms(4) unfolding map_inv_def by auto
  moreover have "reduce_inv J ?s'" if "reduce_inv J s"
    using that work(5) hs assms(4) unfolding reduce_inv_def by fastforce
  ultimately show "mr_inv J ?s'" using assms(2) inv(2) by (simp add: mr_inv_def)
qed

lemma mr_inv_reduce_work:
  assumes "job_ok J" and "mr_inv J s" and "task \<in> set (held s)" and "tkType task = ReduceTask"
    and "HandleReduceTask (jbEnv J) (jbSort J) (jbReduce J) task (files s) = (e, fs)"
  shows "mr_inv J (s\<lparr>files := fs, held := remove1 task (held s), reports := task\<lparr>tkState := st\<rparr> # reports s\<rparr>)"
proof -
  have inv: "map_inv J s" "co_inv (jbN J) (coord s)" using assms(2) by (simp_all add: mr_inv_def)
  have keeps: "inputs_in J fs" "mapped J (files s) j \<Longrightarrow> mapped J fs j"
    "i \<noteq> tkId task \<Longrightarrow> 0 \<le> i \<Longrightarrow> 0 \<le> tkId task \<Longrightarrow> reduced J (files s) i \<Longrightarrow> reduced J fs i" for i j
    using reduce_keeps [OF assms(5,1)] map_invD(3) [OF inv(1)] by simp_all
  let ?s' = "s\<lparr>files := fs, held := remove1 task (held s), reports := task\<lparr>tkState := st\<rparr> # reports s\<rparr>"
  have hs: "x \<in> set (held s)" if "x \<in> set (remove1 task (held s))" for x using that by (meson notin_set_remove1)
  have ph: "co_phase (coord s) \<noteq> duringMap" using map_invD(10) [OF inv(1) _ assms(3)] assms(4) by blast
  have "map_inv J ?s'"
    using map_invD [OF inv(1)] keeps(1,2) hs ph assms(4) unfolding map_inv_def by auto
  moreover have "reduce_inv J ?s'" if r: "reduce_inv J s"
  proof -
    have t: "reduce_task J task" by (rule reduce_invD(3) [OF r assms(3,4)])
    have here: "reduced J fs (tkId task)"
      using reduce_work(2) [OF assms(1) t all_mapped [OF inv(1) ph] assms(5)] .
    have still: "reduced J fs (tkId x)" if "reduced J (files s) (tkId x)" "reduce_task J x" for x
      using that here keeps(3) [of "tkId x"] t by (cases "tkId x = tkId task") (auto simp: reduce_task_def)
    have "reduce_task J (task\<lparr>tkState := st\<rparr>)" using t by (simp add: reduce_task_def)
    then show ?thesis using reduce_invD [OF r] here still hs unfolding reduce_inv_def by auto
  qed
  ultimately show "mr_inv J ?s'" using assms(2) inv(2) by (simp add: mr_inv_def)
qed

lemma markCompleted_maps:
  assumes "map_inv J s" and "task \<in> set (reports s)" and "tkType task = MapTask"
  defines "ts \<equiv> markCompleted (tkId task) (mapTasks (coord s))"
  shows "length ts = length (jbInputs J)" "k < length (jbInputs J) \<Longrightarrow> map_task J (int k) (ts ! k)"
    "x \<in> set ts \<Longrightarrow> tkState x = Completed \<Longrightarrow> mapped J (files s) (tkId x)"
    "allCompleted (mapTasks (coord s)) \<Longrightarrow> allCompleted ts"
proof -
  note inv = map_invD [OF assms(1)]
  have rep: "mapped J (files s) (tkId task)" by (rule inv(6) [OF assms(2,3)])
  show "length ts = length (jbInputs J)"
    by (cases rule: markCompleted_cases [of "tkId task" "mapTasks (coord s)"]) (use inv(1) ts_def in simp_all)
  show "map_task J (int k) (ts ! k)" if "k < length (jbInputs J)"
    by (cases rule: markCompleted_cases [of "tkId task" "mapTasks (coord s)"])
      (use inv(1,2) that ts_def in \<open>auto simp: nth_list_update map_task_def\<close>)
  show "mapped J (files s) (tkId x)" if "x \<in> set ts" "tkState x = Completed"
    by (cases rule: markCompleted_cases [of "tkId task" "mapTasks (coord s)"])
      (use inv(7) that rep ts_def in \<open>auto dest!: set_update_subset_insert [THEN subsetD]\<close>)
  show "allCompleted ts" if "allCompleted (mapTasks (coord s))"
    by (cases rule: markCompleted_cases [of "tkId task" "mapTasks (coord s)"])
      (use that ts_def in \<open>auto simp: allCompleted_def list_all_iff dest!: set_update_subset_insert [THEN subsetD]\<close>)
qed

text \<open>A report of a map task arrives.\<close>

lemma mr_inv_report_map:
  assumes "job_ok J" and "mr_inv J s" and "task \<in> set (reports s)" and "tkType task = MapTask"
    and "TaskDoneMap task (coord s) = Some c"
  shows "mr_inv J (s\<lparr>coord := c\<rparr>)"
proof -
  let ?c = "coord s" and ?ts = "markCompleted (tkId task) (mapTasks (coord s))" and ?n = "nat (jbN J)"
  have inv: "map_inv J s" "co_inv (jbN J) ?c" and pos: "0 < jbN J"
    using assms(1,2) by (simp_all add: mr_inv_def job_ok_def)
  note I = map_invD [OF inv(1)] and M = markCompleted_maps [OF inv(1) assms(3,4)]
  have c: "co_inv (jbN J) c" by (rule co_inv_map [OF inv(2) pos assms(5)])
  show ?thesis
  proof (cases "allCompleted ?ts")
    case False
    then have c': "c = ?c\<lparr>mapTasks := ?ts\<rparr>" using assms(5) by (auto simp: TaskDoneMap_def Let_def)
    have "co_phase ?c = duringMap" using I(8) M(4) False by blast
    then have "map_inv J (s\<lparr>coord := c\<rparr>)" using inv(1) M(1-3) c' unfolding map_inv_def by auto
    moreover have "reduce_inv J (s\<lparr>coord := c\<rparr>)" if "reduce_inv J s" using that c' by (simp add: reduce_inv_def)
    ultimately show ?thesis using assms(2) c c' by (simp add: mr_inv_def)
  next
    case True
    have n: "nReduce ?c = jbN J" using inv(2) by (simp add: co_inv_def)
    then obtain ts where ts: "TaskDoneMap task ?c = Some (?c\<lparr>mapTasks := ?ts, co_phase := duringReduce, reduceTasks := ts\<rparr>)"
      "length ts = length (reduceTasks ?c) + ?n"
      "\<And>k. k < ?n \<Longrightarrow> ts ! (length (reduceTasks ?c) + k) =
         (let t = zeroTask\<lparr>tkType := ReduceTask, tkId := int k, NMap := go_len (mapTasks ?c), NReduce := jbN J\<rparr>
          in if length (reduceTasks ?c) + k < ?n
             then assigned (go_len (mapTasks ?c)) (int (length (reduceTasks ?c) + k)) t else t)"
      using TaskDoneMap_all [OF _ True] pos by (metis less_imp_le)
    then have c': "c = ?c\<lparr>mapTasks := ?ts, co_phase := duringReduce, reduceTasks := ts\<rparr>" using assms(5) by simp
    have "map_inv J (s\<lparr>coord := c\<rparr>)" using inv(1) M(1-3) True c' unfolding map_inv_def by auto
    moreover have "reduce_inv J (s\<lparr>coord := c\<rparr>)" if "length ts \<le> ?n"
    proof -
      have old: "reduceTasks ?c = []" using that ts(2) by simp
      have "co_phase ?c = duringMap"
      proof (rule ccontr)
        assume "co_phase ?c \<noteq> duringMap"
        moreover have "reduce_inv J s" using assms(2) old by (simp add: mr_inv_def)
        ultimately show False using reduce_invD(1) [of J s] old pos by simp
      qed
      then have none: "tkType x \<noteq> ReduceTask" if "x \<in> set (held s) \<union> set (reports s)" for x
        using I(10,11) that by blast
      have len: "go_len (mapTasks ?c) = go_len (jbInputs J)" using I(1) by (simp add: go_len_def)
      have "reduce_task J x \<and> tkState x = Idle" if x: "x \<in> set ts" for x
      proof -
        obtain k where "k < ?n" "x = ts ! k" using x ts(2) old by (auto simp: in_set_conv_nth)
        then show ?thesis using ts(3) [of k] old len by (auto simp: reduce_task_def zeroTask_def)
      qed
      then show ?thesis using c' none ts(2) old by (auto simp: reduce_inv_def)
    qed
    ultimately show ?thesis using c c' by (simp add: mr_inv_def)
  qed
qed

lemma mr_inv_report_reduce:
  assumes "job_ok J" and "mr_inv J s" and "task \<in> set (reports s)" and "tkType task = ReduceTask"
  shows "mr_inv J (s\<lparr>coord := TaskDoneReduce task (coord s)\<rparr>)"
proof -
  let ?c = "coord s" and ?ts = "markCompleted (tkId task) (reduceTasks (coord s))"
  have inv: "map_inv J s" "co_inv (jbN J) ?c" and pos: "0 < jbN J"
    using assms(1,2) by (simp_all add: mr_inv_def job_ok_def)
  have ph: "co_phase ?c \<noteq> duringMap" using map_invD(11) [OF inv(1) _ assms(3)] assms(4) by blast
  let ?c' = "TaskDoneReduce task ?c"
  have c': "mapTasks ?c' = mapTasks ?c" "reduceTasks ?c' = ?ts" "co_phase ?c' \<noteq> duringMap"
    "co_phase ?c' = finish \<Longrightarrow> co_phase ?c = finish \<or> allCompleted ?ts"
    using ph by (auto simp: TaskDoneReduce_def Let_def)
  have len: "length ?ts = length (reduceTasks ?c)"
    by (cases rule: markCompleted_cases [of "tkId task" "reduceTasks ?c"]) simp_all
  have "map_inv J (s\<lparr>coord := ?c'\<rparr>)" using inv(1) c' ph unfolding map_inv_def by auto
  moreover have "reduce_inv J (s\<lparr>coord := ?c'\<rparr>)" if r: "reduce_inv J s"
  proof -
    have rep: "reduced J (files s) (tkId task)" by (rule reduce_invD(5) [OF r assms(3,4)])
    have "reduce_task J x \<and> (tkState x = Completed \<longrightarrow> reduced J (files s) (tkId x))" if "x \<in> set ?ts" for x
    proof (cases rule: markCompleted_cases [of "tkId task" "reduceTasks ?c"])
      case none
      then show ?thesis using that reduce_invD(2,6) [OF r] by auto
    next
      case (some k)
      then have "reduce_task J (reduceTasks ?c ! k)" using reduce_invD(2) [OF r] by simp
      then have "reduce_task J (completed (reduceTasks ?c ! k))" by (simp add: reduce_task_def)
      then show ?thesis
        using that some rep reduce_invD(2,6) [OF r] by (auto dest!: set_update_subset_insert [THEN subsetD])
    qed
    moreover have "allCompleted ?ts" if "allCompleted (reduceTasks ?c)"
      by (cases rule: markCompleted_cases [of "tkId task" "reduceTasks ?c"])
        (use that in \<open>auto simp: allCompleted_def list_all_iff dest!: set_update_subset_insert [THEN subsetD]\<close>)
    ultimately show ?thesis using r c' len ph unfolding reduce_inv_def by auto
  qed
  ultimately show ?thesis
    using assms(2) co_inv_reduce [OF inv(2) pos] c'(2) len by (simp add: mr_inv_def)
qed


lemma mr_inv_step:
  assumes "job_ok J" and "mr_inv J s" and "mr_step (jbEnv J) (jbMap J) (jbSort J) (jbReduce J) s s'"
  shows "mr_inv J s'"
  using assms(3)
proof cases
  case (asks now task c)
  have "0 < jbN J" using assms(1) by (simp add: job_ok_def)
  with mr_inv_asks [OF assms(2) _ asks(2)] asks(1) show ?thesis by simp
next
  case (asks_in_vain now c)
  have "0 < jbN J" using assms(1) by (simp add: job_ok_def)
  with mr_inv_asks [OF assms(2) _ asks_in_vain(2)] asks_in_vain(1) show ?thesis by simp
next
  case (works task e fs report)
  then obtain st where r: "report = task\<lparr>tkState := st\<rparr>" by (cases e) auto
  from works(3) consider "tkType task = MapTask" "HandleMapTask (jbEnv J) (jbMap J) task (files s) = (e, fs)"
    | "tkType task = ReduceTask" "HandleReduceTask (jbEnv J) (jbSort J) (jbReduce J) task (files s) = (e, fs)"
    by (auto simp: worker_round_def split: TaskType.splits prod.splits)
  then show ?thesis
    using mr_inv_map_work(2) [OF assms(1,2) works(2)] mr_inv_reduce_work [OF assms(1,2) works(2)] works(1) r
    by cases simp_all
next
  case (dies_working task fs)
  from dies_working(3) consider "tkType task = MapTask" "HandleMapTask (jbEnv J) (jbMap J) task (files s) = (Exits, fs)"
    | "HandleReduceTask (jbEnv J) (jbSort J) (jbReduce J) task (files s) = (Exits, fs)"
    by (auto simp: worker_round_def split: TaskType.splits prod.splits)
  then show ?thesis
    using mr_inv_map_work(1) [OF assms(1,2) dies_working(2)]
    by cases (auto simp: HandleReduceTask_def split: prod.splits)
next
  case (dies task)
  then show ?thesis
    using mr_inv_drop [OF assms(2) set_remove1_subset [of task "held s"] subset_refl] by simp
next
  case (reports report c)
  have "mr_inv J (s\<lparr>coord := c\<rparr>)"
    using reports(3) mr_inv_report_map [OF assms(1,2) reports(2)] mr_inv_report_reduce [OF assms(1,2) reports(2)] assms(2)
    by (auto simp: TaskDone_def split: if_splits)
  from mr_inv_drop [OF this subset_refl, of "remove1 report (reports s)"] reports(1)
  show ?thesis by (simp add: set_remove1_subset)
next
  case (loses_report report)
  then show ?thesis
    using mr_inv_drop [OF assms(2) subset_refl set_remove1_subset [of report "reports s"]] by simp
qed

lemma mr_inv_run:
  assumes "mr_run (jbEnv J) (jbMap J) (jbSort J) (jbReduce J) (jbInputs J) (jbN J) fs s"
    and "job_ok J" and "inputs_in J fs"
  shows "mr_inv J s"
  using assms
proof induction
  case start
  then show ?case by (rule mr_inv_start)
next
  case (step s s')
  then show ?case using mr_inv_step by blast
qed

lemma Done_reduced:
  assumes "mr_inv J s" and "Done (coord s)" and "0 < jbN J" and "0 \<le> i" and "i < jbN J"
  shows "reduced J (files s) i"
proof -
  let ?ts = "reduceTasks (coord s)"
  have c: "co_inv (jbN J) (coord s)" and ph: "co_phase (coord s) = finish"
    using assms(1,2) by (simp_all add: mr_inv_def Done_def)
  then have "length ?ts \<le> nat (jbN J)" by (cases "nat (jbN J) < length ?ts") (simp_all add: co_inv_def)
  then have r: "reduce_inv J s" using assms(1) by (simp add: mr_inv_def)
  then have k: "nat i < length ?ts" using reduce_invD(1) ph assms(3-5) by simp
  moreover have "tkId (?ts ! nat i) = i"
    using c k assms(4,5) by (simp add: co_inv_def)
  moreover have "tkState (?ts ! nat i) = Completed"
    using reduce_invD(7) [OF r ph] k by (simp add: allCompleted_def list_all_length)
  ultimately show ?thesis using reduce_invD(6) [OF r nth_mem [OF k]] by simp
qed

subsection \<open>One worker alone\<close>

text \<open>A round of a worker that is not interrupted: it asks at time \<open>now\<close>, works, and reports.\<close>

definition solo_round ::
  "os_env \<Rightarrow> mapf \<Rightarrow> sorter \<Rightarrow> reducef \<Rightarrow> int \<Rightarrow> mr_system \<Rightarrow> mr_system option" where
  "solo_round env mapf sorter reducef now s =
     (case HandleGetTaskRequest now (coord s) of (found, c) \<Rightarrow>
       (case found of
          None \<Rightarrow> Some (s\<lparr>coord := c\<rparr>)
        | Some task \<Rightarrow>
            (case worker_round env mapf sorter reducef (Some task) (files s) of
               (Works e, fs) \<Rightarrow>
                 (case report_of task e of
                    None \<Rightarrow> None
                  | Some report \<Rightarrow> map_option (\<lambda>c'. s\<lparr>coord := c', files := fs\<rparr>) (TaskDone report c))
             | (_, fs) \<Rightarrow> Some (s\<lparr>coord := c\<rparr>))))"

fun solo :: "os_env \<Rightarrow> mapf \<Rightarrow> sorter \<Rightarrow> reducef \<Rightarrow> int list \<Rightarrow> mr_system \<Rightarrow> mr_system option" where
  "solo env mapf sorter reducef [] s = Some s"
| "solo env mapf sorter reducef (now # clock) s =
     Option.bind (solo_round env mapf sorter reducef now s) (solo env mapf sorter reducef clock)"

lemma solo_round_run:
  assumes "mr_run env mapf sorter reducef inputs n fs s" and "solo_round env mapf sorter reducef now s = Some s'"
  shows "mr_run env mapf sorter reducef inputs n fs s'"
proof -
  obtain found c where ask: "HandleGetTaskRequest now (coord s) = (found, c)" by fastforce
  show ?thesis
  proof (cases found)
    case None
    with ask assms(2) have "s' = s\<lparr>coord := c\<rparr>" by (simp add: solo_round_def)
    then show ?thesis using mr_run.step [OF assms(1)] mr_step.asks_in_vain ask None by metis
  next
    case (Some task)
    let ?s1 = "s\<lparr>coord := c, held := task # held s\<rparr>"
    have r1: "mr_run env mapf sorter reducef inputs n fs ?s1"
      using mr_run.step [OF assms(1)] mr_step.asks ask Some by metis
    obtain rd fs' where w: "worker_round env mapf sorter reducef (Some task) (files s) = (rd, fs')" by fastforce
    show ?thesis
    proof (cases "\<exists>e. rd = Works e")
      case False
      then have "s' = s\<lparr>coord := c\<rparr>" using ask Some w assms(2) by (auto simp: solo_round_def split: round.splits)
      moreover have "mr_run env mapf sorter reducef inputs n fs (?s1\<lparr>held := remove1 task (held ?s1)\<rparr>)"
        by (rule mr_run.step [OF r1 mr_step.dies])
      ultimately show ?thesis by simp
    next
      case True
      then obtain e report c' where e: "rd = Works e" "report_of task e = Some report" "TaskDone report c = Some c'"
        "s' = s\<lparr>coord := c', files := fs'\<rparr>"
        using ask Some w assms(2) by (auto simp: solo_round_def split: option.splits)
      let ?s2 = "?s1\<lparr>files := fs', held := remove1 task (held ?s1), reports := report # reports ?s1\<rparr>"
      have r2: "mr_run env mapf sorter reducef inputs n fs ?s2"
        using mr_run.step [OF r1 mr_step.works [of task ?s1]] w e by simp
      have "mr_run env mapf sorter reducef inputs n fs
          (?s2\<lparr>coord := c', reports := remove1 report (reports ?s2)\<rparr>)"
        using mr_run.step [OF r2 mr_step.reports [of report ?s2 c']] e(3) by simp
      moreover have "?s2\<lparr>coord := c', reports := remove1 report (reports ?s2)\<rparr> = s'"
        using e(4) by (cases s) simp
      ultimately show ?thesis by simp
    qed
  qed
qed

lemma solo_run:
  assumes "mr_run env mapf sorter reducef inputs n fs s" and "solo env mapf sorter reducef clock s = Some s'"
  shows "mr_run env mapf sorter reducef inputs n fs s'"
  using assms
proof (induction clock arbitrary: s)
  case (Cons now clock)
  then show ?case using solo_round_run by (fastforce dest: bind_eq_SomeD)
qed simp


definition open_tasks :: "Task list \<Rightarrow> nat" where
  "open_tasks ts = length (filter (\<lambda>t. tkState t \<noteq> Completed) ts)"

text \<open>No task is in progress, and the phase is the right one for the tasks that are open.\<close>

definition calm :: "job \<Rightarrow> mr_system \<Rightarrow> bool" where
  "calm J s \<longleftrightarrow> held s = [] \<and> reports s = []
     \<and> (\<forall>t \<in> set (mapTasks (coord s)) \<union> set (reduceTasks (coord s)). tkState t \<noteq> InProgress)
     \<and> (co_phase (coord s) = duringMap \<longrightarrow> 0 < open_tasks (mapTasks (coord s)))
     \<and> (co_phase (coord s) = duringReduce \<longrightarrow> 0 < open_tasks (reduceTasks (coord s))
          \<and> length (reduceTasks (coord s)) = nat (jbN J))"

text \<open>The rounds that are left.\<close>

definition rounds_left :: "job \<Rightarrow> mr_system \<Rightarrow> nat" where
  "rounds_left J s = (case co_phase (coord s) of
       duringMap \<Rightarrow> open_tasks (mapTasks (coord s)) + nat (jbN J)
     | duringReduce \<Rightarrow> open_tasks (reduceTasks (coord s))
     | finish \<Rightarrow> 0)"

lemma open_tasks_update:
  "k < length ts \<Longrightarrow> tkState (ts ! k) \<noteq> Completed \<Longrightarrow> tkState x = Completed \<Longrightarrow>
     open_tasks ts = Suc (open_tasks (ts[k := x]))"
proof (induction ts arbitrary: k)
  case (Cons t ts)
  then show ?case by (cases k) (auto simp: open_tasks_def)
qed simp

lemma open_tasks_0: "open_tasks ts = 0 \<longleftrightarrow> allCompleted ts"
  by (induction ts) (auto simp: open_tasks_def allCompleted_def)

text \<open>Asking in a calm state yields a task; reporting it completes that task.\<close>

lemma find_and_mark:
  assumes "\<forall>t \<in> set ts. tkState t \<noteq> InProgress" and "0 < open_tasks ts"
    and "\<And>k k'. k < length ts \<Longrightarrow> k' < length ts \<Longrightarrow> tkId (ts ! k) = tkId (ts ! k') \<Longrightarrow> k = k'"
  obtains k where "k < length ts" "tkState (ts ! k) = Idle"
    "findAvailableTask now ts = (Some (started now (ts ! k)), ts[k := started now (ts ! k)])"
    "markCompleted (tkId (ts ! k)) (ts[k := started now (ts ! k)]) = ts[k := completed (started now (ts ! k))]"
proof -
  obtain found ts' where f: "findAvailableTask now ts = (found, ts')" by fastforce
  have "\<not> allCompleted ts" using assms(2) open_tasks_0 [of ts] by simp
  then obtain t where "t \<in> set ts" "tkState t = Idle"
    using assms(1) TaskState.exhaust by (auto simp: allCompleted_def list_all_iff)
  then have "\<exists>t \<in> set ts. free now t" by (auto simp: free_def)
  with f obtain k where k: "k < length ts" "found = Some (started now (ts ! k))" "ts' = ts[k := started now (ts ! k)]"
    "free now (ts ! k)"
    by (cases rule: findAvailableTask_cases) auto
  have idle: "tkState (ts ! k) = Idle" using k(1,4) assms(1) by (auto simp: free_def)
  let ?ts = "ts[k := started now (ts ! k)]"
  have "markCompleted (tkId (ts ! k)) ?ts = ts[k := completed (started now (ts ! k))]"
  proof (cases rule: markCompleted_cases [of "tkId (ts ! k)" ?ts])
    case none
    moreover have "started now (ts ! k) \<in> set ?ts" using k(1) by (simp add: set_update_memI)
    ultimately show ?thesis by auto
  next
    case (some k')
    then have "tkId (ts ! k') = tkId (ts ! k)" by (cases "k' = k") auto
    then have "k' = k" using assms(3) [of k' k] some(1) k(1) by simp
    then show ?thesis using some(4) k(1) by simp
  qed
  then show thesis using that [OF k(1) idle] f k(2,3) by simp
qed

lemma TaskDoneMap_first:
  assumes "0 \<le> nReduce c" and "allCompleted (markCompleted (tkId task) (mapTasks c))" and "reduceTasks c = []"
  obtains ts where
    "TaskDoneMap task c = Some (c\<lparr>mapTasks := markCompleted (tkId task) (mapTasks c), co_phase := duringReduce,
       reduceTasks := ts\<rparr>)"
    "length ts = nat (nReduce c)" "\<And>x. x \<in> set ts \<Longrightarrow> tkState x = Idle"
  by (rule TaskDoneMap_all [OF assms(1,2)], rule that, assumption) (auto simp: assms(3) in_set_conv_nth)

lemma HandleReduceTask_reports:
  obtains st fs' where "HandleReduceTask env sorter reducef task fs = (Reports st, fs')"
  by (cases "reduce_files env sorter reducef task (FileNames task) [] fs") (auto simp: HandleReduceTask_def)

lemma distinct_map_ids:
  assumes "map_inv J s" and "k < length (mapTasks (coord s))" and "k' < length (mapTasks (coord s))"
    and "tkId (mapTasks (coord s) ! k) = tkId (mapTasks (coord s) ! k')"
  shows "k = k'"
  using map_invD(2) [OF assms(1), of k] map_invD(2) [OF assms(1), of k'] assms map_invD(1) [OF assms(1)]
  by (simp add: map_task_def)

lemma solo_map_round:
  assumes "job_ok J" and "mr_inv J s" and "calm J s" and "co_phase (coord s) = duringMap"
  obtains s' where "solo_round (jbEnv J) (jbMap J) (jbSort J) (jbReduce J) now s = Some s'"
    "calm J s'" "rounds_left J s = Suc (rounds_left J s')"
proof -
  let ?c = "coord s" and ?ts = "mapTasks (coord s)"
  have inv: "map_inv J s" "nReduce ?c = jbN J" and pos: "0 < jbN J"
    using assms(1,2) by (simp_all add: mr_inv_def job_ok_def co_inv_def)
  have c: "\<forall>t \<in> set ?ts. tkState t \<noteq> InProgress" "0 < open_tasks ?ts" "held s = []" "reports s = []"
    using assms(3,4) by (auto simp: calm_def)
  obtain k where k: "k < length ?ts" "tkState (?ts ! k) = Idle"
    "findAvailableTask now ?ts = (Some (started now (?ts ! k)), ?ts[k := started now (?ts ! k)])"
    "markCompleted (tkId (?ts ! k)) (?ts[k := started now (?ts ! k)]) = ?ts[k := completed (started now (?ts ! k))]"
    using find_and_mark [OF c(1,2) distinct_map_ids [OF inv(1)], of now] by blast
  let ?t = "started now (?ts ! k)" and ?c1 = "?c\<lparr>mapTasks := ?ts[k := started now (?ts ! k)]\<rparr>"
  let ?ts' = "?ts[k := completed ?t]"
  have t: "map_task J (int k) ?t" "tkType ?t = MapTask"
    using map_invD(1,2) [OF inv(1)] k(1) by (auto simp: map_task_def)
  obtain e fs where w: "HandleMapTask (jbEnv J) (jbMap J) ?t (files s) = (e, fs)" by fastforce
  have e: "e = Reports Completed" by (rule map_work(1) [OF assms(1) map_invD(3) [OF inv(1)] t(1) w])
  have ask: "HandleGetTaskRequest now ?c = (Some ?t, ?c1)" using assms(4) k(3) by (simp add: HandleGetTaskRequest_def)
  have round: "solo_round (jbEnv J) (jbMap J) (jbSort J) (jbReduce J) now s
      = map_option (\<lambda>c'. s\<lparr>coord := c', files := fs\<rparr>) (TaskDoneMap (?t\<lparr>tkState := Completed\<rparr>) ?c1)"
    using ask t(2) w e by (simp add: solo_round_def worker_round_def TaskDone_def)
  have cnt: "open_tasks ?ts = Suc (open_tasks ?ts')" using open_tasks_update [OF k(1)] k(2) by simp
  have states: "tkState x \<noteq> InProgress" if "x \<in> set ?ts'" for x
    using that c(1) by (auto dest!: set_update_subset_insert [THEN subsetD])
  show thesis
  proof (cases "allCompleted ?ts'")
    case False
    then have "TaskDoneMap (?t\<lparr>tkState := Completed\<rparr>) ?c1 = Some (?c\<lparr>mapTasks := ?ts'\<rparr>)"
      using k(4) by (simp add: TaskDoneMap_def Let_def)
    then have r: "solo_round (jbEnv J) (jbMap J) (jbSort J) (jbReduce J) now s
        = Some (s\<lparr>coord := ?c\<lparr>mapTasks := ?ts'\<rparr>, files := fs\<rparr>)" using round by simp
    show thesis
    proof (rule that [OF r])
      show "calm J (s\<lparr>coord := ?c\<lparr>mapTasks := ?ts'\<rparr>, files := fs\<rparr>)"
        using assms(3,4) states False open_tasks_0 [of ?ts'] by (auto simp: calm_def)
    qed (use assms(4) cnt in \<open>simp add: rounds_left_def\<close>)
  next
    case True
    have old: "reduceTasks ?c1 = []" using map_invD(9) [OF inv(1) assms(4)] by simp
    have m: "markCompleted (tkId (?t\<lparr>tkState := Completed\<rparr>)) (mapTasks ?c1) = ?ts'" using k(4) by simp
    obtain ts where ts: "TaskDoneMap (?t\<lparr>tkState := Completed\<rparr>) ?c1
          = Some (?c1\<lparr>mapTasks := ?ts', co_phase := duringReduce, reduceTasks := ts\<rparr>)"
      "length ts = nat (jbN J)" "\<And>x. x \<in> set ts \<Longrightarrow> tkState x = Idle"
      using TaskDoneMap_first [of ?c1 "?t\<lparr>tkState := Completed\<rparr>"] inv(2) pos True old m by auto
    have "filter (\<lambda>t. tkState t \<noteq> Completed) ts = ts" using ts(3) by (auto simp: filter_id_conv)
    then have "open_tasks ts = nat (jbN J)" using ts(2) by (simp add: open_tasks_def)
    moreover have "open_tasks ?ts' = 0" using True open_tasks_0 by blast
    ultimately have cnts: "open_tasks ?ts = 1" "open_tasks ts = nat (jbN J)" using cnt by simp_all
    let ?s' = "s\<lparr>coord := ?c1\<lparr>mapTasks := ?ts', co_phase := duringReduce, reduceTasks := ts\<rparr>, files := fs\<rparr>"
    have r: "solo_round (jbEnv J) (jbMap J) (jbSort J) (jbReduce J) now s = Some ?s'" using round ts(1) by simp
    show thesis
    proof (rule that [OF r])
      show "calm J ?s'" using c(3,4) states ts(2,3) cnts(2) pos by (auto simp: calm_def)
    qed (use assms(4) cnts in \<open>simp add: rounds_left_def\<close>)
  qed
qed

lemma solo_reduce_round:
  assumes "job_ok J" and "mr_inv J s" and "calm J s" and "co_phase (coord s) = duringReduce"
  obtains s' where "solo_round (jbEnv J) (jbMap J) (jbSort J) (jbReduce J) now s = Some s'"
    "calm J s'" "rounds_left J s = Suc (rounds_left J s')"
proof -
  let ?c = "coord s" and ?ts = "reduceTasks (coord s)"
  have c: "\<forall>t \<in> set ?ts. tkState t \<noteq> InProgress" "0 < open_tasks ?ts" "held s = []" "reports s = []"
    "length ?ts = nat (jbN J)" using assms(3,4) by (auto simp: calm_def)
  have ids: "tkId (?ts ! k) = int k" "tkType (?ts ! k) = ReduceTask" if "k < length ?ts" for k
    using assms(2) that c(5) by (auto simp: mr_inv_def co_inv_def)
  obtain k where k: "k < length ?ts" "tkState (?ts ! k) = Idle"
    "findAvailableTask now ?ts = (Some (started now (?ts ! k)), ?ts[k := started now (?ts ! k)])"
    "markCompleted (tkId (?ts ! k)) (?ts[k := started now (?ts ! k)]) = ?ts[k := completed (started now (?ts ! k))]"
    using find_and_mark [OF c(1,2), of now] ids(1) by (metis of_nat_eq_iff)
  let ?t = "started now (?ts ! k)" and ?ts' = "?ts[k := completed (started now (?ts ! k))]"
  obtain st fs where w: "HandleReduceTask (jbEnv J) (jbSort J) (jbReduce J) ?t (files s) = (Reports st, fs)"
    by (rule HandleReduceTask_reports)
  have ask: "HandleGetTaskRequest now ?c = (Some ?t, ?c\<lparr>reduceTasks := ?ts[k := ?t]\<rparr>)"
    using assms(4) k(3) by (simp add: HandleGetTaskRequest_def)
  let ?c' = "TaskDoneReduce (?t\<lparr>tkState := st\<rparr>) (?c\<lparr>reduceTasks := ?ts[k := ?t]\<rparr>)"
  have round: "solo_round (jbEnv J) (jbMap J) (jbSort J) (jbReduce J) now s = Some (s\<lparr>coord := ?c', files := fs\<rparr>)"
    using ask w ids(2) [OF k(1)] by (simp add: solo_round_def worker_round_def TaskDone_def)
  have c': "?c' = (if allCompleted ?ts' then ?c\<lparr>reduceTasks := ?ts', co_phase := finish\<rparr> else ?c\<lparr>reduceTasks := ?ts'\<rparr>)"
    using k(4) by (simp add: TaskDoneReduce_def)
  have cnt: "open_tasks ?ts = Suc (open_tasks ?ts')" using open_tasks_update [OF k(1)] k(2) by simp
  have states: "tkState x \<noteq> InProgress" if "x \<in> set ?ts'" for x
    using that c(1) by (auto dest!: set_update_subset_insert [THEN subsetD])
  show thesis
  proof (rule that [OF round])
    have maps: "tkState x \<noteq> InProgress" if "x \<in> set (mapTasks ?c)" for x using assms(3) that by (simp add: calm_def)
    show "calm J (s\<lparr>coord := ?c', files := fs\<rparr>)"
      using c(3-5) maps states assms(4) open_tasks_0 [of ?ts'] unfolding c' by (auto simp: calm_def)
    show "rounds_left J s = Suc (rounds_left J (s\<lparr>coord := ?c', files := fs\<rparr>))"
      using assms(4) cnt open_tasks_0 [of ?ts'] unfolding c' by (auto simp: rounds_left_def)
  qed
qed

lemma solo_finishes:
  assumes "job_ok J" and "mr_inv J s" and "calm J s" and "length clock = rounds_left J s"
    and "mr_run (jbEnv J) (jbMap J) (jbSort J) (jbReduce J) (jbInputs J) (jbN J) fs s" and "inputs_in J fs"
  shows "\<exists>s'. solo (jbEnv J) (jbMap J) (jbSort J) (jbReduce J) clock s = Some s' \<and> Done (coord s')"
  using assms(2-5)
proof (induction clock arbitrary: s)
  case Nil
  have "co_phase (coord s) = finish"
    using Nil assms(1) by (cases "co_phase (coord s)") (auto simp: calm_def rounds_left_def job_ok_def)
  then show ?case by (simp add: Done_def)
next
  case (Cons now clock)
  then have "co_phase (coord s) \<noteq> finish" by (auto simp: rounds_left_def)
  then obtain s' where s': "solo_round (jbEnv J) (jbMap J) (jbSort J) (jbReduce J) now s = Some s'"
    "calm J s'" "rounds_left J s = Suc (rounds_left J s')"
    using solo_map_round [OF assms(1) Cons.prems(1,2)] solo_reduce_round [OF assms(1) Cons.prems(1,2)]
    by (metis phase.exhaust)
  have run: "mr_run (jbEnv J) (jbMap J) (jbSort J) (jbReduce J) (jbInputs J) (jbN J) fs s'"
    by (rule solo_round_run [OF Cons.prems(4) s'(1)])
  then have "mr_inv J s'" using mr_inv_run assms(1,6) by blast
  then show ?case using Cons.IH [OF _ s'(2) _ run] s' Cons.prems(3) by simp
qed

lemma calm_start:
  assumes "job_ok J"
  shows "calm J (mr_start (jbInputs J) (jbN J) fs)"
    "rounds_left J (mr_start (jbInputs J) (jbN J) fs) = length (jbInputs J) + nat (jbN J)"
proof -
  let ?ts = "mapTasks (MakeCoordinator (jbInputs J) (jbN J))"
  have idle: "\<forall>t \<in> set ?ts. tkState t = Idle" by (auto simp: MakeCoordinator_def zeroTask_def)
  then have "filter (\<lambda>t. tkState t \<noteq> Completed) ?ts = ?ts" by (auto simp: filter_id_conv)
  then have op: "open_tasks ?ts = length (jbInputs J)"
    by (simp add: open_tasks_def) (simp add: MakeCoordinator_def go_len_def)
  have "jbInputs J \<noteq> []" using assms by (simp add: job_ok_def)
  with op idle show "calm J (mr_start (jbInputs J) (jbN J) fs)"
    by (auto simp: calm_def mr_start_def) (simp_all add: MakeCoordinator_def)
  show "rounds_left J (mr_start (jbInputs J) (jbN J) fs) = length (jbInputs J) + nat (jbN J)"
    using op by (simp add: rounds_left_def mr_start_def) (simp add: MakeCoordinator_def)
qed


lemma can_finish:
  assumes "job_ok J" and "inputs_in J fs"
  shows "\<exists>s. mr_run (jbEnv J) (jbMap J) (jbSort J) (jbReduce J) (jbInputs J) (jbN J) fs s \<and> Done (coord s)"
proof -
  let ?s0 = "mr_start (jbInputs J) (jbN J) fs"
  let ?clock = "replicate (rounds_left J ?s0) (0 :: int)"
  have run: "mr_run (jbEnv J) (jbMap J) (jbSort J) (jbReduce J) (jbInputs J) (jbN J) fs ?s0"
    by (rule mr_run.start)
  obtain s where "solo (jbEnv J) (jbMap J) (jbSort J) (jbReduce J) ?clock ?s0 = Some s" "Done (coord s)"
    using solo_finishes [OF assms(1) mr_inv_start [OF assms] calm_start(1) [OF assms(1)] _ run assms(2), of ?clock]
    by auto
  with solo_run [OF run] show ?thesis by blast
qed


subsection \<open>A sample job\<close>

definition sample_env :: os_env where
  "sample_env = \<lparr>readOk = \<lambda>_. True, mkdirOk = True, createOk = \<lambda>_. True, writeOk = \<lambda>_. True,
     renameOk = \<lambda>_. True, showTime = itoa\<rparr>"

definition sample_map :: mapf where
  "sample_map file content = map (\<lambda>w. \<lparr>kvKey = w, kvValue = ''1''\<rparr>) (Fields content)"

definition sample_job :: job where
  "sample_job = \<lparr>jbEnv = sample_env, jbMap = sample_map, jbSort = sort_key kvKey, jbReduce = wc_Reduce,
     jbInputs = [''a'', ''b''], jbContents = [''x y x'', ''y''], jbN = 2\<rparr>"

definition sample_files :: files where
  "sample_files = [''a'' \<mapsto> ''x y x'', ''b'' \<mapsto> ''y'']"

lemma valid_sort_key: "valid_sort (sort_key kvKey)"
  by (simp add: valid_sort_def)

lemma order_free_wc: "order_free wc_Reduce"
  unfolding order_free_def wc_Reduce_def go_len_def by (metis mset_eq_length)

lemma is_tmp_dot: "is_tmp f \<Longrightarrow> CHR ''.'' \<in> set f"
  by (auto simp: is_tmp_def)

lemma sample_ok: "job_ok sample_job" "inputs_in sample_job sample_files"
proof -
  have "Fields ''x y x'' = [''x'', ''y'', ''x'']" "Fields ''y'' = [''y'']" by code_simp+
  moreover have "clean ''x''" "clean ''y''" "clean ''1''" by code_simp+
  ultimately have "list_all fits (sample_map ''a'' ''x y x'')" "list_all fits (sample_map ''b'' ''y'')"
    by (simp_all add: sample_map_def fits_def MaxScanTokenSize_def)
  then have "list_all fits (sample_map ([''a'', ''b''] ! j) ([''x y x'', ''y''] ! j))" if "j < 2" for j
    using that by (cases j) (auto simp: less_Suc_eq)
  moreover have "\<not> is_tmp f" if "f \<in> {''a'', ''b''}" for f using that is_tmp_dot by fastforce
  ultimately show "job_ok sample_job"
    using valid_sort_key order_free_wc
    by (auto simp: job_ok_def sample_job_def healthy_def sample_env_def mr_name_def out_name_def)
  show "inputs_in sample_job sample_files" by (simp add: inputs_in_def sample_job_def sample_files_def)
qed

lemma sample_finishes:
  obtains s where "mr_run sample_env sample_map (sort_key kvKey) wc_Reduce [''a'', ''b''] 2 sample_files s"
    "Done (coord s)"
  using can_finish [OF sample_ok] by (auto simp: sample_job_def)

subsection \<open>Properties\<close>



text \<open>No reduce task is handed out before every map task has left all its intermediate files.\<close>

theorem reduce_after_maps:
  assumes "job_ok J" and "inputs_in J fs"
    and "mr_run (jbEnv J) (jbMap J) (jbSort J) (jbReduce J) (jbInputs J) (jbN J) fs s"
    and "HandleGetTaskRequest now (coord s) = (Some t, c)" and "tkType t = ReduceTask"
    and "0 \<le> j" and "j < go_len (jbInputs J)" and "0 \<le> i" and "i < jbN J"
  shows "files s (mr_name j i)
    = Some (kvs_text (bucket (jbN J) i (jbMap J (jbInputs J ! nat j) (jbContents J ! nat j))))"
proof -
  have inv: "map_inv J s" using mr_inv_run [OF assms(3,1,2)] by (simp add: mr_inv_def)
  from assms(4) have "co_phase (coord s) \<noteq> duringMap"
  proof (cases rule: HandleGetTaskRequest_cases)
    case (map k)
    then have "tkType t = MapTask" using map_tasks_typed(1) [OF inv nth_mem [OF map(2)]] by simp
    with assms(5) show ?thesis by simp
  qed simp_all
  then show ?thesis using all_mapped [OF inv _ assms(6,7)] assms(8,9) by (simp add: mapped_def emitted_def)
qed

definition after_maps :: "mr_system option" where
  "after_maps = solo sample_env sample_map (sort_key kvKey) wc_Reduce [0, 1] (mr_start [''a'', ''b''] 2 sample_files)"

theorem reduce_after_maps_witness:
  "\<exists>s t c. after_maps = Some s \<and> HandleGetTaskRequest 2 (coord s) = (Some t, c) \<and> tkType t = ReduceTask
     \<and> files s (mr_name 1 0) = Some (kvs_text (bucket 2 0 (sample_map ''b'' ''y'')))"
proof -
  have e: "map_option (\<lambda>s. map_option tkType (fst (HandleGetTaskRequest 2 (coord s)))) after_maps
      = Some (Some ReduceTask)" by code_simp
  then obtain s where s: "after_maps = Some s" by (cases after_maps) auto
  obtain t c where t: "HandleGetTaskRequest 2 (coord s) = (Some t, c)" "tkType t = ReduceTask"
    using e unfolding s by (cases "HandleGetTaskRequest 2 (coord s)") auto
  let ?J = sample_job
  have "mr_run (jbEnv ?J) (jbMap ?J) (jbSort ?J) (jbReduce ?J) (jbInputs ?J) (jbN ?J) sample_files s"
    using solo_run [OF mr_run.start s [unfolded after_maps_def]] by (simp add: sample_job_def)
  from reduce_after_maps [OF sample_ok this t, of 1 0]
  have "files s (mr_name 1 0) = Some (kvs_text (bucket 2 0 (sample_map ''b'' ''y'')))"
    by (simp add: sample_job_def go_len_def)
  with s t show ?thesis by blast
qed



lemma reduce_tasks_grow:
  assumes "co_step c c'" and "0 \<le> nReduce c"
  shows "length (reduceTasks c) \<le> length (reduceTasks c')"
  using assms(1)
proof cases
  case (request now found)
  then show ?thesis by (cases rule: HandleGetTaskRequest_cases) simp_all
next
  case (report task)
  have m: "length (markCompleted i ts) = length ts" for i ts
    by (cases rule: markCompleted_cases [of i ts]) simp_all
  show ?thesis
  proof (cases "tkType task = MapTask \<and> allCompleted (markCompleted (tkId task) (mapTasks c))")
    case True
    then have all: "allCompleted (markCompleted (tkId task) (mapTasks c))" by simp
    show ?thesis
      by (rule TaskDoneMap_all [OF assms(2) all]) (use True report in \<open>auto simp: TaskDone_def\<close>)
  next
    case False
    then show ?thesis
      using report m by (auto simp: TaskDone_def TaskDoneMap_def TaskDoneReduce_def Let_def split: if_splits)
  qed
qed

text \<open>C39: a report of a map task that comes after all map tasks are done starts the reduce phase once more:
  the reduce tasks get a second copy that no report ever completes, so the job is never done
  after that. Such a report comes from a worker that took longer than the timeout and whose task was
  given to another worker.\<close>

theorem late_report_hangs:
  assumes "co_step\<^sup>*\<^sup>* (MakeCoordinator inputs n) c" and "0 < n"
    and "allCompleted (mapTasks c)" and "reduceTasks c \<noteq> []"
    and "tkType task = MapTask" and "TaskDone task c = Some c1" and "co_step\<^sup>*\<^sup>* c1 c2"
  shows "\<not> Done c2"
proof -
  have inv: "co_inv n c" by (rule co_inv_steps [OF assms(1) co_inv_start assms(2)])
  then have n: "nReduce c = n" by (simp add: co_inv_def)
  have all: "allCompleted (markCompleted (tkId task) (mapTasks c))"
    by (cases rule: markCompleted_cases [of "tkId task" "mapTasks c"])
      (use assms(3) in \<open>auto simp: allCompleted_def list_all_iff dest!: set_update_subset_insert [THEN subsetD]\<close>)
  have "nat n < length (reduceTasks c1)"
    by (rule TaskDoneMap_all [OF _ all]) (use assms(2,4-6) n in \<open>auto simp: TaskDone_def\<close>)
  moreover have c1: "co_inv n c1" by (rule co_inv_step [OF co_step.report [OF assms(6)] inv assms(2)])
  ultimately have "nat n < length (reduceTasks c2) \<and> co_inv n c2"
    using assms(7)
  proof (induction rule: rtranclp_induct [OF assms(7), case_names base step])
    case (step y z)
    then have y: "nat n < length (reduceTasks y)" "co_inv n y" by blast+
    then have "0 \<le> nReduce y" using assms(2) by (simp add: co_inv_def)
    with reduce_tasks_grow [OF step(2)] y co_inv_step [OF step(2) y(2) assms(2)] show ?case by simp
  qed simp
  then show ?thesis by (simp add: co_inv_def Done_def)
qed

text \<open>The map task is given out at time 0, and again 11 seconds later.\<close>

definition stalled :: Coordinator where
  "stalled = snd (HandleGetTaskRequest 11000000000 (snd (HandleGetTaskRequest 0 (MakeCoordinator [''a''] 1))))"

definition slow_task :: Task where
  "slow_task = the (fst (HandleGetTaskRequest 0 (MakeCoordinator [''a''] 1)))"

definition after_first :: Coordinator where
  "after_first = the (TaskDone slow_task stalled)"

theorem late_report_hangs_witness:
  "\<exists>c1. TaskDone slow_task after_first = Some c1 \<and> \<not> Done c1"
proof -
  have "co_step\<^sup>*\<^sup>* (MakeCoordinator [''a''] 1) stalled"
    unfolding stalled_def
    by (rule rtranclp.rtrancl_into_rtrancl [OF rtranclp.rtrancl_into_rtrancl [OF rtranclp.rtrancl_refl]];
        rule co_step.request, rule prod.collapse [symmetric])
  moreover have "TaskDone slow_task stalled = Some after_first"
    unfolding after_first_def by (rule option.collapse [symmetric]) code_simp
  ultimately have run: "co_step\<^sup>*\<^sup>* (MakeCoordinator [''a''] 1) after_first"
    by (auto intro: rtranclp.rtrancl_into_rtrancl co_step.report)
  have "allCompleted (mapTasks after_first)" "reduceTasks after_first \<noteq> []" "tkType slow_task = MapTask" by code_simp+
  moreover have "TaskDone slow_task after_first \<noteq> None" by code_simp
  then obtain c1 where c1: "TaskDone slow_task after_first = Some c1" by blast
  ultimately show ?thesis using late_report_hangs [OF run _ _ _ _ c1 rtranclp.rtrancl_refl] by auto
qed

text \<open>A failed reduce task counts as done. When the first file of the task has a line without exactly two
  fields, the worker panics, recovers, leaves the output file as it was and reports the task as
  \<open>Idle\<close>; the coordinator does not look at the state in the report and marks the task as
  completed.\<close>

theorem failed_reduce_counts:
  assumes "FileNames t = f # names" and "fs f = Some content" and "parse_lines (scan_lines content) = None"
    and "tkType t = ReduceTask" and "k < length (reduceTasks c)" and "tkId (reduceTasks c ! k) = tkId t"
    and "\<forall>k' < k. tkId (reduceTasks c ! k') \<noteq> tkId t"
  shows "\<exists>fs' c'. HandleReduceTask env sorter reducef t fs = (Reports Idle, fs')
    \<and> fs' (out_name (tkId t)) = fs (out_name (tkId t))
    \<and> TaskDone (t\<lparr>tkState := Idle\<rparr>) c = Some c' \<and> tkState (reduceTasks c' ! k) = Completed"
proof -
  have "HandleReduceTask env sorter reducef t fs = (Reports Idle, fs(out_tmp env t := None))"
    using assms(1-3) by (simp add: HandleReduceTask_def)
  moreover have "tkState (markCompleted (tkId t) (reduceTasks c) ! k) = Completed"
  proof (cases rule: markCompleted_cases [of "tkId t" "reduceTasks c"])
    case none
    then show ?thesis using assms(5,6) nth_mem by blast
  next
    case (some k1)
    then have "k1 = k" using assms(5-7) by (metis linorder_neqE_nat)
    then show ?thesis using some(1,4) by simp
  qed
  ultimately show ?thesis using assms(4) by (auto simp: TaskDone_def TaskDoneReduce_def Let_def)
qed

theorem failed_reduce_counts_witness:
  "\<exists>fs' c'. HandleReduceTask sample_env (sort_key kvKey) wc_Reduce (slow_task\<lparr>tkType := ReduceTask, FileNames := [''f'']\<rparr>)
        [''f'' \<mapsto> ''a''] = (Reports Idle, fs')
    \<and> TaskDone (slow_task\<lparr>tkType := ReduceTask, FileNames := [''f''], tkState := Idle\<rparr>) after_first = Some c'
    \<and> tkState (reduceTasks c' ! 0) = Completed"
proof -
  let ?t = "slow_task\<lparr>tkType := ReduceTask, FileNames := [''f'']\<rparr>"
  have "Fields ''a'' = [''a'']" by code_simp
  then have "parse_lines (scan_lines ''a'') = None" by (simp add: dropCR_def MaxScanTokenSize_def)
  moreover have "0 < length (reduceTasks after_first)" "tkId (reduceTasks after_first ! 0) = tkId slow_task" by code_simp+
  ultimately show ?thesis
    using failed_reduce_counts [of ?t "''f''" "[]" "[''f'' \<mapsto> ''a'']" "''a''" 0 after_first sample_env "sort_key kvKey" wc_Reduce]
    by auto
qed

end
