(* ===== verification/MRApps.thy ===== *)
theory MRApps
  imports MapReduce GoUnicode "HOL-Library.AList"
begin

section \<open>MapReduce: the applications\<close>

text \<open>
  The plugins of \<open>mrapps\<close>. Word count and indexer cut a text into its maximal runs of letters; the
  letter table above Latin-1 is an argument (theory \<open>GoUnicode\<close>). The order in which the indexer
  ranges over its map of words is an argument too. The applications that test the framework crash,
  sleep or look at the file system; their random numbers, process ids and failures are arguments, and a
  process that exits or panics is \<open>None\<close>.

  The property at the end composes the word count with the whole of MapReduce: the output files of a
  finished job are the counts of the words of the inputs.
\<close>

subsection \<open>Word count and indexer\<close>

definition wc_Map :: "(int \<Rightarrow> bool) \<Rightarrow> mapf" where
  "wc_Map tbl filename contents =
     (let ff = (\<lambda>r. \<not> IsLetter tbl r);
          words = FieldsFunc contents ff
      in map (\<lambda>w. \<lparr>kvKey = w, kvValue = ''1''\<rparr>) words)"

definition indexer_Map :: "(int \<Rightarrow> bool) \<Rightarrow> (string list \<Rightarrow> string list) \<Rightarrow> mapf" where
  "indexer_Map tbl ord document value =
     (let words = FieldsFunc value (\<lambda>x. \<not> IsLetter tbl x);
          m = foldl (\<lambda>m w. AList.update w True m) [] words
      in map (\<lambda>w. \<lparr>kvKey = w, kvValue = document\<rparr>) (ord (map fst m)))"


subsection \<open>The applications that test the framework\<close>

text \<open>\<open>crash\<close>: \<open>rr\<close> and \<open>ms\<close> are the random numbers. The process exits (\<open>None\<close>) or sleeps for
  some milliseconds.\<close>

definition crash_maybeCrash :: "int \<Rightarrow> int \<Rightarrow> int option" where
  "crash_maybeCrash rr ms = (if rr < 330 then None else if rr < 660 then Some ms else Some 0)"

definition crash_Map :: "int \<Rightarrow> int \<Rightarrow> string \<Rightarrow> string \<Rightarrow> KeyValue list option" where
  "crash_Map rr ms filename contents =
     (case crash_maybeCrash rr ms of
        None \<Rightarrow> None
      | Some slept \<Rightarrow> Some
          ([] @ [\<lparr>kvKey = ''a'', kvValue = filename\<rparr>]
              @ [\<lparr>kvKey = ''b'', kvValue = itoa (go_len filename)\<rparr>]
              @ [\<lparr>kvKey = ''c'', kvValue = itoa (go_len contents)\<rparr>]
              @ [\<lparr>kvKey = ''d'', kvValue = ''xyzzy''\<rparr>]))"

definition crash_Reduce :: "int \<Rightarrow> int \<Rightarrow> string \<Rightarrow> string list \<Rightarrow> string option" where
  "crash_Reduce rr ms key values =
     (case crash_maybeCrash rr ms of None \<Rightarrow> None | Some slept \<Rightarrow> Some (Join (sort values) '' ''))"

text \<open>\<open>nocrash\<close>.\<close>

definition nocrash_maybeCrash :: "int \<Rightarrow> unit option" where
  "nocrash_maybeCrash rr = (if False \<and> rr < 500 then None else Some ())"

definition nocrash_Map :: "int \<Rightarrow> string \<Rightarrow> string \<Rightarrow> KeyValue list option" where
  "nocrash_Map rr filename contents =
     (case nocrash_maybeCrash rr of
        None \<Rightarrow> None
      | Some u \<Rightarrow> Some
          ([] @ [\<lparr>kvKey = ''a'', kvValue = filename\<rparr>]
              @ [\<lparr>kvKey = ''b'', kvValue = itoa (go_len filename)\<rparr>]
              @ [\<lparr>kvKey = ''c'', kvValue = itoa (go_len contents)\<rparr>]
              @ [\<lparr>kvKey = ''d'', kvValue = ''xyzzy''\<rparr>]))"

definition nocrash_Reduce :: "int \<Rightarrow> string \<Rightarrow> string list \<Rightarrow> string option" where
  "nocrash_Reduce rr key values =
     (case nocrash_maybeCrash rr of None \<Rightarrow> None | Some u \<Rightarrow> Some (Join (sort values) '' ''))"

text \<open>\<open>early_exit\<close>: the reduce function also tells how many seconds it sleeps.\<close>

definition Contains :: "string \<Rightarrow> string \<Rightarrow> bool" where
  "Contains s sub \<longleftrightarrow> list_ex (\<lambda>i. take (length sub) (drop i s) = sub) [0..<Suc (length s)]"

definition early_exit_Map :: mapf where
  "early_exit_Map filename contents = [] @ [\<lparr>kvKey = filename, kvValue = ''1''\<rparr>]"

definition early_exit_Reduce :: "string \<Rightarrow> string list \<Rightarrow> int \<times> string" where
  "early_exit_Reduce key values =
     (if Contains key ''sherlock'' \<or> Contains key ''tom'' then 3 else 0, itoa (go_len values))"

text \<open>\<open>jobcount\<close>: the state is the counter of the process and the directory; a panic is \<open>None\<close>.\<close>

definition HasPrefix :: "string \<Rightarrow> string \<Rightarrow> bool" where
  "HasPrefix s p \<longleftrightarrow> take (length p) s = p"

definition jobcount_name :: "int \<Rightarrow> int \<Rightarrow> string" where
  "jobcount_name me n = ''mr-worker-jobcount-'' @ itoa me @ ''-'' @ itoa n"

definition jobcount_Map :: "os_env \<Rightarrow> int \<Rightarrow> string \<Rightarrow> string \<Rightarrow> int \<times> files \<Rightarrow> (KeyValue list \<times> int \<times> files) option" where
  "jobcount_Map env me filename contents = (\<lambda>(n, fs).
     let f = jobcount_name me n in
     if writeOk env f then Some ([\<lparr>kvKey = ''a'', kvValue = ''x''\<rparr>], n + 1, fs(f \<mapsto> ''x'')) else None)"

definition jobcount_Reduce :: "(files \<Rightarrow> string list) \<Rightarrow> files \<Rightarrow> string \<Rightarrow> string list \<Rightarrow> string" where
  "jobcount_Reduce readdir fs key values =
     itoa (go_len (filter (\<lambda>f. HasPrefix f ''mr-worker-jobcount'') (readdir fs)))"

text \<open>\<open>mtiming\<close> and \<open>rtiming\<close>. \<open>sscanf_d\<close> is \<open>fmt.Sscanf\<close> with a format that is a literal
  followed by \<open>%d\<close>: white space before the number is skipped, except a new line; what follows the
  number is not looked at.\<close>

function skipSpace :: "string \<Rightarrow> string option" where
  "skipSpace [] = Some []"
| "skipSpace (c # cs) =
     (let (r, n) = DecodeRune (c # cs) in
      if r = 10 then None
      else if r \<in> set white_space then skipSpace (drop n (c # cs))
      else Some (c # cs))"
  by pat_completeness auto
termination by (relation "measure length") (auto dest: DecodeRune_pos)

definition is_digit :: "char \<Rightarrow> bool" where
  "is_digit c \<longleftrightarrow> 48 \<le> byte c \<and> byte c \<le> 57"

definition scan_int :: "string \<Rightarrow> int option" where
  "scan_int s =
     (let neg = (s \<noteq> [] \<and> hd s = CHR ''-'');
          signed = (s \<noteq> [] \<and> (hd s = CHR ''-'' \<or> hd s = CHR ''+''));
          tok = takeWhile is_digit (if signed then tl s else s);
          v = (if neg then - int (digits_val tok) else int (digits_val tok))
      in if tok = [] then None else if - (2 ^ 63) \<le> v \<and> v < 2 ^ 63 then Some v else None)"

definition sscanf_d :: "string \<Rightarrow> string \<Rightarrow> int option" where
  "sscanf_d lit name =
     (if HasPrefix name lit then Option.bind (skipSpace (drop (length lit) name)) scan_int else None)"

definition nparallel_name :: "string \<Rightarrow> int \<Rightarrow> string" where
  "nparallel_name phase pid = ''mr-worker-'' @ phase @ ''-'' @ itoa pid"

text \<open>\<open>nparallel\<close> up to its sleep, and after it: other processes change the directory meanwhile.\<close>

definition nparallel_scan ::
    "os_env \<Rightarrow> (files \<Rightarrow> string list) \<Rightarrow> (int \<Rightarrow> bool) \<Rightarrow> int \<Rightarrow> string \<Rightarrow> files \<Rightarrow> (int \<times> files) option" where
  "nparallel_scan env readdir alive pid phase fs =
     (let myfilename = nparallel_name phase pid in
      if \<not> writeOk env myfilename then None
      else let fs1 = fs(myfilename \<mapsto> ''x'');
               names = readdir fs1;
               ret = foldl (\<lambda>ret name. case sscanf_d (''mr-worker-'' @ phase @ ''-'') name of
                                          None \<Rightarrow> ret
                                        | Some xpid \<Rightarrow> if alive xpid then ret + 1 else ret) 0 names
           in Some (ret, fs1))"

definition nparallel_end :: "int \<Rightarrow> string \<Rightarrow> files \<Rightarrow> files option" where
  "nparallel_end pid phase fs =
     (let myfilename = nparallel_name phase pid in
      if fs myfilename = None then None else Some (fs(myfilename := None)))"

text \<open>The pairs of \<open>mtiming\<close>, given the time as \<open>%.1f\<close> prints it and the result of \<open>nparallel\<close>.\<close>

definition mtiming_Map :: "int \<Rightarrow> string \<Rightarrow> int \<Rightarrow> mapf" where
  "mtiming_Map pid ts n filename contents =
     [] @ [\<lparr>kvKey = ''times-'' @ itoa pid, kvValue = ts\<rparr>]
        @ [\<lparr>kvKey = ''parallel-'' @ itoa pid, kvValue = itoa n\<rparr>]"

definition mtiming_Reduce :: reducef where
  "mtiming_Reduce key values = Join (sort values) '' ''"

definition rtiming_Map :: mapf where
  "rtiming_Map filename contents =
     [\<lparr>kvKey = ''a'', kvValue = ''1''\<rparr>, \<lparr>kvKey = ''b'', kvValue = ''1''\<rparr>, \<lparr>kvKey = ''c'', kvValue = ''1''\<rparr>,
      \<lparr>kvKey = ''d'', kvValue = ''1''\<rparr>, \<lparr>kvKey = ''e'', kvValue = ''1''\<rparr>, \<lparr>kvKey = ''f'', kvValue = ''1''\<rparr>,
      \<lparr>kvKey = ''g'', kvValue = ''1''\<rparr>, \<lparr>kvKey = ''h'', kvValue = ''1''\<rparr>, \<lparr>kvKey = ''i'', kvValue = ''1''\<rparr>,
      \<lparr>kvKey = ''j'', kvValue = ''1''\<rparr>]"

definition rtiming_Reduce ::
    "os_env \<Rightarrow> (files \<Rightarrow> string list) \<Rightarrow> (int \<Rightarrow> bool) \<Rightarrow> int \<Rightarrow> files \<Rightarrow> string \<Rightarrow> string list \<Rightarrow> (string \<times> files) option" where
  "rtiming_Reduce env readdir alive pid fs key values =
     map_option (\<lambda>(n, fs1). (itoa n, fs1)) (nparallel_scan env readdir alive pid ''reduce'' fs)"


subsection \<open>White space and letters\<close>

lemma take_2_conv: "take 2 s = [a, b] \<longleftrightarrow> (\<exists>t. s = a # b # t)"
  by (cases s; cases "tl s") auto

lemma take_3_conv: "take 3 s = [a, b, c] \<longleftrightarrow> (\<exists>t. s = a # b # c # t)"
  by (cases s; cases "tl s"; cases "tl (tl s)") (auto simp: numeral_3_eq_3)

lemmas decode_simps = DecodeRune.simps(2) byte_def first_byte_def low6_def continues_def white_space_def

text \<open>Where \<open>strings.Fields\<close> sees white space, the decoder gives a white-space character.\<close>

lemma space_len_rune:
  assumes "space_len s \<noteq> 0"
  shows "fst (DecodeRune s) \<in> set white_space"
proof -
  from assms consider "s \<noteq> []" "ascii_space (hd s)" | "take 2 s \<in> set space2" | "take 3 s \<in> set space3"
    by (auto simp: space_len_def split: if_splits)
  then show ?thesis
  proof cases
    case 1
    then obtain c t where s: "s = c # t" "ascii_space c" by (cases s) auto
    from s(2) have "byte c < 128" "byte c \<in> set white_space"
      unfolding ascii_space_def byte_def white_space_def by (elim disjE; simp)+
    then show ?thesis by (simp add: s(1) DecodeRune.simps(2))
  next
    case 2
    then show ?thesis by (auto simp: space2_def take_2_conv decode_simps)
  next
    case 3
    then show ?thesis by (auto simp: space3_def take_3_conv decode_simps)
  qed
qed

lemma continues_no_space:
  assumes "continues c"
  shows "space_len (c # t) = 0"
proof (rule ccontr)
  assume "space_len (c # t) \<noteq> 0"
  from space_len_rune [OF this] have w: "fst (DecodeRune (c # t)) \<in> set white_space" .
  then have "fst (DecodeRune (c # t)) \<noteq> RuneError" by (auto simp: white_space_def RuneError_def)
  then have "\<not> continues c" using DecodeRune_valid(4) [of "c # t"] by (metis nth_Cons_0 prod.collapse)
  with assms show False by simp
qed

text \<open>A word of letters is read back as one field.\<close>

lemma letters_no_space:
  assumes "table_ok tbl" and "all_runes (IsLetter tbl) w" and "i < length w"
  shows "space_len (drop i w) = 0"
  using assms(2,3)
proof (induction arbitrary: i)
  case (Rune u s r)
  note lt = IsLetter_space [OF assms(1) Rune.hyps(3)]
  show ?case
  proof (cases "i < length u")
    case True
    show ?thesis
    proof (cases "i = 0")
      case True
      then show ?thesis using space_len_rune [of "u @ s"] Rune.hyps(1) lt(2) by fastforce
    next
      case False
      with True have "continues ((u @ s) ! i)" by (intro DecodeRune_valid(5) [OF Rune.hyps(1) lt(1)]) auto
      moreover have "drop i (u @ s) = (u @ s) ! i # drop (Suc i) (u @ s)" using True by (intro Cons_nth_drop_Suc [symmetric]) simp
      ultimately show ?thesis by (simp add: continues_no_space)
    qed
  next
    case False
    with Rune.IH [of "i - length u"] Rune.prems show ?thesis by simp
  qed
qed simp

lemma word_clean:
  assumes "table_ok tbl" and "w \<in> set (FieldsFunc s (\<lambda>r. \<not> IsLetter tbl r))"
  shows "clean w"
proof -
  have "\<not> IsLetter tbl RuneError" using assms(1) by (simp add: IsLetter_def table_ok_def RuneError_def)
  from FieldsFunc_runes [where f = "\<lambda>r. \<not> IsLetter tbl r", OF this assms(2)]
  have "w \<noteq> []" "all_runes (IsLetter tbl) w" by simp_all
  then show ?thesis using letters_no_space [OF assms(1)] by (simp add: clean_def list_all_iff)
qed

lemma clean_1: "clean ''1''"
  by code_simp

subsection \<open>What the word count computes\<close>

definition all_words :: "(int \<Rightarrow> bool) \<Rightarrow> string list \<Rightarrow> string list" where
  "all_words tbl contents = concat (map (\<lambda>c. FieldsFunc c (\<lambda>r. \<not> IsLetter tbl r)) contents)"

text \<open>An input that is not named like a file of the program.\<close>

definition plain_input :: "string \<Rightarrow> bool" where
  "plain_input f \<longleftrightarrow> \<not> is_tmp f \<and> (\<forall>j i. f \<noteq> mr_name j i) \<and> (\<forall>i. f \<noteq> out_name i)"

lemma wc_Map_all:
  assumes "length names = length contents"
  shows "concat (map2 (wc_Map tbl) names contents) = map (\<lambda>w. \<lparr>kvKey = w, kvValue = ''1''\<rparr>) (all_words tbl contents)"
  using assms by (induction rule: list_induct2) (simp_all add: wc_Map_def all_words_def Let_def)

lemma wc_grouped:
  "grouped wc_Reduce (map (\<lambda>w. \<lparr>kvKey = w, kvValue = ''1''\<rparr>) ws)
   = map (\<lambda>w. (w, itoa (int (count_list ws w)))) (sorted_list_of_set (set ws))"
proof -
  have "length (values_of k (map (\<lambda>w. \<lparr>kvKey = w, kvValue = ''1''\<rparr>) ws)) = count_list ws k" for k
    by (induction ws) (auto simp: values_of_def)
  moreover have "kvKey ` set (map (\<lambda>w. \<lparr>kvKey = w, kvValue = ''1''\<rparr>) ws) = set ws" by force
  ultimately show ?thesis unfolding grouped_def wc_Reduce_def go_len_def by simp
qed

lemma wc_job_ok:
  assumes "table_ok tbl" and "healthy env" and "valid_sort sorter" and "0 < n" and "inputs \<noteq> []"
    and "length contents = length inputs" and "list_all plain_input inputs"
    and "list_all (\<lambda>w. length w + 2 < MaxScanTokenSize) (all_words tbl contents)"
  shows "job_ok \<lparr>jbEnv = env, jbMap = wc_Map tbl, jbSort = sorter, jbReduce = wc_Reduce,
    jbInputs = inputs, jbContents = contents, jbN = n\<rparr>"
proof -
  have "fits kv" if "j < length inputs" "kv \<in> set (wc_Map tbl (inputs ! j) (contents ! j))" for j kv
  proof -
    from that(2) obtain w where w: "kv = \<lparr>kvKey = w, kvValue = ''1''\<rparr>"
      "w \<in> set (FieldsFunc (contents ! j) (\<lambda>r. \<not> IsLetter tbl r))" by (auto simp: wc_Map_def Let_def)
    have "contents ! j \<in> set contents" using that(1) assms(6) by simp
    with w(2) have "w \<in> set (all_words tbl contents)" by (auto simp: all_words_def)
    with assms(8) have "length w + 2 < MaxScanTokenSize" by (simp add: list_all_iff)
    with word_clean [OF assms(1) w(2)] clean_1 show ?thesis by (simp add: fits_def w(1))
  qed
  then show ?thesis using assms order_free_wc by (auto simp: job_ok_def list_all_iff plain_input_def)
qed


definition wc_files :: files where
  "wc_files = [''a'' \<mapsto> ''To be, or not'', ''b'' \<mapsto> ''be: 1'']"

lemma plain_inputI: "CHR ''.'' \<notin> set f \<Longrightarrow> take 3 f \<noteq> ''mr-'' \<Longrightarrow> plain_input f"
  by (auto simp: plain_input_def mr_name_def out_name_def dest: is_tmp_dot)


subsection \<open>What the indexer computes\<close>

definition documents_with :: "(int \<Rightarrow> bool) \<Rightarrow> string \<Rightarrow> string list \<Rightarrow> string list \<Rightarrow> string list" where
  "documents_with tbl w names contents =
     map fst (filter (\<lambda>(f, c). w \<in> set (FieldsFunc c (\<lambda>r. \<not> IsLetter tbl r))) (zip names contents))"

definition valid_range :: "(string list \<Rightarrow> string list) \<Rightarrow> bool" where
  "valid_range ord \<longleftrightarrow> (\<forall>ks. mset (ord ks) = mset ks)"

lemma word_set_loop:
  assumes "distinct (map fst m)"
  shows "distinct (map fst (foldl (\<lambda>m w. AList.update w True m) m ws))"
    "set (map fst (foldl (\<lambda>m w. AList.update w True m) m ws)) = set (map fst m) \<union> set ws"
  using assms by (induction ws arbitrary: m) (auto simp: distinct_update dom_update)

lemma indexer_Map_shape:
  assumes "valid_range ord"
  obtains ks where "indexer_Map tbl ord f c = map (\<lambda>w. \<lparr>kvKey = w, kvValue = f\<rparr>) ks" "distinct ks"
    "set ks = set (FieldsFunc c (\<lambda>r. \<not> IsLetter tbl r))"
proof -
  let ?m = "foldl (\<lambda>m w. AList.update w True m) [] (FieldsFunc c (\<lambda>r. \<not> IsLetter tbl r))"
  have m: "mset (ord (map fst ?m)) = mset (map fst ?m)" using assms by (simp add: valid_range_def)
  have "distinct (ord (map fst ?m))" "set (ord (map fst ?m)) = set (FieldsFunc c (\<lambda>r. \<not> IsLetter tbl r))"
    using mset_eq_imp_distinct_iff [OF m] mset_eq_setD [OF m] word_set_loop [of "[]"] by simp_all
  with that [of "ord (map fst ?m)"] show thesis by (simp add: indexer_Map_def Let_def)
qed

lemma filter_one: "distinct ks \<Longrightarrow> filter (\<lambda>w. w = k) ks = (if k \<in> set ks then [k] else [])"
  by (induction ks) auto

lemma indexer_values:
  assumes "valid_range ord" and "length names = length contents"
  shows "values_of w (concat (map2 (indexer_Map tbl ord) names contents)) = documents_with tbl w names contents"
    "kvKey ` set (concat (map2 (indexer_Map tbl ord) names contents)) = set (all_words tbl contents)"
  using assms(2)
proof (induction rule: list_induct2)
  case (Cons f names c contents)
  obtain ks where ks: "indexer_Map tbl ord f c = map (\<lambda>w. \<lparr>kvKey = w, kvValue = f\<rparr>) ks" "distinct ks"
    "set ks = set (FieldsFunc c (\<lambda>r. \<not> IsLetter tbl r))" by (rule indexer_Map_shape [OF assms(1)])
  show "values_of w (concat (map2 (indexer_Map tbl ord) (f # names) (c # contents)))
      = documents_with tbl w (f # names) (c # contents)"
    using Cons.IH(1) filter_one [OF ks(2), of w] ks(3)
    by (auto simp: values_of_def documents_with_def ks(1) filter_map o_def)
  have "kvKey ` set (indexer_Map tbl ord f c) = set (FieldsFunc c (\<lambda>r. \<not> IsLetter tbl r))"
    unfolding ks(1) ks(3) [symmetric] by force
  then show "kvKey ` set (concat (map2 (indexer_Map tbl ord) (f # names) (c # contents))) = set (all_words tbl (c # contents))"
    using Cons.IH(2) by (simp add: all_words_def image_Un)
qed (simp_all add: values_of_def documents_with_def all_words_def)

lemma order_free_indexer: "order_free indexer_Reduce"
  unfolding order_free_def indexer_Reduce_def go_len_def
  by (metis mset_eq_length mset_sort properties_for_sort sorted_sort)

text \<open>C26: the indexer is an inverted index. The sequential program with the indexer gives, for every word of the
  inputs in ascending order, the number of documents that contain it and their names in ascending order,
  whatever the order in which Go ranges over the map of words and in which its sort leaves the values.\<close>

theorem indexer_index:
  assumes "healthy env" and "valid_sort sorter" and "valid_range ord"
    and "list_all2 (\<lambda>f c. fs f = Some c) names contents"
  shows "seq_groups env (indexer_Map tbl ord) sorter indexer_Reduce names fs
    = Some (map (\<lambda>w. let docs = documents_with tbl w names contents
                     in (w, itoa (int (length docs)) @ '' '' @ Join (sort docs) '',''))
        (sorted_list_of_set (set (all_words tbl contents))))"
proof -
  have len: "length names = length contents" by (rule list_all2_lengthD [OF assms(4)])
  show ?thesis
    using seq_groups_eq [OF assms(1,2) order_free_indexer assms(4), of "indexer_Map tbl ord"]
      indexer_values [OF assms(3) len]
    by (simp add: grouped_def indexer_Reduce_def Let_def go_len_def)
qed

theorem indexer_index_witness:
  "map_option reduce_output (seq_groups sample_env (indexer_Map (\<lambda>_. False) rev) (sort_key kvKey) indexer_Reduce
     [''b'', ''a''] wc_files)
   = Some (''To 1 a'' @ [nl] @ ''be 2 a,b'' @ [nl] @ ''not 1 a'' @ [nl] @ ''or 1 a'' @ [nl])"
proof -
  let ?cs = "[''be: 1'', ''To be, or not'']"
  have "healthy sample_env" by (simp add: healthy_def sample_env_def)
  moreover have "valid_range rev" by (simp add: valid_range_def)
  moreover have "list_all2 (\<lambda>f c. wc_files f = Some c) [''b'', ''a''] ?cs" by (simp add: wc_files_def)
  ultimately have "seq_groups sample_env (indexer_Map (\<lambda>_. False) rev) (sort_key kvKey) indexer_Reduce [''b'', ''a''] wc_files
    = Some (map (\<lambda>w. let docs = documents_with (\<lambda>_. False) w [''b'', ''a''] ?cs
                     in (w, itoa (int (length docs)) @ '' '' @ Join (sort docs) '',''))
        (sorted_list_of_set (set (all_words (\<lambda>_. False) ?cs))))"
    by (rule indexer_index [OF _ valid_sort_key])
  moreover have "reduce_output (map (\<lambda>w. let docs = documents_with (\<lambda>_. False) w [''b'', ''a''] ?cs
                     in (w, itoa (int (length docs)) @ '' '' @ Join (sort docs) '',''))
        (sorted_list_of_set (set (all_words (\<lambda>_. False) ?cs))))
    = ''To 1 a'' @ [nl] @ ''be 2 a,b'' @ [nl] @ ''not 1 a'' @ [nl] @ ''or 1 a'' @ [nl]" by code_simp
  ultimately show ?thesis by simp
qed

subsection \<open>The testing applications\<close>

text \<open>A task of \<open>crash\<close> that survives gives the result of \<open>nocrash\<close>, against which the test script
  compares it.\<close>

lemma crash_agrees:
  "crash_Map rr ms f c = Some kvs \<Longrightarrow> nocrash_Map rr' f c = Some kvs"
  "crash_Reduce rr ms k vs = Some v \<Longrightarrow> nocrash_Reduce rr' k vs = Some v"
  by (auto simp: crash_Map_def nocrash_Map_def crash_Reduce_def nocrash_Reduce_def nocrash_maybeCrash_def
      split: option.splits)

lemma test_apps_order_free:
  "order_free (\<lambda>k vs. the (nocrash_Reduce rr k vs))" "order_free mtiming_Reduce"
  "order_free (\<lambda>k vs. snd (early_exit_Reduce k vs))"
proof -
  have s: "sort vs = sort vs'" if "mset vs = mset vs'" for vs vs' :: "string list"
    using that by (metis mset_sort properties_for_sort sorted_sort)
  have n: "the (nocrash_Reduce rr k vs) = Join (sort vs) '' ''" for k vs
    by (simp add: nocrash_Reduce_def nocrash_maybeCrash_def)
  show "order_free (\<lambda>k vs. the (nocrash_Reduce rr k vs))" unfolding order_free_def n using s by metis
  show "order_free mtiming_Reduce" unfolding order_free_def mtiming_Reduce_def using s by metis
  show "order_free (\<lambda>k vs. snd (early_exit_Reduce k vs))"
    unfolding order_free_def early_exit_Reduce_def go_len_def snd_conv by (metis mset_eq_length)
qed

text \<open>Runs of the map function of \<open>jobcount\<close> by the processes \<open>mes\<close>, one after the other; \<open>cnt\<close>
  holds the counters of the processes.\<close>

fun jobcount_runs :: "os_env \<Rightarrow> int list \<Rightarrow> (int \<Rightarrow> int) \<Rightarrow> files \<Rightarrow> ((int \<Rightarrow> int) \<times> files) option" where
  "jobcount_runs env [] cnt fs = Some (cnt, fs)"
| "jobcount_runs env (me # mes) cnt fs =
     (case jobcount_Map env me [] [] (cnt me, fs) of
        None \<Rightarrow> None
      | Some (kvs, n, fs') \<Rightarrow> jobcount_runs env mes (cnt(me := n)) fs')"

definition valid_readdir :: "(files \<Rightarrow> string list) \<Rightarrow> bool" where
  "valid_readdir readdir \<longleftrightarrow> (\<forall>fs. finite (dom fs) \<longrightarrow> distinct (readdir fs) \<and> set (readdir fs) = dom fs)"

definition jobcount_inv :: "(int \<Rightarrow> int) \<Rightarrow> files \<Rightarrow> nat \<Rightarrow> bool" where
  "jobcount_inv cnt fs k \<longleftrightarrow> finite (dom fs) \<and> (\<forall>me. 0 \<le> cnt me)
     \<and> card {f \<in> dom fs. HasPrefix f ''mr-worker-jobcount''} = k
     \<and> (\<forall>f \<in> dom fs. HasPrefix f ''mr-worker-jobcount''
          \<longrightarrow> (\<exists>me n. f = jobcount_name me n \<and> 0 \<le> me \<and> 0 \<le> n \<and> n < cnt me))"

lemma jobcount_name_inj:
  assumes "0 \<le> me" and "0 \<le> n" and "0 \<le> me'" and "0 \<le> n'"
  shows "jobcount_name me n = jobcount_name me' n' \<longleftrightarrow> me = me' \<and> n = n'"
  using assms split_at_char [of "CHR ''-''" "itoa me" "itoa me'" "itoa n" "itoa n'"]
  by (auto simp: jobcount_name_def itoa_chars itoa_inj)

lemma jobcount_inv_step:
  assumes "jobcount_inv cnt fs k" and "0 \<le> me"
  shows "jobcount_inv (cnt(me := cnt me + 1)) (fs(jobcount_name me (cnt me) \<mapsto> ''x'')) (Suc k)"
proof -
  let ?f = "jobcount_name me (cnt me)" and ?P = "\<lambda>fs :: files. {f \<in> dom fs. HasPrefix f ''mr-worker-jobcount''}"
  have cnt: "0 \<le> cnt x" for x using assms(1) by (simp add: jobcount_inv_def)
  have pre: "HasPrefix ?f ''mr-worker-jobcount''" by (simp add: HasPrefix_def jobcount_name_def)
  have "?f \<notin> ?P fs"
  proof
    assume "?f \<in> ?P fs"
    then obtain me' n where "?f = jobcount_name me' n" "0 \<le> me'" "0 \<le> n" "n < cnt me'"
      using assms(1) by (auto simp: jobcount_inv_def)
    with jobcount_name_inj [OF assms(2) cnt, of me' n] show False by auto
  qed
  moreover have "?P (fs(?f \<mapsto> ''x'')) = insert ?f (?P fs)" using pre by auto
  moreover have "finite (?P fs)" "card (?P fs) = k" using assms(1) by (simp_all add: jobcount_inv_def)
  ultimately have card: "card (?P (fs(?f \<mapsto> ''x''))) = Suc k" by simp
  have "\<exists>me' n. f = jobcount_name me' n \<and> 0 \<le> me' \<and> 0 \<le> n \<and> n < (cnt(me := cnt me + 1)) me'"
    if "f \<in> ?P (fs(?f \<mapsto> ''x''))" for f
  proof (cases "f = ?f")
    case True
    then show ?thesis using assms(2) cnt [of me] by (intro exI [of _ me] exI [of _ "cnt me"]) simp
  next
    case False
    with that assms(1) obtain me' n where "f = jobcount_name me' n" "0 \<le> me'" "0 \<le> n" "n < cnt me'"
      by (auto simp: jobcount_inv_def)
    then show ?thesis by (intro exI [of _ me'] exI [of _ n]) auto
  qed
  with card cnt assms(1) show ?thesis by (auto simp: jobcount_inv_def)
qed

lemma jobcount_runs_inv:
  assumes "healthy env" and "jobcount_inv cnt fs k" and "list_all (\<lambda>me. 0 \<le> me) mes"
  shows "\<exists>cnt' fs'. jobcount_runs env mes cnt fs = Some (cnt', fs') \<and> jobcount_inv cnt' fs' (k + length mes)"
  using assms(2,3)
proof (induction mes arbitrary: cnt fs k)
  case (Cons me mes)
  with jobcount_inv_step [OF Cons.prems(1), of me] assms(1) show ?case
    by (fastforce simp: jobcount_Map_def healthy_def Let_def)
qed simp

text \<open>\<open>jobcount\<close> counts the runs of its map function: after any number of runs by any processes, the
  reduce function returns their number, if the directory had no file of the application at the start.\<close>

theorem jobcount_counts:
  assumes "healthy env" and "valid_readdir readdir" and "finite (dom fs)"
    and "\<forall>f \<in> dom fs. \<not> HasPrefix f ''mr-worker-jobcount''" and "list_all (\<lambda>me. 0 \<le> me) mes"
  shows "\<exists>cnt fs'. jobcount_runs env mes (\<lambda>_. 0) fs = Some (cnt, fs')
    \<and> jobcount_Reduce readdir fs' key values = itoa (int (length mes))"
proof -
  have "{f \<in> dom fs. HasPrefix f ''mr-worker-jobcount''} = {}" using assms(4) by blast
  then have "jobcount_inv (\<lambda>_. 0) fs 0" using assms(3,4) by (simp add: jobcount_inv_def)
  from jobcount_runs_inv [OF assms(1) this assms(5)] obtain cnt fs' where
    r: "jobcount_runs env mes (\<lambda>_. 0) fs = Some (cnt, fs')" "jobcount_inv cnt fs' (length mes)" by auto
  then have "distinct (readdir fs')" "set (readdir fs') = dom fs'"
    using assms(2) by (auto simp: valid_readdir_def jobcount_inv_def)
  then have "length (filter (\<lambda>f. HasPrefix f ''mr-worker-jobcount'') (readdir fs'))
      = card {f \<in> dom fs'. HasPrefix f ''mr-worker-jobcount''}"
    by (simp add: distinct_length_filter Int_def conj_commute)
  then show ?thesis using r by (simp add: jobcount_Reduce_def jobcount_inv_def go_len_def)
qed

text \<open>\<open>nparallel\<close> finds its own file.\<close>

lemma itoa_digits:
  assumes "0 \<le> i"
  shows "itoa i \<noteq> []" "\<forall>c \<in> set (itoa i). is_digit c" "digits_val (itoa i) = nat i"
proof -
  show "itoa i \<noteq> []" using assms by (subst itoa_def, subst nat_digits.simps) simp
  show "\<forall>c \<in> set (itoa i). is_digit c"
    using assms nat_digits_range [of _ "nat i"] of_char_digit_char by (fastforce simp: itoa_def is_digit_def byte_def)
  show "digits_val (itoa i) = nat i" using assms by (simp add: itoa_def digits_val_nat_digits)
qed

lemma sscanf_d_own:
  assumes "0 \<le> pid" and "pid < 2 ^ 63"
  shows "sscanf_d lit (lit @ itoa pid) = Some pid"
proof -
  note d = itoa_digits [OF assms(1)]
  obtain c cs where s: "itoa pid = c # cs" using d(1) by (cases "itoa pid") auto
  have c: "48 \<le> byte c" "byte c \<le> 57" using d(2) by (simp_all add: s is_digit_def)
  have k: "skipSpace (itoa pid) = Some (itoa pid)"
    unfolding s using c by (auto simp: DecodeRune.simps(2) white_space_def)
  have t: "takeWhile is_digit (itoa pid) = itoa pid" using d(2) by (simp add: takeWhile_eq_all_conv)
  have h: "hd (itoa pid) \<noteq> CHR ''-''" "hd (itoa pid) \<noteq> CHR ''+''" using c by (auto simp: byte_def s)
  have "scan_int (itoa pid) = Some pid" using assms by (simp add: scan_int_def Let_def t h d)
  then show ?thesis by (simp add: sscanf_d_def HasPrefix_def k)
qed

lemma nparallel_sees_itself:
  assumes "nparallel_scan env readdir alive pid phase fs = Some (n, fs')" and "valid_readdir readdir"
    and "finite (dom fs)" and "alive pid" and "0 \<le> pid" and "pid < 2 ^ 63"
  shows "1 \<le> n" "nparallel_end pid phase fs' = Some (fs(nparallel_name phase pid := None))"
proof -
  let ?me = "nparallel_name phase pid"
  let ?hit = "\<lambda>name. \<exists>x. sscanf_d (''mr-worker-'' @ phase @ ''-'') name = Some x \<and> alive x"
  have count: "foldl (\<lambda>ret name. case sscanf_d lit name of None \<Rightarrow> ret | Some xpid \<Rightarrow> if alive xpid then ret + 1 else ret) k names
      = k + int (length (filter (\<lambda>name. \<exists>x. sscanf_d lit name = Some x \<and> alive x) names))" for k names lit
    by (induction names arbitrary: k) (auto split: option.splits)
  have fs': "fs' = fs(?me \<mapsto> ''x'')" and n: "n = int (length (filter ?hit (readdir fs')))"
    using assms(1) by (auto simp: nparallel_scan_def Let_def count split: if_splits)
  have "?me \<in> set (readdir fs')" using assms(2,3) fs' by (simp add: valid_readdir_def)
  moreover have "?hit ?me"
    using sscanf_d_own [OF assms(5,6), of "''mr-worker-'' @ phase @ ''-''"] assms(4) by (simp add: nparallel_name_def)
  ultimately have "?me \<in> set (filter ?hit (readdir fs'))" by simp
  then have "filter ?hit (readdir fs') \<noteq> []" by (metis empty_iff list.set(1))
  then show "1 \<le> n" unfolding n by (cases "filter ?hit (readdir fs')") auto
  show "nparallel_end pid phase fs' = Some (fs(?me := None))" by (simp add: nparallel_end_def fs' Let_def)
qed

end
