(* ===== verification/Porcupine_Bitset.thy ===== *)
theory Porcupine_Bitset
  imports GoPrelude "HOL-Library.Word"
begin

section \<open>Porcupine: bit sets, \<open>porcupine/bitset.go\<close>\<close>

text \<open>
  A bit set is a slice of 64-bit words. A position is a Go \<open>uint\<close>, modelled as a natural
  number below 2 ^ 64. \<open>set\<close> and \<open>clear\<close> change the slice in place and return it;
  \<open>None\<close> stands for the panic of an index out of range.
\<close>

unbundle bit_operations_syntax

type_synonym bitset = "64 word list"

definition newBitset :: "nat \<Rightarrow> bitset" where
  "newBitset bits = (let extra = (if bits mod 64 \<noteq> 0 then 1 else 0) in replicate (bits div 64 + extra) 0)"

definition bs_clone :: "bitset \<Rightarrow> bitset" where
  "bs_clone b = take (length b) b"

definition bitsetIndex :: "nat \<Rightarrow> nat \<times> nat" where
  "bitsetIndex pos = (pos div 64, pos mod 64)"

definition bs_set :: "bitset \<Rightarrow> nat \<Rightarrow> bitset option" where
  "bs_set b pos = (case bitsetIndex pos of (major, minor) \<Rightarrow> do {
     w \<leftarrow> go_at b (int major);
     go_upd b (int major) (w OR push_bit minor 1) })"

definition bs_clear :: "bitset \<Rightarrow> nat \<Rightarrow> bitset option" where
  "bs_clear b pos = (case bitsetIndex pos of (major, minor) \<Rightarrow> do {
     w \<leftarrow> go_at b (int major);
     go_upd b (int major) (w AND NOT (push_bit minor 1)) })"

definition bs_get :: "bitset \<Rightarrow> nat \<Rightarrow> bool option" where
  "bs_get b pos = (case bitsetIndex pos of (major, minor) \<Rightarrow> do {
     w \<leftarrow> go_at b (int major);
     Some (w AND push_bit minor 1 \<noteq> 0) })"

text \<open>\<open>bits.OnesCount64\<close> and the loop over the words.\<close>

definition OnesCount64 :: "64 word \<Rightarrow> nat" where
  "OnesCount64 w = length (filter (bit w) [0..<64])"

fun bs_popcnt :: "bitset \<Rightarrow> nat" where
  "bs_popcnt [] = 0"
| "bs_popcnt (v # b) = OnesCount64 v + bs_popcnt b"

definition bs_hash :: "bitset \<Rightarrow> 64 word" where
  "bs_hash b = foldl (\<lambda>hash v. hash XOR v) (of_nat (bs_popcnt b)) b"

fun equal_words :: "bitset \<Rightarrow> bitset \<Rightarrow> bool" where
  "equal_words [] b2 = True"
| "equal_words (v # b) b2 = (if v \<noteq> hd b2 then False else equal_words b (tl b2))"

definition bs_equals :: "bitset \<Rightarrow> bitset \<Rightarrow> bool" where
  "bs_equals b b2 = (if length b \<noteq> length b2 then False else equal_words b b2)"

subsection \<open>The set of positions\<close>

definition bits_of :: "bitset \<Rightarrow> nat set" where
  "bits_of b = {pos. pos < 64 * length b \<and> bit (b ! (pos div 64)) (pos mod 64)}"

lemma bs_clone_id [simp]: "bs_clone b = b"
  by (simp add: bs_clone_def)

lemma div_64_less: "pos div 64 < n \<longleftrightarrow> pos < 64 * n" for pos n :: nat
  by (simp add: div_less_iff_less_mult mult.commute)

lemma pos_eq_iff: "pos div 64 = p div 64 \<and> pos mod 64 = p mod 64 \<longleftrightarrow> pos = (p :: nat)"
  by (metis div_mult_mod_eq)

lemma bits_of_update:
  assumes "p < 64 * length b" and "\<And>k. k < 64 \<Longrightarrow> bit w k \<longleftrightarrow> (if k = p mod 64 then x else bit (b ! (p div 64)) k)"
  shows "bits_of (b[p div 64 := w]) = (if x then insert p (bits_of b) else bits_of b - {p})"
proof -
  have "q \<in> bits_of (b[p div 64 := w]) \<longleftrightarrow> (if q = p then x else q \<in> bits_of b)" for q
  proof (cases "q div 64 = p div 64")
    case True
    have lt: "p div 64 < length b" using assms(1) by (simp add: div_64_less)
    have "q < 64 * length b" using True lt div_64_less [of q "length b"] by simp
    then have "q \<in> bits_of (b[p div 64 := w]) \<longleftrightarrow> bit w (q mod 64)" "q \<in> bits_of b \<longleftrightarrow> bit (b ! (p div 64)) (q mod 64)"
      using True lt by (simp_all add: bits_of_def)
    moreover have "q mod 64 = p mod 64 \<longleftrightarrow> q = p" using True pos_eq_iff [of q p] by blast
    ultimately show ?thesis using assms(2) [of "q mod 64"] by simp
  next
    case False
    then have "q \<noteq> p" by metis
    with False show ?thesis by (simp add: bits_of_def)
  qed
  then show ?thesis by (intro set_eqI) (metis Diff_iff insert_iff empty_iff)
qed

lemma bs_set_eq:
  assumes "p < 64 * length b"
  obtains b' where "bs_set b p = Some b'" "bits_of b' = insert p (bits_of b)" "length b' = length b"
proof -
  let ?w = "b ! (p div 64) OR push_bit (p mod 64) 1"
  have lt: "p div 64 < length b" using assms by (simp add: div_64_less)
  have "bit ?w k \<longleftrightarrow> (if k = p mod 64 then True else bit (b ! (p div 64)) k)" if "k < 64" for k
    using that by (auto simp: bit_or_iff bit_exp_iff)
  from bits_of_update [OF assms this] have "bits_of (b[p div 64 := ?w]) = insert p (bits_of b)" by simp
  moreover have "bs_set b p = Some (b[p div 64 := ?w])"
    using lt by (simp add: bs_set_def bitsetIndex_def go_upd_def zdiv_int [symmetric] nat_div_distrib)
  ultimately show thesis using that by simp
qed

lemma bs_clear_eq:
  assumes "p < 64 * length b"
  obtains b' where "bs_clear b p = Some b'" "bits_of b' = bits_of b - {p}" "length b' = length b"
proof -
  let ?w = "b ! (p div 64) AND NOT (push_bit (p mod 64) 1)"
  have lt: "p div 64 < length b" using assms by (simp add: div_64_less)
  have "bit ?w k \<longleftrightarrow> (if k = p mod 64 then False else bit (b ! (p div 64)) k)" if "k < 64" for k
    using that by (auto simp: bit_and_iff bit_not_iff bit_exp_iff)
  from bits_of_update [OF assms this] have "bits_of (b[p div 64 := ?w]) = bits_of b - {p}" by simp
  moreover have "bs_clear b p = Some (b[p div 64 := ?w])"
    using lt by (simp add: bs_clear_def bitsetIndex_def go_upd_def zdiv_int [symmetric] nat_div_distrib)
  ultimately show thesis using that by simp
qed

lemma bs_get_eq:
  assumes "p < 64 * length b"
  shows "bs_get b p = Some (p \<in> bits_of b)"
proof -
  have lt: "p div 64 < length b" using assms by (simp add: div_64_less)
  have "b ! (p div 64) AND 2 ^ (p mod 64) \<noteq> 0 \<longleftrightarrow> bit (b ! (p div 64)) (p mod 64)"
    by (simp add: bit_iff_and_push_bit_not_eq_0)
  then show ?thesis
    using assms lt by (simp add: bs_get_def bitsetIndex_def bits_of_def zdiv_int [symmetric])
qed

lemma equal_words_iff: "length b = length b2 \<Longrightarrow> equal_words b b2 \<longleftrightarrow> b = b2"
proof (induction b arbitrary: b2)
  case (Cons v b)
  then show ?case by (cases b2) auto
qed simp

lemma bs_equals_iff: "bs_equals b b2 \<longleftrightarrow> b = b2"
  using equal_words_iff by (auto simp: bs_equals_def)

lemma bits_of_inj:
  assumes "length b = length b2" and "bits_of b = bits_of b2"
  shows "b = b2"
proof (rule nth_equalityI [OF assms(1)])
  fix i assume i: "i < length b"
  show "b ! i = b2 ! i"
  proof (rule bit_eqI)
    fix k assume "possible_bit TYPE(64 word) k"
    then have k: "k < 64" by simp
    let ?p = "64 * i + k"
    have p: "?p div 64 = i" "?p mod 64 = k" "?p < 64 * length b"
      using k i by (simp_all add: div_64_less [symmetric])
    have "?p \<in> bits_of b \<longleftrightarrow> ?p \<in> bits_of b2" using assms(2) by simp
    then show "bit (b ! i) k \<longleftrightarrow> bit (b2 ! i) k" using p assms(1) by (simp add: bits_of_def)
  qed
qed

lemma bits_of_Cons: "bits_of (v # b) = {k. k < 64 \<and> bit v k} \<union> (\<lambda>p. p + 64) ` bits_of b"
proof -
  have "q \<in> bits_of (v # b) \<longleftrightarrow> q \<in> {k. k < 64 \<and> bit v k} \<union> (\<lambda>p. p + 64) ` bits_of b" for q
  proof (cases "q < 64")
    case True
    then show ?thesis by (auto simp: bits_of_def)
  next
    case False
    then obtain p where p: "q = p + 64" by (metis add.commute le_Suc_ex not_less)
    have d: "(p + 64) div 64 = Suc (p div 64)" by simp
    show ?thesis unfolding p bits_of_def mem_Collect_eq d by auto
  qed
  then show ?thesis by blast
qed

lemma bs_popcnt_card: "finite (bits_of b) \<and> bs_popcnt b = card (bits_of b)"
proof (induction b)
  case Nil
  show ?case by (simp add: bits_of_def)
next
  case (Cons v b)
  let ?A = "{k. k < 64 \<and> bit v k}" and ?B = "(\<lambda>p. p + 64) ` bits_of b"
  have "?A = set (filter (bit v) [0..<64])" by auto
  then have "card ?A = OnesCount64 v" unfolding OnesCount64_def by (metis distinct_card distinct_filter distinct_upt)
  moreover have "card ?B = card (bits_of b)" by (rule card_image) simp
  moreover have "card (?A \<union> ?B) = card ?A + card ?B" using Cons by (intro card_Un_disjoint) auto
  ultimately show ?case using Cons unfolding bits_of_Cons by simp
qed

lemma newBitset_eq: "bits_of (newBitset n) = {}" "n \<le> 64 * length (newBitset n)"
proof -
  show "bits_of (newBitset n) = {}" by (auto simp: bits_of_def newBitset_def div_64_less)
  show "n \<le> 64 * length (newBitset n)"
    using div_mult_mod_eq [of n 64] by (auto simp: newBitset_def Let_def)
qed

text \<open>A bit set is a set of positions. For a position it has room for, \<open>set\<close> adds it,
  \<open>clear\<close> removes it and \<open>get\<close> tests it, without a panic and without changing the room;
  \<open>popcnt\<close> counts the elements; two bit sets of one size are \<open>equals\<close> iff they are the same
  set; \<open>newBitset(n)\<close> is empty and has room for \<open>n\<close> positions.\<close>

theorem bitset_refines:
  assumes "p < 64 * length b" "length b2 = length b"
  shows "(\<exists>b'. bs_set b p = Some b' \<and> bits_of b' = insert p (bits_of b) \<and> length b' = length b)
    \<and> (\<exists>b'. bs_clear b p = Some b' \<and> bits_of b' = bits_of b - {p} \<and> length b' = length b)
    \<and> bs_get b p = Some (p \<in> bits_of b)
    \<and> bs_popcnt b = card (bits_of b)
    \<and> (bs_equals b b2 \<longleftrightarrow> bits_of b = bits_of b2)
    \<and> bits_of (newBitset n) = {} \<and> n \<le> 64 * length (newBitset n)"
proof -
  obtain b1 where "bs_set b p = Some b1" "bits_of b1 = insert p (bits_of b)" "length b1 = length b"
    by (rule bs_set_eq [OF assms(1)])
  moreover obtain b3 where "bs_clear b p = Some b3" "bits_of b3 = bits_of b - {p}" "length b3 = length b"
    by (rule bs_clear_eq [OF assms(1)])
  moreover have "bs_equals b b2 \<longleftrightarrow> bits_of b = bits_of b2"
    using bits_of_inj [of b b2] assms(2) by (auto simp: bs_equals_iff)
  ultimately show ?thesis
    using bs_get_eq [OF assms(1)] bs_popcnt_card [of b] newBitset_eq [of n] by blast
qed

theorem bitset_refines_witness:
  "(\<exists>b'. bs_set (newBitset 70) 69 = Some b' \<and> bits_of b' = {69}) \<and> bs_get (newBitset 70) 69 = Some False"
proof -
  have "69 < 64 * length (newBitset 70)" by (simp add: newBitset_def)
  from bitset_refines [OF this refl, of 70] show ?thesis by auto
qed

end
