(* ===== verification/Porcupine_Model.thy ===== *)
theory Porcupine_Model
  imports GoPrelude
begin

section \<open>Porcupine: histories, models and entries\<close>

text \<open>
  The types of \<open>porcupine/model.go\<close> and the first part of \<open>porcupine/checker.go\<close>: operations,
  events, sequential models, and the list of call and return entries a history is turned into.

  Go's \<open>interface{}\<close> is an option (\<open>None\<close> is the nil interface). A function field of
  \<open>Model\<close> that may be nil is an option too. The functions of a model are the caller's code and
  may panic (\<open>models.KvModel\<close> asserts the type of its arguments), so they return an option.
  \<open>sort.Sort\<close> is not stable, so the sorting function is a parameter, with \<open>valid_sorter\<close>
  for what the \<open>sort\<close> package promises.
\<close>

type_synonym 'v iface = "'v option"

record 'v Operation =
  opClient :: int
  opInput :: "'v iface"
  opCall :: int
  opOutput :: "'v iface"
  opReturn :: int

datatype EventKind = CallEvent | ReturnEvent

record 'v Event =
  evClient :: int
  evKind :: EventKind
  evValue :: "'v iface"
  evId :: int

record ('v, 's) Model =
  Partition :: "('v Operation list \<Rightarrow> 'v Operation list list option) option"
  PartitionEvent :: "('v Event list \<Rightarrow> 'v Event list list option) option"
  Init :: 's
  Step :: "'s \<Rightarrow> 'v iface \<Rightarrow> 'v iface \<Rightarrow> (bool \<times> 's) option"
  Equal :: "('s \<Rightarrow> 's \<Rightarrow> bool) option"
  DescribeOperation :: "('v iface \<Rightarrow> 'v iface \<Rightarrow> string option) option"
  DescribeState :: "('s \<Rightarrow> string) option"

definition NoPartition :: "'v Operation list \<Rightarrow> 'v Operation list list option" where
  "NoPartition history = Some [history]"

definition NoPartitionEvent :: "'v Event list \<Rightarrow> 'v Event list list option" where
  "NoPartitionEvent history = Some [history]"

definition ShallowEqual :: "'s \<Rightarrow> 's \<Rightarrow> bool" where
  "ShallowEqual state1 state2 \<longleftrightarrow> state1 = state2"

text \<open>The two functions that format with \<open>%v\<close> take the formatting of a value as an argument.\<close>

definition DefaultDescribeOperation :: "('v iface \<Rightarrow> string) \<Rightarrow> 'v iface \<Rightarrow> 'v iface \<Rightarrow> string option" where
  "DefaultDescribeOperation sprint inp outp = Some (sprint inp @ '' -> '' @ sprint outp)"

definition DefaultDescribeState :: "('s \<Rightarrow> string) \<Rightarrow> 's \<Rightarrow> string" where
  "DefaultDescribeState sprint state = sprint state"

datatype CheckResult = Unknown | Ok | Illegal

definition fillDefault :: "('v iface \<Rightarrow> string) \<Rightarrow> ('s \<Rightarrow> string) \<Rightarrow> ('v, 's) Model \<Rightarrow> ('v, 's) Model" where
  "fillDefault sprint_v sprint_s model0 = (let
     model1 = (if Partition model0 = None then model0\<lparr>Partition := Some NoPartition\<rparr> else model0);
     model2 = (if PartitionEvent model1 = None then model1\<lparr>PartitionEvent := Some NoPartitionEvent\<rparr> else model1);
     model3 = (if Equal model2 = None then model2\<lparr>Equal := Some ShallowEqual\<rparr> else model2);
     model4 = (if DescribeOperation model3 = None
               then model3\<lparr>DescribeOperation := Some (DefaultDescribeOperation sprint_v)\<rparr> else model3);
     model5 = (if DescribeState model4 = None
               then model4\<lparr>DescribeState := Some (DefaultDescribeState sprint_s)\<rparr> else model4)
   in model5)"

subsection \<open>Entries\<close>

datatype entryKind = callEntry | returnEntry

record 'v entry =
  kind :: entryKind
  val :: "'v iface"
  id_of :: int
  time :: int
  clientId :: int

definition byTime_Less :: "'v entry \<Rightarrow> 'v entry \<Rightarrow> bool" where
  "byTime_Less x y = (if time x \<noteq> time y then time x < time y
                      else kind x = callEntry \<and> kind y = returnEntry)"

type_synonym 'v sorter = "'v entry list \<Rightarrow> 'v entry list"

definition valid_sorter :: "'v sorter \<Rightarrow> bool" where
  "valid_sorter srt \<longleftrightarrow> (\<forall>es. mset (srt es) = mset es \<and> sorted_wrt (\<lambda>x y. \<not> byTime_Less y x) (srt es))"

fun entries_loop :: "'v Operation list \<Rightarrow> int \<Rightarrow> 'v entry list \<Rightarrow> 'v entry list" where
  "entries_loop [] i entries = entries"
| "entries_loop (elem # history) i entries =
     entries_loop history (i + 1)
       ((entries @ [\<lparr>kind = callEntry, val = opInput elem, id_of = i, time = opCall elem, clientId = opClient elem\<rparr>])
         @ [\<lparr>kind = returnEntry, val = opOutput elem, id_of = i, time = opReturn elem, clientId = opClient elem\<rparr>])"

definition makeEntries :: "'v sorter \<Rightarrow> 'v Operation list \<Rightarrow> 'v entry list" where
  "makeEntries srt history = srt (entries_loop history 0 [])"

fun renumber_loop :: "'v Event list \<Rightarrow> 'v Event list \<Rightarrow> (int \<rightharpoonup> int) \<Rightarrow> int \<Rightarrow> 'v Event list" where
  "renumber_loop [] e m i = e"
| "renumber_loop (v # events) e m i =
     (case m (evId v) of
        Some r \<Rightarrow> renumber_loop events
                   (e @ [\<lparr>evClient = evClient v, evKind = evKind v, evValue = evValue v, evId = r\<rparr>]) m i
      | None \<Rightarrow> renumber_loop events
                   (e @ [\<lparr>evClient = evClient v, evKind = evKind v, evValue = evValue v, evId = i\<rparr>])
                   (m(evId v \<mapsto> i)) (i + 1))"

definition renumber :: "'v Event list \<Rightarrow> 'v Event list" where
  "renumber events = renumber_loop events [] Map.empty 0"

fun convert_loop :: "int \<Rightarrow> 'v Event list \<Rightarrow> 'v entry list" where
  "convert_loop i [] = []"
| "convert_loop i (elem # events) =
     \<lparr>kind = (if evKind elem = ReturnEvent then returnEntry else callEntry), val = evValue elem,
      id_of = evId elem, time = i, clientId = evClient elem\<rparr> # convert_loop (i + 1) events"

definition convertEntries :: "'v Event list \<Rightarrow> 'v entry list" where
  "convertEntries events = convert_loop 0 events"

subsection \<open>Well-formed histories\<close>

text \<open>A list of entries of \<open>n\<close> operations: each id below \<open>n\<close> has one call and, later, one
  return.\<close>

definition well_formed :: "nat \<Rightarrow> 'v entry list \<Rightarrow> bool" where
  "well_formed n es \<longleftrightarrow>
     distinct (map (\<lambda>e. (kind e, id_of e)) es)
     \<and> (\<lambda>e. (kind e, id_of e)) ` set es = UNIV \<times> int ` {..<n}
     \<and> (\<forall>j < length es. \<forall>k < length es. kind (es ! j) = callEntry \<longrightarrow> kind (es ! k) = returnEntry
          \<longrightarrow> id_of (es ! j) = id_of (es ! k) \<longrightarrow> j < k)"

text \<open>A sorting function the \<open>sort\<close> package may compute: calls before returns of the same time.\<close>

definition sort_time :: "'v sorter" where
  "sort_time = sort_key (\<lambda>e. 2 * time e + (if kind e = callEntry then 0 else 1))"

lemma sort_time_valid: "valid_sorter sort_time"
proof -
  let ?f = "\<lambda>e :: 'v entry. 2 * time e + (if kind e = callEntry then 0 else 1)"
  have "\<not> byTime_Less y x" if "?f x \<le> ?f y" for x y :: "'v entry"
    using that by (auto simp: byTime_Less_def split: if_splits)
  moreover have "sorted_wrt (\<lambda>x y. ?f x \<le> ?f y) (sort_key ?f es)" for es
    using sorted_sort_key [of ?f es] by (simp add: sorted_wrt_map)
  ultimately show ?thesis unfolding valid_sorter_def sort_time_def
    by (auto intro: sorted_wrt_mono_rel [rotated])
qed

end
