(* ===== verification/Porcupine_List.thy ===== *)
theory Porcupine_List
  imports Porcupine_Model
begin

section \<open>Porcupine: the linked list of entries\<close>

text \<open>
  The doubly linked list of \<open>porcupine/checker.go\<close>: \<open>insertBefore\<close>, \<open>length\<close>,
  \<open>makeLinkedEntries\<close>, \<open>lift\<close> and \<open>unlift\<close>, as pointer updates on an explicit heap.
  A heap is the list of the nodes allocated so far, an address is an index into it, a pointer is
  an option (\<open>None\<close> is nil), and dereferencing nil is a panic (\<open>None\<close>).

  \<open>dll h as\<close> says that the nodes at the addresses \<open>as\<close> form a doubly linked list, in that
  order. The lemmas show that \<open>makeLinkedEntries\<close> builds the list of the entries, that
  \<open>lift\<close> takes a call and its return out of it, and that \<open>unlift\<close> undoes \<open>lift\<close> exactly:
  the heap afterwards is the heap before.
\<close>

type_synonym ptr = "nat option"

record 'v node =
  nvalue :: "'v iface"
  nmatch :: ptr
  nid :: int
  nnext :: ptr
  nprev :: ptr

type_synonym 'v heap = "'v node list"

definition deref :: "'v heap \<Rightarrow> ptr \<Rightarrow> 'v node option" where
  "deref h p = (case p of None \<Rightarrow> None | Some a \<Rightarrow> if a < length h then Some (h ! a) else None)"

definition store :: "'v heap \<Rightarrow> ptr \<Rightarrow> ('v node \<Rightarrow> 'v node) \<Rightarrow> 'v heap option" where
  "store h p f = (case p of None \<Rightarrow> None | Some a \<Rightarrow> if a < length h then Some (h[a := f (h ! a)]) else None)"

definition alloc :: "'v heap \<Rightarrow> 'v node \<Rightarrow> 'v heap \<times> ptr" where
  "alloc h n = (h @ [n], Some (length h))"

definition insertBefore :: "'v heap \<Rightarrow> ptr \<Rightarrow> ptr \<Rightarrow> ('v heap \<times> ptr) option" where
  "insertBefore h n mark =
     (if mark \<noteq> None then do {
        m \<leftarrow> deref h mark;
        let beforeMark = nprev m;
        h1 \<leftarrow> store h mark (nprev_update (\<lambda>_. n));
        h2 \<leftarrow> store h1 n (nnext_update (\<lambda>_. mark));
        if beforeMark \<noteq> None then do {
          h3 \<leftarrow> store h2 n (nprev_update (\<lambda>_. beforeMark));
          h4 \<leftarrow> store h3 beforeMark (nnext_update (\<lambda>_. n));
          Some (h4, n) }
        else Some (h2, n) }
      else Some (h, n))"

partial_function (option) length_loop :: "'v heap \<Rightarrow> ptr \<Rightarrow> int \<Rightarrow> int option" where
  "length_loop h n l = (if n \<noteq> None then do {
     nd \<leftarrow> deref h n;
     length_loop h (nnext nd) (l + 1) } else Some l)"

definition list_length :: "'v heap \<Rightarrow> ptr \<Rightarrow> int option" where
  "list_length h n = length_loop h n 0"

text \<open>The loop of \<open>makeLinkedEntries\<close> walks the entries from the last to the first.\<close>

fun linked_loop :: "'v entry list \<Rightarrow> 'v heap \<Rightarrow> ptr \<Rightarrow> (int \<Rightarrow> ptr) \<Rightarrow> ('v heap \<times> ptr) option" where
  "linked_loop [] h root match = Some (h, root)"
| "linked_loop (elem # rest) h root match =
     (if kind elem = returnEntry then
        case alloc h \<lparr>nvalue = val elem, nmatch = None, nid = id_of elem, nnext = None, nprev = None\<rparr> of
          (h1, ent) \<Rightarrow> do {
            (h2, r) \<leftarrow> insertBefore h1 ent root;
            linked_loop rest h2 ent (match(id_of elem := ent)) }
      else
        case alloc h \<lparr>nvalue = val elem, nmatch = match (id_of elem), nid = id_of elem, nnext = None, nprev = None\<rparr> of
          (h1, ent) \<Rightarrow> do {
            (h2, r) \<leftarrow> insertBefore h1 ent root;
            linked_loop rest h2 ent match })"

definition makeLinkedEntries :: "'v heap \<Rightarrow> 'v entry list \<Rightarrow> ('v heap \<times> ptr) option" where
  "makeLinkedEntries h entries = linked_loop (rev entries) h None (\<lambda>_. None)"

definition lift :: "'v heap \<Rightarrow> ptr \<Rightarrow> 'v heap option" where
  "lift h ent = do {
     e \<leftarrow> deref h ent;
     h1 \<leftarrow> store h (nprev e) (nnext_update (\<lambda>_. nnext e));
     e1 \<leftarrow> deref h1 ent;
     h2 \<leftarrow> store h1 (nnext e1) (nprev_update (\<lambda>_. nprev e1));
     e2 \<leftarrow> deref h2 ent;
     let match = nmatch e2;
     m \<leftarrow> deref h2 match;
     h3 \<leftarrow> store h2 (nprev m) (nnext_update (\<lambda>_. nnext m));
     m1 \<leftarrow> deref h3 match;
     if nnext m1 \<noteq> None then store h3 (nnext m1) (nprev_update (\<lambda>_. nprev m1)) else Some h3 }"

definition unlift :: "'v heap \<Rightarrow> ptr \<Rightarrow> 'v heap option" where
  "unlift h ent = do {
     e \<leftarrow> deref h ent;
     let match = nmatch e;
     m \<leftarrow> deref h match;
     h1 \<leftarrow> store h (nprev m) (nnext_update (\<lambda>_. match));
     m1 \<leftarrow> deref h1 match;
     h2 \<leftarrow> (if nnext m1 \<noteq> None then store h1 (nnext m1) (nprev_update (\<lambda>_. match)) else Some h1);
     e2 \<leftarrow> deref h2 ent;
     h3 \<leftarrow> store h2 (nprev e2) (nnext_update (\<lambda>_. ent));
     e3 \<leftarrow> deref h3 ent;
     store h3 (nnext e3) (nprev_update (\<lambda>_. ent)) }"

subsection \<open>Doubly linked lists\<close>

text \<open>What \<open>lift\<close> and \<open>unlift\<close> do to one node.\<close>

definition unlink :: "'v heap \<Rightarrow> nat \<Rightarrow> 'v heap option" where
  "unlink h a = do {
     e \<leftarrow> deref h (Some a);
     h1 \<leftarrow> store h (nprev e) (nnext_update (\<lambda>_. nnext e));
     e1 \<leftarrow> deref h1 (Some a);
     if nnext e1 \<noteq> None then store h1 (nnext e1) (nprev_update (\<lambda>_. nprev e1)) else Some h1 }"

definition relink :: "'v heap \<Rightarrow> nat \<Rightarrow> 'v heap option" where
  "relink h a = do {
     e \<leftarrow> deref h (Some a);
     h1 \<leftarrow> store h (nprev e) (nnext_update (\<lambda>_. Some a));
     e1 \<leftarrow> deref h1 (Some a);
     if nnext e1 \<noteq> None then store h1 (nnext e1) (nprev_update (\<lambda>_. Some a)) else Some h1 }"

definition first_of :: "nat list \<Rightarrow> ptr \<Rightarrow> ptr" where
  "first_of as q = (case as of [] \<Rightarrow> q | a # _ \<Rightarrow> Some a)"

definition last_of :: "nat list \<Rightarrow> ptr \<Rightarrow> ptr" where
  "last_of as p = (if as = [] then p else Some (last as))"

fun seg :: "'v heap \<Rightarrow> ptr \<Rightarrow> nat list \<Rightarrow> ptr \<Rightarrow> bool" where
  "seg h p [] q \<longleftrightarrow> True"
| "seg h p (a # as) q \<longleftrightarrow> a < length h \<and> nprev (h ! a) = p \<and> nnext (h ! a) = first_of as q \<and> seg h (Some a) as q"

definition dll :: "'v heap \<Rightarrow> nat list \<Rightarrow> bool" where
  "dll h as \<longleftrightarrow> distinct as \<and> seg h None as None"

definition shape :: "'v node \<Rightarrow> 'v iface \<times> ptr \<times> int" where
  "shape n = (nvalue n, nmatch n, nid n)"

lemma first_of_simps [simp]: "first_of [] q = q" "first_of (a # as) q = Some a"
  "first_of (xs @ ys) q = first_of xs (first_of ys q)"
  by (auto simp: first_of_def split: list.splits)

lemma last_of_simps [simp]: "last_of [] p = p" "last_of (as @ [a]) p = Some a" "last_of [a] p = Some a"
  by (auto simp: last_of_def)

lemma seg_append: "seg h p (xs @ ys) q \<longleftrightarrow> seg h p xs (first_of ys q) \<and> seg h (last_of xs p) ys q"
  by (induction xs arbitrary: p) (auto simp: last_of_def)

lemma seg_bound: "seg h p as q \<Longrightarrow> a \<in> set as \<Longrightarrow> a < length h"
  by (induction as arbitrary: p) auto

lemma seg_upd [simp]: "a \<notin> set as \<Longrightarrow> seg (h[a := x]) p as q \<longleftrightarrow> seg h p as q"
  by (induction as arbitrary: p) auto

lemma seg_set_next:
  assumes "seg h p (as @ [a]) q" and "a \<notin> set as"
  shows "seg (h[a := (h ! a)\<lparr>nnext := q'\<rparr>]) p (as @ [a]) q'"
  using assms by (auto simp: seg_append)

lemma seg_set_prev:
  assumes "seg h p (a # as) q" and "a \<notin> set as"
  shows "seg (h[a := (h ! a)\<lparr>nprev := p'\<rparr>]) p' (a # as) q"
  using assms by auto

lemma store_Some: "a < length h \<Longrightarrow> store h (Some a) f = Some (h[a := f (h ! a)])"
  by (simp add: store_def)

lemma deref_Some: "a < length h \<Longrightarrow> deref h (Some a) = Some (h ! a)"
  by (simp add: deref_def)

lemma map_shape_upd:
  assumes "\<And>n. shape (f n) = shape n"
  shows "map shape (h[a := f (h ! a)]) = map shape h"
  by (cases "a < length h") (simp_all add: map_update assms list_update_same_conv list_update_beyond)

lemma shape_upds [simp]: "shape (n\<lparr>nnext := q\<rparr>) = shape n" "shape (n\<lparr>nprev := q\<rparr>) = shape n"
  by (simp_all add: shape_def)

lemma upd_same: "nnext n = q \<Longrightarrow> n\<lparr>nnext := q\<rparr> = n" "nprev n = q \<Longrightarrow> n\<lparr>nprev := q\<rparr> = n"
  by auto

text \<open>Taking a node out of a list, and putting it restored where it was.\<close>

lemma unlink_dll:
  assumes "dll h (xs @ p # a # ys)"
  obtains h' where "unlink h a = Some h'" "dll h' (xs @ p # ys)" "relink h' a = Some h" "map shape h' = map shape h"
    "h' ! a = h ! a" "length h' = length h"
proof -
  from assms have d: "distinct (xs @ p # a # ys)" and s: "seg h None ((xs @ [p]) @ a # ys) None"
    by (simp_all add: dll_def)
  from s have segs: "seg h None (xs @ [p]) (Some a)" "seg h (Some a) ys None"
    and a: "a < length h" "nprev (h ! a) = Some p" "nnext (h ! a) = first_of ys None"
    by (simp_all add: seg_append)
  have p: "p < length h" "nnext (h ! p) = Some a" using segs(1) by (simp_all add: seg_append)
  define h1 where "h1 = h[p := (h ! p)\<lparr>nnext := first_of ys None\<rparr>]"
  have h1a: "h1 ! a = h ! a" "length h1 = length h" using d by (auto simp: h1_def)
  have seg1: "seg h1 None (xs @ [p]) (first_of ys None)" "seg h1 (Some a) ys None"
    using d segs seg_set_next [OF segs(1)] by (auto simp: h1_def)
  have sh: "map shape h1 = map shape h" unfolding h1_def by (rule map_shape_upd) simp
  have restored: "h1[p := (h1 ! p)\<lparr>nnext := Some a\<rparr>] = h"
    using p by (simp add: h1_def upd_same)
  have "store h (Some p) (nnext_update (\<lambda>_. first_of ys None)) = Some h1" using p by (simp add: store_Some h1_def)
  then have un1: "unlink h a = (if first_of ys None \<noteq> None then store h1 (first_of ys None) (nprev_update (\<lambda>_. Some p)) else Some h1)"
    using a h1a unfolding unlink_def by (simp add: deref_Some)
  show thesis
  proof (cases ys)
    case Nil
    have "unlink h a = Some h1" using un1 Nil by simp
    moreover have "relink h1 a = Some h"
      using a p Nil h1a restored unfolding relink_def by (simp add: deref_Some store_Some)
    moreover have "dll h1 (xs @ p # ys)" using d seg1 Nil by (simp add: dll_def)
    ultimately show ?thesis using that sh h1a by blast
  next
    case (Cons y zs)
    have y: "y < length h" "nprev (h ! y) = Some a" "y \<noteq> p" "y \<noteq> a" "h1 ! y = h ! y"
      using segs(2) Cons d by (auto simp: h1_def)
    define h2 where "h2 = h1[y := (h1 ! y)\<lparr>nprev := Some p\<rparr>]"
    have un: "unlink h a = Some h2"
      using un1 Cons h1a y by (simp add: store_Some h2_def)
    have h2: "h2 ! a = h ! a" "h2 ! p = h1 ! p" "length h2 = length h" using y h1a by (simp_all add: h2_def)
    have "h2[p := (h2 ! p)\<lparr>nnext := Some a\<rparr>] = h[y := (h ! y)\<lparr>nprev := Some p\<rparr>]"
      unfolding h2(2) unfolding h2_def using restored y by (simp add: list_update_swap)
    moreover have "(h[y := (h ! y)\<lparr>nprev := Some p\<rparr>])[y := (h ! y)\<lparr>nprev := Some a\<rparr>] = h"
      using y by (simp add: upd_same)
    ultimately have "relink h2 a = Some h"
      using a p Cons h2 y unfolding relink_def by (simp add: deref_Some store_Some)
    moreover have "seg h2 None (xs @ [p]) (Some y)"
      using seg1(1) d Cons by (auto simp: h2_def)
    moreover have "seg h2 (Some p) ys None"
      using seg_set_prev [of h1 "Some a" y zs None "Some p"] seg1(2) d Cons by (simp add: h2_def)
    ultimately have "dll h2 (xs @ p # ys)" "relink h2 a = Some h"
      using d Cons seg_append [of h2 None "xs @ [p]" ys None] by (simp_all add: dll_def)
    moreover have "map shape h2 = map shape h" unfolding h2_def sh [symmetric] by (rule map_shape_upd) simp
    ultimately show ?thesis using that un h2 by blast
  qed
qed

lemma dll_neighbours:
  assumes "dll h (xs @ p # a # ys)"
  shows "a < length h" "p < length h" "p \<noteq> a" "nprev (h ! a) = Some p" "nnext (h ! a) = first_of ys None" "nnext (h ! p) = Some a"
  using assms by (auto simp: dll_def seg_append)

lemma lift_eq_unlink:
  assumes "unlink h c = Some h2" and "c < length h" "p < length h" "p \<noteq> c" "nprev (h ! c) = Some p" "nnext (h ! c) = Some s"
    and "length h2 = length h" "nmatch (h2 ! c) = Some r"
  shows "lift h (Some c) = unlink h2 r"
  using assms unfolding lift_def unlink_def by (auto simp: deref_Some store_Some Let_def)

lemma unlift_eq_relink:
  assumes "relink h' r = Some h2" and "c < length h'" "nmatch (h' ! c) = Some r" "length h2 = length h'"
    and "nprev (h2 ! c) = Some p" "p \<noteq> c" "p < length h'" "nnext (h2 ! c) = Some s"
  shows "unlift h' (Some c) = relink h2 c"
  using assms unfolding unlift_def relink_def
  by (cases "deref h' (Some r)") (auto simp: deref_Some store_Some Let_def bind_eq_Some_conv)

text \<open>\<open>lift\<close> removes a call and its return; \<open>unlift\<close> restores the heap.\<close>

lemma lift_dll:
  assumes "dll h (us @ c # ys @ r # zs)" and "us \<noteq> []" and "nmatch (h ! c) = Some r"
  obtains h' where "lift h (Some c) = Some h'" "dll h' (us @ ys @ zs)" "unlift h' (Some c) = Some h" "map shape h' = map shape h"
proof -
  obtain xs p where us: "us = xs @ [p]" using assms(2) by (metis rev_exhaust)
  have d1: "dll h (xs @ p # c # ys @ r # zs)" using assms(1) us by simp
  note n1 = dll_neighbours [OF d1]
  obtain h2 where h2: "unlink h c = Some h2" "dll h2 (xs @ p # ys @ r # zs)" "relink h2 c = Some h"
      "map shape h2 = map shape h" "h2 ! c = h ! c" "length h2 = length h"
    by (rule unlink_dll [OF d1])
  obtain vs q where vs: "xs @ p # ys = vs @ [q]" by (cases "xs @ p # ys" rule: rev_cases) auto
  have "(xs @ p # ys) @ ws = vs @ q # ws" for ws by (subst vs) simp
  then have split: "xs @ p # ys @ ws = vs @ q # ws" for ws by simp
  have d2: "dll h2 (vs @ q # r # zs)" using h2(2) unfolding split .
  obtain h3 where h3: "unlink h2 r = Some h3" "dll h3 (vs @ q # zs)" "relink h3 r = Some h2"
      "map shape h3 = map shape h2" "length h3 = length h2"
    by (rule unlink_dll [OF d2])
  obtain s where s: "nnext (h ! c) = Some s" using n1(5) by (cases "ys") auto
  have "lift h (Some c) = Some h3"
    using lift_eq_unlink [OF h2(1) n1(1,2,3,4) s h2(6)] h2(5) assms(3) h3(1) by simp
  moreover have "shape (h3 ! c) = shape (h ! c)"
    using h3(4,5) h2(4,6) n1(1) by (metis nth_map)
  then have "nmatch (h3 ! c) = Some r" using assms(3) by (simp add: shape_def)
  then have "unlift h3 (Some c) = Some h"
    using unlift_eq_relink [OF h3(3), of c p s] n1 s h2 h3(5) by simp
  moreover have "dll h3 (us @ ys @ zs)" using h3(2) unfolding us split [symmetric] by simp
  moreover have "map shape h3 = map shape h" using h3(4) h2(4) by simp
  ultimately show thesis using that by blast
qed

subsection \<open>Building the list\<close>

lemma seg_heap_append: "seg h p as q \<Longrightarrow> seg (h @ h') p as q"
  by (induction as arbitrary: p) (auto simp: nth_append)

lemma insertBefore_dll:
  assumes "dll h as" and "nnext n = None" "nprev n = None"
  obtains h' where "insertBefore (h @ [n]) (Some (length h)) (first_of as None) = Some (h', Some (length h))"
    "dll h' (length h # as)" "map shape h' = map shape (h @ [n])"
proof (cases as)
  case Nil
  then show ?thesis using assms that [of "h @ [n]"] by (simp add: insertBefore_def dll_def)
next
  case (Cons a bs)
  let ?n = "length h"
  from assms(1) Cons have d: "distinct (a # bs)" and s: "seg h None (a # bs) None" by (simp_all add: dll_def)
  from s have a: "a < ?n" "nprev (h ! a) = None" by auto
  have nin: "?n \<notin> set as" using assms(1) seg_bound [of h None as None ?n] by (auto simp: dll_def)
  define h1 where "h1 = (h @ [n])[a := (h ! a)\<lparr>nprev := Some ?n\<rparr>]"
  define h2 where "h2 = h1[?n := (h1 ! ?n)\<lparr>nnext := Some a\<rparr>]"
  have h1: "h1 ! ?n = n" "length h1 = Suc ?n" using a by (simp_all add: h1_def nth_append)
  have "store (h @ [n]) (Some a) (nprev_update (\<lambda>_. Some ?n)) = Some h1"
    using a by (simp add: store_Some h1_def nth_append)
  moreover have "store h1 (Some ?n) (nnext_update (\<lambda>_. Some a)) = Some h2"
    using h1 by (simp add: store_Some h2_def)
  ultimately have ins: "insertBefore (h @ [n]) (Some ?n) (first_of as None) = Some (h2, Some ?n)"
    using a Cons by (simp add: insertBefore_def deref_Some nth_append Let_def)
  have "seg h1 (Some ?n) as None"
    using seg_set_prev [OF seg_heap_append [OF s, of "[n]"]] d a Cons by (simp add: h1_def nth_append)
  then have "seg h2 (Some ?n) as None" using nin by (simp add: h2_def)
  moreover have "h2 ! ?n = n\<lparr>nnext := Some a\<rparr>" "?n < length h2" using h1 by (simp_all add: h2_def)
  ultimately have dll2: "dll h2 (?n # as)" using assms nin d Cons by (simp add: dll_def)
  have "map shape h1 = map shape (h @ [n])"
    using map_shape_upd [of "nprev_update (\<lambda>_. Some ?n)" "h @ [n]" a] a by (simp add: h1_def nth_append)
  moreover have "map shape h2 = map shape h1" unfolding h2_def by (rule map_shape_upd) simp
  ultimately show ?thesis using ins dll2 that by simp
qed

text \<open>The node of the return entry with a given id among the entries visited so far, latest
  first.\<close>

fun ret_of :: "'v entry list \<Rightarrow> int \<Rightarrow> ptr" where
  "ret_of [] i = None"
| "ret_of (e # es) i = (if kind e = returnEntry \<and> id_of e = i then Some (length es) else ret_of es i)"

definition built :: "'v entry list \<Rightarrow> 'v heap \<Rightarrow> bool" where
  "built ds h \<longleftrightarrow> length h = length ds \<and> dll h (rev [0..<length ds])
     \<and> (\<forall>a < length ds. shape (h ! a) = (val (ds ! a),
          (if kind (ds ! a) = returnEntry then None else ret_of (rev (take a ds)) (id_of (ds ! a))), id_of (ds ! a)))"

lemma built_step:
  assumes "built ds h" and "shape n = (val e, (if kind e = returnEntry then None else ret_of (rev ds) (id_of e)), id_of e)"
    and "nnext n = None" "nprev n = None"
  obtains h' where "insertBefore (h @ [n]) (Some (length h)) (first_of (rev [0..<length ds]) None) = Some (h', Some (length h))"
    "built (ds @ [e]) h'"
proof -
  from assms(1) have len: "length h = length ds" and d: "dll h (rev [0..<length ds])" by (simp_all add: built_def)
  obtain h' where h': "insertBefore (h @ [n]) (Some (length h)) (first_of (rev [0..<length ds]) None) = Some (h', Some (length h))"
    "dll h' (length h # rev [0..<length ds])" "map shape h' = map shape (h @ [n])"
    by (rule insertBefore_dll [OF d assms(3,4)])
  have len': "length h' = Suc (length ds)" using arg_cong [OF h'(3), of length] len by simp
  have "shape (h' ! a) = shape ((h @ [n]) ! a)" if "a < Suc (length ds)" for a
    using h'(3) that len len' by (metis length_append_singleton nth_map)
  then have "built (ds @ [e]) h'"
    using assms(1,2) h'(2) len len' by (auto simp: built_def nth_append less_Suc_eq)
  with h'(1) that show thesis by blast
qed

lemma linked_loop_built:
  assumes "built ds h" and "root = first_of (rev [0..<length ds]) None" and "match = ret_of (rev ds)"
  shows "\<exists>h'. linked_loop rest h root match = Some (h', first_of (rev [0..<length (ds @ rest)]) None) \<and> built (ds @ rest) h'"
  using assms
proof (induction rest arbitrary: ds h root match)
  case (Cons e rest)
  define n where "n = \<lparr>nvalue = val e, nmatch = (if kind e = returnEntry then None else match (id_of e)),
    nid = id_of e, nnext = None, nprev = None\<rparr>"
  have n: "shape n = (val e, (if kind e = returnEntry then None else ret_of (rev ds) (id_of e)), id_of e)"
    "nnext n = None" "nprev n = None" using Cons.prems(3) by (simp_all add: n_def shape_def)
  obtain h' where h': "insertBefore (h @ [n]) (Some (length h)) root = Some (h', Some (length h))" "built (ds @ [e]) h'"
    using built_step [OF Cons.prems(1) n] Cons.prems(2) by metis
  define match' where "match' = (if kind e = returnEntry then match(id_of e := Some (length h)) else match)"
  have len: "length h = length ds" using Cons.prems(1) by (simp add: built_def)
  have "linked_loop (e # rest) h root match = linked_loop rest h' (Some (length h)) match'"
    using h'(1) by (cases "kind e = returnEntry") (simp_all add: alloc_def n_def match'_def)
  moreover have "match' = ret_of (rev (ds @ [e]))"
    using Cons.prems(3) len by (auto simp: match'_def fun_eq_iff)
  moreover have "Some (length h) = first_of (rev [0..<length (ds @ [e])]) None" using len by simp
  ultimately show ?case using Cons.IH [OF h'(2), of "Some (length h)" match'] by (simp del: linked_loop.simps ret_of.simps)
qed (auto simp: built_def)

lemma makeLinkedEntries_built:
  obtains h where "makeLinkedEntries [] es = Some (h, first_of (rev [0..<length es]) None)" "built (rev es) h"
proof -
  have "built [] []" by (simp add: built_def dll_def)
  from linked_loop_built [OF this refl, of "\<lambda>_. None" "rev es"] that show thesis
    by (auto simp: makeLinkedEntries_def fun_eq_iff)
qed

lemma list_length_dll: "seg h p as None \<Longrightarrow> length_loop h (first_of as None) l = Some (l + int (length as))"
proof (induction as arbitrary: p l)
  case Nil
  then show ?case by (simp add: length_loop.simps)
next
  case (Cons a as)
  then have "length_loop h (first_of as None) (l + 1) = Some (l + 1 + int (length as))"
    using Cons.IH [of "Some a" "l + 1"] by simp
  with Cons.prems show ?case by (subst length_loop.simps) (simp add: deref_Some)
qed

text \<open>\<open>lift\<close> takes a call entry and its return entry out of the doubly linked list and
  \<open>unlift\<close> then restores the whole heap, every pointer of every node, as it was.\<close>

theorem unlift_restores:
  assumes "dll h (us @ c # ys @ r # zs)" "us \<noteq> []" "nmatch (h ! c) = Some r"
  shows "\<exists>h'. lift h (Some c) = Some h' \<and> dll h' (us @ ys @ zs) \<and> unlift h' (Some c) = Some h"
  using lift_dll [OF assms] by metis

definition sample_heap :: "nat heap" where
  "sample_heap =
    [\<lparr>nvalue = Some 7, nmatch = None, nid = 0, nnext = None, nprev = Some 1\<rparr>,
     \<lparr>nvalue = Some 3, nmatch = Some 0, nid = 0, nnext = Some 0, nprev = Some 2\<rparr>,
     \<lparr>nvalue = None, nmatch = None, nid = -1, nnext = Some 1, nprev = None\<rparr>]"

theorem unlift_restores_witness:
  "\<exists>h'. lift sample_heap (Some 1) = Some h' \<and> dll h' [2] \<and> unlift h' (Some 1) = Some sample_heap"
proof -
  have "dll sample_heap ([2] @ 1 # [] @ 0 # [])" by (simp add: dll_def sample_heap_def)
  moreover have "nmatch (sample_heap ! 1) = Some 0" by (simp add: sample_heap_def)
  ultimately show ?thesis using unlift_restores [of sample_heap "[2]" 1 "[]" 0 "[]"] by simp
qed

end
