(* ===== verification/Porcupine_Checker.thy ===== *)
theory Porcupine_Checker
  imports Porcupine_Bitset Porcupine_List
begin

section \<open>Porcupine: the search, \<open>checkSingle\<close>\<close>

text \<open>
  \<open>checkSingle\<close> of \<open>porcupine/checker.go\<close>: the search of Wing and Gong with Lowe's cache of
  configurations. \<open>check_loop\<close> is its \<open>for\<close> loop; it is a \<open>partial_function\<close>, so that
  the model does not presuppose that the loop ends. \<open>kill k\<close> is what the atomic load of the
  kill flag returns in the \<open>k\<close>-th iteration; the flag belongs to \<open>checkParallel\<close>.
  A pointer \<open>*[]int\<close> in \<open>longest\<close> is the index of the slice variable in \<open>seqs\<close>: two
  elements are the same pointer iff they hold the same index.
\<close>

record 's cacheEntry =
  ceLinearized :: bitset
  ceState :: 's

record 's callsEntry =
  clEntry :: ptr
  clState :: 's

record ('v, 's) chk =
  heap :: "'v heap"
  entryp :: ptr
  linearized :: bitset
  cache :: "64 word \<Rightarrow> 's cacheEntry list"
  calls :: "'s callsEntry list"
  cstate :: 's
  longest :: "nat option list"
  seqs :: "int list list"

definition go_uint :: "int \<Rightarrow> nat" where
  "go_uint i = nat (i mod 2 ^ 64)"

fun cache_scan :: "('s \<Rightarrow> 's \<Rightarrow> bool) option \<Rightarrow> 's cacheEntry \<Rightarrow> 's cacheEntry list \<Rightarrow> bool option" where
  "cache_scan eq ent [] = Some False"
| "cache_scan eq ent (elem # rest) =
     (if bs_equals (ceLinearized ent) (ceLinearized elem) then
        case eq of None \<Rightarrow> None
        | Some f \<Rightarrow> if f (ceState ent) (ceState elem) then Some True else cache_scan eq ent rest
      else cache_scan eq ent rest)"

definition cacheContains :: "('v, 's) Model \<Rightarrow> (64 word \<Rightarrow> 's cacheEntry list) \<Rightarrow> 's cacheEntry \<Rightarrow> bool option" where
  "cacheContains model ch ent = cache_scan (Equal model) ent (ch (bs_hash (ceLinearized ent)))"

text \<open>A call entry (lines 195 to 213): try to linearize it.\<close>

definition check_call :: "('v, 's) Model \<Rightarrow> ptr \<Rightarrow> ('v, 's) chk \<Rightarrow> 'v node \<Rightarrow> ('v, 's) chk option" where
  "check_call model headEntry c ent = do {
     matching \<leftarrow> deref (heap c) (nmatch ent);
     (ok, newState) \<leftarrow> Step model (cstate c) (nvalue ent) (nvalue matching);
     if ok then do {
       newLinearized \<leftarrow> bs_set (bs_clone (linearized c)) (go_uint (nid ent));
       let newCacheEntry = \<lparr>ceLinearized = newLinearized, ceState = newState\<rparr>;
       hit \<leftarrow> cacheContains model (cache c) newCacheEntry;
       if \<not> hit then do {
         let hash = bs_hash newLinearized;
         let cache' = (cache c)(hash := cache c hash @ [newCacheEntry]);
         let calls' = calls c @ [\<lparr>clEntry = entryp c, clState = cstate c\<rparr>];
         linearized' \<leftarrow> bs_set (linearized c) (go_uint (nid ent));
         heap' \<leftarrow> lift (heap c) (entryp c);
         hd' \<leftarrow> deref heap' headEntry;
         Some (c\<lparr>heap := heap', entryp := nnext hd', linearized := linearized', cache := cache',
                 calls := calls', cstate := newState\<rparr>) }
       else Some (c\<lparr>entryp := nnext ent\<rparr>) }
     else Some (c\<lparr>entryp := nnext ent\<rparr>) }"

text \<open>The ids of the calls, and the update of \<open>longest\<close> (lines 219 to 234).\<close>

fun seq_of :: "'v heap \<Rightarrow> 's callsEntry list \<Rightarrow> int list option" where
  "seq_of h [] = Some []"
| "seq_of h (v # vs) = do { e \<leftarrow> deref h (clEntry v); s \<leftarrow> seq_of h vs; Some (nid e # s) }"

fun longest_loop :: "'v heap \<Rightarrow> 's callsEntry list \<Rightarrow> 's callsEntry list \<Rightarrow> nat option
    \<Rightarrow> nat option list \<Rightarrow> int list list \<Rightarrow> (nat option list \<times> int list list) option" where
  "longest_loop h cls [] sq lon sqs = Some (lon, sqs)"
| "longest_loop h cls (v # vs) sq lon sqs = do {
     e \<leftarrow> deref h (clEntry v);
     l \<leftarrow> go_at lon (nid e);
     better \<leftarrow> (case l of None \<Rightarrow> Some True
                 | Some p \<Rightarrow> do { old \<leftarrow> go_at sqs (int p); Some (length cls > length old) });
     if better then do {
       (sq', sqs') \<leftarrow> (if sq = None then do { s \<leftarrow> seq_of h cls; Some (Some (length sqs), sqs @ [s]) }
                      else Some (sq, sqs));
       lon' \<leftarrow> go_upd lon (nid e) sq';
       longest_loop h cls vs sq' lon' sqs' }
     else longest_loop h cls vs sq lon sqs }"

text \<open>A return entry (lines 215 to 241): give up, or take the last call back.\<close>

definition check_return :: "bool \<Rightarrow> ('v, 's) chk \<Rightarrow> (bool + ('v, 's) chk) option" where
  "check_return computePartial c =
     (if calls c = [] then Some (Inl False) else do {
        (longest', seqs') \<leftarrow> (if computePartial
                             then longest_loop (heap c) (calls c) (calls c) None (longest c) (seqs c)
                             else Some (longest c, seqs c));
        let callsTop = last (calls c);
        e \<leftarrow> deref (heap c) (clEntry callsTop);
        linearized' \<leftarrow> bs_clear (linearized c) (go_uint (nid e));
        heap' \<leftarrow> unlift (heap c) (clEntry callsTop);
        e' \<leftarrow> deref heap' (clEntry callsTop);
        Some (Inr (c\<lparr>heap := heap', entryp := nnext e', linearized := linearized', calls := butlast (calls c),
                     cstate := clState callsTop, longest := longest', seqs := seqs'\<rparr>)) })"

definition check_iter :: "('v, 's) Model \<Rightarrow> bool \<Rightarrow> ptr \<Rightarrow> ('v, 's) chk \<Rightarrow> (bool + ('v, 's) chk) option" where
  "check_iter model computePartial headEntry c = do {
     ent \<leftarrow> deref (heap c) (entryp c);
     if nmatch ent \<noteq> None then map_option Inr (check_call model headEntry c ent)
     else check_return computePartial c }"

text \<open>After the loop (lines 244 to 252).\<close>

definition check_end :: "('v, 's) chk \<Rightarrow> ('v, 's) chk option" where
  "check_end c = do {
     sq \<leftarrow> seq_of (heap c) (calls c);
     Some (c\<lparr>longest := map (\<lambda>_. Some (length (seqs c))) (longest c), seqs := seqs c @ [sq]\<rparr>) }"

partial_function (option) check_loop ::
  "('v, 's) Model \<Rightarrow> bool \<Rightarrow> (nat \<Rightarrow> bool) \<Rightarrow> ptr \<Rightarrow> nat \<Rightarrow> ('v, 's) chk \<Rightarrow> (bool \<times> ('v, 's) chk) option" where
  "check_loop model computePartial kill headEntry k c = do {
     hd' \<leftarrow> deref (heap c) headEntry;
     if nnext hd' \<noteq> None then
       (if kill k then Some (False, c)
        else do {
          r \<leftarrow> check_iter model computePartial headEntry c;
          case r of Inl ok \<Rightarrow> Some (ok, c)
          | Inr c' \<Rightarrow> check_loop model computePartial kill headEntry (Suc k) c' })
     else do { c' \<leftarrow> check_end c; Some (True, c') } }"

definition checkSingle ::
  "('v, 's) Model \<Rightarrow> 'v entry list \<Rightarrow> bool \<Rightarrow> (nat \<Rightarrow> bool) \<Rightarrow> (bool \<times> ('v, 's) chk) option" where
  "checkSingle model history computePartial kill = do {
     (h, ent) \<leftarrow> makeLinkedEntries [] history;
     len \<leftarrow> list_length h ent;
     let n = len div 2;
     let (h1, hd') = alloc h \<lparr>nvalue = None, nmatch = None, nid = -1, nnext = None, nprev = None\<rparr>;
     (h2, headEntry) \<leftarrow> insertBefore h1 hd' ent;
     check_loop model computePartial kill headEntry 0
       \<lparr>heap = h2, entryp = ent, linearized = newBitset (go_uint n), cache = (\<lambda>_. []), calls = [],
        cstate = Init model, longest = replicate (nat n) None, seqs = []\<rparr> }"

end
