(* ===== verification/Porcupine_Search.thy ===== *)
theory Porcupine_Search
  imports Porcupine_Checker
begin

section \<open>Porcupine: the search decides linearizability\<close>

text \<open>
  The specification of \<open>checkSingle\<close> and the proof that it is met. \<open>lin\<close> is the search space:
  from a set of linearized operations and a state, any operation that was called before every
  pending return may be linearized next. The loop keeps \<open>search_inv\<close>: the calls stack is a path
  of that space, every candidate to the left of the current entry has been tried, and every
  cached configuration is on the path or dead.
\<close>

subsection \<open>Positions of the entries\<close>

definition pos_of :: "'v entry list \<Rightarrow> entryKind \<Rightarrow> nat \<Rightarrow> nat" where
  "pos_of es kd i = length (takeWhile (\<lambda>e. \<not> (kind e = kd \<and> id_of e = int i)) es)"

abbreviation cpos :: "'v entry list \<Rightarrow> nat \<Rightarrow> nat" where
  "cpos es \<equiv> pos_of es callEntry"

abbreviation rpos :: "'v entry list \<Rightarrow> nat \<Rightarrow> nat" where
  "rpos es \<equiv> pos_of es returnEntry"

definition remaining :: "'v entry list \<Rightarrow> nat set \<Rightarrow> nat list" where
  "remaining es L = filter (\<lambda>k. id_of (es ! k) \<notin> int ` L) [0..<length es]"

lemma wf_id:
  assumes "well_formed n es" "k < length es"
  obtains i where "i < n" "id_of (es ! k) = int i"
proof -
  have "(kind (es ! k), id_of (es ! k)) \<in> (\<lambda>e. (kind e, id_of e)) ` set es" using assms(2) by auto
  with assms(1) have "(kind (es ! k), id_of (es ! k)) \<in> UNIV \<times> int ` {..<n}" by (simp add: well_formed_def)
  with that show thesis by auto
qed

lemma wf_pos:
  assumes "well_formed n es" "i < n"
  shows "pos_of es kd i < length es" "kind (es ! pos_of es kd i) = kd" "id_of (es ! pos_of es kd i) = int i"
proof -
  have "(kd, int i) \<in> (\<lambda>e. (kind e, id_of e)) ` set es" using assms by (simp add: well_formed_def)
  then obtain e where e: "e \<in> set es" "kind e = kd" "id_of e = int i" by auto
  let ?P = "\<lambda>e. \<not> (kind e = kd \<and> id_of e = int i)"
  have "takeWhile ?P es \<noteq> es" using e by (metis (mono_tags, lifting) takeWhile_eq_all_conv)
  then show len: "pos_of es kd i < length es"
    unfolding pos_of_def by (metis length_takeWhile_le nat_less_le takeWhile_eq_take take_all_iff)
  from nth_length_takeWhile [of ?P es] len show "kind (es ! pos_of es kd i) = kd" "id_of (es ! pos_of es kd i) = int i"
    by (simp_all add: pos_of_def)
qed

lemma wf_unique:
  assumes "well_formed n es" "j < length es" "k < length es" "kind (es ! j) = kind (es ! k)" "id_of (es ! j) = id_of (es ! k)"
  shows "j = k"
proof -
  have "distinct (map (\<lambda>e. (kind e, id_of e)) es)" using assms(1) by (simp add: well_formed_def)
  then show ?thesis using assms(2-) by (metis (no_types, lifting) length_map nth_eq_iff_index_eq nth_map)
qed

lemma wf_pos_eq:
  assumes "well_formed n es" "k < length es" "id_of (es ! k) = int i" "i < n"
  shows "k = pos_of es (kind (es ! k)) i"
  using wf_unique [OF assms(1,2) wf_pos(1) [OF assms(1,4)]] wf_pos [OF assms(1,4)] assms(3) by simp

lemma wf_call_return: "well_formed n es \<Longrightarrow> i < n \<Longrightarrow> cpos es i < rpos es i"
  using wf_pos [of n es i] unfolding well_formed_def by simp

lemma wf_length:
  assumes "well_formed n es"
  shows "length es = 2 * n"
proof -
  have "length es = card (set (map (\<lambda>e. (kind e, id_of e)) es))"
    using assms distinct_card by (fastforce simp: well_formed_def)
  also have "\<dots> = card ((UNIV :: entryKind set) \<times> int ` {..<n})" using assms by (simp add: well_formed_def)
  also have "\<dots> = card (UNIV :: entryKind set) * n"
    by (simp add: card_cartesian_product card_image)
  also have "(UNIV :: entryKind set) = {callEntry, returnEntry}" using entryKind.exhaust by blast
  finally show ?thesis by simp
qed

lemma remaining_iff: "k \<in> set (remaining es L) \<longleftrightarrow> k < length es \<and> id_of (es ! k) \<notin> int ` L"
  by (auto simp: remaining_def)

lemma remaining_pos: "well_formed n es \<Longrightarrow> i < n \<Longrightarrow> pos_of es kd i \<in> set (remaining es L) \<longleftrightarrow> i \<notin> L"
  using wf_pos [of n es i kd] by (auto simp: remaining_iff)

lemma remaining_sorted: "sorted_wrt (<) (remaining es L)"
  unfolding remaining_def by (rule sorted_wrt_filter) simp

lemma remaining_insert:
  assumes "well_formed n es" "i < n"
  shows "remaining es (insert i L) = filter (\<lambda>k. k \<noteq> cpos es i \<and> k \<noteq> rpos es i) (remaining es L)"
proof -
  have "id_of (es ! k) = int i \<longleftrightarrow> k = cpos es i \<or> k = rpos es i" if "k < length es" for k
    using wf_pos_eq [OF assms(1) that _ assms(2)] wf_pos [OF assms] by (cases "kind (es ! k)") auto
  then show ?thesis unfolding remaining_def filter_filter by (intro filter_cong) auto
qed

text \<open>Where an operation that is not linearized stands in the list of remaining entries.\<close>

lemma remaining_split:
  assumes wf: "well_formed n es" and i: "i < n" "i \<notin> L" and split: "remaining es L = xs @ cpos es i # zs"
  obtains ys vs where "zs = ys @ rpos es i # vs" "remaining es (insert i L) = xs @ ys @ vs"
proof -
  let ?c = "cpos es i" and ?r = "rpos es i"
  have srt: "sorted_wrt (<) (xs @ ?c # zs)" using remaining_sorted [of es L] split by simp
  have lt: "?c < ?r" by (rule wf_call_return [OF wf i(1)])
  have "?r \<in> set (xs @ ?c # zs)" using remaining_pos [OF wf i(1)] i(2) split by metis
  moreover have "?r \<notin> set xs" using srt lt by (auto simp: sorted_wrt_append)
  ultimately have "?r \<in> set zs" using lt by auto
  then obtain ys vs where zs: "zs = ys @ ?r # vs" by (auto simp: in_set_conv_decomp)
  have "distinct (xs @ ?c # ys @ ?r # vs)"
    using srt zs strict_sorted_iff [of "xs @ ?c # zs"] by simp
  moreover have "filter (\<lambda>k. k \<noteq> ?c \<and> k \<noteq> ?r) ws = ws" if "?c \<notin> set ws" "?r \<notin> set ws" for ws
    using that by (intro filter_True) auto
  ultimately have "filter (\<lambda>k. k \<noteq> ?c \<and> k \<noteq> ?r) (xs @ ?c # ys @ ?r # vs) = xs @ ys @ vs" by simp
  then have "remaining es (insert i L) = xs @ ys @ vs"
    using remaining_insert [OF wf i(1)] split zs by simp
  with zs show thesis by (rule that)
qed

subsection \<open>The search space\<close>

definition inp :: "'v entry list \<Rightarrow> nat \<Rightarrow> 'v iface" where
  "inp es i = val (es ! cpos es i)"

definition outp :: "'v entry list \<Rightarrow> nat \<Rightarrow> 'v iface" where
  "outp es i = val (es ! rpos es i)"

definition cand :: "nat \<Rightarrow> 'v entry list \<Rightarrow> nat set \<Rightarrow> nat \<Rightarrow> bool" where
  "cand n es L i \<longleftrightarrow> i < n \<and> i \<notin> L \<and> (\<forall>j < n. j \<notin> L \<longrightarrow> cpos es i < rpos es j)"

definition moves :: "('v, 's) Model \<Rightarrow> 'v entry list \<Rightarrow> nat \<Rightarrow> 's \<Rightarrow> 's \<Rightarrow> bool" where
  "moves M es i st st' \<longleftrightarrow> Step M st (inp es i) (outp es i) = Some (True, st')"

inductive lin :: "('v, 's) Model \<Rightarrow> nat \<Rightarrow> 'v entry list \<Rightarrow> nat set \<Rightarrow> 's \<Rightarrow> bool" for M n es where
  lin_all: "{..<n} \<subseteq> L \<Longrightarrow> lin M n es L st"
| lin_next: "cand n es L i \<Longrightarrow> moves M es i st st' \<Longrightarrow> lin M n es (insert i L) st' \<Longrightarrow> lin M n es L st"

text \<open>\<open>Equal\<close> is allowed to identify states as long as equal states behave alike.\<close>

definition equal_ok :: "('v, 's) Model \<Rightarrow> bool" where
  "equal_ok M \<longleftrightarrow> (\<exists>eq. Equal M = Some eq \<and> (\<forall>a b x y a'. eq a b \<longrightarrow> Step M a x y = Some (True, a')
      \<longrightarrow> (\<exists>b'. Step M b x y = Some (True, b') \<and> eq a' b')))"

lemma lin_equal:
  assumes "lin M n es L a" and "equal_ok M" "Equal M = Some eq" "eq a b"
  shows "lin M n es L b"
  using assms(1,4)
proof (induction arbitrary: b)
  case (lin_all L st)
  then show ?case by (simp add: lin.lin_all)
next
  case (lin_next L i st st')
  obtain b' where "moves M es i b b'" "eq st' b'"
    using lin_next.hyps(2) lin_next.prems assms(2,3) unfolding equal_ok_def moves_def by force
  with lin_next.IH lin_next.hyps(1) show ?case by (blast intro: lin.lin_next)
qed

subsection \<open>The heap during the search\<close>

definition addr :: "'v entry list \<Rightarrow> nat \<Rightarrow> nat" where
  "addr es k = length es - 1 - k"

definition node_facts :: "nat \<Rightarrow> 'v entry list \<Rightarrow> 'v heap \<Rightarrow> bool" where
  "node_facts n es h \<longleftrightarrow> (\<forall>i < n.
      shape (h ! addr es (cpos es i)) = (inp es i, Some (addr es (rpos es i)), int i)
    \<and> shape (h ! addr es (rpos es i)) = (outp es i, None, int i))"

definition heap_ok :: "nat \<Rightarrow> 'v entry list \<Rightarrow> nat set \<Rightarrow> 'v heap \<Rightarrow> bool" where
  "heap_ok n es L h \<longleftrightarrow> length h = Suc (length es) \<and> node_facts n es h
     \<and> dll h (length es # map (addr es) (remaining es L))"

lemma ret_of_pos:
  assumes "j < length es" "kind (es ! j) = returnEntry" "id_of (es ! j) = i"
    and "\<And>k. k < j \<Longrightarrow> \<not> (kind (es ! k) = returnEntry \<and> id_of (es ! k) = i)"
  shows "ret_of es i = Some (length es - 1 - j)"
  using assms
proof (induction es arbitrary: j)
  case (Cons e es)
  show ?case
  proof (cases j)
    case 0
    then show ?thesis using Cons.prems by simp
  next
    case (Suc k)
    have "ret_of es i = Some (length es - 1 - k)"
    proof (rule Cons.IH)
      show "\<not> (kind (es ! l) = returnEntry \<and> id_of (es ! l) = i)" if "l < k" for l
        using Cons.prems(4) [of "Suc l"] that Suc by simp
    qed (use Cons.prems Suc in simp_all)
    moreover have "\<not> (kind e = returnEntry \<and> id_of e = i)" using Cons.prems(4) [of 0] Suc by simp
    ultimately show ?thesis using Suc by auto
  qed
qed simp

lemma built_shape:
  assumes wf: "well_formed n es" and "built (rev es) h" and k: "k < length es"
  shows "shape (h ! addr es k) = (val (es ! k),
    (if kind (es ! k) = returnEntry then None else ret_of (drop (Suc k) es) (id_of (es ! k))), id_of (es ! k))"
proof -
  have a: "addr es k < length (rev es)" "rev es ! addr es k = es ! k" using k by (simp_all add: addr_def rev_nth)
  have "rev (take (addr es k) (rev es)) = drop (Suc k) es" using k by (simp add: addr_def take_rev Suc_diff_le)
  with a show ?thesis using assms(2) unfolding built_def by metis
qed

lemma built_node_facts:
  assumes wf: "well_formed n es" and b: "built (rev es) h"
  shows "node_facts n es h"
  unfolding node_facts_def
proof (intro allI impI conjI)
  fix i assume i: "i < n"
  note c = wf_pos [OF wf i, of callEntry] and r = wf_pos [OF wf i, of returnEntry]
  show "shape (h ! addr es (rpos es i)) = (outp es i, None, int i)"
    using built_shape [OF wf b r(1)] r by (simp add: outp_def)
  let ?j = "rpos es i - Suc (cpos es i)" and ?ds = "drop (Suc (cpos es i)) es"
  have lt: "cpos es i < rpos es i" by (rule wf_call_return [OF wf i])
  have idx: "?ds ! k = es ! (Suc (cpos es i) + k)" if "k \<le> ?j" for k using c(1) that r(1) lt by simp
  have "ret_of ?ds (int i) = Some (length ?ds - 1 - ?j)"
  proof (rule ret_of_pos)
    show "?j < length ?ds" using lt r(1) by simp
    show "kind (?ds ! ?j) = returnEntry" "id_of (?ds ! ?j) = int i" using idx [of ?j] lt r by simp_all
    fix k assume k: "k < ?j"
    show "\<not> (kind (?ds ! k) = returnEntry \<and> id_of (?ds ! k) = int i)"
    proof
      assume "kind (?ds ! k) = returnEntry \<and> id_of (?ds ! k) = int i"
      then have "Suc (cpos es i) + k = rpos es i"
        using wf_unique [OF wf _ r(1), of "Suc (cpos es i) + k"] idx [of k] k r by simp
      with k show False by simp
    qed
  qed
  moreover have "length ?ds - 1 - ?j = addr es (rpos es i)" using lt r(1) by (simp add: addr_def)
  ultimately show "shape (h ! addr es (cpos es i)) = (inp es i, Some (addr es (rpos es i)), int i)"
    using built_shape [OF wf b c(1)] c by (simp add: inp_def)
qed

lemma map_addr_all: "map (addr es) (remaining es {}) = rev [0..<length es]"
  by (rule nth_equalityI) (simp_all add: remaining_def addr_def rev_nth)

lemma heap_start:
  assumes wf: "well_formed n es"
  obtains h h2 where "makeLinkedEntries [] es = Some (h, first_of (map (addr es) (remaining es {})) None)"
    "list_length h (first_of (map (addr es) (remaining es {})) None) = Some (int (2 * n))"
    "insertBefore (h @ [\<lparr>nvalue = None, nmatch = None, nid = -1, nnext = None, nprev = None\<rparr>]) (Some (length h))
       (first_of (map (addr es) (remaining es {})) None) = Some (h2, Some (length es))"
    "length h = length es" "heap_ok n es {} h2"
proof -
  let ?hd = "\<lparr>nvalue = None, nmatch = None, nid = -1, nnext = None, nprev = None\<rparr> :: 'a node"
  let ?as = "rev [0..<length es]"
  obtain h where h: "makeLinkedEntries [] es = Some (h, first_of ?as None)" "built (rev es) h"
    by (rule makeLinkedEntries_built)
  from h(2) have len: "length h = length es" and d: "dll h ?as" by (simp_all add: built_def)
  obtain h2 where h2: "insertBefore (h @ [?hd]) (Some (length h)) (first_of ?as None) = Some (h2, Some (length h))"
    "dll h2 (length h # ?as)" "map shape h2 = map shape (h @ [?hd])"
    by (rule insertBefore_dll [OF d, of ?hd]) (auto simp del: map_append)
  have len2: "length h2 = Suc (length es)" using arg_cong [OF h2(3), of length] len by simp
  have sh: "shape (h2 ! a) = shape (h ! a)" if "a < length es" for a
  proof -
    have "map shape h2 ! a = map shape (h @ [?hd]) ! a" using h2(3) by simp
    then show ?thesis using that len len2 by (simp add: nth_append)
  qed
  have "addr es k < length es" if "k < length es" for k using that by (simp add: addr_def)
  then have "node_facts n es h2"
    using built_node_facts [OF wf h(2)] wf_pos(1) [OF wf] by (simp add: node_facts_def sh)
  then have "heap_ok n es {} h2" using h2(2) len len2 by (simp add: heap_ok_def map_addr_all)
  moreover have "list_length h (first_of ?as None) = Some (int (2 * n))"
    using list_length_dll [of h None ?as 0] d wf_length [OF wf] by (simp add: list_length_def dll_def)
  ultimately show thesis using that h(1) h2(1) len by (simp add: map_addr_all)
qed

lemma heap_lift:
  assumes wf: "well_formed n es" and h: "heap_ok n es L h" and i: "i < n" "i \<notin> L"
  obtains h' where "lift h (Some (addr es (cpos es i))) = Some h'" "heap_ok n es (insert i L) h'"
    "unlift h' (Some (addr es (cpos es i))) = Some h"
proof -
  let ?c = "addr es (cpos es i)" and ?r = "addr es (rpos es i)"
  have "cpos es i \<in> set (remaining es L)" using remaining_pos [OF wf i(1)] i(2) by simp
  then obtain xs zs where xz: "remaining es L = xs @ cpos es i # zs" by (auto simp: in_set_conv_decomp)
  obtain ys vs where zs: "zs = ys @ rpos es i # vs" and rem: "remaining es (insert i L) = xs @ ys @ vs"
    by (rule remaining_split [OF wf i xz])
  have dl: "dll h ((length es # map (addr es) xs) @ ?c # map (addr es) ys @ ?r # map (addr es) vs)"
    using h xz zs by (simp add: heap_ok_def)
  have "nmatch (h ! ?c) = Some ?r" using h i by (simp add: heap_ok_def node_facts_def shape_def)
  from lift_dll [OF dl _ this] obtain h' where h': "lift h (Some ?c) = Some h'"
      "dll h' ((length es # map (addr es) xs) @ map (addr es) ys @ map (addr es) vs)"
      "unlift h' (Some ?c) = Some h" "map shape h' = map shape h"
    by blast
  have len: "length h' = length h" using arg_cong [OF h'(4), of length] by simp
  have "shape (h' ! a) = shape (h ! a)" if "a < length h" for a using h'(4) len that by (metis nth_map)
  moreover have "addr es k < length h" for k using h by (auto simp: addr_def heap_ok_def)
  ultimately have "heap_ok n es (insert i L) h'"
    using h h'(2) rem len by (simp add: heap_ok_def node_facts_def)
  with h'(1,3) show thesis using that by blast
qed

subsection \<open>Paths of the search\<close>

text \<open>The calls stack: the operations linearized so far, each with the state before it, and the
  heap that lifting them produced.\<close>

definition ids :: "(nat \<times> 's) list \<Rightarrow> nat set" where
  "ids cs = fst ` set cs"

inductive path :: "('v, 's) Model \<Rightarrow> nat \<Rightarrow> 'v entry list \<Rightarrow> 'v heap \<Rightarrow> (nat \<times> 's) list \<Rightarrow> 's \<Rightarrow> 'v heap \<Rightarrow> bool"
  for M n es h0 where
  path_init: "path M n es h0 [] (Init M) h0"
| path_snoc: "path M n es h0 cs st h \<Longrightarrow> cand n es (ids cs) i \<Longrightarrow> moves M es i st st'
    \<Longrightarrow> lift h (Some (addr es (cpos es i))) = Some h' \<Longrightarrow> path M n es h0 (cs @ [(i, st)]) st' h'"

inductive_cases path_snocE: "path M n es h0 (cs @ [(i, st0)]) st h"

lemma ids_snoc [simp]: "ids (cs @ [(i, st)]) = insert i (ids cs)"
  by (auto simp: ids_def)

lemma ids_Nil [simp]: "ids [] = {}"
  by (simp add: ids_def)

lemma path_lin: "path M n es h0 cs st h \<Longrightarrow> lin M n es (ids cs) st \<Longrightarrow> lin M n es {} (Init M)"
proof (induction rule: path.induct)
  case (path_snoc cs st h i st' h')
  then show ?case by (auto intro: lin_next)
qed simp

lemma path_distinct: "path M n es h0 cs st h \<Longrightarrow> distinct (map fst cs) \<and> ids cs \<subseteq> {..<n}"
  by (induction rule: path.induct) (auto simp: cand_def ids_def)

lemma path_card:
  assumes "path M n es h0 cs st h"
  shows "card (ids cs) = length cs" "length cs \<le> n"
proof -
  have "card (set (map fst cs)) = length (map fst cs)"
    using path_distinct [OF assms] by (intro distinct_card) simp
  then show c: "card (ids cs) = length cs" by (simp add: ids_def)
  have "card (ids cs) \<le> card {..<n}" using path_distinct [OF assms] by (intro card_mono) auto
  with c show "length cs \<le> n" by simp
qed

text \<open>The configurations on a path, other than the first.\<close>

fun on_rev :: "(nat \<times> 's) list \<Rightarrow> 's \<Rightarrow> (nat set \<times> 's) set" where
  "on_rev [] st = {}"
| "on_rev ((i, s) # rs) st = insert (insert i (ids rs), st) (on_rev rs s)"

definition on_path :: "(nat \<times> 's) list \<Rightarrow> 's \<Rightarrow> (nat set \<times> 's) set" where
  "on_path cs st = on_rev (rev cs) st"

lemma on_path_simps [simp]: "on_path [] st = {}"
  "on_path (cs @ [(i, s)]) st = insert (insert i (ids cs), st) (on_path cs s)"
  by (simp_all add: on_path_def ids_def)

lemma on_path_card: "(L, s) \<in> on_path cs st \<Longrightarrow> card L \<le> length cs"
proof (induction cs arbitrary: st rule: rev_induct)
  case (snoc x cs)
  obtain i t where x: "x = (i, t)" by (cases x)
  have "card (insert i (ids cs)) \<le> card (set (i # map fst cs))" by (simp add: ids_def)
  also have "\<dots> \<le> length (i # map fst cs)" by (rule card_length)
  finally have "card (insert i (ids cs)) \<le> Suc (length cs)" by simp
  with snoc x show ?case by fastforce
qed simp

lemma path_heap:
  assumes "path M n es h0 cs st h" and "well_formed n es" "heap_ok n es {} h0"
  shows "heap_ok n es (ids cs) h"
  using assms(1)
proof (induction rule: path.induct)
  case (path_snoc cs st h i st' h')
  then show ?case using heap_lift [OF assms(2), of "ids cs" h i] by (auto simp: cand_def)
qed (simp add: assms(3))

lemma path_unlift:
  assumes "path M n es h0 (cs @ [(i, s)]) st h" and wf: "well_formed n es" and h0: "heap_ok n es {} h0"
  obtains h1 where "path M n es h0 cs s h1" "unlift h (Some (addr es (cpos es i))) = Some h1"
    "cand n es (ids cs) i" "moves M es i s st"
proof -
  from assms(1) obtain h1 where h1: "path M n es h0 cs s h1" "cand n es (ids cs) i" "moves M es i s st"
      "lift h1 (Some (addr es (cpos es i))) = Some h"
    by (auto elim: path_snocE)
  from heap_lift [OF wf path_heap [OF h1(1) wf h0], of i] h1(2,4) have "unlift h (Some (addr es (cpos es i))) = Some h1"
    by (auto simp: cand_def)
  with h1 that show thesis by blast
qed

subsection \<open>The invariant of the loop\<close>

definition cached :: "(64 word \<Rightarrow> 's cacheEntry list) \<Rightarrow> (nat set \<times> 's) set" where
  "cached ch = {(bits_of (ceLinearized e), ceState e) | e hash. e \<in> set (ch hash)}"

definition identified :: "('v, 's) Model \<Rightarrow> 's \<Rightarrow> 's \<Rightarrow> bool" where
  "identified M a b \<longleftrightarrow> a = b \<or> (case Equal M of None \<Rightarrow> False | Some eq \<Rightarrow> eq a b)"

definition tried :: "('v, 's) Model \<Rightarrow> 'v entry list \<Rightarrow> (nat set \<times> 's) set \<Rightarrow> nat set \<Rightarrow> 's \<Rightarrow> nat \<Rightarrow> bool" where
  "tried M es K L st i \<longleftrightarrow> (\<forall>st'. moves M es i st st' \<longrightarrow>
     (\<exists>s'. (insert i L, s') \<in> K \<and> identified M st' s'))"

fun levels_rev :: "('v, 's) Model \<Rightarrow> nat \<Rightarrow> 'v entry list \<Rightarrow> (nat set \<times> 's) set \<Rightarrow> (nat \<times> 's) list \<Rightarrow> bool" where
  "levels_rev M n es K [] \<longleftrightarrow> True"
| "levels_rev M n es K ((i, s) # rs) \<longleftrightarrow>
     (\<forall>j. cand n es (ids rs) j \<longrightarrow> cpos es j \<le> cpos es i \<longrightarrow> tried M es K (ids rs) s j) \<and> levels_rev M n es K rs"

definition levels :: "('v, 's) Model \<Rightarrow> nat \<Rightarrow> 'v entry list \<Rightarrow> (nat set \<times> 's) set \<Rightarrow> (nat \<times> 's) list \<Rightarrow> bool" where
  "levels M n es K cs \<longleftrightarrow> levels_rev M n es K (rev cs)"

definition call_of :: "'v entry list \<Rightarrow> nat \<times> 's \<Rightarrow> 's callsEntry" where
  "call_of es x = \<lparr>clEntry = Some (addr es (cpos es (fst x))), clState = snd x\<rparr>"

text \<open>What the model does on a sequence of operations; and the sequences that are kept in \<open>longest\<close>.\<close>

fun runs_to :: "('v, 's) Model \<Rightarrow> 'v entry list \<Rightarrow> 's \<Rightarrow> nat list \<Rightarrow> 's \<Rightarrow> bool" where
  "runs_to M es st [] st' \<longleftrightarrow> st' = st"
| "runs_to M es st (i # order) st' \<longleftrightarrow> (\<exists>st1. moves M es i st st1 \<and> runs_to M es st1 order st')"

lemma runs_to_append: "runs_to M es st (u @ v) st' \<longleftrightarrow> (\<exists>st1. runs_to M es st u st1 \<and> runs_to M es st1 v st')"
  by (induction u arbitrary: st) auto

lemma path_runs: "path M n es h0 cs st h \<Longrightarrow> runs_to M es (Init M) (map fst cs) st"
  by (induction rule: path.induct) (auto simp: runs_to_append)

definition valid_seq :: "('v, 's) Model \<Rightarrow> nat \<Rightarrow> 'v entry list \<Rightarrow> int list \<Rightarrow> bool" where
  "valid_seq M n es sq \<longleftrightarrow>
     (\<exists>order st. sq = map int order \<and> distinct order \<and> set order \<subseteq> {..<n} \<and> runs_to M es (Init M) order st)"

lemma path_valid:
  assumes "path M n es h0 cs st h" "distinct (map fst cs)" "ids cs \<subseteq> {..<n}"
  shows "valid_seq M n es (map (int \<circ> fst) cs)"
  unfolding valid_seq_def using path_runs [OF assms(1)] assms(2,3)
  by (intro exI [of _ "map fst cs"] exI [of _ st]) (simp add: ids_def)

definition longest_ok :: "(int list \<Rightarrow> bool) \<Rightarrow> nat \<Rightarrow> nat option list \<Rightarrow> int list list \<Rightarrow> bool" where
  "longest_ok P n lon sqs \<longleftrightarrow> length lon = n \<and> (\<forall>p. Some p \<in> set lon \<longrightarrow> p < length sqs) \<and> (\<forall>sq \<in> set sqs. P sq)"

definition search_inv :: "('v, 's) Model \<Rightarrow> nat \<Rightarrow> 'v entry list \<Rightarrow> 'v heap \<Rightarrow> ('v, 's) chk
    \<Rightarrow> (nat \<times> 's) list \<Rightarrow> nat list \<Rightarrow> nat list \<Rightarrow> bool" where
  "search_inv M n es h0 c cs xs ys \<longleftrightarrow>
     path M n es h0 cs (cstate c) (heap c)
   \<and> calls c = map (call_of es) cs
   \<and> bits_of (linearized c) = ids cs \<and> n \<le> 64 * length (linearized c)
   \<and> remaining es (ids cs) = xs @ ys \<and> entryp c = first_of (map (addr es) ys) None
   \<and> (\<forall>k \<in> set xs. kind (es ! k) = callEntry)
   \<and> (\<forall>i. cand n es (ids cs) i \<longrightarrow> cpos es i \<in> set xs \<longrightarrow> tried M es (cached (cache c)) (ids cs) (cstate c) i)
   \<and> levels M n es (cached (cache c)) cs
   \<and> (\<forall>(L, s) \<in> cached (cache c). (L, s) \<in> on_path cs (cstate c) \<or> \<not> lin M n es L s)
   \<and> longest_ok (valid_seq M n es) n (longest c) (seqs c)"

lemma levels_simps [simp]: "levels M n es K []"
  "levels M n es K (cs @ [(i, s)]) \<longleftrightarrow>
     (\<forall>j. cand n es (ids cs) j \<longrightarrow> cpos es j \<le> cpos es i \<longrightarrow> tried M es K (ids cs) s j) \<and> levels M n es K cs"
  by (simp_all add: levels_def ids_def)

lemma tried_mono: "tried M es K L st i \<Longrightarrow> K \<subseteq> K' \<Longrightarrow> tried M es K' L st i"
  unfolding tried_def by blast

lemma levels_mono: "levels M n es K cs \<Longrightarrow> K \<subseteq> K' \<Longrightarrow> levels M n es K' cs"
proof (induction cs rule: rev_induct)
  case (snoc x cs)
  then show ?case by (cases x) (auto intro: tried_mono)
qed simp

lemma cached_insert: "cached (ch(hash := ch hash @ [e])) = insert (bits_of (ceLinearized e), ceState e) (cached ch)"
  by (fastforce simp: cached_def split: if_splits)

lemma lin_identified:
  assumes "lin M n es L a" "equal_ok M" "identified M a b"
  shows "lin M n es L b"
proof (cases "a = b")
  case False
  obtain eq where eq: "Equal M = Some eq" using assms(2) by (auto simp: equal_ok_def)
  with assms(3) False have "eq a b" by (simp add: identified_def)
  with assms(1,2) eq show ?thesis by (rule lin_equal)
qed (use assms in simp)

text \<open>When the scan reaches a return, every candidate has been tried and the configuration is
  dead.\<close>

lemma exhausted:
  assumes wf: "well_formed n es" and inv: "search_inv M n es h0 c cs xs (k # ys)"
    and ret: "kind (es ! k) = returnEntry" and eq: "equal_ok M"
  shows "\<not> lin M n es (ids cs) (cstate c)"
proof
  let ?L = "ids cs" and ?K = "cached (cache c)"
  assume lin: "lin M n es ?L (cstate c)"
  have rem: "remaining es ?L = xs @ k # ys" and p: "path M n es h0 cs (cstate c) (heap c)"
    using inv by (simp_all add: search_inv_def)
  have "k \<in> set (remaining es ?L)" using rem by simp
  then have k: "k < length es" "id_of (es ! k) \<notin> int ` ?L" by (simp_all add: remaining_iff)
  obtain j where j: "j < n" "id_of (es ! k) = int j" by (rule wf_id [OF wf k(1)])
  have kj: "k = rpos es j" using wf_pos_eq [OF wf k(1) j(2,1)] ret by simp
  have jL: "j \<notin> ?L" using k(2) j(2) by auto
  from lin show False
  proof cases
    case lin_all
    with j(1) jL show False by auto
  next
    case (lin_next i st')
    have ci: "i < n" "i \<notin> ?L" "cpos es i < k" using lin_next(1) jL j(1) kj by (auto simp: cand_def)
    have "cpos es i \<in> set (xs @ k # ys)" using remaining_pos [OF wf ci(1), of callEntry ?L] ci(2) rem by simp
    moreover have "sorted_wrt (<) (xs @ k # ys)" using remaining_sorted [of es ?L] rem by simp
    ultimately have "cpos es i \<in> set xs" using ci(3) by (auto simp: sorted_wrt_append)
    then have "tried M es ?K ?L (cstate c) i" using inv lin_next(1) by (simp add: search_inv_def)
    then obtain s' where s': "(insert i ?L, s') \<in> ?K" "identified M st' s'" using lin_next(2) unfolding tried_def by blast
    have "(insert i ?L, s') \<in> on_path cs (cstate c) \<or> \<not> lin M n es (insert i ?L) s'"
      using inv s'(1) unfolding search_inv_def by fastforce
    moreover have "lin M n es (insert i ?L) s'" by (rule lin_identified [OF lin_next(3) eq s'(2)])
    ultimately have "(insert i ?L, s') \<in> on_path cs (cstate c)" by simp
    then have "card (insert i ?L) \<le> length cs" by (rule on_path_card)
    moreover have "card (insert i ?L) = Suc (length cs)"
      using ci(2) path_card(1) [OF p] by (simp add: ids_def)
    ultimately show False by simp
  qed
qed

lemma heap_nodes:
  assumes wf: "well_formed n es" and h: "heap_ok n es L h" and i: "i < n"
  obtains e m where "deref h (Some (addr es (cpos es i))) = Some e" "nmatch e = Some (addr es (rpos es i))"
    "nvalue e = inp es i" "nid e = int i" "deref h (Some (addr es (rpos es i))) = Some m" "nvalue m = outp es i" "nmatch m = None"
proof -
  have "addr es k < length h" for k using h by (auto simp: addr_def heap_ok_def)
  moreover have "node_facts n es h" using h by (simp add: heap_ok_def)
  ultimately show thesis
    using that [of "h ! addr es (cpos es i)" "h ! addr es (rpos es i)"] i
    by (simp add: deref_Some node_facts_def shape_def)
qed

lemma heap_next:
  assumes "heap_ok n es L h" "remaining es L = xs @ k # ys"
  shows "nnext (h ! addr es k) = first_of (map (addr es) ys) None"
  using assms by (auto simp: heap_ok_def dll_def seg_append)

lemma heap_head:
  assumes "heap_ok n es L h"
  obtains hd' where "deref h (Some (length es)) = Some hd'" "nnext hd' = first_of (map (addr es) (remaining es L)) None"
  using assms that [of "h ! length es"] by (simp add: heap_ok_def dll_def deref_Some)

lemma cache_scan_total: "eq \<noteq> None \<Longrightarrow> \<exists>b. cache_scan eq ent es = Some b"
  by (induction es) auto

lemma cache_scan_hit:
  "cache_scan eq ent es = Some True \<Longrightarrow> \<exists>e \<in> set es. ceLinearized e = ceLinearized ent \<and> (\<exists>f. eq = Some f \<and> f (ceState ent) (ceState e))"
  by (induction es) (auto simp: bs_equals_iff split: if_splits option.splits)

lemma cacheContains_hit:
  assumes "cacheContains M ch \<lparr>ceLinearized = b, ceState = st\<rparr> = Some True"
  obtains s' where "(bits_of b, s') \<in> cached ch" "identified M st s'"
proof -
  from cache_scan_hit [OF assms [unfolded cacheContains_def]] obtain e f where
    "e \<in> set (ch (bs_hash b))" "ceLinearized e = b" "Equal M = Some f" "f st (ceState e)" by auto
  with that [of "ceState e"] show thesis by (auto simp: cached_def identified_def)
qed

text \<open>A measure for the loop: the positions chosen at each level, counted from the end of the
  list, with levels not entered yet counting most.\<close>

definition cur_digit :: "'v entry list \<Rightarrow> nat list \<Rightarrow> nat" where
  "cur_digit es ys = (case ys of [] \<Rightarrow> 0 | k # _ \<Rightarrow> length es - k)"

definition digits :: "nat \<Rightarrow> 'v entry list \<Rightarrow> (nat \<times> 's) list \<Rightarrow> nat list \<Rightarrow> nat list" where
  "digits n es cs ys = map (\<lambda>x. length es - cpos es (fst x)) cs @ cur_digit es ys # replicate (n - length cs) (Suc (length es))"

lemma lex_prefix: "(b :: nat) < a \<Longrightarrow> length us = length vs \<Longrightarrow> (xs @ b # us, xs @ a # vs) \<in> lex less_than"
  by (induction xs) auto

lemma digits_scan:
  assumes "cur_digit es ys' < cur_digit es ys"
  shows "(digits n es cs ys', digits n es cs ys) \<in> lex less_than"
  unfolding digits_def using assms by (intro lex_prefix) simp_all

lemma digits_lift:
  assumes "length cs < n"
  shows "(digits n es (cs @ [(i, s)]) ys', digits n es cs (cpos es i # ys)) \<in> lex less_than"
proof -
  have "n - length cs = Suc (n - Suc (length cs))" using assms by simp
  then have "digits n es cs (cpos es i # ys) =
      (map (\<lambda>x. length es - cpos es (fst x)) cs @ [length es - cpos es i]) @ Suc (length es) # replicate (n - Suc (length cs)) (Suc (length es))"
    by (simp add: digits_def cur_digit_def)
  moreover have "digits n es (cs @ [(i, s)]) ys' =
      (map (\<lambda>x. length es - cpos es (fst x)) cs @ [length es - cpos es i]) @ cur_digit es ys' # replicate (n - Suc (length cs)) (Suc (length es))"
    by (simp add: digits_def)
  moreover have "cur_digit es ys' < Suc (length es)" by (cases ys') (simp_all add: cur_digit_def)
  ultimately show ?thesis by (simp only:) (intro lex_prefix, simp_all)
qed

lemma digits_unlift:
  assumes "cur_digit es ys' < length es - cpos es i" "length cs < n"
  shows "(digits n es cs ys', digits n es (cs @ [(i, s)]) ys) \<in> lex less_than"
  unfolding digits_def using assms by simp (intro lex_prefix, simp_all)

subsection \<open>One iteration\<close>

definition step_total :: "('v, 's) Model \<Rightarrow> nat \<Rightarrow> 'v entry list \<Rightarrow> bool" where
  "step_total M n es \<longleftrightarrow> (\<forall>s. \<forall>i < n. Step M s (inp es i) (outp es i) \<noteq> None)"

lemma go_uint_int: "i < n \<Longrightarrow> n < 2 ^ 64 \<Longrightarrow> go_uint (int i) = i"
  by (simp add: go_uint_def)

lemma inv_path: "search_inv M n es h0 c cs xs ys \<Longrightarrow> path M n es h0 cs (cstate c) (heap c)"
  by (simp add: search_inv_def)

lemma inv_heap:
  assumes "search_inv M n es h0 c cs xs ys" "well_formed n es" "heap_ok n es {} h0"
  shows "heap_ok n es (ids cs) (heap c)"
  by (rule path_heap [OF inv_path [OF assms(1)] assms(2,3)])

lemma entry_at_call:
  assumes wf: "well_formed n es" and inv: "search_inv M n es h0 c cs xs (k # ys)" and call: "kind (es ! k) = callEntry"
  obtains i where "k = cpos es i" "cand n es (ids cs) i" "length cs < n" "ys \<noteq> []"
    "\<And>j. cand n es (ids cs) j \<Longrightarrow> cpos es j \<le> k \<Longrightarrow> j = i \<or> cpos es j \<in> set xs"
proof -
  let ?L = "ids cs"
  have rem: "remaining es ?L = xs @ k # ys" and xs: "\<forall>k \<in> set xs. kind (es ! k) = callEntry"
    and p: "path M n es h0 cs (cstate c) (heap c)" using inv by (simp_all add: search_inv_def)
  have "k \<in> set (remaining es ?L)" using rem by simp
  then have k: "k < length es" "id_of (es ! k) \<notin> int ` ?L" by (simp_all add: remaining_iff)
  obtain i where i: "i < n" "id_of (es ! k) = int i" by (rule wf_id [OF wf k(1)])
  have ki: "k = cpos es i" using wf_pos_eq [OF wf k(1) i(2,1)] call by simp
  have iL: "i \<notin> ?L" using k(2) i(2) by auto
  have srt: "sorted_wrt (<) (xs @ k # ys)" using remaining_sorted [of es ?L] rem by simp
  have later: "rpos es j \<in> set ys" if "j < n" "j \<notin> ?L" for j
  proof -
    have "rpos es j \<in> set (xs @ k # ys)" using remaining_pos [OF wf that(1), of returnEntry ?L] that(2) rem by simp
    then show ?thesis using wf_pos(2) [OF wf that(1), of returnEntry] xs call by auto
  qed
  have "cand n es ?L i" using later srt ki i(1) iL by (auto simp: cand_def sorted_wrt_append)
  moreover have "length cs < n"
  proof -
    have "card (insert i ?L) \<le> card {..<n}" using path_distinct [OF p] i(1) by (intro card_mono) auto
    then show ?thesis using iL path_card(1) [OF p] by (simp add: ids_def)
  qed
  moreover have "ys \<noteq> []" using later [OF i(1) iL] by auto
  moreover have "j = i \<or> cpos es j \<in> set xs" if "cand n es ?L j" "cpos es j \<le> k" for j
  proof -
    have j: "j < n" "j \<notin> ?L" using that(1) by (simp_all add: cand_def)
    have "cpos es j \<in> set (xs @ k # ys)" using remaining_pos [OF wf j(1), of callEntry ?L] j(2) rem by simp
    with that(2) srt have "cpos es j \<in> set xs \<or> cpos es j = k" by (auto simp: sorted_wrt_append)
    moreover have "j = i" if "cpos es j = k" using wf_pos(3) [OF wf j(1), of callEntry] that i(2) by simp
    ultimately show ?thesis by blast
  qed
  ultimately show thesis using that ki by blast
qed

text \<open>Moving on to the next entry.\<close>

lemma scan_inv:
  assumes wf: "well_formed n es" and inv: "search_inv M n es h0 c cs xs (k # ys)" and call: "kind (es ! k) = callEntry"
    and k: "k = cpos es i" "i < n" and tr: "tried M es (cached (cache c)) (ids cs) (cstate c) i"
  shows "search_inv M n es h0 (c\<lparr>entryp := first_of (map (addr es) ys) None\<rparr>) cs (xs @ [k]) ys"
proof -
  have "j = i" if "cand n es (ids cs) j" "cpos es j = k" for j
    using wf_pos(3) [OF wf k(2), of callEntry] wf_pos(3) [OF wf, of j callEntry] that k(1) by (simp add: cand_def)
  then show ?thesis using inv call tr unfolding search_inv_def by auto
qed

text \<open>Linearizing an operation.\<close>

lemma lift_inv:
  assumes wf: "well_formed n es" and inv: "search_inv M n es h0 c cs xs (k # ys)" and k: "k = cpos es i"
    and cnd: "cand n es (ids cs) i" and mv: "moves M es i (cstate c) st'"
    and earlier: "\<And>j. cand n es (ids cs) j \<Longrightarrow> cpos es j \<le> k \<Longrightarrow> j = i \<or> cpos es j \<in> set xs"
    and lf: "lift (heap c) (Some (addr es k)) = Some h'"
    and bs: "bits_of b = insert i (ids cs)" "n \<le> 64 * length b"
  shows "search_inv M n es h0
     (c\<lparr>heap := h', entryp := first_of (map (addr es) (remaining es (insert i (ids cs)))) None, linearized := b,
        cache := (cache c)(hash := cache c hash @ [\<lparr>ceLinearized = b, ceState = st'\<rparr>]),
        calls := calls c @ [\<lparr>clEntry = Some (addr es k), clState = cstate c\<rparr>], cstate := st'\<rparr>)
     (cs @ [(i, cstate c)]) [] (remaining es (insert i (ids cs)))"
proof -
  let ?K = "cached (cache c)" and ?L = "ids cs"
  let ?K' = "insert (insert i ?L, st') ?K"
  have p: "path M n es h0 (cs @ [(i, cstate c)]) st' h'"
    using path_snoc [OF inv_path [OF inv] cnd mv] lf k by simp
  have tr: "tried M es ?K ?L (cstate c) j" if "cand n es ?L j" "cpos es j \<in> set xs" for j
    using inv that by (simp add: search_inv_def)
  have "tried M es ?K' ?L (cstate c) i" using mv by (auto simp: tried_def moves_def identified_def)
  then have "tried M es ?K' ?L (cstate c) j" if "cand n es ?L j" "cpos es j \<le> k" for j
    using earlier [OF that] tried_mono [OF tr [OF that(1)] subset_insertI] by auto
  moreover have "levels M n es ?K' cs" using inv levels_mono [of M n es ?K cs ?K'] by (auto simp: search_inv_def)
  ultimately have lv: "levels M n es ?K' (cs @ [(i, cstate c)])" using k by simp
  have "(L, s) \<in> on_path (cs @ [(i, cstate c)]) st' \<or> \<not> lin M n es L s" if "(L, s) \<in> ?K'" for L s
    using that inv unfolding search_inv_def by auto
  then show ?thesis
    using inv p lv bs k unfolding search_inv_def by (auto simp: cached_insert call_of_def)
qed

lemma iter_call:
  assumes wf: "well_formed n es" and h0: "heap_ok n es {} h0" and inv: "search_inv M n es h0 c cs xs (k # ys)"
    and call: "kind (es ! k) = callEntry" and eq: "equal_ok M" and tot: "step_total M n es" and n: "n < 2 ^ 64"
  shows "\<exists>c' cs' xs' ys'. check_iter M cp (Some (length es)) c = Some (Inr c') \<and> search_inv M n es h0 c' cs' xs' ys'
    \<and> (digits n es cs' ys', digits n es cs (k # ys)) \<in> lex less_than"
proof -
  obtain i where ki: "k = cpos es i" and cnd: "cand n es (ids cs) i" and len: "length cs < n" and ys: "ys \<noteq> []"
    and earlier: "\<And>j. cand n es (ids cs) j \<Longrightarrow> cpos es j \<le> k \<Longrightarrow> j = i \<or> cpos es j \<in> set xs"
    by (rule entry_at_call [OF wf inv call]) blast
  have i: "i < n" "i \<notin> ids cs" using cnd by (simp_all add: cand_def)
  note hp = inv_heap [OF inv wf h0]
  obtain e m where e: "deref (heap c) (Some (addr es k)) = Some e" "nmatch e = Some (addr es (rpos es i))"
      "nvalue e = inp es i" "nid e = int i" "deref (heap c) (Some (addr es (rpos es i))) = Some m" "nvalue m = outp es i"
    using heap_nodes [OF wf hp i(1)] ki by metis
  have ent: "entryp c = Some (addr es k)" using inv by (simp add: search_inv_def)
  have "k # ys \<noteq> []" "remaining es (ids cs) = xs @ k # ys" using inv by (simp_all add: search_inv_def)
  with heap_next [OF hp] e(1) have nx: "nnext e = first_of (map (addr es) ys) None"
    by (auto simp: deref_def split: if_splits)
  have uint: "go_uint (nid e) = i" using go_uint_int [OF i(1) n] e(4) by simp
  obtain b where b: "bs_set (linearized c) i = Some b" "bits_of b = insert i (ids cs)" "length b = length (linearized c)"
    using bs_set_eq [of i "linearized c"] i(1) inv by (auto simp: search_inv_def)
  obtain ok st' where st: "Step M (cstate c) (inp es i) (outp es i) = Some (ok, st')"
    using tot i(1) unfolding step_total_def by fastforce
  obtain hit where hit: "cacheContains M (cache c) \<lparr>ceLinearized = b, ceState = st'\<rparr> = Some hit"
    using cache_scan_total [of "Equal M" "\<lparr>ceLinearized = b, ceState = st'\<rparr>" "cache c (bs_hash b)"] eq
    unfolding cacheContains_def equal_ok_def by auto
  have iter: "check_iter M cp (Some (length es)) c = map_option Inr (check_call M (Some (length es)) c e)"
    using ent e by (simp add: check_iter_def)
  show ?thesis
  proof (cases "ok \<and> \<not> hit")
    case True
    let ?R = "remaining es (insert i (ids cs))" and ?cs = "cs @ [(i, cstate c)]"
    obtain h' where h': "lift (heap c) (Some (addr es k)) = Some h'" "heap_ok n es (insert i (ids cs)) h'"
      using heap_lift [OF wf hp i] ki by metis
    obtain hd' where hd': "deref h' (Some (length es)) = Some hd'" "nnext hd' = first_of (map (addr es) ?R) None"
      by (rule heap_head [OF h'(2)])
    have mv: "moves M es i (cstate c) st'" using st True by (simp add: moves_def)
    have nb: "n \<le> 64 * length b" using inv b(3) by (simp add: search_inv_def)
    note lift_inv [OF wf inv ki cnd mv earlier h'(1) b(2) nb]
    moreover have "(digits n es ?cs ?R, digits n es cs (k # ys)) \<in> lex less_than"
      unfolding ki by (rule digits_lift [OF len])
    moreover note iter
    ultimately show ?thesis
      using e st True uint b(1) hit h'(1) hd' ent by (fastforce simp: check_call_def Let_def)
  next
    case False
    have "tried M es (cached (cache c)) (ids cs) (cstate c) i"
    proof (cases ok)
      case True
      with False hit have "cacheContains M (cache c) \<lparr>ceLinearized = b, ceState = st'\<rparr> = Some True" by simp
      then obtain s' where "(bits_of b, s') \<in> cached (cache c)" "identified M st' s'" by (rule cacheContains_hit)
      then show ?thesis using st b(2) by (auto simp: tried_def moves_def)
    next
      case False
      then show ?thesis using st by (simp add: tried_def moves_def)
    qed
    note scan_inv [OF wf inv call ki i(1) this]
    moreover have "cur_digit es ys < cur_digit es (k # ys)"
    proof -
      have "sorted_wrt (<) (xs @ k # ys)" using remaining_sorted [of es "ids cs"] inv by (simp add: search_inv_def)
      then have "\<forall>l \<in> set ys. k < l" by (simp add: sorted_wrt_append)
      moreover have "k < length es" using wf_pos(1) [OF wf i(1)] ki by simp
      ultimately show ?thesis using ys by (cases ys) (auto simp: cur_digit_def)
    qed
    moreover have "check_call M (Some (length es)) c e = Some (c\<lparr>entryp := first_of (map (addr es) ys) None\<rparr>)"
      using e st False uint b(1) hit nx by (auto simp: check_call_def Let_def)
    ultimately show ?thesis using iter digits_scan by fastforce
  qed
qed

text \<open>Taking the last call back.\<close>

lemma unlift_inv:
  assumes wf: "well_formed n es" and h0: "heap_ok n es {} h0" and inv: "search_inv M n es h0 c (cs @ [(i, s)]) xs (k # ys)"
    and ret: "kind (es ! k) = returnEntry" and eq: "equal_ok M"
    and un: "unlift (heap c) (Some (addr es (cpos es i))) = Some h'" and bs: "bits_of b = ids cs" "n \<le> 64 * length b"
    and lon: "longest_ok (valid_seq M n es) n lon sqs" and rem: "remaining es (ids cs) = us @ cpos es i # vs"
  shows "search_inv M n es h0
     (c\<lparr>heap := h', entryp := first_of (map (addr es) vs) None, linearized := b, calls := butlast (calls c),
        cstate := s, longest := lon, seqs := sqs\<rparr>) cs (us @ [cpos es i]) vs"
proof -
  let ?K = "cached (cache c)"
  obtain p: "path M n es h0 cs s h'" and cnd: "cand n es (ids cs) i" and mv: "moves M es i s (cstate c)"
    using path_unlift [OF inv_path [OF inv] wf h0] un by (metis option.inject)
  have srt: "sorted_wrt (<) (us @ cpos es i # vs)" using remaining_sorted [of es "ids cs"] rem by simp
  have call: "kind (es ! l) = callEntry" if l: "l \<in> set us" for l
  proof (rule ccontr)
    assume "kind (es ! l) \<noteq> callEntry"
    then have kl: "kind (es ! l) = returnEntry" by (cases "kind (es ! l)") auto
    have "l \<in> set (remaining es (ids cs))" using l rem by simp
    then have l2: "l < length es" "id_of (es ! l) \<notin> int ` ids cs" by (simp_all add: remaining_iff)
    obtain j where j: "j < n" "id_of (es ! l) = int j" by (rule wf_id [OF wf l2(1)])
    have "l = rpos es j" using wf_pos_eq [OF wf l2(1) j(2,1)] kl by simp
    with cnd j l2(2) have "cpos es i < l" by (auto simp: cand_def)
    with srt l show False by (auto simp: sorted_wrt_append)
  qed
  have lv: "levels M n es ?K (cs @ [(i, s)])" using inv by (simp add: search_inv_def)
  have tr: "tried M es ?K (ids cs) s j" if "cand n es (ids cs) j" "cpos es j \<in> set (us @ [cpos es i])" for j
  proof -
    have "cpos es j \<le> cpos es i" using that(2) srt by (auto simp: sorted_wrt_append)
    with lv that(1) show ?thesis by simp
  qed
  have "\<not> lin M n es (insert i (ids cs)) (cstate c)" using exhausted [OF wf inv ret eq] by simp
  then have dead: "(L, s') \<in> on_path cs s \<or> \<not> lin M n es L s'" if "(L, s') \<in> ?K" for L s'
    using that inv unfolding search_inv_def by auto
  have "calls c = map (call_of es) (cs @ [(i, s)])" using inv by (simp add: search_inv_def)
  then have "butlast (calls c) = map (call_of es) cs" by simp
  moreover have "kind (es ! cpos es i) = callEntry" using wf_pos(2) [OF wf] cnd by (simp add: cand_def)
  moreover have "\<forall>(L, s') \<in> ?K. (L, s') \<in> on_path cs s \<or> \<not> lin M n es L s'" using dead by blast
  ultimately show ?thesis
    using p bs lon rem call tr lv unfolding search_inv_def by auto
qed

lemma seq_of_calls:
  assumes "well_formed n es" "heap_ok n es L h" "fst ` set cs \<subseteq> {..<n}"
  shows "seq_of h (map (call_of es) cs) = Some (map (int \<circ> fst) cs)"
  using assms(3)
proof (induction cs)
  case (Cons x cs)
  then have "fst x < n" by auto
  then obtain e where "deref h (Some (addr es (cpos es (fst x)))) = Some e" "nid e = int (fst x)"
    using heap_nodes [OF assms(1,2)] by metis
  with Cons show ?case by (simp add: call_of_def)
qed simp

lemma longest_ok_upd: "longest_ok P n lon sqs \<Longrightarrow> p < length sqs \<Longrightarrow> longest_ok P n (lon[i := Some p]) sqs"
  using set_update_subset_insert [of lon i "Some p"] unfolding longest_ok_def by fastforce

lemma longest_loop_total:
  assumes wf: "well_formed n es" and h: "heap_ok n es L h" and cs: "fst ` set cs \<subseteq> {..<n}" and P: "P (map (int \<circ> fst) cs)"
    and "fst ` set vs \<subseteq> {..<n}" "longest_ok P n lon sqs" "\<And>p. sq = Some p \<Longrightarrow> p < length sqs"
  shows "\<exists>lon' sqs'. longest_loop h (map (call_of es) cs) (map (call_of es) vs) sq lon sqs = Some (lon', sqs') \<and> longest_ok P n lon' sqs'"
  using assms(5-)
proof (induction vs arbitrary: sq lon sqs)
  case (Cons x vs)
  let ?cs = "map (call_of es) cs"
  have x: "fst x < n" "fst ` set vs \<subseteq> {..<n}" using Cons.prems(1) by auto
  obtain e where e: "deref h (Some (addr es (cpos es (fst x)))) = Some e" "nid e = int (fst x)"
    using heap_nodes [OF wf h x(1)] by metis
  have len: "length lon = n" using Cons.prems(2) by (simp add: longest_ok_def)
  have at: "go_at lon (nid e) = Some (lon ! fst x)" using e(2) len x(1) by simp
  obtain better where better: "(case lon ! fst x of None \<Rightarrow> Some True
      | Some p \<Rightarrow> do { old \<leftarrow> go_at sqs (int p); Some (length ?cs > length old) }) = Some better"
  proof (cases "lon ! fst x")
    case (Some p)
    then have "p < length sqs" using Cons.prems(2) len x(1) by (metis longest_ok_def nth_mem)
    with Some that show thesis by simp
  qed simp
  show ?case
  proof (cases better)
    case True
    define sq' sqs' where "sq' = (if sq = None then Some (length sqs) else sq)"
      and "sqs' = (if sq = None then sqs @ [map (int \<circ> fst) cs] else sqs)"
    have "(if sq = None then do { s \<leftarrow> seq_of h ?cs; Some (Some (length sqs), sqs @ [s]) } else Some (sq, sqs)) = Some (sq', sqs')"
      using seq_of_calls [OF wf h cs] by (simp add: sq'_def sqs'_def)
    moreover obtain p where p: "sq' = Some p" "p < length sqs'"
      using Cons.prems(3) by (cases sq) (auto simp: sq'_def sqs'_def)
    moreover have "go_upd lon (nid e) sq' = Some (lon[fst x := sq'])" using e(2) len x(1) by (simp add: go_upd_def)
    ultimately have "longest_loop h ?cs (map (call_of es) (x # vs)) sq lon sqs
        = longest_loop h ?cs (map (call_of es) vs) sq' (lon[fst x := sq']) sqs'"
      using e(1) at better True by (simp add: call_of_def)
    moreover have "longest_ok P n lon sqs'" using Cons.prems(2) P by (auto simp: longest_ok_def sqs'_def)
    then have "longest_ok P n (lon[fst x := sq']) sqs'" using p by (simp add: longest_ok_upd)
    ultimately show ?thesis using Cons.IH [OF x(2), of "lon[fst x := sq']" sqs' sq'] p by simp
  next
    case False
    then have "longest_loop h ?cs (map (call_of es) (x # vs)) sq lon sqs
        = longest_loop h ?cs (map (call_of es) vs) sq lon sqs"
      using e(1) at better by (simp add: call_of_def)
    then show ?thesis using Cons.IH [OF x(2) Cons.prems(2,3)] by simp
  qed
qed simp

lemma iter_return:
  assumes wf: "well_formed n es" and h0: "heap_ok n es {} h0" and inv: "search_inv M n es h0 c cs xs (k # ys)"
    and ret: "kind (es ! k) = returnEntry" and eq: "equal_ok M" and n: "n < 2 ^ 64" and ne: "cs \<noteq> []"
  shows "\<exists>c' cs' xs' ys'. check_return cp c = Some (Inr c') \<and> search_inv M n es h0 c' cs' xs' ys'
    \<and> (digits n es cs' ys', digits n es cs (k # ys)) \<in> lex less_than"
proof -
  obtain cs0 i s where cs: "cs = cs0 @ [(i, s)]" using ne by (metis rev_exhaust surj_pair)
  note hp = inv_heap [OF inv wf h0]
  have pd: "distinct (map fst cs)" "ids cs \<subseteq> {..<n}" "length cs \<le> n"
    using path_distinct [OF inv_path [OF inv]] path_card(2) [OF inv_path [OF inv]] by auto
  have i: "i < n" "i \<notin> ids cs0" using pd(1,2) cs by (auto simp: ids_def)
  have calls: "calls c = map (call_of es) cs" "calls c \<noteq> []" "last (calls c) = call_of es (i, s)"
    using inv cs by (auto simp: search_inv_def)
  have lok: "longest_ok (valid_seq M n es) n (longest c) (seqs c)" using inv by (simp add: search_inv_def)
  obtain lon sqs where lon: "(if cp then longest_loop (heap c) (calls c) (calls c) None (longest c) (seqs c)
      else Some (longest c, seqs c)) = Some (lon, sqs)" "longest_ok (valid_seq M n es) n lon sqs"
    using longest_loop_total [where P = "valid_seq M n es", OF wf hp, of cs cs "longest c" "seqs c" None]
      path_valid [OF inv_path [OF inv] pd(1,2)] pd(2) lok calls(1)
    by (cases cp) (auto simp: ids_def)
  obtain e where e: "deref (heap c) (Some (addr es (cpos es i))) = Some e" "nid e = int i"
    using heap_nodes [OF wf hp i(1)] by metis
  obtain b where b: "bs_clear (linearized c) i = Some b" "bits_of b = ids cs0" "length b = length (linearized c)"
    using bs_clear_eq [of i "linearized c"] i inv cs by (auto simp: search_inv_def)
  obtain h' where h': "path M n es h0 cs0 s h'" "unlift (heap c) (Some (addr es (cpos es i))) = Some h'"
    using path_unlift [OF _ wf h0] inv_path [OF inv] cs by metis
  have hp': "heap_ok n es (ids cs0) h'" by (rule path_heap [OF h'(1) wf h0])
  have "cpos es i \<in> set (remaining es (ids cs0))" using remaining_pos [OF wf i(1)] i(2) by simp
  then obtain us vs where rem: "remaining es (ids cs0) = us @ cpos es i # vs" by (auto simp: in_set_conv_decomp)
  obtain e' where e': "deref h' (Some (addr es (cpos es i))) = Some e'" using heap_nodes [OF wf hp' i(1)] by metis
  then have nx: "nnext e' = first_of (map (addr es) vs) None"
    using heap_next [OF hp' rem] by (auto simp: deref_def split: if_splits)
  have nb: "n \<le> 64 * length b" using inv b(3) by (simp add: search_inv_def)
  note unlift_inv [OF wf h0 inv [unfolded cs] ret eq h'(2) b(2) nb lon(2) rem]
  moreover have "check_return cp c = Some (Inr (c\<lparr>heap := h', entryp := first_of (map (addr es) vs) None, linearized := b,
      calls := butlast (calls c), cstate := s, longest := lon, seqs := sqs\<rparr>))"
    using calls lon(1) e b(1) h'(2) e' nx go_uint_int [OF i(1) n] by (simp add: check_return_def call_of_def Let_def)
  moreover have "cur_digit es vs < length es - cpos es i"
  proof -
    have "sorted_wrt (<) (us @ cpos es i # vs)" using remaining_sorted [of es "ids cs0"] rem by simp
    then have "\<forall>l \<in> set vs. cpos es i < l" by (simp add: sorted_wrt_append)
    then show ?thesis using wf_pos(1) [OF wf i(1), of callEntry] by (cases vs) (auto simp: cur_digit_def)
  qed
  then have "(digits n es cs0 vs, digits n es cs (k # ys)) \<in> lex less_than"
    unfolding cs using pd(3) cs by (intro digits_unlift) simp_all
  ultimately show ?thesis by blast
qed

subsection \<open>The loop ends, with the right verdict\<close>

lemma all_linearized:
  assumes "well_formed n es" "remaining es L = []"
  shows "{..<n} \<subseteq> L"
proof
  fix i assume "i \<in> {..<n}"
  with remaining_pos [OF assms(1), of i callEntry L] assms(2) show "i \<in> L" by simp
qed

lemma iter_correct:
  assumes wf: "well_formed n es" and h0: "heap_ok n es {} h0" and inv: "search_inv M n es h0 c cs xs ys" and ys: "ys \<noteq> []"
    and eq: "equal_ok M" and tot: "step_total M n es" and n: "n < 2 ^ 64"
  shows "(check_iter M cp (Some (length es)) c = Some (Inl False) \<and> \<not> lin M n es {} (Init M))
    \<or> (\<exists>c' cs' xs' ys'. check_iter M cp (Some (length es)) c = Some (Inr c') \<and> search_inv M n es h0 c' cs' xs' ys'
         \<and> (digits n es cs' ys', digits n es cs ys) \<in> lex less_than)"
proof -
  obtain k zs where k: "ys = k # zs" using ys by (cases ys) auto
  note inv = inv [unfolded k]
  show ?thesis
  proof (cases "kind (es ! k)")
    case callEntry
    then show ?thesis using iter_call [OF wf h0 inv _ eq tot n] k by blast
  next
    case returnEntry
    note hp = inv_heap [OF inv wf h0]
    have "k \<in> set (remaining es (ids cs))" using inv by (simp add: search_inv_def)
    then have kl: "k < length es" by (simp add: remaining_iff)
    obtain i where i: "i < n" "id_of (es ! k) = int i" by (rule wf_id [OF wf kl])
    have "k = rpos es i" using wf_pos_eq [OF wf kl i(2,1)] returnEntry by simp
    moreover obtain e m where "deref (heap c) (Some (addr es (rpos es i))) = Some m" "nmatch m = None"
      using heap_nodes [OF wf hp i(1)] by metis
    ultimately have iter: "check_iter M cp (Some (length es)) c = check_return cp c"
      using inv by (simp add: check_iter_def search_inv_def)
    show ?thesis
    proof (cases "cs = []")
      case True
      then have "calls c = []" "cstate c = Init M" using inv inv_path [OF inv] by (auto simp: search_inv_def elim: path.cases)
      then show ?thesis using exhausted [OF wf inv returnEntry eq] True iter by (simp add: check_return_def)
    next
      case False
      then show ?thesis using iter_return [OF wf h0 inv returnEntry eq n] iter k by simp
    qed
  qed
qed

lemma loop_correct:
  assumes wf: "well_formed n es" and h0: "heap_ok n es {} h0" and inv: "search_inv M n es h0 c cs xs ys"
    and eq: "equal_ok M" and tot: "step_total M n es" and n: "n < 2 ^ 64"
  shows "\<exists>ok c'. check_loop M cp kill (Some (length es)) k c = Some (ok, c') \<and> longest_ok (valid_seq M n es) n (longest c') (seqs c')
    \<and> (ok \<longrightarrow> lin M n es {} (Init M)) \<and> (\<not> ok \<longrightarrow> (\<forall>j. \<not> kill j) \<longrightarrow> \<not> lin M n es {} (Init M))"
  using inv
proof (induction "digits n es cs ys" arbitrary: c cs xs ys k rule: wf_induct_rule [OF wf_lex [OF wf_less_than]])
  case 1
  note hp = inv_heap [OF 1(2) wf h0] and p = inv_path [OF 1(2)]
  obtain hd' where hd': "deref (heap c) (Some (length es)) = Some hd'" "nnext hd' = first_of (map (addr es) (remaining es (ids cs))) None"
    by (rule heap_head [OF hp])
  have rem: "remaining es (ids cs) = xs @ ys" using 1(2) by (simp add: search_inv_def)
  show ?case
  proof (cases "remaining es (ids cs) = []")
    case True
    have "lin M n es (ids cs) (cstate c)" by (rule lin_all [OF all_linearized [OF wf True]])
    from path_lin [OF p this] have "lin M n es {} (Init M)" .
    moreover obtain c' where "check_end c = Some c'" "longest_ok (valid_seq M n es) n (longest c') (seqs c')"
      using seq_of_calls [OF wf hp, of cs] path_distinct [OF p] path_valid [OF p] 1(2)
      by (auto simp: check_end_def search_inv_def ids_def longest_ok_def)
    ultimately show ?thesis using hd' True by (subst check_loop.simps) auto
  next
    case False
    have lok: "longest_ok (valid_seq M n es) n (longest c) (seqs c)" using 1(2) by (simp add: search_inv_def)
    have nx: "nnext hd' \<noteq> None" using False hd'(2) by (cases "remaining es (ids cs)") auto
    have ys: "ys \<noteq> []"
    proof
      assume "ys = []"
      then have "xs \<noteq> []" "\<forall>k \<in> set xs. kind (es ! k) = callEntry" using rem False 1(2) by (auto simp: search_inv_def)
      moreover obtain l where l: "l \<in> set xs" using \<open>xs \<noteq> []\<close> by (cases xs) auto
      then have l2: "l < length es" "id_of (es ! l) \<notin> int ` ids cs" using rem remaining_iff [of l es "ids cs"] by auto
      obtain i where i: "i < n" "id_of (es ! l) = int i" by (rule wf_id [OF wf l2(1)])
      then have "i \<notin> ids cs" using l2(2) by auto
      with remaining_pos [OF wf i(1), of returnEntry "ids cs"] rem \<open>ys = []\<close> have "rpos es i \<in> set xs" by simp
      ultimately show False using wf_pos(2) [OF wf i(1), of returnEntry] by auto
    qed
    show ?thesis
    proof (cases "kill k")
      case True
      then show ?thesis using hd'(1) nx lok by (subst check_loop.simps) auto
    next
      case kill: False
      from iter_correct [OF wf h0 1(2) ys eq tot n, of cp] show ?thesis
      proof
        assume "check_iter M cp (Some (length es)) c = Some (Inl False) \<and> \<not> lin M n es {} (Init M)"
        then show ?thesis using hd'(1) nx kill lok by (subst check_loop.simps) auto
      next
        assume "\<exists>c' cs' xs' ys'. check_iter M cp (Some (length es)) c = Some (Inr c') \<and> search_inv M n es h0 c' cs' xs' ys'
          \<and> (digits n es cs' ys', digits n es cs ys) \<in> lex less_than"
        then obtain c' cs' xs' ys' where c': "check_iter M cp (Some (length es)) c = Some (Inr c')"
          "search_inv M n es h0 c' cs' xs' ys'" "(digits n es cs' ys', digits n es cs ys) \<in> lex less_than" by blast
        have "check_loop M cp kill (Some (length es)) k c = check_loop M cp kill (Some (length es)) (Suc k) c'"
          using hd'(1) nx kill c'(1) by (subst check_loop.simps) simp
        with 1(1) [OF c'(3,2), of "Suc k"] show ?thesis by simp
      qed
    qed
  qed
qed

lemma checkSingle_lin:
  assumes wf: "well_formed n es" and eq: "equal_ok M" and tot: "step_total M n es" and n: "n < 2 ^ 64"
  shows "\<exists>ok c. checkSingle M es cp kill = Some (ok, c) \<and> longest_ok (valid_seq M n es) n (longest c) (seqs c)
    \<and> (ok \<longrightarrow> lin M n es {} (Init M)) \<and> (\<not> ok \<longrightarrow> (\<forall>j. \<not> kill j) \<longrightarrow> \<not> lin M n es {} (Init M))"
proof -
  let ?root = "first_of (map (addr es) (remaining es {})) None"
  obtain h h2 where h: "makeLinkedEntries [] es = Some (h, ?root)" "list_length h ?root = Some (int (2 * n))"
    "insertBefore (h @ [\<lparr>nvalue = None, nmatch = None, nid = -1, nnext = None, nprev = None\<rparr>]) (Some (length h)) ?root
       = Some (h2, Some (length es))" "length h = length es" "heap_ok n es {} h2"
    by (rule heap_start [OF wf])
  have u: "go_uint (int (2 * n) div 2) = n" using n by (simp add: go_uint_def)
  let ?c = "\<lparr>heap = h2, entryp = ?root, linearized = newBitset n, cache = (\<lambda>_. []), calls = [],
        cstate = Init M, longest = replicate n None, seqs = []\<rparr>"
  have "search_inv M n es h2 ?c [] [] (remaining es {})"
    using newBitset_eq [of n] path_init by (auto simp: search_inv_def longest_ok_def cached_def)
  from loop_correct [OF wf h(5) this eq tot n, of cp kill 0] show ?thesis
    using h u by (simp add: checkSingle_def alloc_def Let_def)
qed

end
