(* ===== verification/Porcupine.thy ===== *)
theory Porcupine
  imports Porcupine_Search
begin

section \<open>Porcupine: checking histories of operations\<close>

text \<open>
  \<open>checkParallel\<close>, \<open>checkOperations\<close>, \<open>checkEvents\<close> and the exported functions of
  \<open>porcupine/porcupine.go\<close>, and what they decide: \<open>linearizable\<close>, stated over call and return
  times. The partitions are checked by concurrent goroutines; the model takes the sequence of
  cases the \<open>select\<close> statement of \<open>checkParallel\<close> receives as an argument.
\<close>

subsection \<open>Goroutines and results\<close>

text \<open>
  What \<open>select\<close> takes: the verdict of the goroutine of a partition, or the timer. The kill
  flag is stored only when the loop is left, so a goroutine whose verdict is received inside the
  loop never saw it set (its loads happen before its send, hence before the store); one that is
  received later saw \<open>kills\<close>. A \<open>None\<close> means that no case is ever ready: the loop blocks.
\<close>

datatype select_case = Recv nat | TimerFired

fun select_loop :: "(nat \<Rightarrow> bool option) \<Rightarrow> bool \<Rightarrow> bool \<Rightarrow> nat \<Rightarrow> select_case list \<Rightarrow> nat \<Rightarrow> bool
    \<Rightarrow> (bool \<times> bool \<times> nat set) option" where
  "select_loop verdict timer computeInfo m [] cnt ok = None"
| "select_loop verdict timer computeInfo m (Recv i # ev) cnt ok = do {
     result \<leftarrow> verdict i;
     let cnt' = cnt + 1;
     let ok' = (ok \<and> result);
     if \<not> ok' \<and> \<not> computeInfo then Some (ok', False, {i})
     else if cnt' \<ge> m then Some (ok', False, {i})
     else do { (ok2, timedOut, seen) \<leftarrow> select_loop verdict timer computeInfo m ev cnt' ok';
               Some (ok2, timedOut, insert i seen) } }"
| "select_loop verdict timer computeInfo m (TimerFired # ev) cnt ok =
     (if timer then Some (ok, True, {}) else select_loop verdict timer computeInfo m ev cnt ok)"

record 'v linearizationInfo =
  ihistory :: "'v entry list list"
  partialLinearizations :: "int list list list"

text \<open>The distinct pointers of \<open>longest\<close>, in the order a \<open>range\<close> over the map visits them
  (\<open>visit\<close>), each replaced by the slice it points to.\<close>

definition partials_of :: "(nat list \<Rightarrow> nat list) \<Rightarrow> ('v, 's) chk \<Rightarrow> int list list option" where
  "partials_of visit c = those (map (\<lambda>p. go_at (seqs c) (int p)) (visit (remdups (List.map_filter id (longest c)))))"

definition checkParallel :: "('v, 's) Model \<Rightarrow> 'v entry list list \<Rightarrow> bool \<Rightarrow> int \<Rightarrow> select_case list
    \<Rightarrow> (nat \<Rightarrow> nat \<Rightarrow> bool) \<Rightarrow> (nat list \<Rightarrow> nat list) \<Rightarrow> (CheckResult \<times> 'v linearizationInfo) option" where
  "checkParallel model history computeInfo timeout ev kills visit = do {
     let verdict = (\<lambda>i. map_option fst (checkSingle model (history ! i) computeInfo (\<lambda>_. False)));
     (ok, timedOut, seen) \<leftarrow> select_loop verdict (timeout > 0) computeInfo (length history) ev 0 True;
     info \<leftarrow> (if computeInfo then do {
         partials \<leftarrow> those (map (\<lambda>i. do {
           (ok_i, c) \<leftarrow> checkSingle model (history ! i) computeInfo (if i \<in> seen then (\<lambda>_. False) else kills i);
           partials_of visit c }) [0..<length history]);
         Some \<lparr>ihistory = history, partialLinearizations = partials\<rparr> }
       else Some \<lparr>ihistory = [], partialLinearizations = []\<rparr>);
     let result = (if \<not> ok then Illegal else if timedOut then Unknown else Ok);
     Some (result, info) }"

text \<open>The scheduler's and the run-time's choices, in one record.\<close>

record ('v, 's) run_env =
  reSort :: "'v sorter"
  reCases :: "select_case list"
  reKills :: "nat \<Rightarrow> nat \<Rightarrow> bool"
  reVisit :: "nat list \<Rightarrow> nat list"
  reSprintV :: "'v iface \<Rightarrow> string"
  reSprintS :: "'s \<Rightarrow> string"

definition checkEvents :: "('v, 's) run_env \<Rightarrow> ('v, 's) Model \<Rightarrow> 'v Event list \<Rightarrow> bool \<Rightarrow> int
    \<Rightarrow> (CheckResult \<times> 'v linearizationInfo) option" where
  "checkEvents env model0 history verbose timeout = do {
     let model = fillDefault (reSprintV env) (reSprintS env) model0;
     partition \<leftarrow> PartitionEvent model;
     partitions \<leftarrow> partition history;
     let l = map (\<lambda>subhistory. convertEntries (renumber subhistory)) partitions;
     checkParallel model l verbose timeout (reCases env) (reKills env) (reVisit env) }"

definition checkOperations :: "('v, 's) run_env \<Rightarrow> ('v, 's) Model \<Rightarrow> 'v Operation list \<Rightarrow> bool \<Rightarrow> int
    \<Rightarrow> (CheckResult \<times> 'v linearizationInfo) option" where
  "checkOperations env model0 history verbose timeout = do {
     let model = fillDefault (reSprintV env) (reSprintS env) model0;
     partition \<leftarrow> Partition model;
     partitions \<leftarrow> partition history;
     let l = map (makeEntries (reSort env)) partitions;
     checkParallel model l verbose timeout (reCases env) (reKills env) (reVisit env) }"

definition CheckOperations :: "('v, 's) run_env \<Rightarrow> ('v, 's) Model \<Rightarrow> 'v Operation list \<Rightarrow> bool option" where
  "CheckOperations env model history = map_option (\<lambda>(res, _). res = Ok) (checkOperations env model history False 0)"

definition CheckOperationsTimeout :: "('v, 's) run_env \<Rightarrow> ('v, 's) Model \<Rightarrow> 'v Operation list \<Rightarrow> int \<Rightarrow> CheckResult option" where
  "CheckOperationsTimeout env model history timeout = map_option fst (checkOperations env model history False timeout)"

definition CheckOperationsVerbose :: "('v, 's) run_env \<Rightarrow> ('v, 's) Model \<Rightarrow> 'v Operation list \<Rightarrow> int
    \<Rightarrow> (CheckResult \<times> 'v linearizationInfo) option" where
  "CheckOperationsVerbose env model history timeout = checkOperations env model history True timeout"

definition CheckEvents :: "('v, 's) run_env \<Rightarrow> ('v, 's) Model \<Rightarrow> 'v Event list \<Rightarrow> bool option" where
  "CheckEvents env model history = map_option (\<lambda>(res, _). res = Ok) (checkEvents env model history False 0)"

definition CheckEventsTimeout :: "('v, 's) run_env \<Rightarrow> ('v, 's) Model \<Rightarrow> 'v Event list \<Rightarrow> int \<Rightarrow> CheckResult option" where
  "CheckEventsTimeout env model history timeout = map_option fst (checkEvents env model history False timeout)"

definition CheckEventsVerbose :: "('v, 's) run_env \<Rightarrow> ('v, 's) Model \<Rightarrow> 'v Event list \<Rightarrow> int
    \<Rightarrow> (CheckResult \<times> 'v linearizationInfo) option" where
  "CheckEventsVerbose env model history timeout = checkEvents env model history True timeout"

subsection \<open>Linearizability\<close>

text \<open>
  A history of operations is linearizable if its operations have an order in which no operation
  comes before one that returned before it was called, and in which the model allows every step.
\<close>

fun legal :: "('v, 's) Model \<Rightarrow> 'v Operation list \<Rightarrow> 's \<Rightarrow> nat list \<Rightarrow> bool" where
  "legal M ops st [] \<longleftrightarrow> True"
| "legal M ops st (i # order) \<longleftrightarrow> (case Step M st (opInput (ops ! i)) (opOutput (ops ! i)) of
     Some (True, st') \<Rightarrow> legal M ops st' order | _ \<Rightarrow> False)"

definition linearizable :: "('v, 's) Model \<Rightarrow> 'v Operation list \<Rightarrow> bool" where
  "linearizable M ops \<longleftrightarrow> (\<exists>order. distinct order \<and> set order = {..<length ops}
     \<and> sorted_wrt (\<lambda>i j. \<not> opReturn (ops ! j) < opCall (ops ! i)) order \<and> legal M ops (Init M) order)"

lemma legal_Cons_iff:
  "legal M ops st (i # order) \<longleftrightarrow> (\<exists>st'. Step M st (opInput (ops ! i)) (opOutput (ops ! i)) = Some (True, st') \<and> legal M ops st' order)"
  by (auto split: option.splits bool.splits)

declare legal.simps(2) [simp del]

lemma lin_iff_order:
  assumes wf: "well_formed n es"
    and io: "\<And>i. i < n \<Longrightarrow> inp es i = opInput (ops ! i)" "\<And>i. i < n \<Longrightarrow> outp es i = opOutput (ops ! i)"
  shows "lin M n es L st \<longleftrightarrow> (\<exists>order. distinct order \<and> set order = {..<n} - L
    \<and> sorted_wrt (\<lambda>i j. cpos es i < rpos es j) order \<and> legal M ops st order)"
proof
  show "\<exists>order. distinct order \<and> set order = {..<n} - L \<and> sorted_wrt (\<lambda>i j. cpos es i < rpos es j) order \<and> legal M ops st order"
    if "lin M n es L st" using that
  proof induction
    case (lin_all L st)
    then have "{..<n} - L = {}" by blast
    then show ?case by (intro exI [of _ "[]"]) simp
  next
    case (lin_next L i st st')
    then obtain order where o: "distinct order" "set order = {..<n} - insert i L"
      "sorted_wrt (\<lambda>i j. cpos es i < rpos es j) order" "legal M ops st' order" by blast
    have i: "i < n" "i \<notin> L" "\<And>j. j < n \<Longrightarrow> j \<notin> L \<Longrightarrow> cpos es i < rpos es j"
      using lin_next.hyps(1) by (auto simp: cand_def)
    have "legal M ops st (i # order)" using lin_next.hyps(2) io i(1) o(4) by (auto simp: legal_Cons_iff moves_def)
    then show ?case using o i by (intro exI [of _ "i # order"]) auto
  qed
next
  assume "\<exists>order. distinct order \<and> set order = {..<n} - L \<and> sorted_wrt (\<lambda>i j. cpos es i < rpos es j) order \<and> legal M ops st order"
  then obtain order where "distinct order" "set order = {..<n} - L"
    "sorted_wrt (\<lambda>i j. cpos es i < rpos es j) order" "legal M ops st order" by blast
  then show "lin M n es L st"
  proof (induction order arbitrary: L st)
    case Nil
    then show ?case by (intro lin_all) auto
  next
    case (Cons i order)
    have i: "i < n" "i \<notin> L" using Cons.prems(2) by auto
    have "cpos es i < rpos es j" if "j < n" "j \<notin> L" for j
    proof (cases "j = i")
      case True
      then show ?thesis using wf_call_return [OF wf i(1)] by simp
    next
      case False
      then have "j \<in> set order" using Cons.prems(2) that by auto
      then show ?thesis using Cons.prems(3) by simp
    qed
    then have "cand n es L i" using i by (simp add: cand_def)
    moreover obtain st' where st': "moves M es i st st'" "legal M ops st' order"
      using Cons.prems(4) io i(1) by (auto simp: legal_Cons_iff moves_def)
    have "set order = {..<n} - insert i L" using Cons.prems(1,2) by auto
    then have "lin M n es (insert i L) st'" using Cons.IH Cons.prems(1,3) st'(2) by simp
    ultimately show ?case using st'(1) by (blast intro: lin_next)
  qed
qed

subsection \<open>The entries of a history\<close>

definition call_ent :: "'v Operation list \<Rightarrow> nat \<Rightarrow> 'v entry" where
  "call_ent ops i = \<lparr>kind = callEntry, val = opInput (ops ! i), id_of = int i, time = opCall (ops ! i), clientId = opClient (ops ! i)\<rparr>"

definition ret_ent :: "'v Operation list \<Rightarrow> nat \<Rightarrow> 'v entry" where
  "ret_ent ops i = \<lparr>kind = returnEntry, val = opOutput (ops ! i), id_of = int i, time = opReturn (ops ! i), clientId = opClient (ops ! i)\<rparr>"

lemma entries_loop_eq:
  "entries_loop (drop k ops) (int k) acc = acc @ concat (map (\<lambda>i. [call_ent ops i, ret_ent ops i]) [k..<length ops])"
proof (induction "length ops - k" arbitrary: k acc)
  case 0
  then show ?case by simp
next
  case (Suc d)
  then have k: "k < length ops" by simp
  have "entries_loop (drop k ops) (int k) acc = entries_loop (drop (Suc k) ops) (int (Suc k)) (acc @ [call_ent ops k, ret_ent ops k])"
    using Cons_nth_drop_Suc [OF k, symmetric] by (simp add: call_ent_def ret_ent_def add.commute)
  also have "\<dots> = (acc @ [call_ent ops k, ret_ent ops k]) @ concat (map (\<lambda>i. [call_ent ops i, ret_ent ops i]) [Suc k..<length ops])"
    using Suc by (intro Suc.hyps(1)) simp
  finally show ?case using upt_conv_Cons [OF k] by simp
qed

lemma makeEntries_mset:
  assumes "valid_sorter srt"
  shows "mset (makeEntries srt ops) = mset (concat (map (\<lambda>i. [call_ent ops i, ret_ent ops i]) [0..<length ops]))"
  using assms entries_loop_eq [of 0 ops "[]"] by (simp add: makeEntries_def valid_sorter_def)

lemma makeEntries_set:
  assumes "valid_sorter srt"
  shows "set (makeEntries srt ops) = call_ent ops ` {..<length ops} \<union> ret_ent ops ` {..<length ops}"
  using mset_eq_setD [OF makeEntries_mset [OF assms, of ops]] by auto

lemma makeEntries_keys:
  assumes "valid_sorter srt"
  shows "distinct (map (\<lambda>e. (kind e, id_of e)) (makeEntries srt ops))"
proof -
  let ?f = "\<lambda>e :: 'a entry. (kind e, id_of e)"
  let ?E = "\<lambda>m. concat (map (\<lambda>i. [call_ent ops i, ret_ent ops i]) [0..<m])"
  have "distinct (map ?f (?E m))" for m
    by (induction m) (auto simp: call_ent_def ret_ent_def)
  then have d: "distinct (map ?f (?E (length ops)))" .
  have "mset (map ?f (makeEntries srt ops)) = mset (map ?f (?E (length ops)))"
    unfolding mset_map using makeEntries_mset [OF assms, of ops] by (rule arg_cong)
  from mset_eq_imp_distinct_iff [OF this] d show ?thesis by (rule iffD2)
qed

lemma Less_call_ret: "byTime_Less (call_ent ops a) (ret_ent ops b) \<longleftrightarrow> \<not> opReturn (ops ! b) < opCall (ops ! a)"
  and Less_ret_call: "byTime_Less (ret_ent ops b) (call_ent ops a) \<longleftrightarrow> opReturn (ops ! b) < opCall (ops ! a)"
  by (auto simp: byTime_Less_def call_ent_def ret_ent_def)

text \<open>In the sorted list a call stands before a return iff the return does not precede it in
  time.\<close>

lemma makeEntries_before:
  assumes srt: "valid_sorter srt" and jk: "j < length (makeEntries srt ops)" "k < length (makeEntries srt ops)"
    and c: "makeEntries srt ops ! j = call_ent ops a" and r: "makeEntries srt ops ! k = ret_ent ops b"
  shows "j < k \<longleftrightarrow> \<not> opReturn (ops ! b) < opCall (ops ! a)"
proof -
  let ?es = "makeEntries srt ops"
  have srt': "sorted_wrt (\<lambda>x y. \<not> byTime_Less y x) ?es" using srt by (simp add: valid_sorter_def makeEntries_def)
  have neq: "j \<noteq> k" using c r by (auto simp: call_ent_def ret_ent_def)
  have "\<not> byTime_Less (?es ! k) (?es ! j)" if "j < k" using sorted_wrt_nth_less [OF srt' that jk(2)] .
  moreover have "\<not> byTime_Less (?es ! j) (?es ! k)" if "k < j" using sorted_wrt_nth_less [OF srt' that jk(1)] .
  ultimately show ?thesis using neq unfolding c r Less_call_ret Less_ret_call by (meson linorder_neqE_nat)
qed

lemma makeEntries_kind:
  assumes "valid_sorter srt" "j < length (makeEntries srt ops)"
  shows "\<exists>i < length ops. makeEntries srt ops ! j = (if kind (makeEntries srt ops ! j) = callEntry then call_ent ops i else ret_ent ops i)
    \<and> id_of (makeEntries srt ops ! j) = int i"
proof -
  have "makeEntries srt ops ! j \<in> call_ent ops ` {..<length ops} \<union> ret_ent ops ` {..<length ops}"
    using nth_mem [OF assms(2)] makeEntries_set [OF assms(1)] by metis
  then show ?thesis by (auto simp: call_ent_def ret_ent_def)
qed

lemma makeEntries_wf:
  assumes srt: "valid_sorter srt" and le: "\<forall>x \<in> set ops. opCall x \<le> opReturn x"
  shows "well_formed (length ops) (makeEntries srt ops)"
proof -
  let ?es = "makeEntries srt ops"
  have "(\<lambda>e. (kind e, id_of e)) ` set ?es = UNIV \<times> int ` {..<length ops}"
  proof -
    have U: "(UNIV :: entryKind set) = {callEntry, returnEntry}" using entryKind.exhaust by blast
    show ?thesis unfolding makeEntries_set [OF srt] U image_Un image_image
      by (auto simp: call_ent_def ret_ent_def)
  qed
  moreover have "j < k" if jk: "j < length ?es" "k < length ?es" and kj: "kind (?es ! j) = callEntry" and kk: "kind (?es ! k) = returnEntry"
    and ideq: "id_of (?es ! j) = id_of (?es ! k)" for j k
  proof -
    obtain a where a: "a < length ops" "?es ! j = call_ent ops a" "id_of (?es ! j) = int a"
      using makeEntries_kind [OF srt jk(1)] kj by auto
    obtain b where b: "?es ! k = ret_ent ops b" "id_of (?es ! k) = int b"
      using makeEntries_kind [OF srt jk(2)] kk by auto
    have "a = b" using a(3) b(2) ideq by simp
    moreover have "opCall (ops ! a) \<le> opReturn (ops ! a)" using le a(1) by simp
    ultimately show ?thesis using makeEntries_before [OF srt jk a(2) b(1)] by simp
  qed
  ultimately show ?thesis using makeEntries_keys [OF srt, of ops] unfolding well_formed_def by blast
qed

lemma makeEntries_ops:
  assumes srt: "valid_sorter srt" and le: "\<forall>x \<in> set ops. opCall x \<le> opReturn x" and i: "i < length ops" "j < length ops"
  shows "inp (makeEntries srt ops) i = opInput (ops ! i)" "outp (makeEntries srt ops) i = opOutput (ops ! i)"
    "cpos (makeEntries srt ops) i < rpos (makeEntries srt ops) j \<longleftrightarrow> \<not> opReturn (ops ! j) < opCall (ops ! i)"
proof -
  let ?es = "makeEntries srt ops"
  note wf = makeEntries_wf [OF srt le]
  note c = wf_pos [OF wf i(1), of callEntry] and r = wf_pos [OF wf i(1), of returnEntry] and rj = wf_pos [OF wf i(2), of returnEntry]
  have ce: "?es ! cpos ?es i = call_ent ops i" using makeEntries_kind [OF srt c(1)] c(2,3) by auto
  have re: "?es ! rpos ?es i = ret_ent ops i" using makeEntries_kind [OF srt r(1)] r(2,3) by auto
  have rje: "?es ! rpos ?es j = ret_ent ops j" using makeEntries_kind [OF srt rj(1)] rj(2,3) by auto
  show "inp ?es i = opInput (ops ! i)" using ce by (simp add: inp_def call_ent_def)
  show "outp ?es i = opOutput (ops ! i)" using re by (simp add: outp_def ret_ent_def)
  show "cpos ?es i < rpos ?es j \<longleftrightarrow> \<not> opReturn (ops ! j) < opCall (ops ! i)"
    by (rule makeEntries_before [OF srt c(1) rj(1) ce rje])
qed

text \<open>\<open>Step\<close> answers on the operations of a history.\<close>

definition step_answers :: "('v, 's) Model \<Rightarrow> 'v Operation list \<Rightarrow> bool" where
  "step_answers M ops \<longleftrightarrow> (\<forall>s. \<forall>x \<in> set ops. Step M s (opInput x) (opOutput x) \<noteq> None)"

lemma checkSingle_linearizable:
  assumes srt: "valid_sorter srt" and le: "\<forall>x \<in> set ops. opCall x \<le> opReturn x" and eq: "equal_ok M"
    and tot: "step_answers M ops" and n: "length ops < 2 ^ 64"
  shows "\<exists>ok c. checkSingle M (makeEntries srt ops) cp kill = Some (ok, c) \<and> longest_ok (valid_seq M (length ops) (makeEntries srt ops)) (length ops) (longest c) (seqs c)
    \<and> (ok \<longrightarrow> linearizable M ops) \<and> (\<not> ok \<longrightarrow> (\<forall>j. \<not> kill j) \<longrightarrow> \<not> linearizable M ops)"
proof -
  let ?es = "makeEntries srt ops" and ?n = "length ops"
  note wf = makeEntries_wf [OF srt le]
  have io: "inp ?es i = opInput (ops ! i)" "outp ?es i = opOutput (ops ! i)" if "i < ?n" for i
    using makeEntries_ops(1,2) [OF srt le that that] .
  have t: "step_total M ?n ?es" using tot io by (simp add: step_total_def step_answers_def)
  have ord: "sorted_wrt (\<lambda>i j. cpos ?es i < rpos ?es j) order \<longleftrightarrow> sorted_wrt (\<lambda>i j. \<not> opReturn (ops ! j) < opCall (ops ! i)) order"
    if "set order = {..<?n}" for order
    using makeEntries_ops(3) [OF srt le] that
    by (metis (mono_tags, lifting) lessThan_iff sorted_wrt_mono_rel)
  have "lin M ?n ?es {} (Init M) \<longleftrightarrow> linearizable M ops"
    using lin_iff_order [OF wf io, of M "{}" "Init M"] ord by (simp add: linearizable_def cong: conj_cong)
  with checkSingle_lin [OF wf eq t n, of cp kill] show ?thesis by simp
qed

subsection \<open>The verdict on all partitions\<close>

definition cases_ok :: "bool \<Rightarrow> nat \<Rightarrow> select_case list \<Rightarrow> bool" where
  "cases_ok timer m ev \<longleftrightarrow> distinct ev \<and> (\<forall>i. Recv i \<in> set ev \<longrightarrow> i < m)
     \<and> ((\<forall>i < m. Recv i \<in> set ev) \<or> timer \<and> TimerFired \<in> set ev)"

definition verdict_ok :: "bool \<Rightarrow> nat \<Rightarrow> (nat \<Rightarrow> bool) \<Rightarrow> bool \<Rightarrow> bool \<Rightarrow> bool" where
  "verdict_ok timer m V ok t \<longleftrightarrow> (\<not> ok \<longrightarrow> (\<exists>i < m. \<not> V i)) \<and> (ok \<and> \<not> t \<longrightarrow> (\<forall>i < m. V i)) \<and> (t \<longrightarrow> timer)"

lemma select_loop_correct:
  assumes "\<And>i. i < m \<Longrightarrow> verdict i = Some (V i)" and "m > 0"
    and "distinct ev" "\<forall>i. Recv i \<in> set ev \<longrightarrow> i < m \<and> i \<notin> A" "A \<subseteq> {..<m}" "card A < m"
    and "(\<forall>i < m. i \<notin> A \<longrightarrow> Recv i \<in> set ev) \<or> timer \<and> TimerFired \<in> set ev"
    and "ok = (\<forall>i \<in> A. V i)"
  shows "\<exists>ok' t seen. select_loop verdict timer ci m ev (card A) ok = Some (ok', t, seen) \<and> verdict_ok timer m V ok' t"
  using assms(3-)
proof (induction ev arbitrary: A ok)
  case Nil
  then have "A = {..<m}" by auto
  then have False using Nil.prems(4) by simp
  then show ?case ..
next
  case (Cons e ev)
  show ?case
  proof (cases e)
    case TimerFired
    show ?thesis
    proof (cases timer)
      case True
      then show ?thesis using TimerFired Cons.prems by (auto simp: verdict_ok_def)
    next
      case False
      have "\<exists>ok' t seen. select_loop verdict timer ci m ev (card A) ok = Some (ok', t, seen) \<and> verdict_ok timer m V ok' t"
        using Cons.prems TimerFired False by (intro Cons.IH) simp_all
      then show ?thesis using TimerFired False by simp
    qed
  next
    case (Recv i)
    have i: "i < m" "i \<notin> A" using Cons.prems(2) Recv by auto
    have fin: "finite A" using Cons.prems(3) finite_subset by blast
    let ?A = "insert i A"
    have card: "card ?A = card A + 1" using i(2) fin by simp
    have sub: "?A \<subseteq> {..<m}" using Cons.prems(3) i(1) by simp
    have ok': "(ok \<and> V i) = (\<forall>j \<in> ?A. V j)" using Cons.prems(6) by auto
    consider "\<not> (ok \<and> V i) \<and> \<not> ci" | "ok \<and> V i \<or> ci" "card A + 1 \<ge> m" | "ok \<and> V i \<or> ci" "card A + 1 < m" by linarith
    then show ?thesis
    proof cases
      case 1
      then show ?thesis using Recv assms(1) [OF i(1)] ok' sub by (auto simp: Let_def verdict_ok_def)
    next
      case 2
      have "?A = {..<m}" using 2(2) card sub by (metis card_lessThan card_subset_eq finite_lessThan card_mono le_antisym)
      then show ?thesis using 2 Recv assms(1) [OF i(1)] ok' by (auto simp: Let_def verdict_ok_def)
    next
      case 3
      have "\<exists>ok2 t seen. select_loop verdict timer ci m ev (card ?A) (ok \<and> V i) = Some (ok2, t, seen) \<and> verdict_ok timer m V ok2 t"
        using Cons.prems 3(2) card sub ok' Recv by (intro Cons.IH) auto
      then obtain ok2 t seen where "select_loop verdict timer ci m ev (card A + 1) (ok \<and> V i) = Some (ok2, t, seen)"
        "verdict_ok timer m V ok2 t" using card by auto
      then show ?thesis using 3 Recv assms(1) [OF i(1)] by (auto simp: Let_def)
    qed
  qed
qed

lemma partials_of_total:
  assumes "longest_ok P n (longest c) (seqs c)" "\<forall>xs. set (visit xs) = set xs"
  shows "\<exists>ps. partials_of visit c = Some ps"
proof -
  have "\<forall>p \<in> set (visit (remdups (List.map_filter id (longest c)))). \<exists>x. go_at (seqs c) (int p) = Some x"
    using assms by (auto simp: longest_ok_def map_filter_def)
  then have "those (map (\<lambda>p. go_at (seqs c) (int p)) ps) \<noteq> None" if "set ps \<subseteq> set (visit (remdups (List.map_filter id (longest c))))" for ps
    using that by (induction ps) auto
  then show ?thesis unfolding partials_of_def by blast
qed

lemma those_total: "\<forall>x \<in> set xs. \<exists>y. f x = Some y \<Longrightarrow> \<exists>ys. those (map f xs) = Some ys"
  by (induction xs) auto

text \<open>A partition \<open>checkSingle\<close> can decide.\<close>

definition checkable :: "('v, 's) Model \<Rightarrow> 'v Operation list \<Rightarrow> bool" where
  "checkable M ops \<longleftrightarrow> (\<forall>x \<in> set ops. opCall x \<le> opReturn x) \<and> step_answers M ops \<and> length ops < 2 ^ 64"

lemma checkParallel_generic:
  assumes single: "\<And>i kill. i < length hs \<Longrightarrow> \<exists>ok c. checkSingle M (hs ! i) ci kill = Some (ok, c) \<and> longest_ok (P i) (N i) (longest c) (seqs c)
      \<and> (ok \<longrightarrow> V i) \<and> (\<not> ok \<longrightarrow> (\<forall>j. \<not> kill j) \<longrightarrow> \<not> V i)"
    and ne: "hs \<noteq> []" and ev: "cases_ok (timeout > 0) (length hs) ev" and visit: "\<forall>xs. set (visit xs) = set xs"
  shows "\<exists>r info. checkParallel M hs ci timeout ev kills visit = Some (r, info)
    \<and> (r = Ok \<longrightarrow> (\<forall>i < length hs. V i)) \<and> (r = Illegal \<longrightarrow> (\<exists>i < length hs. \<not> V i)) \<and> (r = Unknown \<longrightarrow> timeout > 0)"
proof -
  let ?m = "length hs"
  have verdict: "map_option fst (checkSingle M (hs ! i) ci (\<lambda>_. False)) = Some (V i)" if "i < ?m" for i
    using single [OF that, of "\<lambda>_. False"] by auto
  have "\<exists>ok t seen. select_loop (\<lambda>i. map_option fst (checkSingle M (hs ! i) ci (\<lambda>_. False))) (timeout > 0) ci ?m ev (card ({} :: nat set)) True
      = Some (ok, t, seen) \<and> verdict_ok (timeout > 0) ?m V ok t"
    using ev ne verdict by (intro select_loop_correct) (auto simp: cases_ok_def)
  then obtain ok t seen where sl: "select_loop (\<lambda>i. map_option fst (checkSingle M (hs ! i) ci (\<lambda>_. False))) (timeout > 0) ci ?m ev 0 True
      = Some (ok, t, seen)" and v: "verdict_ok (timeout > 0) ?m V ok t" by auto
  have "\<exists>ps. those (map (\<lambda>i. do { (ok_i, c) \<leftarrow> checkSingle M (hs ! i) ci (if i \<in> seen then (\<lambda>_. False) else kills i);
      partials_of visit c }) [0..<?m]) = Some ps"
  proof (intro those_total ballI)
    fix i assume "i \<in> set [0..<?m]"
    then have "i < ?m" by simp
    from single [OF this, of "if i \<in> seen then (\<lambda>_. False) else kills i"] obtain ok_i c where
      "checkSingle M (hs ! i) ci (if i \<in> seen then (\<lambda>_. False) else kills i) = Some (ok_i, c)"
      "longest_ok (P i) (N i) (longest c) (seqs c)" by blast
    with partials_of_total [OF this(2) visit] show "\<exists>y. do { (ok_i, c) \<leftarrow> checkSingle M (hs ! i) ci (if i \<in> seen then (\<lambda>_. False) else kills i);
      partials_of visit c } = Some y" by simp
  qed
  then obtain info where "checkParallel M hs ci timeout ev kills visit
      = Some (if \<not> ok then Illegal else if t then Unknown else Ok, info)"
    using sl by (cases ci) (auto simp: checkParallel_def Let_def)
  then show ?thesis using v by (auto simp: verdict_ok_def)
qed

lemma checkParallel_verdict:
  assumes srt: "valid_sorter srt" and eq: "equal_ok M" and parts: "\<forall>p \<in> set parts. checkable M p" and ne: "parts \<noteq> []"
    and ev: "cases_ok (timeout > 0) (length parts) ev" and visit: "\<forall>xs. set (visit xs) = set xs"
  shows "\<exists>r info. checkParallel M (map (makeEntries srt) parts) ci timeout ev kills visit = Some (r, info)
    \<and> (r = Ok \<longrightarrow> (\<forall>p \<in> set parts. linearizable M p)) \<and> (r = Illegal \<longrightarrow> (\<exists>p \<in> set parts. \<not> linearizable M p))
    \<and> (r = Unknown \<longrightarrow> timeout > 0)"
proof -
  let ?l = "map (makeEntries srt) parts" and ?V = "\<lambda>i. linearizable M (parts ! i)"
  have "\<exists>ok c. checkSingle M (?l ! i) ci kill = Some (ok, c) \<and> longest_ok (valid_seq M (length (parts ! i)) (?l ! i)) (length (parts ! i)) (longest c) (seqs c)
      \<and> (ok \<longrightarrow> ?V i) \<and> (\<not> ok \<longrightarrow> (\<forall>j. \<not> kill j) \<longrightarrow> \<not> ?V i)" if "i < length ?l" for i kill
  proof -
    have "checkable M (parts ! i)" using parts that by simp
    then show ?thesis using checkSingle_linearizable [OF srt _ eq] that by (simp add: checkable_def)
  qed
  from checkParallel_generic [OF this _ _ visit, of timeout ev kills] ne ev
  obtain r info where "checkParallel M ?l ci timeout ev kills visit = Some (r, info)" "r = Ok \<longrightarrow> (\<forall>i < length parts. ?V i)"
    "r = Illegal \<longrightarrow> (\<exists>i < length parts. \<not> ?V i)" "r = Unknown \<longrightarrow> timeout > 0" by auto
  moreover have "(\<exists>i < length parts. \<not> ?V i) \<longleftrightarrow> (\<exists>p \<in> set parts. \<not> linearizable M p)" by (metis in_set_conv_nth)
  ultimately show ?thesis by (metis in_set_conv_nth)
qed

subsection \<open>\<open>checkOperations\<close>\<close>

definition equal_sound :: "('v, 's) Model \<Rightarrow> bool" where
  "equal_sound M \<longleftrightarrow> (\<forall>eq. Equal M = Some eq \<longrightarrow> (\<forall>a b x y a'. eq a b \<longrightarrow> Step M a x y = Some (True, a')
      \<longrightarrow> (\<exists>b'. Step M b x y = Some (True, b') \<and> eq a' b')))"

definition parts_of :: "('v, 's) Model \<Rightarrow> 'v Operation list \<Rightarrow> 'v Operation list list option" where
  "parts_of M ops = (case Partition M of None \<Rightarrow> Some [ops] | Some f \<Rightarrow> f ops)"

lemma fillDefault_fields:
  "Init (fillDefault sv ss M) = Init M" "Step (fillDefault sv ss M) = Step M"
  "Partition (fillDefault sv ss M) = Some (parts_of M)"
  "Equal (fillDefault sv ss M) = (case Equal M of None \<Rightarrow> Some ShallowEqual | Some eq \<Rightarrow> Some eq)"
  by (auto simp: fillDefault_def Let_def parts_of_def NoPartition_def fun_eq_iff split: option.splits)

lemma legal_step_cong: "Step M' = Step M \<Longrightarrow> legal M' ops st order \<longleftrightarrow> legal M ops st order"
  by (induction order arbitrary: st) (auto simp: legal_Cons_iff)

lemma fillDefault_linearizable: "linearizable (fillDefault sv ss M) ops \<longleftrightarrow> linearizable M ops"
  unfolding linearizable_def fillDefault_fields(1) legal_step_cong [OF fillDefault_fields(2)] ..

lemma fillDefault_equal_ok: "equal_sound M \<Longrightarrow> equal_ok (fillDefault sv ss M)"
  by (auto simp: equal_sound_def equal_ok_def fillDefault_fields ShallowEqual_def split: option.splits)

lemma checkOperations_decides:
  assumes "valid_sorter (reSort env)" "\<forall>xs. set (reVisit env xs) = set xs" "equal_sound M" "parts_of M ops = Some parts"
    "\<forall>p \<in> set parts. checkable M p" "parts \<noteq> []" "cases_ok (timeout > 0) (length parts) (reCases env)"
  shows "\<exists>r info. checkOperations env M ops verbose timeout = Some (r, info)
    \<and> (r = Ok \<longrightarrow> (\<forall>p \<in> set parts. linearizable M p))
    \<and> (r = Illegal \<longrightarrow> (\<exists>p \<in> set parts. \<not> linearizable M p))
    \<and> (r = Unknown \<longrightarrow> timeout > 0)"
proof -
  let ?M = "fillDefault (reSprintV env) (reSprintS env) M"
  have "\<forall>p \<in> set parts. checkable ?M p"
    using assms(5) by (simp add: checkable_def step_answers_def fillDefault_fields)
  from checkParallel_verdict [OF assms(1) fillDefault_equal_ok [OF assms(3)] this assms(6,7,2)]
  show ?thesis using assms(4) by (simp add: checkOperations_def fillDefault_fields fillDefault_linearizable Let_def)
qed

text \<open>C36: \<open>makeEntries\<close> returns one call and, later, one return for each operation, and a call
  stands before a return exactly when the operation of the return did not end before the call;
  so equal times never order two operations, however \<open>sort.Sort\<close> arranges them.\<close>

theorem makeEntries_order:
  assumes "valid_sorter srt" "\<forall>x \<in> set ops. opCall x \<le> opReturn x" "i < length ops" "j < length ops"
  shows "well_formed (length ops) (makeEntries srt ops)
    \<and> (cpos (makeEntries srt ops) i < rpos (makeEntries srt ops) j \<longleftrightarrow> \<not> opReturn (ops ! j) < opCall (ops ! i))"
  using makeEntries_wf [OF assms(1,2)] makeEntries_ops(3) [OF assms] by blast

definition sample_ops :: "nat Operation list" where
  "sample_ops = [\<lparr>opClient = 0, opInput = Some 1, opCall = 0, opOutput = Some 2, opReturn = 4\<rparr>,
                 \<lparr>opClient = 1, opInput = Some 3, opCall = 4, opOutput = None, opReturn = 4\<rparr>]"

theorem makeEntries_order_witness:
  "well_formed 2 (makeEntries sort_time sample_ops) \<and> cpos (makeEntries sort_time sample_ops) 1 < rpos (makeEntries sort_time sample_ops) 0"
  using makeEntries_order [OF sort_time_valid, of sample_ops 1 0]
  by (simp add: sample_ops_def numeral_2_eq_2)

end
