(* ===== verification/Porcupine_Events.thy ===== *)
theory Porcupine_Events
  imports Porcupine
begin

section \<open>Porcupine: checking histories of events\<close>

text \<open>
  \<open>CheckEvents\<close> takes a history as a list of call and return events with ids of the caller's
  choice. \<open>renumber\<close> replaces the ids by numbers in the order of their first appearance, and
  \<open>convertEntries\<close> uses positions as times. The section shows that this loses nothing: the
  checker decides linearizability as stated over the caller's events.
\<close>

subsection \<open>Linearizable event histories\<close>

definition ev_at :: "'v Event list \<Rightarrow> EventKind \<Rightarrow> int \<Rightarrow> nat" where
  "ev_at evs kd i = length (takeWhile (\<lambda>e. \<not> (evKind e = kd \<and> evId e = i)) evs)"

definition events_ok :: "'v Event list \<Rightarrow> bool" where
  "events_ok evs \<longleftrightarrow> distinct (map (\<lambda>e. (evKind e, evId e)) evs)
     \<and> (\<forall>e \<in> set evs. ev_at evs CallEvent (evId e) < ev_at evs ReturnEvent (evId e) \<and> ev_at evs ReturnEvent (evId e) < length evs)"

fun ev_legal :: "('v, 's) Model \<Rightarrow> 'v Event list \<Rightarrow> 's \<Rightarrow> int list \<Rightarrow> bool" where
  "ev_legal M evs st [] \<longleftrightarrow> True"
| "ev_legal M evs st (i # order) \<longleftrightarrow>
     (case Step M st (evValue (evs ! ev_at evs CallEvent i)) (evValue (evs ! ev_at evs ReturnEvent i)) of
        Some (True, st') \<Rightarrow> ev_legal M evs st' order | _ \<Rightarrow> False)"

definition ev_linearizable :: "('v, 's) Model \<Rightarrow> 'v Event list \<Rightarrow> bool" where
  "ev_linearizable M evs \<longleftrightarrow> (\<exists>order. distinct order \<and> set order = evId ` set evs
     \<and> sorted_wrt (\<lambda>i j. ev_at evs CallEvent i < ev_at evs ReturnEvent j) order \<and> ev_legal M evs (Init M) order)"

lemma ev_at_eq:
  assumes "ev_at evs kd i < length evs"
  shows "evKind (evs ! ev_at evs kd i) = kd" "evId (evs ! ev_at evs kd i) = i"
  using nth_length_takeWhile [of "\<lambda>e. \<not> (evKind e = kd \<and> evId e = i)" evs] assms by (simp_all add: ev_at_def)

lemma ev_at_unique:
  assumes "events_ok evs" "k < length evs"
  shows "ev_at evs (evKind (evs ! k)) (evId (evs ! k)) = k"
proof -
  let ?P = "\<lambda>e. \<not> (evKind e = evKind (evs ! k) \<and> evId e = evId (evs ! k))" and ?j = "ev_at evs (evKind (evs ! k)) (evId (evs ! k))"
  have "takeWhile ?P evs \<noteq> evs" using nth_mem [OF assms(2)] by (auto simp: takeWhile_eq_all_conv)
  then have j: "?j < length evs"
    unfolding ev_at_def by (metis length_takeWhile_le nat_less_le takeWhile_eq_take take_all_iff)
  have "map (\<lambda>e. (evKind e, evId e)) evs ! ?j = map (\<lambda>e. (evKind e, evId e)) evs ! k"
    using ev_at_eq [OF j] j assms(2) by simp
  moreover have "distinct (map (\<lambda>e. (evKind e, evId e)) evs)" using assms(1) by (simp add: events_ok_def)
  ultimately show ?thesis
    using j assms(2) nth_eq_iff_index_eq [of "map (\<lambda>e. (evKind e, evId e)) evs" ?j k] by (simp only: length_map)
qed

subsection \<open>Renumbering\<close>

fun firsts :: "int list \<Rightarrow> 'v Event list \<Rightarrow> int list" where
  "firsts F [] = F"
| "firsts F (v # vs) = firsts (if evId v \<in> set F then F else F @ [evId v]) vs"

definition idx :: "int list \<Rightarrow> int \<Rightarrow> nat" where
  "idx F x = length (takeWhile (\<lambda>y. y \<noteq> x) F)"

lemma idx_less: "x \<in> set F \<Longrightarrow> idx F x < length F \<and> F ! idx F x = x"
  by (induction F) (auto simp: idx_def)

lemma idx_nth: "distinct F \<Longrightarrow> j < length F \<Longrightarrow> idx F (F ! j) = j"
  using idx_less [of "F ! j" F] nth_eq_iff_index_eq [of F "idx F (F ! j)" j] by simp

lemma idx_inj: "x \<in> set F \<Longrightarrow> y \<in> set F \<Longrightarrow> idx F x = idx F y \<Longrightarrow> x = y"
  by (metis idx_less)

lemma idx_append: "x \<in> set F \<Longrightarrow> idx (F @ G) x = idx F x"
  by (induction F) (auto simp: idx_def)

lemma idx_new: "x \<notin> set F \<Longrightarrow> idx (F @ [x]) x = length F"
  by (induction F) (auto simp: idx_def)

lemma firsts_props: "distinct F \<Longrightarrow> distinct (firsts F evs) \<and> set (firsts F evs) = set F \<union> evId ` set evs \<and> (\<exists>G. firsts F evs = F @ G)"
proof (induction evs arbitrary: F)
  case (Cons v vs)
  have "distinct (if evId v \<in> set F then F else F @ [evId v])" using Cons.prems by simp
  from Cons.IH [OF this] show ?case by (auto split: if_splits)
qed simp

definition renum :: "int list \<Rightarrow> 'v Event \<Rightarrow> 'v Event" where
  "renum F v = \<lparr>evClient = evClient v, evKind = evKind v, evValue = evValue v, evId = int (idx F (evId v))\<rparr>"

lemma renumber_loop_eq:
  assumes "distinct F" "\<And>x. m x = (if x \<in> set F then Some (int (idx F x)) else None)" "i = int (length F)"
  shows "renumber_loop evs acc m i = acc @ map (renum (firsts F evs)) evs"
  using assms
proof (induction evs arbitrary: F m i acc)
  case (Cons v evs)
  show ?case
  proof (cases "evId v \<in> set F")
    case True
    obtain G where "firsts F evs = F @ G" using firsts_props [OF Cons.prems(1)] by blast
    then have "idx (firsts F evs) (evId v) = idx F (evId v)" using True by (simp add: idx_append)
    then show ?thesis using True Cons.prems Cons.IH [OF Cons.prems] by (simp add: renum_def)
  next
    case False
    let ?F = "F @ [evId v]" and ?m = "m(evId v \<mapsto> i)"
    have d: "distinct ?F" using Cons.prems(1) False by simp
    have m: "?m x = (if x \<in> set ?F then Some (int (idx ?F x)) else None)" for x
      using Cons.prems(2,3) False by (auto simp: idx_append idx_new)
    obtain G where "firsts ?F evs = ?F @ G" using firsts_props [OF d] by blast
    then have "idx (firsts ?F evs) (evId v) = length F" using False idx_append [of "evId v" ?F G] by (simp add: idx_new)
    then have v: "renum (firsts ?F evs) v = \<lparr>evClient = evClient v, evKind = evKind v, evValue = evValue v, evId = i\<rparr>"
      using Cons.prems(3) by (simp add: renum_def)
    have "m (evId v) = None" using Cons.prems(2) False by simp
    then have "renumber_loop (v # evs) acc m i = renumber_loop evs (acc @ [renum (firsts ?F evs) v]) ?m (i + 1)" using v by simp
    also have "\<dots> = (acc @ [renum (firsts ?F evs) v]) @ map (renum (firsts ?F evs)) evs"
      by (rule Cons.IH [OF d m]) (use Cons.prems(3) in simp)
    finally show ?thesis using False by simp
  qed
qed simp

lemma convert_loop_nth:
  "length (convert_loop i evs) = length evs"
  "k < length evs \<Longrightarrow> kind (convert_loop i evs ! k) = (if evKind (evs ! k) = ReturnEvent then returnEntry else callEntry)
     \<and> val (convert_loop i evs ! k) = evValue (evs ! k) \<and> id_of (convert_loop i evs ! k) = evId (evs ! k)"
proof (induction evs arbitrary: i k)
  case (Cons v evs)
  { case 1 then show ?case using Cons.IH(1) by simp }
  { case 2 then show ?case using Cons.IH(2) [of "k - 1" "i + 1"] by (cases k) auto }
qed simp_all

definition ev_entries :: "'v Event list \<Rightarrow> 'v entry list" where
  "ev_entries evs = convertEntries (renumber evs)"

lemma renumber_eq: "renumber evs = map (renum (firsts [] evs)) evs"
  using renumber_loop_eq [of "[]" Map.empty 0 evs "[]"] by (simp add: renumber_def)

lemma ev_entries_nth:
  "length (ev_entries evs) = length evs"
  "k < length evs \<Longrightarrow> kind (ev_entries evs ! k) = (if evKind (evs ! k) = ReturnEvent then returnEntry else callEntry)"
  "k < length evs \<Longrightarrow> val (ev_entries evs ! k) = evValue (evs ! k)"
  "k < length evs \<Longrightarrow> id_of (ev_entries evs ! k) = int (idx (firsts [] evs) (evId (evs ! k)))"
  using convert_loop_nth(1) [of 0 "renumber evs"] convert_loop_nth(2) [of k "renumber evs" 0]
  by (simp_all add: ev_entries_def convertEntries_def renumber_eq renum_def)

subsection \<open>The entries are well-formed\<close>

fun ent_kind :: "EventKind \<Rightarrow> entryKind" where
  "ent_kind CallEvent = callEntry"
| "ent_kind ReturnEvent = returnEntry"

lemma ent_kind_inj: "ent_kind a = ent_kind b \<longleftrightarrow> a = b"
  by (cases a; cases b) simp_all

lemma ev_entries_kind: "k < length evs \<Longrightarrow> kind (ev_entries evs ! k) = ent_kind (evKind (evs ! k))"
  using ev_entries_nth(2) [of k evs] by (cases "evKind (evs ! k)") auto

lemma events_at:
  assumes "events_ok evs" "i \<in> evId ` set evs"
  shows "ev_at evs kd i < length evs" "ev_at evs CallEvent i < ev_at evs ReturnEvent i"
proof -
  show lt: "ev_at evs CallEvent i < ev_at evs ReturnEvent i" using assms by (auto simp: events_ok_def)
  have "ev_at evs ReturnEvent i < length evs" using assms by (auto simp: events_ok_def)
  with lt show "ev_at evs kd i < length evs" by (cases kd) simp_all
qed

lemma ev_entries_wf:
  assumes ok: "events_ok evs"
  shows "well_formed (length (firsts [] evs)) (ev_entries evs)"
proof -
  let ?F = "firsts [] evs" and ?es = "ev_entries evs"
  have F: "distinct ?F" "set ?F = evId ` set evs" using firsts_props [of "[]" evs] by auto
  have key: "j = k" if "j < length evs" "k < length evs" "kind (?es ! j) = kind (?es ! k)" "id_of (?es ! j) = id_of (?es ! k)" for j k
  proof -
    have "evKind (evs ! j) = evKind (evs ! k)" using that ev_entries_kind ent_kind_inj by metis
    moreover have "idx ?F (evId (evs ! j)) = idx ?F (evId (evs ! k))" using that(4) ev_entries_nth(4) [OF that(1)] ev_entries_nth(4) [OF that(2)] by simp
    then have "evId (evs ! j) = evId (evs ! k)" using idx_inj [of "evId (evs ! j)" ?F "evId (evs ! k)"] F(2) that(1,2) by simp
    ultimately show ?thesis using ev_at_unique [OF ok that(1)] ev_at_unique [OF ok that(2)] by metis
  qed
  have "distinct (map (\<lambda>e. (kind e, id_of e)) ?es)"
    unfolding distinct_conv_nth using key ev_entries_nth(1) [of evs] by auto
  moreover have "(\<lambda>e. (kind e, id_of e)) ` set ?es = UNIV \<times> int ` {..<length ?F}"
  proof
    show "(\<lambda>e. (kind e, id_of e)) ` set ?es \<subseteq> UNIV \<times> int ` {..<length ?F}"
    proof
      fix x assume "x \<in> (\<lambda>e. (kind e, id_of e)) ` set ?es"
      then obtain k where k: "k < length evs" "x = (kind (?es ! k), id_of (?es ! k))" using ev_entries_nth(1) [of evs] by (auto simp: in_set_conv_nth)
      have "idx ?F (evId (evs ! k)) < length ?F" using idx_less [of "evId (evs ! k)" ?F] F(2) k(1) by simp
      then show "x \<in> UNIV \<times> int ` {..<length ?F}" using k ev_entries_nth(4) [OF k(1)] by simp
    qed
    show "UNIV \<times> int ` {..<length ?F} \<subseteq> (\<lambda>e. (kind e, id_of e)) ` set ?es"
    proof
      fix x assume "x \<in> (UNIV :: entryKind set) \<times> int ` {..<length ?F}"
      then obtain ek j where ek: "x = (ek, int j)" "j < length ?F" by auto
      obtain kd where kd: "ek = ent_kind kd" using ent_kind.simps by (cases ek) metis+
      note x = ek(1) [unfolded kd] ek(2)
      have mem: "?F ! j \<in> evId ` set evs" using x(2) F(2) nth_mem by blast
      let ?k = "ev_at evs kd (?F ! j)"
      have k: "?k < length evs" by (rule events_at(1) [OF ok mem])
      have "kind (?es ! ?k) = ent_kind kd" "id_of (?es ! ?k) = int j"
        using ev_entries_kind [OF k] ev_entries_nth(4) [OF k] ev_at_eq [OF k] idx_nth [OF F(1) x(2)] by simp_all
      then have "x = (kind (?es ! ?k), id_of (?es ! ?k))" using x(1) by simp
      moreover have "?es ! ?k \<in> set ?es" using k ev_entries_nth(1) [of evs] by simp
      ultimately show "x \<in> (\<lambda>e. (kind e, id_of e)) ` set ?es" by blast
    qed
  qed
  moreover have "j < k" if jk: "j < length ?es" "k < length ?es" and kj: "kind (?es ! j) = callEntry" and kk: "kind (?es ! k) = returnEntry"
    and ideq: "id_of (?es ! j) = id_of (?es ! k)" for j k
  proof -
    have l: "j < length evs" "k < length evs" using jk ev_entries_nth(1) [of evs] by simp_all
    have "evKind (evs ! j) = CallEvent" "evKind (evs ! k) = ReturnEvent"
      using ev_entries_kind [OF l(1)] ev_entries_kind [OF l(2)] kj kk by (metis ent_kind.simps ent_kind_inj)+
    moreover have "evId (evs ! j) = evId (evs ! k)"
      using ideq ev_entries_nth(4) [OF l(1)] ev_entries_nth(4) [OF l(2)] idx_inj [of "evId (evs ! j)" ?F "evId (evs ! k)"] F(2) l by simp
    moreover have "evId (evs ! j) \<in> evId ` set evs" using l(1) by simp
    ultimately show ?thesis
      using ev_at_unique [OF ok l(1)] ev_at_unique [OF ok l(2)] events_at(2) [OF ok] by metis
  qed
  ultimately show ?thesis unfolding well_formed_def by blast
qed

lemma ev_entries_pos:
  assumes ok: "events_ok evs" and j: "j < length (firsts [] evs)"
  shows "pos_of (ev_entries evs) (ent_kind kd) j = ev_at evs kd (firsts [] evs ! j)"
    and "val (ev_entries evs ! pos_of (ev_entries evs) (ent_kind kd) j) = evValue (evs ! ev_at evs kd (firsts [] evs ! j))"
proof -
  let ?F = "firsts [] evs" and ?es = "ev_entries evs" and ?k = "ev_at evs kd (firsts [] evs ! j)"
  have F: "distinct ?F" "set ?F = evId ` set evs" using firsts_props [of "[]" evs] by auto
  have "?F ! j \<in> evId ` set evs" using F(2) j nth_mem by blast
  then have k: "?k < length evs" by (rule events_at(1) [OF ok])
  have e: "kind (?es ! ?k) = ent_kind kd" "id_of (?es ! ?k) = int j"
    using ev_entries_kind [OF k] ev_entries_nth(4) [OF k] ev_at_eq [OF k] idx_nth [OF F(1) j] by simp_all
  have "?k = pos_of ?es (kind (?es ! ?k)) j"
    using wf_pos_eq [OF ev_entries_wf [OF ok] _ e(2) j] k ev_entries_nth(1) [of evs] by simp
  then show p: "pos_of ?es (ent_kind kd) j = ?k" using e(1) by simp
  show "val (?es ! pos_of ?es (ent_kind kd) j) = evValue (evs ! ?k)" unfolding p using ev_entries_nth(3) [OF k] .
qed

subsection \<open>What \<open>CheckEvents\<close> decides\<close>

text \<open>The operations of an event history, by the numbers \<open>renumber\<close> gives them.\<close>

definition ev_ops :: "'v Event list \<Rightarrow> 'v Operation list" where
  "ev_ops evs = map (\<lambda>i. \<lparr>opClient = 0, opInput = evValue (evs ! ev_at evs CallEvent i), opCall = int (ev_at evs CallEvent i),
     opOutput = evValue (evs ! ev_at evs ReturnEvent i), opReturn = int (ev_at evs ReturnEvent i)\<rparr>) (firsts [] evs)"

lemma ev_legal_Cons_iff:
  "ev_legal M evs st (i # order) \<longleftrightarrow> (\<exists>st'. Step M st (evValue (evs ! ev_at evs CallEvent i)) (evValue (evs ! ev_at evs ReturnEvent i))
     = Some (True, st') \<and> ev_legal M evs st' order)"
  by (auto split: option.splits bool.splits)

lemma ev_legal_map:
  "\<forall>j \<in> set order. j < length (firsts [] evs) \<Longrightarrow> legal M (ev_ops evs) st order \<longleftrightarrow> ev_legal M evs st (map ((!) (firsts [] evs)) order)"
  by (induction order arbitrary: st) (auto simp: legal_Cons_iff ev_legal_Cons_iff ev_ops_def simp del: ev_legal.simps(2))

lemma ev_lin_iff:
  assumes ok: "events_ok evs"
  shows "lin M (length (firsts [] evs)) (ev_entries evs) {} (Init M) \<longleftrightarrow> ev_linearizable M evs"
proof -
  let ?F = "firsts [] evs" and ?es = "ev_entries evs"
  let ?R = "\<lambda>i j. ev_at evs CallEvent i < ev_at evs ReturnEvent j"
  have F: "distinct ?F" "set ?F = evId ` set evs" using firsts_props [of "[]" evs] by auto
  have io: "inp ?es i = opInput (ev_ops evs ! i)" "outp ?es i = opOutput (ev_ops evs ! i)" if "i < length ?F" for i
    using ev_entries_pos(2) [OF ok that, of CallEvent] ev_entries_pos(2) [OF ok that, of ReturnEvent] that
    by (simp_all add: inp_def outp_def ev_ops_def)
  have pos: "cpos ?es i < rpos ?es j \<longleftrightarrow> ?R (?F ! i) (?F ! j)" if "i < length ?F" "j < length ?F" for i j
    using ev_entries_pos(1) [OF ok that(1), of CallEvent] ev_entries_pos(1) [OF ok that(2), of ReturnEvent] by simp
  have srt: "sorted_wrt (\<lambda>i j. cpos ?es i < rpos ?es j) order \<longleftrightarrow> sorted_wrt ?R (map ((!) ?F) order)" if "set order = {..<length ?F}" for order
  proof -
    have "sorted_wrt P order \<longleftrightarrow> sorted_wrt Q order" if "\<And>i j. i \<in> set order \<Longrightarrow> j \<in> set order \<Longrightarrow> P i j \<longleftrightarrow> Q i j" for P Q
      using that sorted_wrt_mono_rel [of order P Q] sorted_wrt_mono_rel [of order Q P] by blast
    from this [of "\<lambda>i j. cpos ?es i < rpos ?es j" "\<lambda>i j. ?R (?F ! i) (?F ! j)"] show ?thesis
      unfolding sorted_wrt_map using pos that by simp
  qed
  have "lin M (length ?F) ?es {} (Init M) \<longleftrightarrow> (\<exists>order. distinct order \<and> set order = {..<length ?F}
      \<and> sorted_wrt ?R (map ((!) ?F) order) \<and> ev_legal M evs (Init M) (map ((!) ?F) order))"
    using lin_iff_order [OF ev_entries_wf [OF ok] io, of M "{}" "Init M"] srt ev_legal_map [of _ evs M "Init M"] by (simp cong: conj_cong)
  also have "\<dots> \<longleftrightarrow> ev_linearizable M evs"
  proof
    assume "\<exists>order. distinct order \<and> set order = {..<length ?F} \<and> sorted_wrt ?R (map ((!) ?F) order) \<and> ev_legal M evs (Init M) (map ((!) ?F) order)"
    then obtain order where o: "distinct order" "set order = {..<length ?F}" "sorted_wrt ?R (map ((!) ?F) order)" "ev_legal M evs (Init M) (map ((!) ?F) order)"
      by blast
    have "inj_on ((!) ?F) (set order)" using F(1) o(2) by (auto simp: inj_on_def nth_eq_iff_index_eq)
    then have "distinct (map ((!) ?F) order)" using o(1) by (simp add: distinct_map)
    moreover have "set (map ((!) ?F) order) = evId ` set evs" using o(2) nth_image [of "length ?F" ?F] F(2) by (simp add: lessThan_atLeast0)
    ultimately show "ev_linearizable M evs" unfolding ev_linearizable_def using o(3,4) by blast
  next
    assume "ev_linearizable M evs"
    then obtain order where o: "distinct order" "set order = set ?F" "sorted_wrt ?R order" "ev_legal M evs (Init M) order"
      unfolding ev_linearizable_def F(2) by blast
    let ?o = "map (idx ?F) order"
    have m: "map ((!) ?F) ?o = order" using idx_less [of _ ?F] o(2) by (auto simp: o_def intro!: map_idI)
    have "distinct ?o" using o(1) m by (metis distinct_map)
    moreover have "set ?o = {..<length ?F}"
    proof
      show "set ?o \<subseteq> {..<length ?F}" using idx_less [of _ ?F] o(2) by auto
      show "{..<length ?F} \<subseteq> set ?o"
      proof
        fix j assume "j \<in> {..<length ?F}"
        then have j: "j < length ?F" by simp
        then have "?F ! j \<in> set order" using o(2) by simp
        then show "j \<in> set ?o" using idx_nth [OF F(1) j] by (metis image_eqI image_set)
      qed
    qed
    ultimately show "\<exists>order. distinct order \<and> set order = {..<length ?F} \<and> sorted_wrt ?R (map ((!) ?F) order)
        \<and> ev_legal M evs (Init M) (map ((!) ?F) order)"
      using o(3,4) m by (intro exI [of _ ?o]) simp
  qed
  finally show ?thesis .
qed

definition ev_checkable :: "('v, 's) Model \<Rightarrow> 'v Event list \<Rightarrow> bool" where
  "ev_checkable M evs \<longleftrightarrow> events_ok evs \<and> length evs < 2 ^ 64
     \<and> (\<forall>s. \<forall>e \<in> set evs. Step M s (evValue (evs ! ev_at evs CallEvent (evId e))) (evValue (evs ! ev_at evs ReturnEvent (evId e))) \<noteq> None)"

lemma checkSingle_events:
  assumes ch: "ev_checkable M evs" and eq: "equal_ok M"
  shows "\<exists>ok c. checkSingle M (ev_entries evs) cp kill = Some (ok, c) \<and> longest_ok (valid_seq M (length (firsts [] evs)) (ev_entries evs)) (length (firsts [] evs)) (longest c) (seqs c)
    \<and> (ok \<longrightarrow> ev_linearizable M evs) \<and> (\<not> ok \<longrightarrow> (\<forall>j. \<not> kill j) \<longrightarrow> \<not> ev_linearizable M evs)"
proof -
  let ?F = "firsts [] evs" and ?es = "ev_entries evs"
  have ok: "events_ok evs" and n: "length evs < 2 ^ 64" using ch by (simp_all add: ev_checkable_def)
  note wf = ev_entries_wf [OF ok]
  have len: "length ?F < 2 ^ 64" using wf_length [OF wf] ev_entries_nth(1) [of evs] n by simp
  have F: "set ?F = evId ` set evs" using firsts_props [of "[]" evs] by auto
  have "Step M s (inp ?es i) (outp ?es i) \<noteq> None" if i: "i < length ?F" for s i
  proof -
    have "?F ! i \<in> evId ` set evs" using F i nth_mem by blast
    then obtain e where e: "e \<in> set evs" "evId e = ?F ! i" by auto
    then show ?thesis using ch ev_entries_pos(2) [OF ok i, of CallEvent] ev_entries_pos(2) [OF ok i, of ReturnEvent]
      unfolding ev_checkable_def inp_def outp_def by (metis ent_kind.simps)
  qed
  then have "step_total M (length ?F) ?es" by (simp add: step_total_def)
  from checkSingle_lin [OF wf eq this len, of cp kill] show ?thesis unfolding ev_lin_iff [OF ok] .
qed

definition ev_parts_of :: "('v, 's) Model \<Rightarrow> 'v Event list \<Rightarrow> 'v Event list list option" where
  "ev_parts_of M evs = (case PartitionEvent M of None \<Rightarrow> Some [evs] | Some f \<Rightarrow> f evs)"

lemma fillDefault_events: "PartitionEvent (fillDefault sv ss M) = Some (ev_parts_of M)"
  by (auto simp: fillDefault_def Let_def ev_parts_of_def NoPartitionEvent_def fun_eq_iff split: option.splits)

lemma ev_legal_step_cong: "Step M' = Step M \<Longrightarrow> ev_legal M' evs st order \<longleftrightarrow> ev_legal M evs st order"
  by (induction order arbitrary: st) (auto simp: ev_legal_Cons_iff simp del: ev_legal.simps(2))

lemma fillDefault_ev_linearizable: "ev_linearizable (fillDefault sv ss M) evs \<longleftrightarrow> ev_linearizable M evs"
  unfolding ev_linearizable_def fillDefault_fields(1) ev_legal_step_cong [OF fillDefault_fields(2)] ..


text \<open>A register that returns its old value when it is written: two overlapping writes.\<close>

definition swap_model :: "(nat, nat) Model" where
  "swap_model = \<lparr>Partition = None, PartitionEvent = None, Init = 0,
     Step = (\<lambda>st i out. Some (out = Some st, case i of None \<Rightarrow> st | Some v \<Rightarrow> v)), Equal = None,
     DescribeOperation = None, DescribeState = None\<rparr>"

definition swap_events :: "nat Event list" where
  "swap_events = [\<lparr>evClient = 0, evKind = CallEvent, evValue = Some 5, evId = 42\<rparr>, \<lparr>evClient = 1, evKind = CallEvent, evValue = Some 6, evId = 17\<rparr>,
     \<lparr>evClient = 0, evKind = ReturnEvent, evValue = Some 6, evId = 42\<rparr>, \<lparr>evClient = 1, evKind = ReturnEvent, evValue = Some 0, evId = 17\<rparr>]"

definition swap_env :: "(nat, nat) run_env" where
  "swap_env = \<lparr>reSort = id, reCases = [Recv 0], reKills = (\<lambda>_ _. False), reVisit = id, reSprintV = (\<lambda>_. []), reSprintS = (\<lambda>_. [])\<rparr>"


end
