(* ===== verification/Porcupine_Visual.thy ===== *)
theory Porcupine_Visual
  imports Porcupine
begin

section \<open>Visualizing a check, \<open>porcupine/visualization.go\<close>\<close>

text \<open>
  \<open>computeVisualizationData\<close> turns what a verbose check returns into the data of a page. It runs the model again
  along every partial linearization and panics when the model does not accept a step. \<open>sort.Slice\<close> is not
  stable and is an argument; it sorts the caller's slice in place. The page, \<open>json.Marshal\<close> and the
  writing are not modelled.
\<close>

record historyElement =
  heClientId :: int
  heStart :: int
  heEnd :: int
  heDescription :: string

record linearizationStep =
  lsIndex :: int
  lsStateDescription :: string

record partitionVisualizationData =
  pvHistory :: "historyElement list"
  pvPartialLinearizations :: "linearizationStep list list"
  pvLargest :: "int \<rightharpoonup> int"

definition zero_element :: historyElement where
  "zero_element = \<lparr>heClientId = 0, heStart = 0, heEnd = 0, heDescription = []\<rparr>"

text \<open>A lookup in a map of interfaces: nil when there is no entry.\<close>

definition iface_at :: "(int \<rightharpoonup> 'v iface) \<Rightarrow> int \<Rightarrow> 'v iface" where
  "iface_at m k = (case m k of None \<Rightarrow> None | Some v \<Rightarrow> v)"

fun vis_history :: "('v, 's) Model \<Rightarrow> 'v entry list \<Rightarrow> historyElement list \<Rightarrow> (int \<rightharpoonup> 'v iface) \<Rightarrow> (int \<rightharpoonup> 'v iface)
    \<Rightarrow> (historyElement list \<times> (int \<rightharpoonup> 'v iface) \<times> (int \<rightharpoonup> 'v iface)) option" where
  "vis_history model [] history callValue returnValue = Some (history, callValue, returnValue)"
| "vis_history model (elem # rest) history callValue returnValue =
     (case kind elem of
        callEntry \<Rightarrow> do {
          h \<leftarrow> go_at history (id_of elem);
          history \<leftarrow> go_upd history (id_of elem) (h\<lparr>heClientId := clientId elem, heStart := time elem\<rparr>);
          vis_history model rest history (callValue(id_of elem \<mapsto> val elem)) returnValue }
      | returnEntry \<Rightarrow> do {
          h \<leftarrow> go_at history (id_of elem);
          describe \<leftarrow> DescribeOperation model;
          desc \<leftarrow> describe (iface_at callValue (id_of elem)) (val elem);
          history \<leftarrow> go_upd history (id_of elem) (h\<lparr>heEnd := time elem, heDescription := desc\<rparr>);
          vis_history model rest history callValue (returnValue(id_of elem \<mapsto> val elem)) })"

text \<open>The loop over one partial linearization, the \<open>i\<close>-th, of length \<open>len\<close>. A size that is not in the map reads
  as 0.\<close>

definition size_at :: "(int \<rightharpoonup> int) \<Rightarrow> int \<Rightarrow> int" where
  "size_at m k = (case m k of None \<Rightarrow> 0 | Some s \<Rightarrow> s)"

fun vis_steps :: "('v, 's) Model \<Rightarrow> (int \<rightharpoonup> 'v iface) \<Rightarrow> (int \<rightharpoonup> 'v iface) \<Rightarrow> int \<Rightarrow> int \<Rightarrow> int list \<Rightarrow> 's
    \<Rightarrow> (int \<rightharpoonup> int) \<Rightarrow> (int \<rightharpoonup> int) \<Rightarrow> (linearizationStep list \<times> (int \<rightharpoonup> int) \<times> (int \<rightharpoonup> int)) option" where
  "vis_steps model callValue returnValue i len [] state largestSize largestIndex = Some ([], largestSize, largestIndex)"
| "vis_steps model callValue returnValue i len (histId # partial) state largestSize largestIndex = do {
     (ok, state) \<leftarrow> Step model state (iface_at callValue histId) (iface_at returnValue histId);
     if \<not> ok then None
     else do {
       describe \<leftarrow> DescribeState model;
       let stateDesc = describe state;
       let (largestSize, largestIndex) =
         (if size_at largestSize histId < len then (largestSize(histId \<mapsto> len), largestIndex(histId \<mapsto> i))
          else (largestSize, largestIndex));
       (linearization, largestSize, largestIndex) \<leftarrow>
         vis_steps model callValue returnValue i len partial state largestSize largestIndex;
       Some (\<lparr>lsIndex = histId, lsStateDescription = stateDesc\<rparr> # linearization, largestSize, largestIndex) } }"

fun vis_partials :: "('v, 's) Model \<Rightarrow> (int \<rightharpoonup> 'v iface) \<Rightarrow> (int \<rightharpoonup> 'v iface) \<Rightarrow> int \<Rightarrow> int list list
    \<Rightarrow> (int \<rightharpoonup> int) \<Rightarrow> (int \<rightharpoonup> int) \<Rightarrow> (linearizationStep list list \<times> (int \<rightharpoonup> int)) option" where
  "vis_partials model callValue returnValue i [] largestSize largestIndex = Some ([], largestIndex)"
| "vis_partials model callValue returnValue i (partial # partials) largestSize largestIndex = do {
     (linearization, largestSize, largestIndex) \<leftarrow>
       vis_steps model callValue returnValue i (go_len partial) partial (Init model) largestSize largestIndex;
     (linearizations, largestIndex) \<leftarrow> vis_partials model callValue returnValue (i + 1) partials largestSize largestIndex;
     Some (linearization # linearizations, largestIndex) }"

definition vis_partition :: "(int list list \<Rightarrow> int list list) \<Rightarrow> ('v, 's) Model \<Rightarrow> 'v entry list \<Rightarrow> int list list
    \<Rightarrow> partitionVisualizationData option" where
  "vis_partition srt model entries partials = do {
     (history, callValue, returnValue) \<leftarrow>
       vis_history model entries (replicate (length entries div 2) zero_element) Map.empty Map.empty;
     (linearizations, largestIndex) \<leftarrow> vis_partials model callValue returnValue 0 (srt partials) Map.empty Map.empty;
     Some \<lparr>pvHistory = history, pvPartialLinearizations = linearizations, pvLargest = largestIndex\<rparr> }"

definition computeVisualizationData :: "('v iface \<Rightarrow> string) \<Rightarrow> ('s \<Rightarrow> string) \<Rightarrow> (int list list \<Rightarrow> int list list) \<Rightarrow> ('v, 's) Model
    \<Rightarrow> 'v linearizationInfo \<Rightarrow> partitionVisualizationData list option" where
  "computeVisualizationData sprint_v sprint_s srt model0 info =
     (let model = fillDefault sprint_v sprint_s model0 in
      those (map (\<lambda>partition. do {
        entries \<leftarrow> go_at (ihistory info) (int partition);
        partials \<leftarrow> go_at (partialLinearizations info) (int partition);
        vis_partition srt model entries partials }) [0..<length (ihistory info)]))"

subsection \<open>The history\<close>

text \<open>The elements and the two maps after the first \<open>k\<close> entries.\<close>

definition element_at :: "'v entry list \<Rightarrow> (nat \<Rightarrow> string) \<Rightarrow> nat \<Rightarrow> nat \<Rightarrow> historyElement" where
  "element_at es desc k i =
     \<lparr>heClientId = (if cpos es i < k then clientId (es ! cpos es i) else 0),
      heStart = (if cpos es i < k then time (es ! cpos es i) else 0),
      heEnd = (if rpos es i < k then time (es ! rpos es i) else 0),
      heDescription = (if rpos es i < k then desc i else [])\<rparr>"

definition seen_at :: "nat \<Rightarrow> 'v entry list \<Rightarrow> entryKind \<Rightarrow> nat \<Rightarrow> (int \<rightharpoonup> 'v iface)" where
  "seen_at n es kd k x = (if 0 \<le> x \<and> x < int n \<and> pos_of es kd (nat x) < k then Some (val (es ! pos_of es kd (nat x))) else None)"

lemma entry_pos_iff:
  assumes "well_formed n es" "k < length es" "id_of (es ! k) = int i" "i < n" "j < n"
  shows "pos_of es kd j = k \<longleftrightarrow> kd = kind (es ! k) \<and> j = i"
  using wf_pos_eq [OF assms(1-4)] wf_pos [OF assms(1,5), of kd] assms(3) by auto

lemma seen_at_Suc:
  assumes "well_formed n es" "k < length es" "id_of (es ! k) = int i" "i < n"
  shows "seen_at n es kd (Suc k) = (if kd = kind (es ! k) then (seen_at n es kd k)(int i \<mapsto> val (es ! k)) else seen_at n es kd k)"
proof
  fix x
  show "seen_at n es kd (Suc k) x = (if kd = kind (es ! k) then (seen_at n es kd k)(int i \<mapsto> val (es ! k)) else seen_at n es kd k) x"
  proof (cases "0 \<le> x \<and> x < int n")
    case True
    then have "nat x < n" by linarith
    from entry_pos_iff [OF assms this] have "pos_of es kd (nat x) = k \<longleftrightarrow> kd = kind (es ! k) \<and> x = int i" using True by auto
    note at = this
    show ?thesis
    proof (cases "kd = kind (es ! k) \<and> x = int i")
      case hit: True
      with at have "pos_of es kd (nat x) = k" by blast
      with hit True show ?thesis by (simp add: seen_at_def)
    next
      case False
      with at have "pos_of es kd (nat x) < Suc k \<longleftrightarrow> pos_of es kd (nat x) < k" by (metis less_Suc_eq)
      then have "seen_at n es kd (Suc k) x = seen_at n es kd k x" by (simp add: seen_at_def)
      with False show ?thesis by auto
    qed
  next
    case False
    then have "x \<noteq> int i" using assms(4) by auto
    moreover have "seen_at n es kd' k' x = None" for kd' k' using False by (auto simp: seen_at_def)
    ultimately show ?thesis by simp
  qed
qed

lemma update_map_upt: "i < n \<Longrightarrow> (\<And>j. j < n \<Longrightarrow> j \<noteq> i \<Longrightarrow> g j = f j) \<Longrightarrow> g i = v \<Longrightarrow> (map f [0..<n])[i := v] = map g [0..<n]"
  by (rule nth_equalityI) (auto simp: nth_list_update)

lemma vis_history_eq:
  assumes wf: "well_formed n es" and D: "DescribeOperation M = Some D" "\<And>i. i < n \<Longrightarrow> D (inp es i) (outp es i) = Some (desc i)"
    and "k \<le> length es"
  shows "vis_history M (drop k es) (map (element_at es desc k) [0..<n]) (seen_at n es callEntry k) (seen_at n es returnEntry k)
    = Some (map (element_at es desc (length es)) [0..<n], seen_at n es callEntry (length es), seen_at n es returnEntry (length es))"
  using assms(4)
proof (induction k rule: inc_induct)
  case base
  show ?case by simp
next
  case (step k)
  obtain i where i: "i < n" "id_of (es ! k) = int i" using wf_id [OF wf step(2)] by blast
  note pos = entry_pos_iff [OF wf step(2) i(2,1)] and seen = seen_at_Suc [OF wf step(2) i(2,1)]
  let ?h = "map (element_at es desc k) [0..<n]"
  have at: "go_at ?h (int i) = Some (element_at es desc k i)" "go_upd ?h (int i) v = Some (?h[i := v])" for v
    using i(1) by (simp_all add: go_at_def go_upd_def)
  have lt: "cpos es j < Suc k \<longleftrightarrow> cpos es j < k \<or> kind (es ! k) = callEntry \<and> j = i"
    "rpos es j < Suc k \<longleftrightarrow> rpos es j < k \<or> kind (es ! k) = returnEntry \<and> j = i" if "j < n" for j
    using pos [OF that, of callEntry] pos [OF that, of returnEntry] by (auto simp: less_Suc_eq)
  have same: "element_at es desc (Suc k) j = element_at es desc k j" if "j < n" "j \<noteq> i" for j
    using lt [OF that(1)] that(2) by (simp add: element_at_def)
  have "vis_history M (drop k es) ?h (seen_at n es callEntry k) (seen_at n es returnEntry k)
    = vis_history M (drop (Suc k) es) (map (element_at es desc (Suc k)) [0..<n])
        (seen_at n es callEntry (Suc k)) (seen_at n es returnEntry (Suc k))"
  proof (cases "kind (es ! k)")
    case callEntry
    have c: "cpos es i = k" using pos [OF i(1), of callEntry] callEntry by simp
    have "element_at es desc (Suc k) i = (element_at es desc k i)\<lparr>heClientId := clientId (es ! k), heStart := time (es ! k)\<rparr>"
      using lt(2) [OF i(1)] callEntry by (simp add: element_at_def c)
    then have "?h[i := (element_at es desc k i)\<lparr>heClientId := clientId (es ! k), heStart := time (es ! k)\<rparr>] = map (element_at es desc (Suc k)) [0..<n]"
      by (intro update_map_upt [OF i(1) same]) auto
    with callEntry at show ?thesis by (simp add: Cons_nth_drop_Suc [OF step(2), symmetric] i(2) seen)
  next
    case returnEntry
    have r: "rpos es i = k" using pos [OF i(1), of returnEntry] returnEntry by simp
    have "cpos es i < k" using wf_call_return [OF wf i(1)] r by simp
    then have v: "iface_at (seen_at n es callEntry k) (int i) = inp es i" "val (es ! k) = outp es i"
      using i(1) by (simp_all add: iface_at_def seen_at_def inp_def outp_def r)
    have "element_at es desc (Suc k) i = (element_at es desc k i)\<lparr>heEnd := time (es ! k), heDescription := desc i\<rparr>"
      using lt(1) [OF i(1)] returnEntry by (simp add: element_at_def r)
    then have "?h[i := (element_at es desc k i)\<lparr>heEnd := time (es ! k), heDescription := desc i\<rparr>] = map (element_at es desc (Suc k)) [0..<n]"
      by (intro update_map_upt [OF i(1) same]) auto
    with returnEntry at v D(2) [OF i(1)] show ?thesis by (simp add: Cons_nth_drop_Suc [OF step(2), symmetric] i(2) seen D(1))
  qed
  with step.IH show ?case by simp
qed

subsection \<open>The partial linearizations\<close>

text \<open>Every element of a sequence takes its length if that is larger.\<close>

lemma vis_steps_ok:
  assumes "runs_to M es st order st'" "\<forall>i \<in> set order. iface_at cv (int i) = inp es i \<and> iface_at rv (int i) = outp es i"
    and "DescribeState M = Some ds" "distinct order"
  shows "\<exists>ls. vis_steps M cv rv i len (map int order) st sz idx
      = Some (ls, (\<lambda>x. if x \<in> int ` set order \<and> size_at sz x < len then Some len else sz x),
          (\<lambda>x. if x \<in> int ` set order \<and> size_at sz x < len then Some i else idx x))
    \<and> map lsIndex ls = map int order"
  using assms(1,2,4)
proof (induction order arbitrary: st sz idx)
  case (Cons k order)
  then obtain st1 where st1: "moves M es k st st1" "runs_to M es st1 order st'" by auto
  let ?b = "size_at sz (int k) < len"
  define sz1 where "sz1 = (if ?b then sz(int k \<mapsto> len) else sz)"
  define idx1 where "idx1 = (if ?b then idx(int k \<mapsto> i) else idx)"
  have "\<forall>i \<in> set order. iface_at cv (int i) = inp es i \<and> iface_at rv (int i) = outp es i" "distinct order"
    using Cons.prems(2,3) by simp_all
  from Cons.IH [OF st1(2) this, of sz1 idx1] obtain ls where ls: "vis_steps M cv rv i len (map int order) st1 sz1 idx1
      = Some (ls, (\<lambda>x. if x \<in> int ` set order \<and> size_at sz1 x < len then Some len else sz1 x),
          (\<lambda>x. if x \<in> int ` set order \<and> size_at sz1 x < len then Some i else idx1 x))"
    "map lsIndex ls = map int order" by blast
  have "Step M st (iface_at cv (int k)) (iface_at rv (int k)) = Some (True, st1)"
    using st1(1) Cons.prems(2) by (simp add: moves_def)
  moreover have "(if ?b then (sz(int k \<mapsto> len), idx(int k \<mapsto> i)) else (sz, idx)) = (sz1, idx1)" by (simp add: sz1_def idx1_def)
  ultimately have "vis_steps M cv rv i len (map int (k # order)) st sz idx
      = Some (\<lparr>lsIndex = int k, lsStateDescription = ds st1\<rparr> # ls,
          (\<lambda>x. if x \<in> int ` set order \<and> size_at sz1 x < len then Some len else sz1 x),
          (\<lambda>x. if x \<in> int ` set order \<and> size_at sz1 x < len then Some i else idx1 x))"
    using ls(1) assms(3) by (simp add: Let_def)
  moreover have k: "int k \<notin> int ` set order" using Cons.prems(3) by auto
  moreover have "size_at sz1 x = size_at sz x" if "x \<noteq> int k" for x using that by (simp add: sz1_def size_at_def)
  then have "(\<lambda>x. if x \<in> int ` set order \<and> size_at sz1 x < len then Some len else sz1 x)
      = (\<lambda>x. if x \<in> int ` set (k # order) \<and> size_at sz x < len then Some len else sz x)"
    "(\<lambda>x. if x \<in> int ` set order \<and> size_at sz1 x < len then Some i else idx1 x)
      = (\<lambda>x. if x \<in> int ` set (k # order) \<and> size_at sz x < len then Some i else idx x)"
    using k by (auto simp: fun_eq_iff sz1_def idx1_def)
  ultimately show ?case using ls(2) by simp
qed simp

text \<open>The index of the first sequence that has an element.\<close>

definition first_with :: "int list list \<Rightarrow> int \<Rightarrow> int option" where
  "first_with ps x = (if \<exists>p \<in> set ps. x \<in> set p then Some (go_len (takeWhile (\<lambda>p. x \<notin> set p) ps)) else None)"

lemma first_with_Cons:
  "first_with (p # ps) x = (if x \<in> set p then Some 0 else map_option (\<lambda>j. j + 1) (first_with ps x))"
  by (auto simp: first_with_def)

lemma vis_partials_ok:
  assumes "\<forall>p \<in> set ps. valid_seq M n es p" "DescribeState M = Some ds"
    and "\<And>k. k < n \<Longrightarrow> iface_at cv (int k) = inp es k \<and> iface_at rv (int k) = outp es k"
    and "sorted_wrt (\<lambda>p q. length q \<le> length p) ps" "\<forall>x s. sz x = Some s \<longrightarrow> 0 < s \<and> (\<forall>p \<in> set ps. go_len p \<le> s)"
  shows "\<exists>ls. vis_partials M cv rv i ps sz idx
      = Some (ls, \<lambda>x. if sz x = None \<and> first_with ps x \<noteq> None then map_option (\<lambda>j. i + j) (first_with ps x) else idx x)
    \<and> map (map lsIndex) ls = ps"
  using assms(1,4,5)
proof (induction ps arbitrary: i sz idx)
  case Nil
  show ?case by (simp add: first_with_def)
next
  case (Cons p ps)
  from Cons.prems(1) obtain order st where p: "p = map int order" "distinct order" "set order \<subseteq> {..<n}" "runs_to M es (Init M) order st"
    by (auto simp: valid_seq_def)
  define sz1 where "sz1 = (\<lambda>x. if x \<in> set p \<and> sz x = None then Some (go_len p) else sz x)"
  define idx1 where "idx1 = (\<lambda>x. if x \<in> set p \<and> sz x = None then Some i else idx x)"
  have upd: "x \<in> int ` set order \<and> size_at sz x < go_len p \<longleftrightarrow> x \<in> set p \<and> sz x = None" for x
  proof -
    have "0 < go_len p" if "x \<in> set p" using that by (auto simp: go_len_def)
    then show ?thesis using Cons.prems(3) by (force simp: size_at_def p(1) split: option.splits)
  qed
  have "\<forall>k \<in> set order. iface_at cv (int k) = inp es k \<and> iface_at rv (int k) = outp es k" using assms(3) p(3) by auto
  from vis_steps_ok [OF p(4) this assms(2) p(2), of i "go_len p" sz idx] obtain l where
    l: "vis_steps M cv rv i (go_len p) p (Init M) sz idx = Some (l, sz1, idx1)" "map lsIndex l = p"
    unfolding upd p(1) [symmetric] sz1_def [symmetric] idx1_def [symmetric] by blast
  have "sorted_wrt (\<lambda>p q. length q \<le> length p) ps" "\<forall>p \<in> set ps. valid_seq M n es p" using Cons.prems(1,2) by simp_all
  moreover have "\<forall>x s. sz1 x = Some s \<longrightarrow> 0 < s \<and> (\<forall>q \<in> set ps. go_len q \<le> s)"
  proof (intro allI impI)
    fix x s assume s: "sz1 x = Some s"
    show "0 < s \<and> (\<forall>q \<in> set ps. go_len q \<le> s)"
    proof (cases "x \<in> set p \<and> sz x = None")
      case True
      with s have "s = go_len p" "p \<noteq> []" unfolding sz1_def by auto
      with Cons.prems(2) show ?thesis by (simp add: go_len_def)
    next
      case False
      then have "sz x = Some s" using s unfolding sz1_def by (simp only: if_False)
      then show ?thesis using Cons.prems(3) by simp
    qed
  qed
  ultimately obtain ls where ls: "vis_partials M cv rv (i + 1) ps sz1 idx1
      = Some (ls, \<lambda>x. if sz1 x = None \<and> first_with ps x \<noteq> None then map_option (\<lambda>j. i + 1 + j) (first_with ps x) else idx1 x)"
    "map (map lsIndex) ls = ps" using Cons.IH [of sz1 "i + 1" idx1] by blast
  have "(\<lambda>x. if sz1 x = None \<and> first_with ps x \<noteq> None then map_option (\<lambda>j. i + 1 + j) (first_with ps x) else idx1 x)
      = (\<lambda>x. if sz x = None \<and> first_with (p # ps) x \<noteq> None then map_option (\<lambda>j. i + j) (first_with (p # ps) x) else idx x)"
    by (rule ext) (auto simp: sz1_def idx1_def first_with_Cons option.map_comp o_def add.commute add.left_commute)
  with l ls show ?case by (intro exI [of _ "l # ls"]) simp
qed

text \<open>The first sequence with an element is the longest one with it when the sequences are sorted.\<close>

lemma first_with_longest:
  assumes "first_with ps x = Some j" "sorted_wrt (\<lambda>p q. length q \<le> length p) ps"
  shows "0 \<le> j \<and> nat j < length ps \<and> x \<in> set (ps ! nat j) \<and> (\<forall>p \<in> set ps. x \<in> set p \<longrightarrow> length p \<le> length (ps ! nat j))"
  using assms
proof (induction ps arbitrary: j)
  case (Cons p ps)
  show ?case
  proof (cases "x \<in> set p")
    case True
    with Cons.prems show ?thesis by (auto simp: first_with_Cons)
  next
    case False
    with Cons.prems(1) obtain j' where j': "first_with ps x = Some j'" "j = j' + 1" by (auto simp: first_with_Cons)
    from Cons.IH [OF j'(1)] Cons.prems(2) j'(2) False show ?thesis by (auto simp: nat_add_distrib)
  qed
qed (simp add: first_with_def)

subsection \<open>What a verbose check returns can be drawn\<close>

lemma those_eq_Some: "those (map f xs) = Some ys \<Longrightarrow> length ys = length xs \<and> (\<forall>k < length xs. f (xs ! k) = Some (ys ! k))"
proof (induction xs arbitrary: ys)
  case (Cons x xs)
  then obtain y zs where "f x = Some y" "those (map f xs) = Some zs" "ys = y # zs" by (auto split: option.splits)
  with Cons.IH [of zs] show ?case by (auto simp: nth_Cons split: nat.splits)
qed simp

lemma partials_of_valid:
  assumes "longest_ok P n (longest c) (seqs c)" "partials_of visit c = Some ps" "sq \<in> set ps"
  shows "P sq"
proof -
  let ?vs = "visit (remdups (List.map_filter id (longest c)))"
  from assms(3) obtain k where k: "k < length ps" "sq = ps ! k" by (auto simp: in_set_conv_nth)
  have "length ps = length ?vs \<and> (\<forall>k < length ?vs. go_at (seqs c) (int (?vs ! k)) = Some (ps ! k))"
    using assms(2) unfolding partials_of_def by (rule those_eq_Some)
  with k have "go_at (seqs c) (int (?vs ! k)) = Some sq" by simp
  then have "sq \<in> set (seqs c)" by (auto simp: go_at_def split: if_splits)
  with assms(1) show ?thesis by (simp add: longest_ok_def)
qed

lemma checkParallel_info:
  assumes single: "\<forall>i < length hs. \<forall>kill ok c. checkSingle M (hs ! i) True kill = Some (ok, c) \<longrightarrow> longest_ok (P i) (N i) (longest c) (seqs c)"
    and "checkParallel M hs True timeout ev kills visit = Some (r, info)"
  shows "ihistory info = hs" "length (partialLinearizations info) = length hs"
    "i < length hs \<Longrightarrow> sq \<in> set (partialLinearizations info ! i) \<Longrightarrow> P i sq"
proof -
  from assms(2) obtain seen :: "nat set" and partials where
    p: "those (map (\<lambda>i. do { (ok_i, c) \<leftarrow> checkSingle M (hs ! i) True (if i \<in> seen then (\<lambda>_. False) else kills i);
           partials_of visit c }) [0..<length hs]) = Some partials"
    and info: "info = \<lparr>ihistory = hs, partialLinearizations = partials\<rparr>"
    by (auto simp: checkParallel_def Let_def bind_eq_Some_conv split: prod.splits)
  note t = those_eq_Some [OF p]
  show "ihistory info = hs" "length (partialLinearizations info) = length hs" using t by (simp_all add: info)
  show "P i sq" if i: "i < length hs" "sq \<in> set (partialLinearizations info ! i)" for i sq
  proof -
    have at: "[0..<length hs] ! i = i" using i(1) by simp
    from t [THEN conjunct2, rule_format, of i, unfolded at] i(1) obtain ok_i c where c: "checkSingle M (hs ! i) True (if i \<in> seen then (\<lambda>_. False) else kills i) = Some (ok_i, c)"
      "partials_of visit c = Some (partials ! i)" by (auto simp: bind_eq_Some_conv)
    from partials_of_valid [OF single [rule_format, OF i(1) c(1)] c(2)] i(2) show ?thesis by (simp add: info)
  qed
qed

definition by_length :: "(int list list \<Rightarrow> int list list) \<Rightarrow> bool" where
  "by_length srt \<longleftrightarrow> (\<forall>ps. mset (srt ps) = mset ps \<and> sorted_wrt (\<lambda>p q. length q \<le> length p) (srt ps))"

lemma vis_partition_ok:
  assumes wf: "well_formed n es" and D: "DescribeOperation M = Some D" "\<And>i. i < n \<Longrightarrow> D (inp es i) (outp es i) = Some (desc i)"
    and "DescribeState M = Some ds" and srt: "by_length srt" and ps: "\<forall>p \<in> set ps. valid_seq M n es p"
  shows "\<exists>d. vis_partition srt M es ps = Some d \<and> pvHistory d = map (element_at es desc (length es)) [0..<n]
    \<and> map (map lsIndex) (pvPartialLinearizations d) = srt ps \<and> pvLargest d = first_with (srt ps)"
proof -
  have z: "replicate (length es div 2) zero_element = map (element_at es desc 0) [0..<n]"
    "Map.empty = seen_at n es callEntry 0" "Map.empty = seen_at n es returnEntry 0"
    using wf_length [OF wf] by (auto simp: element_at_def zero_element_def seen_at_def fun_eq_iff intro!: nth_equalityI)
  let ?cv = "seen_at n es callEntry (length es)" and ?rv = "seen_at n es returnEntry (length es)"
  have h: "vis_history M es (replicate (length es div 2) zero_element) Map.empty Map.empty
      = Some (map (element_at es desc (length es)) [0..<n], ?cv, ?rv)"
    using vis_history_eq [OF wf D, where k = 0] unfolding z(1) by (simp flip: z(2,3))
  have "iface_at ?cv (int k) = inp es k \<and> iface_at ?rv (int k) = outp es k" if "k < n" for k
    using wf_pos(1) [OF wf that] that by (simp add: iface_at_def seen_at_def inp_def outp_def)
  moreover have "\<forall>p \<in> set (srt ps). valid_seq M n es p" "sorted_wrt (\<lambda>p q. length q \<le> length p) (srt ps)"
    using ps srt mset_eq_setD [of "srt ps" ps] by (auto simp: by_length_def)
  ultimately obtain ls where "vis_partials M ?cv ?rv 0 (srt ps) Map.empty Map.empty
      = Some (ls, \<lambda>x. if (None :: int option) = None \<and> first_with (srt ps) x \<noteq> None then map_option (\<lambda>j. 0 + j) (first_with (srt ps) x) else None)"
    "map (map lsIndex) ls = srt ps" using vis_partials_ok [of "srt ps" M n es ds ?cv ?rv Map.empty 0 Map.empty] assms(4) by auto
  moreover have "(\<lambda>x. if (None :: int option) = None \<and> first_with (srt ps) x \<noteq> None then map_option (\<lambda>j. 0 + j) (first_with (srt ps) x) else None)
      = first_with (srt ps)" by (auto simp: fun_eq_iff option.map_ident)
  ultimately show ?thesis using h by (simp add: vis_partition_def)
qed

lemma fillDefault_describe:
  "DescribeOperation (fillDefault sv ss M) = Some (case DescribeOperation M of None \<Rightarrow> DefaultDescribeOperation sv | Some D \<Rightarrow> D)"
  "\<exists>ds. DescribeState (fillDefault sv ss M) = Some ds"
  by (auto simp: fillDefault_def Let_def split: option.splits)

text \<open>The model can describe the operations of a history.\<close>

definition describes :: "('v, 's) Model \<Rightarrow> 'v Operation list \<Rightarrow> bool" where
  "describes M ops \<longleftrightarrow> (\<forall>D. DescribeOperation M = Some D \<longrightarrow> (\<forall>x \<in> set ops. D (opInput x) (opOutput x) \<noteq> None))"

lemma element_of_op:
  assumes srt: "valid_sorter srt" and le: "\<forall>x \<in> set ops. opCall x \<le> opReturn x" and i: "i < length ops"
  shows "element_at (makeEntries srt ops) desc (length (makeEntries srt ops)) i =
    \<lparr>heClientId = opClient (ops ! i), heStart = opCall (ops ! i), heEnd = opReturn (ops ! i), heDescription = desc i\<rparr>"
proof -
  let ?es = "makeEntries srt ops"
  note wf = makeEntries_wf [OF srt le]
  note c = wf_pos [OF wf i, of callEntry] and r = wf_pos [OF wf i, of returnEntry]
  have "?es ! cpos ?es i = call_ent ops i" using makeEntries_kind [OF srt c(1)] c(2,3) by auto
  moreover have "?es ! rpos ?es i = ret_ent ops i" using makeEntries_kind [OF srt r(1)] r(2,3) by auto
  ultimately show ?thesis using c(1) r(1) by (simp add: element_at_def call_ent_def ret_ent_def)
qed

lemma vis_operations:
  assumes "valid_sorter s" "\<forall>x \<in> set ops. opCall x \<le> opReturn x" "describes M ops" "by_length srt"
    and "\<forall>p \<in> set ps. valid_seq (fillDefault sv ss M) (length ops) (makeEntries s ops) p"
  shows "\<exists>d. vis_partition srt (fillDefault sv ss M) (makeEntries s ops) ps = Some d
    \<and> map (\<lambda>h. (heClientId h, heStart h, heEnd h)) (pvHistory d) = map (\<lambda>x. (opClient x, opCall x, opReturn x)) ops
    \<and> map (map lsIndex) (pvPartialLinearizations d) = srt ps \<and> pvLargest d = first_with (srt ps)"
proof -
  let ?es = "makeEntries s ops" and ?n = "length ops"
  let ?D = "case DescribeOperation M of None \<Rightarrow> DefaultDescribeOperation sv | Some D \<Rightarrow> D"
  let ?desc = "\<lambda>k. the (?D (inp ?es k) (outp ?es k))"
  have wf: "well_formed ?n ?es" by (rule makeEntries_wf [OF assms(1,2)])
  obtain ds where ds: "DescribeState (fillDefault sv ss M) = Some ds" using fillDefault_describe(2) by blast
  have desc: "?D (inp ?es k) (outp ?es k) = Some (?desc k)" if k: "k < ?n" for k
  proof -
    have io: "inp ?es k = opInput (ops ! k)" "outp ?es k = opOutput (ops ! k)"
      using makeEntries_ops(1,2) [OF assms(1,2) k k] .
    show ?thesis unfolding io using assms(3) k by (auto simp: describes_def DefaultDescribeOperation_def split: option.split)
  qed
  from vis_partition_ok [where desc = ?desc, OF wf fillDefault_describe(1) desc ds assms(4,5)]
  obtain d where d: "vis_partition srt (fillDefault sv ss M) ?es ps = Some d"
    "pvHistory d = map (element_at ?es ?desc (length ?es)) [0..<?n]"
    "map (map lsIndex) (pvPartialLinearizations d) = srt ps" "pvLargest d = first_with (srt ps)" by blast
  have "map (\<lambda>h. (heClientId h, heStart h, heEnd h)) (pvHistory d) = map (\<lambda>x. (opClient x, opCall x, opReturn x)) ops"
    unfolding d(2) by (rule nth_equalityI) (simp_all add: element_of_op [OF assms(1,2)])
  with d show ?thesis by blast
qed

definition largest_named :: "int list list \<Rightarrow> partitionVisualizationData \<Rightarrow> bool" where
  "largest_named ps d \<longleftrightarrow> (\<forall>p \<in> set ps. \<forall>x \<in> set p. pvLargest d x \<noteq> None) \<and> (\<forall>x j. pvLargest d x = Some j \<longrightarrow> 0 \<le> j \<and> nat j < length (pvPartialLinearizations d)
     \<and> x \<in> lsIndex ` set (pvPartialLinearizations d ! nat j)
     \<and> (\<forall>p \<in> set ps. x \<in> set p \<longrightarrow> length p \<le> length (pvPartialLinearizations d ! nat j)))"

lemma largest_named_first:
  assumes "by_length srt" "map (map lsIndex) (pvPartialLinearizations d) = srt ps" "pvLargest d = first_with (srt ps)"
  shows "largest_named ps d"
  unfolding largest_named_def
proof (intro conjI [where P = "\<forall>p \<in> set ps. \<forall>x \<in> set p. pvLargest d x \<noteq> None"] allI impI)
  have s: "sorted_wrt (\<lambda>p q. length q \<le> length p) (srt ps)" "set (srt ps) = set ps"
    using assms(1) mset_eq_setD [of "srt ps" ps] by (auto simp: by_length_def)
  then show "\<forall>p \<in> set ps. \<forall>x \<in> set p. pvLargest d x \<noteq> None" unfolding assms(3) first_with_def by auto
  fix x j assume x: "pvLargest d x = Some j"
  note f = first_with_longest [OF _ s(1), of x j, unfolded assms(3) [symmetric], OF x]
  have l: "length (pvPartialLinearizations d) = length (srt ps)" using assms(2) by (metis length_map)
  then have "srt ps ! nat j = map lsIndex (pvPartialLinearizations d ! nat j)" using f assms(2) by (metis nth_map)
  then show "0 \<le> j \<and> nat j < length (pvPartialLinearizations d) \<and> x \<in> lsIndex ` set (pvPartialLinearizations d ! nat j)
     \<and> (\<forall>p \<in> set ps. x \<in> set p \<longrightarrow> length p \<le> length (pvPartialLinearizations d ! nat j))"
    using f l s(2) by simp
qed

text \<open>The information of a verbose check: the entries of the partitions, and sequences that the model accepts.\<close>

lemma verbose_info:
  assumes "valid_sorter (reSort env)" "\<forall>xs. set (reVisit env xs) = set xs" "equal_sound M" "parts_of M ops = Some parts"
    "\<forall>p \<in> set parts. checkable M p" "parts \<noteq> []" "cases_ok (timeout > 0) (length parts) (reCases env)"
  obtains r info where "checkOperations env M ops True timeout = Some (r, info)"
    "ihistory info = map (makeEntries (reSort env)) parts" "length (partialLinearizations info) = length parts"
    "\<forall>i < length parts. \<forall>p \<in> set (partialLinearizations info ! i).
       valid_seq (fillDefault (reSprintV env) (reSprintS env) M) (length (parts ! i)) (makeEntries (reSort env) (parts ! i)) p"
proof -
  let ?M = "fillDefault (reSprintV env) (reSprintS env) M" and ?hs = "map (makeEntries (reSort env)) parts"
  obtain r info where chk: "checkOperations env M ops True timeout = Some (r, info)"
    using checkOperations_decides [OF assms, of True] by blast
  have par: "checkParallel ?M ?hs True timeout (reCases env) (reKills env) (reVisit env) = Some (r, info)"
    using chk assms(4) by (simp add: checkOperations_def fillDefault_fields Let_def)
  let ?P = "\<lambda>i. valid_seq ?M (length (parts ! i)) (?hs ! i)"
  have "longest_ok (?P i) (length (parts ! i)) (longest c) (seqs c)"
    if "i < length ?hs" "checkSingle ?M (?hs ! i) True kill = Some (ok, c)" for i kill ok c
  proof -
    have i: "i < length parts" using that(1) by simp
    have "\<forall>x \<in> set (parts ! i). opCall x \<le> opReturn x" "step_answers ?M (parts ! i)" "length (parts ! i) < 2 ^ 64"
      using assms(5) nth_mem [OF i] by (simp_all add: checkable_def step_answers_def fillDefault_fields)
    from checkSingle_linearizable [where cp = True and kill = kill, OF assms(1) this(1) fillDefault_equal_ok [OF assms(3)] this(2,3)]
    show ?thesis using that i by auto
  qed
  then have "\<forall>i < length ?hs. \<forall>kill ok c. checkSingle ?M (?hs ! i) True kill = Some (ok, c) \<longrightarrow>
      longest_ok (?P i) (length (parts ! i)) (longest c) (seqs c)" by blast
  note inf = checkParallel_info [where P = ?P and N = "\<lambda>i. length (parts ! i)", OF this par]
  have "\<forall>i < length parts. \<forall>p \<in> set (partialLinearizations info ! i).
      valid_seq ?M (length (parts ! i)) (makeEntries (reSort env) (parts ! i)) p"
  proof (intro allI impI ballI)
    fix i p assume "i < length parts" "p \<in> set (partialLinearizations info ! i)"
    then show "valid_seq ?M (length (parts ! i)) (makeEntries (reSort env) (parts ! i)) p" using inf(3) [of i p] by simp
  qed
  with chk inf(1,2) show thesis by (intro that [of r info]) simp_all
qed


text \<open>A counter whose value is read once too often: no order of the two operations is legal.\<close>

definition tick_model :: "(nat, nat) Model" where
  "tick_model = \<lparr>Partition = None, PartitionEvent = None, Init = 0, Step = (\<lambda>s _ out. Some (out = Some s, s + 1)), Equal = None,
     DescribeOperation = None, DescribeState = None\<rparr>"

definition tick_ops :: "nat Operation list" where
  "tick_ops = [\<lparr>opClient = 0, opInput = None, opCall = 0, opOutput = Some 0, opReturn = 3\<rparr>,
               \<lparr>opClient = 1, opInput = None, opCall = 1, opOutput = Some 0, opReturn = 2\<rparr>]"

definition tick_env :: "(nat, nat) run_env" where
  "tick_env = \<lparr>reSort = sort_time, reCases = [Recv 0], reKills = (\<lambda>_ _. False), reVisit = id, reSprintV = (\<lambda>_. []), reSprintS = (\<lambda>_. [])\<rparr>"

definition sort_length :: "int list list \<Rightarrow> int list list" where
  "sort_length ps = rev (sort_key length ps)"

lemma by_length_sort: "by_length sort_length"
proof -
  have "sorted (map length (sort_key length ps))" for ps :: "int list list" by (rule sorted_sort_key)
  then show ?thesis by (simp add: by_length_def sort_length_def sorted_wrt_rev sorted_map)
qed


end
