(* ===== verification/Models_Kv.thy ===== *)
theory Models_Kv
  imports Porcupine "HOL-Library.AList" "HOL-Library.Char_ord" "HOL-Library.List_Lexorder"
begin

section \<open>The key/value model, \<open>models/kv.go\<close>\<close>

text \<open>
  \<open>models.KvModel\<close>, which the tests of the key/value services hand to Porcupine. It models one
  key and splits a history by key. The section shows that this is right: the checker accepts a
  history iff the whole history, over all keys, is linearizable with respect to the key/value
  store (\<open>KvStore\<close>). The theorem behind it is the locality of linearizability.
\<close>

record KvInput =
  kviOp :: "8 word"
  kviKey :: string
  kviValue :: string

record KvOutput =
  kvoValue :: string

text \<open>The dynamic types a history of the key/value tests holds; a failing type assertion panics.\<close>

datatype kv_value = KvIn KvInput | KvOut KvOutput

fun as_input :: "kv_value iface \<Rightarrow> KvInput option" where
  "as_input (Some (KvIn x)) = Some x"
| "as_input _ = None"

fun as_output :: "kv_value iface \<Rightarrow> KvOutput option" where
  "as_output (Some (KvOut x)) = Some x"
| "as_output _ = None"

text \<open>
  The map from keys to operations is an association list. Its keys are collected and sorted, so
  the order in which Go ranges over the map does not matter.
\<close>

fun kv_group :: "kv_value Operation list \<Rightarrow> (string \<times> kv_value Operation list) list
    \<Rightarrow> (string \<times> kv_value Operation list) list option" where
  "kv_group [] m = Some m"
| "kv_group (v # history) m = do {
     kin \<leftarrow> as_input (opInput v);
     let key = kviKey kin;
     let old = (case map_of m key of None \<Rightarrow> [] | Some vs \<Rightarrow> vs);
     kv_group history (AList.update key (old @ [v]) m) }"

definition kv_Partition :: "kv_value Operation list \<Rightarrow> kv_value Operation list list option" where
  "kv_Partition history = do {
     m \<leftarrow> kv_group history [];
     let keys = sort (map fst m);
     Some (map (\<lambda>k. case map_of m k of None \<Rightarrow> [] | Some vs \<Rightarrow> vs) keys) }"

definition kv_Step :: "string \<Rightarrow> kv_value iface \<Rightarrow> kv_value iface \<Rightarrow> (bool \<times> string) option" where
  "kv_Step state i out = do {
     kin \<leftarrow> as_input i;
     kout \<leftarrow> as_output out;
     if kviOp kin = 0 then Some (kvoValue kout = state, state)
     else if kviOp kin = 1 then Some (True, kviValue kin)
     else Some (True, state @ kviValue kin) }"

definition quoted :: "string \<Rightarrow> string" where
  "quoted s = CHR 0x27 # s @ [CHR 0x27]"

definition kv_DescribeOperation :: "kv_value iface \<Rightarrow> kv_value iface \<Rightarrow> string option" where
  "kv_DescribeOperation i out = do {
     kin \<leftarrow> as_input i;
     kout \<leftarrow> as_output out;
     Some (if kviOp kin = 0 then ''get('' @ quoted (kviKey kin) @ '') -> '' @ quoted (kvoValue kout)
           else if kviOp kin = 1 then ''put('' @ quoted (kviKey kin) @ '', '' @ quoted (kviValue kin) @ '')''
           else if kviOp kin = 2 then ''append('' @ quoted (kviKey kin) @ '', '' @ quoted (kviValue kin) @ '')''
           else ''<invalid>'') }"

definition KvModel :: "(kv_value, string) Model" where
  "KvModel = \<lparr>Partition = Some kv_Partition, PartitionEvent = None, Init = [], Step = kv_Step, Equal = None,
     DescribeOperation = Some kv_DescribeOperation, DescribeState = None\<rparr>"

subsection \<open>The store over all keys\<close>

definition kv_store_Step :: "(string \<Rightarrow> string) \<Rightarrow> kv_value iface \<Rightarrow> kv_value iface \<Rightarrow> (bool \<times> (string \<Rightarrow> string)) option" where
  "kv_store_Step st i out = do {
     kin \<leftarrow> as_input i;
     (ok, v) \<leftarrow> kv_Step (st (kviKey kin)) i out;
     Some (ok, st(kviKey kin := v)) }"

definition KvStore :: "(kv_value, string \<Rightarrow> string) Model" where
  "KvStore = \<lparr>Partition = None, PartitionEvent = None, Init = (\<lambda>_. []), Step = kv_store_Step, Equal = None,
     DescribeOperation = None, DescribeState = None\<rparr>"

definition op_key :: "kv_value Operation \<Rightarrow> string" where
  "op_key x = (case as_input (opInput x) of None \<Rightarrow> [] | Some kin \<Rightarrow> kviKey kin)"

definition kv_typed :: "kv_value Operation list \<Rightarrow> bool" where
  "kv_typed ops \<longleftrightarrow> (\<forall>x \<in> set ops. as_input (opInput x) \<noteq> None \<and> as_output (opOutput x) \<noteq> None \<and> opCall x \<le> opReturn x)"

subsection \<open>The partition\<close>

lemma kv_group_spec:
  assumes "\<forall>x \<in> set ops. as_input (opInput x) \<noteq> None" and "distinct (map fst m)"
  shows "\<exists>m'. kv_group ops m = Some m' \<and> distinct (map fst m') \<and> set (map fst m') = set (map fst m) \<union> op_key ` set ops
    \<and> (\<forall>k. (case map_of m' k of None \<Rightarrow> [] | Some vs \<Rightarrow> vs)
           = (case map_of m k of None \<Rightarrow> [] | Some vs \<Rightarrow> vs) @ filter (\<lambda>x. op_key x = k) ops)"
  using assms
proof (induction ops arbitrary: m)
  case (Cons x ops)
  obtain kin where kin: "as_input (opInput x) = Some kin" using Cons.prems(1) by auto
  then have key: "op_key x = kviKey kin" by (simp add: op_key_def)
  define m1 where "m1 = AList.update (op_key x) ((case map_of m (op_key x) of None \<Rightarrow> [] | Some vs \<Rightarrow> vs) @ [x]) m"
  have d: "distinct (map fst m1)" unfolding m1_def by (rule AList.distinct_update [OF Cons.prems(2)])
  have dom: "set (map fst m1) = insert (op_key x) (set (map fst m))" by (auto simp: m1_def AList.dom_update)
  obtain m' where m': "kv_group ops m1 = Some m'" "distinct (map fst m')" "set (map fst m') = set (map fst m1) \<union> op_key ` set ops"
    "\<And>k. (case map_of m' k of None \<Rightarrow> [] | Some vs \<Rightarrow> vs) = (case map_of m1 k of None \<Rightarrow> [] | Some vs \<Rightarrow> vs) @ filter (\<lambda>x. op_key x = k) ops"
    using Cons.IH [OF _ d] Cons.prems(1) by auto
  have "kv_group (x # ops) m = Some m'" using kin key m'(1) by (simp add: m1_def Let_def)
  moreover have "(case map_of m1 k of None \<Rightarrow> [] | Some vs \<Rightarrow> vs)
      = (case map_of m k of None \<Rightarrow> [] | Some vs \<Rightarrow> vs) @ (if op_key x = k then [x] else [])" for k
    by (simp add: m1_def AList.update_conv')
  ultimately show ?case using m' dom by auto
qed auto

lemma kv_Partition_spec:
  assumes "\<forall>x \<in> set ops. as_input (opInput x) \<noteq> None"
  shows "kv_Partition ops = Some (map (\<lambda>k. filter (\<lambda>x. op_key x = k) ops) (sorted_list_of_set (op_key ` set ops)))"
proof -
  obtain m' where m': "kv_group ops [] = Some m'" "distinct (map fst m')" "set (map fst m') = op_key ` set ops"
    "\<And>k. (case map_of m' k of None \<Rightarrow> [] | Some vs \<Rightarrow> vs) = filter (\<lambda>x. op_key x = k) ops"
    using kv_group_spec [OF assms, of "[]"] by auto
  have "sort (map fst m') = sorted_list_of_set (op_key ` set ops)"
    unfolding m'(3) [symmetric] using m'(2) sorted_list_of_set_sort_remdups [of "map fst m'"]
    by (simp add: distinct_remdups_id del: set_map)
  then show ?thesis using m' by (simp add: kv_Partition_def Let_def)
qed

subsection \<open>Locality\<close>

text \<open>An order of some of the operations of a history that respects time.\<close>

definition in_time :: "'v Operation list \<Rightarrow> nat list \<Rightarrow> bool" where
  "in_time ops order \<longleftrightarrow> sorted_wrt (\<lambda>i j. \<not> opReturn (ops ! j) < opCall (ops ! i)) order"

lemma legal_map:
  "\<forall>j \<in> set order. j < length xs \<Longrightarrow> legal M (map ((!) ops) xs) st order \<longleftrightarrow> legal M ops st (map ((!) xs) order)"
  by (induction order arbitrary: st) (auto simp: legal_Cons_iff)

lemma linearizable_sub:
  assumes "distinct xs"
  shows "linearizable M (map ((!) ops) xs) \<longleftrightarrow>
    (\<exists>g. distinct g \<and> set g = set xs \<and> in_time ops g \<and> legal M ops (Init M) g)"
proof
  assume "linearizable M (map ((!) ops) xs)"
  then obtain order where o: "distinct order" "set order = {..<length xs}"
      "sorted_wrt (\<lambda>i j. \<not> opReturn (map ((!) ops) xs ! j) < opCall (map ((!) ops) xs ! i)) order"
      "legal M (map ((!) ops) xs) (Init M) order" by (auto simp: linearizable_def)
  let ?g = "map ((!) xs) order"
  have "inj_on ((!) xs) (set order)" using assms o(2) by (auto simp: inj_on_def nth_eq_iff_index_eq)
  then have "distinct ?g" using o(1) by (simp add: distinct_map)
  moreover have "set ?g = set xs" using o(2) nth_image [of "length xs" xs] by (simp add: lessThan_atLeast0)
  moreover have "in_time ops ?g"
    unfolding in_time_def sorted_wrt_map using o(2,3) by (auto intro: sorted_wrt_mono_rel [rotated])
  moreover have "legal M ops (Init M) ?g" using legal_map [of order xs M ops] o(2,4) by simp
  ultimately show "\<exists>g. distinct g \<and> set g = set xs \<and> in_time ops g \<and> legal M ops (Init M) g" by blast
next
  assume "\<exists>g. distinct g \<and> set g = set xs \<and> in_time ops g \<and> legal M ops (Init M) g"
  then obtain g where g: "distinct g" "set g = set xs" "in_time ops g" "legal M ops (Init M) g" by blast
  define f where "f = (\<lambda>x. SOME i. i < length xs \<and> xs ! i = x)"
  have f: "f x < length xs \<and> xs ! f x = x" if "x \<in> set xs" for x
    unfolding f_def by (rule someI_ex) (use that in \<open>auto simp: in_set_conv_nth\<close>)
  let ?o = "map f g"
  have "map ((!) xs \<circ> f) g = g" by (rule map_idI) (use f g(2) in auto)
  then have gm: "map ((!) xs) ?o = g" by simp
  have "distinct ?o" using g(1) gm by (metis distinct_map)
  moreover have "set ?o = {..<length xs}"
  proof
    show "set ?o \<subseteq> {..<length xs}" using f g(2) by auto
    show "{..<length xs} \<subseteq> set ?o"
    proof
      fix i assume "i \<in> {..<length xs}"
      then have i: "i < length xs" by simp
      have "f (xs ! i) = i" using f [of "xs ! i"] nth_eq_iff_index_eq [OF assms, of "f (xs ! i)" i] i by simp
      then show "i \<in> set ?o" using g(2) i by (metis image_eqI image_set nth_mem)
    qed
  qed
  moreover have "sorted_wrt (\<lambda>i j. \<not> opReturn (map ((!) ops) xs ! j) < opCall (map ((!) ops) xs ! i)) ?o"
    unfolding sorted_wrt_map using f g(2,3)
    by (auto simp: in_time_def intro: sorted_wrt_mono_rel [rotated])
  moreover have "legal M (map ((!) ops) xs) (Init M) ?o"
    using legal_map [of ?o xs M ops "Init M"] f g(2,4) gm by simp
  ultimately show "linearizable M (map ((!) ops) xs)" unfolding linearizable_def length_map by blast
qed

text \<open>The step of the store moves the key of the operation as the model does, and no other.\<close>

lemma legal_store:
  assumes "\<forall>i \<in> set order. as_input (opInput (ops ! i)) \<noteq> None"
  shows "legal KvStore ops \<sigma> order \<longleftrightarrow> (\<forall>k. legal KvModel ops (\<sigma> k) (filter (\<lambda>i. op_key (ops ! i) = k) order))"
  using assms
proof (induction order arbitrary: \<sigma>)
  case (Cons i order)
  let ?x = "ops ! i" and ?k = "op_key (ops ! i)"
  obtain kin where kin: "as_input (opInput ?x) = Some kin" using Cons.prems by auto
  then have key: "?k = kviKey kin" by (simp add: op_key_def)
  have step: "Step KvStore \<sigma> (opInput ?x) (opOutput ?x) = Some (True, \<sigma>') \<longleftrightarrow>
      (\<exists>v. kv_Step (\<sigma> ?k) (opInput ?x) (opOutput ?x) = Some (True, v) \<and> \<sigma>' = \<sigma>(?k := v))" for \<sigma>'
    using kin key by (auto simp: KvStore_def kv_store_Step_def bind_eq_Some_conv)
  have "legal KvStore ops \<sigma> (i # order) \<longleftrightarrow>
      (\<exists>v. kv_Step (\<sigma> ?k) (opInput ?x) (opOutput ?x) = Some (True, v) \<and> legal KvStore ops (\<sigma>(?k := v)) order)"
    unfolding legal_Cons_iff step by blast
  also have "\<dots> \<longleftrightarrow> (\<exists>v. kv_Step (\<sigma> ?k) (opInput ?x) (opOutput ?x) = Some (True, v)
      \<and> (\<forall>k. legal KvModel ops ((\<sigma>(?k := v)) k) (filter (\<lambda>i. op_key (ops ! i) = k) order)))"
    using Cons.IH Cons.prems by simp
  also have "\<dots> \<longleftrightarrow> (\<forall>k. legal KvModel ops (\<sigma> k) (filter (\<lambda>i. op_key (ops ! i) = k) (i # order)))"
    by (auto simp: legal_Cons_iff KvModel_def split: if_splits)
  finally show ?case .
qed simp

text \<open>The point in time of an operation in the order of its key: the latest call up to it.\<close>

lemma takeWhile_first: "i \<notin> set us \<Longrightarrow> takeWhile (\<lambda>j. j \<noteq> i) (us @ i # vs) = us"
  by (induction us) auto

lemma sorted_wrt_splitI:
  assumes "\<And>us i vs j. g = us @ i # vs \<Longrightarrow> j \<in> set vs \<Longrightarrow> P i j"
  shows "sorted_wrt P g"
  using assms
proof (induction g)
  case (Cons a g)
  have "sorted_wrt P g" by (rule Cons.IH) (use Cons.prems [of "a # _"] in auto)
  then show ?case using Cons.prems [of "[]" a g] by simp
qed simp

definition point :: "'v Operation list \<Rightarrow> nat list \<Rightarrow> nat \<Rightarrow> int" where
  "point ops g i = Max ((\<lambda>j. opCall (ops ! j)) ` insert i (set (takeWhile (\<lambda>j. j \<noteq> i) g)))"

lemma point_call: "opCall (ops ! i) \<le> point ops g i"
  unfolding point_def by (rule Max_ge) auto

lemma point_return:
  assumes "in_time ops g" "i \<in> set g" "opCall (ops ! i) \<le> opReturn (ops ! i)"
  shows "point ops g i \<le> opReturn (ops ! i)"
proof -
  obtain us vs where g: "g = us @ i # vs" "i \<notin> set us" using assms(2) by (metis split_list_first)
  then have tw: "takeWhile (\<lambda>j. j \<noteq> i) g = us" by (simp add: takeWhile_first)
  have "opCall (ops ! j) \<le> opReturn (ops ! i)" if "j \<in> set us" for j
    using assms(1) g that by (auto simp: in_time_def sorted_wrt_append)
  then show ?thesis unfolding point_def tw using assms(3) by (subst Max_le_iff) auto
qed

lemma point_mono:
  assumes "distinct g"
  shows "sorted_wrt (\<lambda>i j. point ops g i \<le> point ops g j) g"
proof (rule sorted_wrt_splitI)
  fix us i vs j assume g: "g = us @ i # vs" and j: "j \<in> set vs"
  from j obtain xs ys where vs: "vs = xs @ j # ys" "j \<notin> set xs" by (metis split_list_first)
  have "takeWhile (\<lambda>l. l \<noteq> i) g = us" using assms g by (simp add: takeWhile_first)
  moreover have "takeWhile (\<lambda>l. l \<noteq> j) g = us @ i # xs"
    using assms g vs takeWhile_first [of j "us @ i # xs" ys] by simp
  ultimately show "point ops g i \<le> point ops g j" unfolding point_def by (intro Max_mono) auto
qed

lemma filter_positions: "filter P xs = map ((!) xs) (filter (\<lambda>i. P (xs ! i)) [0..<length xs])"
  by (metis (no_types, lifting) comp_apply filter_cong filter_map map_nth)

lemma concat_groups:
  assumes "distinct ks" "\<And>k. k \<in> set ks \<Longrightarrow> distinct (G k) \<and> (\<forall>i \<in> set (G k). f i = k)"
  shows "distinct (concat (map G ks)) \<and> (\<forall>k. filter (\<lambda>i. f i = k) (concat (map G ks)) = (if k \<in> set ks then G k else []))"
  using assms
proof (induction ks)
  case (Cons a ks)
  have a: "distinct (G a)" "\<forall>i \<in> set (G a). f i = a" using Cons.prems(2) [of a] by simp_all
  have IH: "distinct (concat (map G ks))" "\<And>k. filter (\<lambda>i. f i = k) (concat (map G ks)) = (if k \<in> set ks then G k else [])"
    using Cons by simp_all
  have "filter (\<lambda>i. f i = k) (G a) = (if k = a then G a else [])" for k
    using a(2) by (auto simp: filter_empty_conv intro: filter_True)
  moreover have "i \<notin> set (concat (map G ks))" if "f i = a" for i
    using IH(2) [of a] that Cons.prems(1) by (auto simp: filter_empty_conv)
  ultimately show ?case using IH a Cons.prems(1) by auto
qed simp

lemma merge_orders:
  assumes le: "\<forall>x \<in> set ops. opCall x \<le> opReturn x" and ks: "distinct ks" "\<forall>i < length ops. f i \<in> set ks"
    and G: "\<And>k. k \<in> set ks \<Longrightarrow> distinct (G k) \<and> set (G k) = {i. i < length ops \<and> f i = k} \<and> in_time ops (G k)"
  obtains order where "distinct order" "set order = {..<length ops}" "in_time ops order"
    "\<And>k. k \<in> set ks \<Longrightarrow> filter (\<lambda>i. f i = k) order = G k"
proof -
  let ?C = "concat (map G ks)" and ?p = "\<lambda>i. point ops (G (f i)) i"
  let ?O = "sort_key ?p ?C"
  have C: "distinct ?C" "\<And>k. k \<in> set ks \<Longrightarrow> filter (\<lambda>i. f i = k) ?C = G k"
    using concat_groups [of ks G f] ks(1) G by auto
  have set: "set ?C = {..<length ops}" using G ks(2) by auto
  have "filter (\<lambda>i. f i = k) ?O = G k" if k: "k \<in> set ks" for k
  proof -
    have "map ?p (G k) = map (point ops (G k)) (G k)" using G [OF k] by (intro map_cong) auto
    moreover have "sorted (map (point ops (G k)) (G k))" using point_mono G [OF k] by (auto simp: sorted_wrt_map)
    ultimately have "sorted (map ?p (G k))" by (simp only:)
    then have "sort_key ?p (G k) = G k" by (rule sort_key_id_if_sorted)
    then show ?thesis using C(2) [OF k] by (simp add: filter_sort)
  qed
  moreover have "in_time ops ?O"
  proof -
    have "\<not> opReturn (ops ! j) < opCall (ops ! i)" if "?p i \<le> ?p j" "j \<in> set ?C" for i j
    proof -
      have j: "j < length ops" "f j \<in> set ks" "j \<in> set (G (f j))" using that(2) set ks(2) G by auto
      have "?p j \<le> opReturn (ops ! j)" using point_return [of ops "G (f j)" j] j(3) G [OF j(2)] le j(1) by simp
      then show ?thesis using that(1) point_call [of ops i "G (f i)"] by simp
    qed
    moreover have "sorted_wrt (\<lambda>i j. ?p i \<le> ?p j) ?O" using sorted_sort_key [of ?p ?C] by (simp add: sorted_wrt_map)
    ultimately show ?thesis unfolding in_time_def by (auto intro: sorted_wrt_mono_rel [rotated])
  qed
  ultimately show thesis using that [of ?O] C(1) set by simp
qed

lemma kv_locality:
  assumes ty: "kv_typed ops"
  shows "linearizable KvStore ops \<longleftrightarrow> (\<forall>k \<in> op_key ` set ops. linearizable KvModel (filter (\<lambda>x. op_key x = k) ops))"
proof -
  let ?n = "length ops" and ?K = "op_key ` set ops" and ?f = "\<lambda>i. op_key (ops ! i)"
  let ?idx = "\<lambda>k. filter (\<lambda>i. ?f i = k) [0..<?n]"
  have part: "linearizable KvModel (filter (\<lambda>x. op_key x = k) ops) \<longleftrightarrow>
      (\<exists>g. distinct g \<and> set g = {i. i < ?n \<and> ?f i = k} \<and> in_time ops g \<and> legal KvModel ops [] g)" for k
    using linearizable_sub [of "?idx k" KvModel ops] filter_positions [of "\<lambda>x. op_key x = k" ops]
    by (simp add: KvModel_def)
  have inputs: "as_input (opInput (ops ! i)) \<noteq> None" if "i < ?n" for i using ty that by (simp add: kv_typed_def)
  have store: "legal KvStore ops (\<lambda>_. []) order \<longleftrightarrow> (\<forall>k. legal KvModel ops [] (filter (\<lambda>i. ?f i = k) order))"
    if "set order = {..<?n}" for order
    using legal_store [of order ops "\<lambda>_. []"] inputs that by simp
  have lin: "linearizable KvStore ops \<longleftrightarrow>
      (\<exists>order. distinct order \<and> set order = {..<?n} \<and> in_time ops order \<and> legal KvStore ops (\<lambda>_. []) order)"
    by (simp add: linearizable_def in_time_def KvStore_def)
  show ?thesis
  proof
    assume "linearizable KvStore ops"
    then obtain order where o: "distinct order" "set order = {..<?n}" "in_time ops order" "legal KvStore ops (\<lambda>_. []) order"
      unfolding lin by blast
    show "\<forall>k \<in> ?K. linearizable KvModel (filter (\<lambda>x. op_key x = k) ops)"
    proof
      fix k
      let ?g = "filter (\<lambda>i. ?f i = k) order"
      have "distinct ?g" "set ?g = {i. i < ?n \<and> ?f i = k}" "in_time ops ?g" "legal KvModel ops [] ?g"
        using o store [OF o(2)] by (auto simp: in_time_def sorted_wrt_filter)
      then show "linearizable KvModel (filter (\<lambda>x. op_key x = k) ops)" unfolding part by blast
    qed
  next
    assume "\<forall>k \<in> ?K. linearizable KvModel (filter (\<lambda>x. op_key x = k) ops)"
    then obtain G where G: "\<And>k. k \<in> ?K \<Longrightarrow> distinct (G k) \<and> set (G k) = {i. i < ?n \<and> ?f i = k} \<and> in_time ops (G k) \<and> legal KvModel ops [] (G k)"
      unfolding part by metis
    let ?ks = "sorted_list_of_set ?K"
    have le: "\<forall>x \<in> set ops. opCall x \<le> opReturn x" using ty by (auto simp: kv_typed_def)
    show "linearizable KvStore ops"
    proof (rule merge_orders [OF le, of ?ks ?f G])
      show "distinct ?ks" "\<forall>i < ?n. ?f i \<in> set ?ks" by simp_all
      show "distinct (G k) \<and> set (G k) = {i. i < ?n \<and> ?f i = k} \<and> in_time ops (G k)" if "k \<in> set ?ks" for k
        using G that by simp
    next
      fix order
      assume o: "distinct order" "set order = {..<?n}" "in_time ops order"
        "\<And>k. k \<in> set ?ks \<Longrightarrow> filter (\<lambda>i. ?f i = k) order = G k"
      have "legal KvModel ops [] (filter (\<lambda>i. ?f i = k) order)" for k
      proof (cases "k \<in> ?K")
        case True
        then show ?thesis using o(4) [of k] G [OF True] by simp
      next
        case False
        then have "filter (\<lambda>i. ?f i = k) order = []" using o(2) by (auto simp: filter_empty_conv)
        then show ?thesis by simp
      qed
      then show "linearizable KvStore ops" unfolding lin using o(1-3) store [OF o(2)] by blast
    qed
  qed
qed

subsection \<open>What the checker decides\<close>

lemma KvModel_fields: "parts_of KvModel = kv_Partition" "equal_sound KvModel"
  by (simp_all add: parts_of_def KvModel_def equal_sound_def fun_eq_iff)

lemma kv_step_answers: "kv_typed ops \<Longrightarrow> step_answers KvModel ops"
  by (fastforce simp: step_answers_def kv_typed_def KvModel_def kv_Step_def)

lemma kv_checkable:
  assumes "kv_typed ops" "length ops < 2 ^ 64"
  shows "checkable KvModel (filter P ops)"
proof -
  have "kv_typed (filter P ops)" using assms(1) by (simp add: kv_typed_def)
  moreover have "length (filter P ops) < 2 ^ 64" using le_less_trans [OF length_filter_le assms(2)] .
  ultimately show ?thesis using kv_step_answers by (simp add: checkable_def kv_typed_def)
qed

lemma kv_parts:
  assumes "kv_typed ops"
  shows "parts_of KvModel ops = Some (map (\<lambda>k. filter (\<lambda>x. op_key x = k) ops) (sorted_list_of_set (op_key ` set ops)))"
  using kv_Partition_spec [of ops] assms by (simp add: KvModel_fields kv_typed_def)

text \<open>C6: \<open>CheckOperations\<close> with \<open>models.KvModel\<close> returns, and it returns true exactly when the
  whole history, over all keys, is linearizable with respect to the key/value store, whatever the
  order in which the goroutines of the keys finish and whatever \<open>sort.Sort\<close> does with equal
  times. The history is not empty, its values have the types of the model, and no operation
  returns before its call.\<close>

theorem kv_check_decides:
  assumes "valid_sorter (reSort env)" "\<forall>xs. set (reVisit env xs) = set xs" "kv_typed ops" "ops \<noteq> []" "length ops < 2 ^ 64"
    "cases_ok False (card (op_key ` set ops)) (reCases env)"
  shows "CheckOperations env KvModel ops = Some (linearizable KvStore ops)"
proof -
  let ?parts = "map (\<lambda>k. filter (\<lambda>x. op_key x = k) ops) (sorted_list_of_set (op_key ` set ops))"
  have "\<forall>p \<in> set ?parts. checkable KvModel p" using kv_checkable [OF assms(3,5)] by auto
  moreover have "?parts \<noteq> []" using assms(4) by simp
  moreover have "cases_ok (0 > (0 :: int)) (length ?parts) (reCases env)" using assms(6) by simp
  ultimately obtain r info where "checkOperations env KvModel ops False 0 = Some (r, info)"
      "r = Ok \<longrightarrow> (\<forall>p \<in> set ?parts. linearizable KvModel p)" "r = Illegal \<longrightarrow> (\<exists>p \<in> set ?parts. \<not> linearizable KvModel p)" "r \<noteq> Unknown"
    using checkOperations_decides [OF assms(1,2) KvModel_fields(2) kv_parts [OF assms(3)], of 0 False] by auto
  moreover have "linearizable KvStore ops \<longleftrightarrow> (\<forall>p \<in> set ?parts. linearizable KvModel p)" using kv_locality [OF assms(3)] by simp
  ultimately show ?thesis by (cases r) (auto simp: CheckOperations_def)
qed

text \<open>Two overlapping clients: a put and a get that sees it, and a get of another key.\<close>

definition kv_get :: "string \<Rightarrow> int \<Rightarrow> string \<Rightarrow> int \<Rightarrow> kv_value Operation" where
  "kv_get k c v r = \<lparr>opClient = 0, opInput = Some (KvIn \<lparr>kviOp = 0, kviKey = k, kviValue = []\<rparr>), opCall = c,
     opOutput = Some (KvOut \<lparr>kvoValue = v\<rparr>), opReturn = r\<rparr>"

definition kv_put :: "string \<Rightarrow> string \<Rightarrow> int \<Rightarrow> int \<Rightarrow> kv_value Operation" where
  "kv_put k v c r = \<lparr>opClient = 1, opInput = Some (KvIn \<lparr>kviOp = 1, kviKey = k, kviValue = v\<rparr>), opCall = c,
     opOutput = Some (KvOut \<lparr>kvoValue = []\<rparr>), opReturn = r\<rparr>"

definition sample_history :: "kv_value Operation list" where
  "sample_history = [kv_get ''x'' 0 ''1'' 5, kv_put ''x'' ''1'' 1 3, kv_get ''y'' 2 [] 4]"

definition sample_env :: "(kv_value, string) run_env" where
  "sample_env = \<lparr>reSort = sort_time, reCases = [Recv 1, Recv 0], reKills = (\<lambda>_ _. False), reVisit = id,
     reSprintV = (\<lambda>_. []), reSprintS = id\<rparr>"

lemma sample_typed: "kv_typed sample_history"
  by (simp add: kv_typed_def sample_history_def kv_get_def kv_put_def)

lemma sample_keys: "op_key ` set sample_history = {''x'', ''y''}"
  by (auto simp: sample_history_def op_key_def kv_get_def kv_put_def)

lemma sample_linearizable: "linearizable KvStore sample_history"
  unfolding linearizable_def
  by (rule exI [of _ "[1, 0, 2]"])
    (auto simp: sample_history_def kv_get_def kv_put_def KvStore_def kv_store_Step_def kv_Step_def legal_Cons_iff numeral_2_eq_2)

theorem kv_check_decides_witness: "CheckOperations sample_env KvModel sample_history = Some True"
proof -
  have "cases_ok False (card (op_key ` set sample_history)) (reCases sample_env)"
    unfolding sample_keys by (auto simp: cases_ok_def sample_env_def)
  then have "CheckOperations sample_env KvModel sample_history = Some (linearizable KvStore sample_history)"
    by (intro kv_check_decides sample_typed) (simp_all add: sample_env_def sort_time_valid sample_history_def)
  then show ?thesis using sample_linearizable by simp
qed

text \<open>The verdict of \<open>checkOperations\<close> for any model and any timeout: it always returns;
  \<open>Ok\<close> means that every partition is linearizable, \<open>Illegal\<close> that one is not, also when
  the timer fires or goroutines are killed, and \<open>Unknown\<close> is only returned under a timeout.\<close>

theorem checkOperations_verdict:
  assumes "valid_sorter (reSort env)" "\<forall>xs. set (reVisit env xs) = set xs" "equal_sound M" "parts_of M ops = Some parts"
    "\<forall>p \<in> set parts. checkable M p" "parts \<noteq> []" "cases_ok (timeout > 0) (length parts) (reCases env)"
  shows "\<exists>r info. checkOperations env M ops verbose timeout = Some (r, info)
    \<and> (r = Ok \<longrightarrow> (\<forall>p \<in> set parts. linearizable M p))
    \<and> (r = Illegal \<longrightarrow> (\<exists>p \<in> set parts. \<not> linearizable M p))
    \<and> (r = Unknown \<longrightarrow> timeout > 0)"
  using assms by (rule checkOperations_decides)

theorem checkOperations_verdict_witness:
  "\<exists>r info. checkOperations (sample_env\<lparr>reCases := [Recv 1, TimerFired]\<rparr>) KvModel sample_history True 7 = Some (r, info) \<and> r \<noteq> Illegal"
proof -
  let ?env = "sample_env\<lparr>reCases := [Recv 1, TimerFired]\<rparr>"
  let ?parts = "map (\<lambda>k. filter (\<lambda>x. op_key x = k) sample_history) (sorted_list_of_set (op_key ` set sample_history))"
  note p = kv_parts [OF sample_typed]
  have len: "length ?parts = 2" by (simp only: length_map length_sorted_list_of_set sample_keys) simp
  then have ne: "?parts \<noteq> []" by auto
  have ev: "cases_ok (7 > (0 :: int)) (length ?parts) (reCases ?env)" unfolding len by (auto simp: cases_ok_def)
  have "length sample_history < 2 ^ 64" by (simp add: sample_history_def)
  then have "\<forall>p \<in> set ?parts. checkable KvModel p" using kv_checkable [OF sample_typed] by auto
  then obtain r info where r: "checkOperations ?env KvModel sample_history True 7 = Some (r, info)"
      "r = Illegal \<longrightarrow> (\<exists>p \<in> set ?parts. \<not> linearizable KvModel p)"
    using checkOperations_verdict [OF _ _ KvModel_fields(2) p _ ne ev, of True]
    by (auto simp: sample_env_def sort_time_valid)
  moreover have "\<forall>p \<in> set ?parts. linearizable KvModel p"
    using kv_locality [OF sample_typed] sample_linearizable by simp
  ultimately show ?thesis by blast
qed

text \<open>\<open>CheckOperations\<close> of the empty history with \<open>models.KvModel\<close> never returns: there is
  no partition, so no goroutine sends a verdict, and without a timeout nothing else wakes the
  \<open>select\<close> statement.\<close>

theorem kv_check_empty:
  assumes "cases_ok False 0 (reCases env)"
  shows "CheckOperations env KvModel [] = None"
proof -
  have "select_loop v False ci 0 ev c ok = None" if "\<forall>i. Recv i \<notin> set ev" for v ci ev c ok
    using that
  proof (induction ev)
    case (Cons e ev)
    then show ?case by (cases e) auto
  qed simp
  moreover have "\<forall>i. Recv i \<notin> set (reCases env)" using assms by (auto simp: cases_ok_def)
  ultimately show ?thesis
    by (simp add: CheckOperations_def checkOperations_def fillDefault_fields KvModel_fields kv_Partition_def checkParallel_def Let_def)
qed

theorem kv_check_empty_witness: "CheckOperations (sample_env\<lparr>reCases := []\<rparr>) KvModel [] = None"
  by (rule kv_check_empty) (simp add: cases_ok_def)

end
