(* ===== verification/LabGob.thy ===== *)
theory LabGob
  imports GoUnicode
begin

section \<open>The checks of \<open>labgob/labgob.go\<close>\<close>

text \<open>
  \<open>labgob\<close> wraps \<open>encoding/gob\<close> with two checks: \<open>checkType\<close> walks over the types that a value's
  type is made of and complains about fields that do not start with a capital letter;
  \<open>checkDefault\<close> walks over a value that is about to be decoded into and complains about values that are
  not zero. Types may refer to themselves, so the types of a program are a table \<open>ts\<close> in which they
  refer to each other by their index. \<open>up\<close> is the table of \<open>unicode.IsUpper\<close> above Latin-1. The
  encoder and decoder of the package \<open>gob\<close> are arguments.
\<close>

subsection \<open>Types and the state of the package\<close>

datatype rtype =
    Struct (rtName: string) (rtFields: "(string \<times> nat) list")
  | Slice nat
  | Array nat
  | Ptr nat
  | Map nat nat \<comment> \<open>key and element\<close>
  | OtherKind

definition Kind :: "rtype list \<Rightarrow> nat \<Rightarrow> rtype" where
  "Kind ts t = (if t < length ts then ts ! t else OtherKind)"

record labgob =
  errorCount :: int
  checked :: "nat list"
  printed :: "string list"

subsection \<open>\<open>checkType\<close>\<close>

text \<open>The complaint about one field.\<close>

definition lower_case :: "(int \<Rightarrow> bool) \<Rightarrow> string \<Rightarrow> bool" where
  "lower_case up name \<longleftrightarrow> IsUpper up (fst (DecodeRune name)) = False"

definition checkFieldName :: "(int \<Rightarrow> bool) \<Rightarrow> string \<Rightarrow> string \<Rightarrow> labgob \<Rightarrow> labgob" where
  "checkFieldName up tname name st =
     (if lower_case up name
      then st\<lparr>printed := printed st @ [''labgob error: lower-case field '' @ name @ '' of '' @ tname
                @ '' in RPC or persist/snapshot will break your Raft''],
              errorCount := errorCount st + 1\<rparr>
      else st)"

text \<open>\<open>checkType\<close>, and its loop over the fields of a struct.\<close>

function checkType :: "(int \<Rightarrow> bool) \<Rightarrow> rtype list \<Rightarrow> nat \<Rightarrow> labgob \<Rightarrow> labgob"
  and checkFields :: "(int \<Rightarrow> bool) \<Rightarrow> rtype list \<Rightarrow> string \<Rightarrow> (string \<times> nat) list \<Rightarrow> labgob \<Rightarrow> labgob" where
  "checkType up ts t st =
     (if t \<in> set (checked st) then st
      else let st = st\<lparr>checked := t # checked st\<rparr> in
        case Kind ts t of
          Struct tname flds \<Rightarrow> checkFields up ts tname flds st
        | Slice elem \<Rightarrow> checkType up ts elem st
        | Array elem \<Rightarrow> checkType up ts elem st
        | Ptr elem \<Rightarrow> checkType up ts elem st
        | Map key elem \<Rightarrow> checkType up ts key (checkType up ts elem st)
        | OtherKind \<Rightarrow> st)"
| "checkFields up ts tname [] st = st"
| "checkFields up ts tname ((name, t) # flds) st =
     checkFields up ts tname flds (checkType up ts t (checkFieldName up tname name st))"
  by pat_completeness auto

lemma checkFieldName_sel [simp]:
  "checked (checkFieldName up tname name st) = checked st"
  "errorCount (checkFieldName up tname name st) = errorCount st + (if lower_case up name then 1 else 0)"
  by (simp_all add: checkFieldName_def)

definition open_types :: "rtype list \<Rightarrow> labgob \<Rightarrow> nat" where
  "open_types ts st = card ({..<length ts} - set (checked st))"

lemma checked_mono_dom:
  "checkType_checkFields_dom (Inl (up, ts, t, st)) \<Longrightarrow> set (checked st) \<subseteq> set (checked (checkType up ts t st))"
  "checkType_checkFields_dom (Inr (up, ts, tname, flds, st)) \<Longrightarrow>
     set (checked st) \<subseteq> set (checked (checkFields up ts tname flds st))"
proof (induction up ts t st and up ts tname flds st rule: checkType_checkFields.pinduct)
  case (1 up ts t st)
  then show ?case
    by (subst checkType.psimps [OF 1(1)]) (auto simp: Let_def split: rtype.splits, blast)
next
  case (3 up ts tname name t flds st)
  then show ?case by (subst checkFields.psimps(2) [OF 3(1)]) auto
qed (simp add: checkFields.psimps(1))

lemma open_types_mono: "set (checked st) \<subseteq> set (checked st') \<Longrightarrow> open_types ts st' \<le> open_types ts st"
  unfolding open_types_def by (intro card_mono) auto

lemma open_types_mark:
  assumes "t \<notin> set (checked st)" and "Kind ts t \<noteq> OtherKind"
  shows "open_types ts (st\<lparr>checked := t # checked st\<rparr>) < open_types ts st"
proof -
  have "t < length ts" using assms(2) by (auto simp: Kind_def split: if_splits)
  then show ?thesis using assms(1) unfolding open_types_def by (intro psubset_card_mono) auto
qed

definition checkType_order :: "((int \<Rightarrow> bool) \<times> rtype list \<times> nat \<times> labgob
    + (int \<Rightarrow> bool) \<times> rtype list \<times> string \<times> (string \<times> nat) list \<times> labgob) \<Rightarrow> nat \<times> nat" where
  "checkType_order = case_sum (\<lambda>(up, ts, t, st). (open_types ts st, 0))
     (\<lambda>(up, ts, tname, flds, st). (open_types ts st, Suc (length flds)))"

termination checkType
proof (relation "inv_image (less_than <*lex*> less_than) checkType_order", goal_cases)
  case 1 show ?case by auto
next
  case (2 up ts t st st' tname flds)
  then show ?case using open_types_mark [of t st ts] by (simp add: checkType_order_def)
next
  case (3 up ts t st st' elem)
  then show ?case using open_types_mark [of t st ts] by (simp add: checkType_order_def)
next
  case (4 up ts t st st' elem)
  then show ?case using open_types_mark [of t st ts] by (simp add: checkType_order_def)
next
  case (5 up ts t st st' elem)
  then show ?case using open_types_mark [of t st ts] by (simp add: checkType_order_def)
next
  case (6 up ts t st st' key elem)
  then show ?case using open_types_mark [of t st ts] by (simp add: checkType_order_def)
next
  case (7 up ts t st st' key elem)
  then show ?case using open_types_mark [of t st ts] open_types_mono [OF checked_mono_dom(1), of up ts elem st' ts]
    by (simp add: checkType_order_def)
next
  case (8 up ts tname name t flds st)
  then show ?case by (simp add: checkType_order_def open_types_def)
next
  case (9 up ts tname name t flds st)
  then show ?case using open_types_mono [OF checked_mono_dom(1), of up ts t "checkFieldName up tname name st" ts]
    by (auto simp: checkType_order_def open_types_def)
qed

declare checkType.simps [simp del]

definition checkValue :: "(int \<Rightarrow> bool) \<Rightarrow> rtype list \<Rightarrow> ('v \<Rightarrow> nat option) \<Rightarrow> 'v \<Rightarrow> labgob \<Rightarrow> labgob option" where
  "checkValue up ts TypeOf v st = map_option (\<lambda>t. checkType up ts t st) (TypeOf v)"

subsection \<open>\<open>checkDefault\<close>\<close>

text \<open>A value as \<open>reflect\<close> shows it: a field has its name and tells whether it is embedded; a basic value
  has the name of its type and tells whether it is the zero value; the other kinds are slices, maps,
  interfaces and so on. As the walk stops at the third level, a value with cycles behaves as its
  unfolding.

  \<open>reflect\<close> marks what was reached through a field that is not exported (\<open>sticky\<close> for a plain
  field, \<open>embed\<close> for an embedded one, whose exported fields are free again), and \<open>Interface()\<close>
  panics on a marked value: \<open>None\<close>.\<close>

datatype gval = GStruct "(string \<times> bool \<times> gval) list" | GPtr "gval option" | GBasic string bool | GOther

definition warnDefault :: "string \<Rightarrow> string \<Rightarrow> labgob \<Rightarrow> labgob" where
  "warnDefault name tname st =
     (let st = (if errorCount st < 1
                then let what = (if name = [] then tname else name)
                     in st\<lparr>printed := printed st @ [''labgob warning: Decoding into a non-default variable/field ''
                              @ what @ '' may not work'']\<rparr>
                else st)
      in st\<lparr>errorCount := errorCount st + 1\<rparr>)"

fun checkDefault1 :: "(int \<Rightarrow> bool) \<Rightarrow> gval \<Rightarrow> bool \<times> bool \<Rightarrow> int \<Rightarrow> string \<Rightarrow> labgob \<Rightarrow> labgob option"
  and checkDefaultFields ::
    "(int \<Rightarrow> bool) \<Rightarrow> (string \<times> bool \<times> gval) list \<Rightarrow> bool \<times> bool \<Rightarrow> int \<Rightarrow> string \<Rightarrow> labgob \<Rightarrow> labgob option" where
  "checkDefault1 up v ro depth name st =
     (if depth > 3 then Some st
      else case v of
        GStruct flds \<Rightarrow> checkDefaultFields up flds ro depth name st
      | GPtr p \<Rightarrow> (case p of None \<Rightarrow> Some st | Some w \<Rightarrow> checkDefault1 up w ro (depth + 1) name st)
      | GBasic tname zero \<Rightarrow>
          if fst ro \<or> snd ro then None
          else if zero = False then Some (warnDefault name tname st) else Some st
      | GOther \<Rightarrow> Some st)"
| "checkDefaultFields up [] ro depth name st = Some st"
| "checkDefaultFields up ((fname, embedded, v) # flds) ro depth name st =
     (let name1 = (if name \<noteq> [] then name @ ''.'' @ fname else fname);
          sticky = (fst ro \<or> lower_case up fname \<and> \<not> embedded);
          embed = (lower_case up fname \<and> embedded)
      in Option.bind (checkDefault1 up v (sticky, embed) (depth + 1) name1 st)
           (checkDefaultFields up flds ro depth name))"

definition checkDefault :: "(int \<Rightarrow> bool) \<Rightarrow> gval option \<Rightarrow> labgob \<Rightarrow> labgob option" where
  "checkDefault up v st =
     (case v of None \<Rightarrow> Some st | Some w \<Rightarrow> checkDefault1 up w (False, False) 1 [] st)"

declare checkDefault1.simps [simp del]

subsection \<open>The wrappers\<close>

text \<open>\<open>None\<close> is a panic of \<open>reflect\<close>, on a nil value or in \<open>checkDefault\<close>. \<open>view\<close> tells what \<open>reflect.ValueOf\<close> sees.\<close>

definition Encode :: "(int \<Rightarrow> bool) \<Rightarrow> rtype list \<Rightarrow> ('v \<Rightarrow> nat option) \<Rightarrow> ('v \<Rightarrow> 'r) \<Rightarrow> 'v \<Rightarrow> labgob \<Rightarrow> ('r \<times> labgob) option" where
  "Encode up ts TypeOf gobEncode e st = map_option (\<lambda>st. (gobEncode e, st)) (checkValue up ts TypeOf e st)"

definition EncodeValue :: "(int \<Rightarrow> bool) \<Rightarrow> rtype list \<Rightarrow> ('v \<Rightarrow> nat option) \<Rightarrow> ('v \<Rightarrow> 'r) \<Rightarrow> 'v \<Rightarrow> labgob \<Rightarrow> ('r \<times> labgob) option" where
  "EncodeValue up ts TypeOf gobEncodeValue val st =
     map_option (\<lambda>st. (gobEncodeValue val, st)) (checkValue up ts TypeOf val st)"

definition Decode :: "(int \<Rightarrow> bool) \<Rightarrow> rtype list \<Rightarrow> ('v \<Rightarrow> nat option) \<Rightarrow> ('v \<Rightarrow> gval option) \<Rightarrow> ('v \<Rightarrow> 'r) \<Rightarrow> 'v \<Rightarrow> labgob
    \<Rightarrow> ('r \<times> labgob) option" where
  "Decode up ts TypeOf view gobDecode e st =
     map_option (\<lambda>st. (gobDecode e, st))
       (Option.bind (checkValue up ts TypeOf e st) (checkDefault up (view e)))"

definition Register :: "(int \<Rightarrow> bool) \<Rightarrow> rtype list \<Rightarrow> ('v \<Rightarrow> nat option) \<Rightarrow> ('v \<Rightarrow> 'r) \<Rightarrow> 'v \<Rightarrow> labgob \<Rightarrow> ('r \<times> labgob) option" where
  "Register up ts TypeOf gobRegister val st =
     map_option (\<lambda>st. (gobRegister val, st)) (checkValue up ts TypeOf val st)"

definition RegisterName ::
    "(int \<Rightarrow> bool) \<Rightarrow> rtype list \<Rightarrow> ('v \<Rightarrow> nat option) \<Rightarrow> (string \<Rightarrow> 'v \<Rightarrow> 'r) \<Rightarrow> string \<Rightarrow> 'v \<Rightarrow> labgob \<Rightarrow> ('r \<times> labgob) option" where
  "RegisterName up ts TypeOf gobRegisterName name val st =
     map_option (\<lambda>st. (gobRegisterName name val, st)) (checkValue up ts TypeOf val st)"

subsection \<open>What \<open>checkType\<close> visits and counts\<close>

definition succs :: "rtype list \<Rightarrow> nat \<Rightarrow> nat set" where
  "succs ts t = (case Kind ts t of
     Struct tname flds \<Rightarrow> snd ` set flds | Slice e \<Rightarrow> {e} | Array e \<Rightarrow> {e} | Ptr e \<Rightarrow> {e} | Map k e \<Rightarrow> {k, e} | OtherKind \<Rightarrow> {})"

definition refers :: "rtype list \<Rightarrow> (nat \<times> nat) set" where
  "refers ts = {(t, u). u \<in> succs ts t}"

definition made_of :: "rtype list \<Rightarrow> nat set \<Rightarrow> nat set" where
  "made_of ts A = (refers ts)\<^sup>* `` A"

definition lower_fields :: "(int \<Rightarrow> bool) \<Rightarrow> (string \<times> nat) list \<Rightarrow> int" where
  "lower_fields up flds = int (length (filter (\<lambda>(name, t). lower_case up name) flds))"

definition complaints :: "(int \<Rightarrow> bool) \<Rightarrow> rtype list \<Rightarrow> nat \<Rightarrow> int" where
  "complaints up ts t = (case Kind ts t of Struct tname flds \<Rightarrow> lower_fields up flds | _ \<Rightarrow> 0)"

text \<open>From \<open>st\<close> to \<open>st'\<close> the types \<open>A\<close> and what they are made of were looked at, with \<open>n\<close>
  complaints besides those about the types that were new.\<close>

definition explored :: "(int \<Rightarrow> bool) \<Rightarrow> rtype list \<Rightarrow> nat set \<Rightarrow> int \<Rightarrow> labgob \<Rightarrow> labgob \<Rightarrow> bool" where
  "explored up ts A n st st' \<longleftrightarrow>
     set (checked st) \<union> A \<subseteq> set (checked st') \<and> set (checked st') \<subseteq> set (checked st) \<union> made_of ts A
     \<and> (\<forall>u \<in> set (checked st') - set (checked st). succs ts u \<subseteq> set (checked st'))
     \<and> errorCount st' = errorCount st + n + (\<Sum>u \<in> set (checked st') - set (checked st). complaints up ts u)"

lemma made_of_mono: "A \<subseteq> B \<Longrightarrow> made_of ts A \<subseteq> made_of ts B"
  unfolding made_of_def by blast

lemma made_of_self: "A \<subseteq> made_of ts A"
  unfolding made_of_def by blast

lemma made_of_succs: "made_of ts (succs ts t) \<subseteq> made_of ts {t}"
  unfolding made_of_def refers_def by (auto intro: converse_rtrancl_into_rtrancl)

lemma explored_found: "A \<subseteq> set (checked st) \<Longrightarrow> explored up ts A 0 st st"
  by (auto simp: explored_def)

lemma explored_name: "explored up ts {} (if lower_case up name then 1 else 0) st (checkFieldName up tname name st)"
  by (auto simp: explored_def)

lemma explored_trans:
  assumes "explored up ts A n st st1" and "explored up ts B m st1 st2"
  shows "explored up ts (A \<union> B) (n + m) st st2"
proof -
  let ?C = "set (checked st)" and ?D = "set (checked st1)" and ?E = "set (checked st2)"
  from assms have sub: "?C \<subseteq> ?D" "?D \<subseteq> ?E" by (simp_all add: explored_def)
  then have "?E - ?C = (?D - ?C) \<union> (?E - ?D)" by blast
  then have "(\<Sum>u \<in> ?E - ?C. complaints up ts u)
      = (\<Sum>u \<in> ?D - ?C. complaints up ts u) + (\<Sum>u \<in> ?E - ?D. complaints up ts u)"
    by (simp, subst sum.union_disjoint) auto
  moreover have "?E \<subseteq> ?C \<union> made_of ts (A \<union> B)"
    using assms made_of_mono [of A "A \<union> B" ts] made_of_mono [of B "A \<union> B" ts] unfolding explored_def by blast
  ultimately show ?thesis using assms unfolding explored_def by (auto; blast)
qed

lemma explored_mark:
  assumes "t \<notin> set (checked st)"
    and "explored up ts (succs ts t) (complaints up ts t) (st\<lparr>checked := t # checked st\<rparr>) st'"
  shows "explored up ts {t} 0 st st'"
proof -
  let ?C = "set (checked st)" and ?E = "set (checked st')"
  have e: "insert t ?C \<union> succs ts t \<subseteq> ?E" "?E \<subseteq> insert t ?C \<union> made_of ts (succs ts t)"
    "\<forall>u \<in> ?E - insert t ?C. succs ts u \<subseteq> ?E"
    "errorCount st' = errorCount st + complaints up ts t + (\<Sum>u \<in> ?E - insert t ?C. complaints up ts u)"
    using assms(2) by (simp_all add: explored_def)
  then have i: "?E - ?C = insert t (?E - insert t ?C)" using assms(1) by auto
  have "(\<Sum>u \<in> ?E - ?C. complaints up ts u) = complaints up ts t + (\<Sum>u \<in> ?E - insert t ?C. complaints up ts u)"
    by (subst i, rule sum.insert) auto
  moreover have "?E \<subseteq> ?C \<union> made_of ts {t}" using e(2) made_of_succs [of ts t] made_of_self [of "{t}" ts] by blast
  ultimately show ?thesis using e by (auto simp: explored_def)
qed

lemma checkType_explores:
  "explored up ts {t} 0 st (checkType up ts t st)"
  "explored up ts (snd ` set flds) (lower_fields up flds) st (checkFields up ts tname flds st)"
proof (induction up ts t st and up ts tname flds st rule: checkType_checkFields.induct)
  case (1 up ts t st)
  show ?case
  proof (cases "t \<in> set (checked st)")
    case True
    then show ?thesis by (simp add: checkType.simps explored_found)
  next
    case False
    let ?st = "st\<lparr>checked := t # checked st\<rparr>"
    have "explored up ts (succs ts t) (complaints up ts t) ?st (checkType up ts t st)"
    proof (cases "Kind ts t")
      case (Map key elem)
      from explored_trans [OF 1(5) [OF False refl Map] 1(6) [OF False refl Map]] False Map show ?thesis
        by (simp add: checkType.simps [of up ts t st] succs_def complaints_def Let_def)
    qed (use False 1 in \<open>simp_all add: checkType.simps [of up ts t st] succs_def complaints_def Let_def explored_found\<close>)
    with False show ?thesis by (rule explored_mark)
  qed
next
  case (2 up ts tname st)
  then show ?case by (simp add: explored_found lower_fields_def)
next
  case (3 up ts tname name t flds st)
  from explored_trans [OF explored_trans [OF explored_name 3(1)] 3(2)] show ?case
    by (cases "lower_case up name") (simp_all add: lower_fields_def)
qed

text \<open>A set of types is complete if it has what its types are made of.\<close>

definition complete :: "rtype list \<Rightarrow> labgob \<Rightarrow> bool" where
  "complete ts st \<longleftrightarrow> (\<forall>u \<in> set (checked st). succs ts u \<subseteq> set (checked st))"

lemma complete_made_of:
  assumes "complete ts st" and "A \<subseteq> set (checked st)"
  shows "made_of ts A \<subseteq> set (checked st)"
proof -
  have "u \<in> set (checked st)" if "(t, u) \<in> (refers ts)\<^sup>*" "t \<in> set (checked st)" for t u
    using that by (induction rule: rtrancl_induct) (use assms(1) in \<open>auto simp: complete_def refers_def\<close>)
  with assms(2) show ?thesis by (auto simp: made_of_def)
qed

text \<open>C28: \<open>checkType\<close> ends, on types that refer to themselves too, and complains once about every
  lower-case field. After it, the types that were looked at are those of before and all that the type is
  made of, through fields, elements and keys; the error count has grown by the number of lower-case fields of
  the structs among the new ones; and the types looked at are complete again, as they are at the start
  of the program.\<close>

theorem checkType_complaints:
  assumes "complete ts st"
  shows "set (checked (checkType up ts t st)) = set (checked st) \<union> made_of ts {t}
    \<and> errorCount (checkType up ts t st)
        = errorCount st + (\<Sum>u \<in> made_of ts {t} - set (checked st). complaints up ts u)
    \<and> complete ts (checkType up ts t st)"
proof -
  let ?st' = "checkType up ts t st"
  have e: "explored up ts {t} 0 st ?st'" by (rule checkType_explores)
  then have c: "complete ts ?st'" using assms(1) unfolding complete_def explored_def by blast
  have s: "set (checked ?st') = set (checked st) \<union> made_of ts {t}"
    using e complete_made_of [OF c, of "{t}"] unfolding explored_def by blast
  moreover have "set (checked ?st') - set (checked st) = made_of ts {t} - set (checked st)" using s by blast
  ultimately show ?thesis using e c by (simp add: explored_def)
qed

text \<open>A list of pointers to itself with a lower-case field: \<open>type node struct { Next *node; val int }\<close>.\<close>

definition node_types :: "rtype list" where
  "node_types = [Struct ''node'' [(''Next'', 1), (''val'', 2)], Ptr 0, OtherKind]"

definition labgob_start :: labgob where
  "labgob_start = \<lparr>errorCount = 0, checked = [], printed = []\<rparr>"

theorem checkType_complaints_witness:
  "errorCount (checkType (\<lambda>_. False) node_types 1 labgob_start) = 1
   \<and> made_of node_types {1} = {0, 1, 2}"
proof -
  let ?st = "checkType (\<lambda>_. False) node_types 1 labgob_start"
  have "complete node_types labgob_start" by (simp add: complete_def labgob_start_def)
  from checkType_complaints [OF this, of "\<lambda>_. False" 1] have "set (checked ?st) = made_of node_types {1}"
    by (simp add: labgob_start_def)
  moreover have "checked ?st = [2, 0, 1]" by code_simp
  ultimately have "made_of node_types {1} = {2, 0, 1}" by simp
  moreover have "errorCount ?st = 1" by code_simp
  ultimately show ?thesis by blast
qed

subsection \<open>What \<open>checkDefault\<close> reports\<close>

text \<open>The names of the values that are not zero, down to the third level.\<close>

fun nondefault :: "gval \<Rightarrow> int \<Rightarrow> string \<Rightarrow> string list"
  and nondefault_fields :: "(string \<times> bool \<times> gval) list \<Rightarrow> int \<Rightarrow> string \<Rightarrow> string list" where
  "nondefault v depth name =
     (if depth > 3 then []
      else case v of
        GStruct flds \<Rightarrow> nondefault_fields flds depth name
      | GPtr p \<Rightarrow> (case p of None \<Rightarrow> [] | Some w \<Rightarrow> nondefault w (depth + 1) name)
      | GBasic tname zero \<Rightarrow> if zero then [] else [if name = [] then tname else name]
      | GOther \<Rightarrow> [])"
| "nondefault_fields [] depth name = []"
| "nondefault_fields ((fname, embedded, v) # flds) depth name =
     nondefault v (depth + 1) (if name = [] then fname else name @ ''.'' @ fname) @ nondefault_fields flds depth name"

declare nondefault.simps [simp del]

text \<open>All field names start with a capital letter.\<close>

fun capital :: "(int \<Rightarrow> bool) \<Rightarrow> gval \<Rightarrow> bool" and capital_fields :: "(int \<Rightarrow> bool) \<Rightarrow> (string \<times> bool \<times> gval) list \<Rightarrow> bool" where
  "capital up (GStruct flds) = capital_fields up flds"
| "capital up (GPtr None) = True"
| "capital up (GPtr (Some w)) = capital up w"
| "capital up (GBasic tname zero) = True"
| "capital up GOther = True"
| "capital_fields up [] = True"
| "capital_fields up ((fname, embedded, v) # flds) \<longleftrightarrow> \<not> lower_case up fname \<and> capital up v \<and> capital_fields up flds"

definition reports :: "string list \<Rightarrow> labgob \<Rightarrow> labgob \<Rightarrow> bool" where
  "reports names st st' \<longleftrightarrow> errorCount st' = errorCount st + int (length names) \<and> checked st' = checked st
     \<and> printed st' = printed st
         @ (if names = [] \<or> 1 \<le> errorCount st then []
            else [''labgob warning: Decoding into a non-default variable/field '' @ hd names @ '' may not work''])"

lemma reports_Nil: "reports [] st st"
  by (simp add: reports_def)

lemma reports_warn:
  "name \<noteq> [] \<Longrightarrow> reports [name] st (warnDefault name tname st)"
  "reports [tname] st (warnDefault [] tname st)"
  by (auto simp: reports_def warnDefault_def Let_def)

lemma reports_trans:
  assumes "reports xs st st1" and "reports ys st1 st2" and "0 \<le> errorCount st"
  shows "reports (xs @ ys) st st2"
  using assms by (cases xs) (auto simp: reports_def)

lemma reports_nonneg: "reports xs st st' \<Longrightarrow> 0 \<le> errorCount st \<Longrightarrow> 0 \<le> errorCount st'"
  by (simp add: reports_def)

lemma checkDefault1_reports:
  "checkDefault1 up v ro depth name st = Some st' \<Longrightarrow> 0 \<le> errorCount st \<Longrightarrow> reports (nondefault v depth name) st st'"
  "checkDefaultFields up flds ro depth name st = Some st' \<Longrightarrow> 0 \<le> errorCount st
     \<Longrightarrow> reports (nondefault_fields flds depth name) st st'"
proof (induction up v ro depth name st and up flds ro depth name st arbitrary: st' and st'
    rule: checkDefault1_checkDefaultFields.induct)
  case (1 up v ro depth name st)
  then show ?case
    unfolding checkDefault1.simps [of up v ro depth name st] nondefault.simps [of v depth name]
    by (auto simp: reports_Nil reports_warn split: gval.splits option.splits if_splits)
next
  case (2 up ro depth name st)
  then show ?case by (simp add: reports_Nil)
next
  case (3 up fname embedded v flds ro depth name st)
  let ?n1 = "if name \<noteq> [] then name @ ''.'' @ fname else fname"
  let ?ro = "(fst ro \<or> lower_case up fname \<and> \<not> embedded, lower_case up fname \<and> embedded)"
  obtain st1 where d: "checkDefault1 up v ?ro (depth + 1) ?n1 st = Some st1" "checkDefaultFields up flds ro depth name st1 = Some st'"
    using 3(3) by (auto simp: Let_def bind_eq_Some_conv)
  have r: "reports (nondefault v (depth + 1) ?n1) st st1" by (rule 3(1) [OF refl refl refl d(1) 3(4)])
  moreover have "reports (nondefault_fields flds depth name) st1 st'"
    by (rule 3(2) [OF refl refl refl d(1,2) reports_nonneg [OF r 3(4)]])
  ultimately have "reports (nondefault v (depth + 1) ?n1 @ nondefault_fields flds depth name) st st'"
    using 3(4) by (rule reports_trans)
  then show ?case by (cases "name = []") simp_all
qed

lemma checkDefault1_total:
  "capital up v \<Longrightarrow> ro = (False, False) \<Longrightarrow> checkDefault1 up v ro depth name st \<noteq> None"
  "capital_fields up flds \<Longrightarrow> ro = (False, False) \<Longrightarrow> checkDefaultFields up flds ro depth name st \<noteq> None"
proof (induction up v ro depth name st and up flds ro depth name st rule: checkDefault1_checkDefaultFields.induct)
  case (1 up v ro depth name st)
  then show ?case unfolding checkDefault1.simps [of up v ro depth name st] by (auto split: gval.splits option.splits)
next
  case (3 up fname embedded v flds ro depth name st)
  then show ?case by (fastforce simp: Let_def)
qed simp

text \<open>Decoding into a variable whose types have capital letters only never panics. If the variable holds zero
  values, nothing is said; otherwise every value that is not zero counts, and one warning is printed, about
  the first, unless there was a complaint before.\<close>

theorem checkDefault_reports:
  assumes "capital up v" and "0 \<le> errorCount st"
  shows "\<exists>st'. checkDefault up (Some v) st = Some st' \<and> reports (nondefault v 1 []) st st'"
proof -
  obtain st' where s: "checkDefault1 up v (False, False) 1 [] st = Some st'"
    using checkDefault1_total(1) [OF assms(1) refl] by blast
  with checkDefault1_reports(1) [OF s assms(2)] show ?thesis by (simp add: checkDefault_def)
qed

text \<open>The package means to warn about a field with a lower-case letter; decoding into a struct with such a field
  of a basic type panics.\<close>

lemma checkDefault_lower_case:
  "checkDefault (\<lambda>_. False) (Some (GPtr (Some (GStruct [(''x'', False, GBasic ''int'' True)])))) st = None"
proof -
  have "lower_case (\<lambda>_. False) ''x''" by code_simp
  then show ?thesis by (simp add: checkDefault_def checkDefault1.simps)
qed

text \<open>The walk stops at the third level: a number that is not zero is not seen in a struct in a struct behind
  a pointer, such as the number of the configuration in a reply to \<open>Query\<close>.\<close>

lemma checkDefault_shallow:
  "checkDefault up (Some (GPtr (Some (GStruct [(''A'', False, GStruct [(''B'', False, GBasic ''int'' False)])])))) st = Some st"
  by (simp add: checkDefault_def checkDefault1.simps)

end
