(* ===== verification/Spec2Isabelle.thy ===== *)
theory Spec2Isabelle
  imports Raft_Properties ShardKV_Tester_Properties KVRaft ShardServer ShardOriginal ShardKV MapReduce MRApps Porcupine_Events Porcupine_Visual Models_Kv
    LabRPC LabGob
begin

text \<open>
  A verification of the distributed systems of this repository, written in Go under
  \<open>src/src\<close>: a MapReduce library (\<open>mr\<close>) with applications (\<open>mrapps\<close>), the Raft consensus
  library (\<open>raft\<close>), two replicated services on top of it (\<open>kvraft\<close>, \<open>shardctrler\<close>) with an
  older version of the second (\<open>shardctrler_original\<close>) and the client of a third
  (\<open>shardkv\<close>), the linearizability checker their tests use (\<open>porcupine\<close>, \<open>models\<close>), and
  their network (\<open>labrpc\<close>) with its encoder (\<open>labgob\<close>).

  \<^bold>\<open>How the parts interact.\<close> A service hands a command to its Raft peer (\<open>Start\<close>), the peers
  replicate it by RPC, and each peer's \<open>applicationTicker\<close> puts committed commands on a channel
  from which the service's apply loop takes them; the loop drives a state machine, remembers the
  last reply of every client and wakes the handler that waits. A clerk repeats a request until
  some server answers. In \<open>mr\<close> workers poll a coordinator for tasks, read and write files and
  report back. The tests record the calls and returns of clerks and give them to the checker.

  \<^bold>\<open>Conventions\<close> (theory \<open>GoPrelude\<close>). Pure code is a function, stateful code passes a record,
  a panic is \<open>None\<close>, an error a value. A critical section, the code between a lock and an
  unlock, is one function; goroutines are interleaved section by section. What Go or the outside
  world leaves open is an argument: clock readings and random numbers, the order of map
  iteration, an unstable sort, the outcome of RPC calls, failures of the file system, the
  scheduling of goroutines.

  \<^bold>\<open>Theories.\<close>
  \<^item> \<open>GoPrelude\<close>, \<open>GoMap\<close>, \<open>GoUnicode\<close>, \<open>Service\<close>: slices, formatting, maps, the UTF-8
    decoder and the splitting of a text at its characters, channels; the locales
    \<open>dedup_machine\<close> (a state machine behind a table of last replies executes each request once)
    and \<open>clerk_loop\<close> (a client that retries), interpreted by the services.
  \<^item> \<open>Raft_Log\<close> (\<open>raft_log.go\<close>): the compacted log. The locale \<open>compacted_log\<close> states what
    it promises, the locale's lemmas are used through its interpretation on the code's functions.
  \<^item> \<open>Raft_State\<close> (\<open>raft.go\<close>, \<open>persister.go\<close>, \<open>raft_persistence.go\<close>), \<open>Raft_Election\<close>,
    \<open>Raft_Replication\<close>, \<open>Raft_Compaction\<close> (the files of those names,
    \<open>raft_application.go\<close> and \<open>raft_rpc.go\<close>): a peer. The locale \<open>peer_operation\<close>
    is the contract every critical section keeps and is interpreted for each of them.
  \<^item> \<open>Raft_Cluster\<close>: the peers of a group with the calls in flight, as a step relation; calls
    are lost, delayed and reordered at will, peers crash and restart. \<open>Raft_Safety\<close> proves
    election safety (over the locale \<open>quorum_system\<close>), \<open>Raft_Matching\<close> log matching,
    \<open>Raft_Properties\<close> states the properties. \<open>Raft_Tester\<close> (\<open>raft/config.go\<close>) is the harness
    of the Raft tests, over the peers and the network; \<open>Raft_Tester_Properties\<close> its properties.
  \<^item> \<open>Service_Tester\<close> (\<open>kvraft/config.go\<close>, \<open>shardctrler/config.go\<close>) and \<open>ShardKV_Tester\<close>
    (\<open>shardkv/config.go\<close>): the harnesses of the services, with their properties in the theories of
    the same names with \<open>_Properties\<close>.
  \<^item> \<open>KVRaft\<close> (\<open>kvraft/*.go\<close>): state machine, handlers, apply loop, snapshots, clerk; a server
    with its handlers as a step relation.
  \<^item> \<open>ShardCtrler\<close>, \<open>ShardServer\<close> (\<open>shardctrler/*.go\<close>): configurations and their balancing,
    server, clerk. \<open>ShardOriginal\<close>: the older version. \<open>ShardKV\<close> (\<open>shardkv/*.go\<close>): the
    clerk of the sharded store, which asks the controller's clerk for configurations.
  \<^item> \<open>MRWorker\<close> (\<open>mr/worker.go\<close>, \<open>main/mrsequential.go\<close>, reduce functions of \<open>mrapps\<close>),
    \<open>MRCoordinator\<close> (\<open>mr/coordinator.go\<close>), \<open>MapReduce\<close> (both together with the files),
    \<open>MRApps\<close> (\<open>mrapps/*.go\<close>).
  \<^item> \<open>Porcupine_Bitset\<close> (\<open>porcupine/bitset.go\<close>), \<open>Porcupine_Model\<close> (\<open>model.go\<close>, entries),
    \<open>Porcupine_List\<close> (the linked list on an explicit heap), \<open>Porcupine_Checker\<close>
    (\<open>checkSingle\<close>), \<open>Porcupine_Search\<close> (its correctness), \<open>Porcupine\<close>
    (\<open>checkParallel\<close> and \<open>porcupine.go\<close>), \<open>Porcupine_Events\<close> (histories of events),
    \<open>Porcupine_Visual\<close> (the data of \<open>visualization.go\<close>),
    \<open>Models_Kv\<close> (\<open>models/kv.go\<close>).
  \<^item> \<open>LabRPC\<close> (\<open>labrpc/labrpc.go\<close>): the network of the tests, as a step relation over the calls
    in flight. \<open>LabGob\<close> (\<open>labgob/labgob.go\<close>): its checks of types and values.

  \<^bold>\<open>What is shown.\<close>
  \<^item> Raft: one leader per term, log matching, leaders only append, votes and terms survive
    crashes, what each handler does on every branch, the commit rule, the back-off ends, snapshots
    change nothing a peer can observe, committed entries are delivered in order. The proofs also
    found that state machine safety does not hold: \<open>AppendEntries\<close> cuts its log also when the
    request is old, and a run is given in which two peers apply different commands.
  \<^item> The tester of Raft: it raises an alarm exactly when peers disagree on a command or apply out of
    order, its search for a leader cannot find two in one term, and its partitions are exact.
  \<^item> The testers of the services: in every run a partition cuts exactly the calls between its parts and
    puts the leader into the minority (odd numbers of servers), a restarted server starts from what it
    had saved, every order of a clerk's servers is equally likely, names collide only when their random
    bytes do; the servers that are joined run under the names announced, and a group that is shut down is
    isolated and no other.
  \<^item> Services: the apply loop refines a key/value specification and executes each request once;
    it never blocks; snapshots restore the state; the configurations are balanced, append-only and
    equal on all replicas whatever the order of map iteration; clerks return, and that of the sharded
    store takes its answers from the responsible group only.
  \<^item> MapReduce: a job that is done has the output of the sequential program, whatever workers
    crash, stall or report twice; with an uninterrupted worker it is done in as many rounds as
    there are tasks; two runs in which it goes wrong. The outputs of a word-count job are the counts
    of the words of its inputs, and the indexer gives an inverted index.
  \<^item> Porcupine: the search returns for every history and its verdict is exact. It is proved for
    the code's data structures: dancing links on a heap, bit sets, the cache with hashes, the
    killed goroutines. With \<open>KvModel\<close> it decides linearizability of the whole history over
    all keys, by the locality of linearizability.
    What a verbose check keeps are sequences that the model accepts, so that drawing it never fails.
  \<^item> The network: handlers run at most once per call and a true result carries their reply;
    deleted servers never answer; a reliable network answers every call. This is what the model
    of the Raft cluster takes for granted of an RPC, and less than it allows to go wrong. The check
    of types ends on recursive types, visits what a type is made of and counts each fault once.

  \<^bold>\<open>Loops and bounds.\<close> No model uses fuel. A loop that may not end is a \<open>partial_function\<close> and
  its termination is a theorem: the search (\<open>check_loop\<close>, by a lexicographic measure of the
  positions on its stack), the clerks (when some server answers), the old \<open>Join\<close>, which is
  shown not to end. Other loops are total functions with a measure. Go's \<open>int\<close> is \<open>int\<close> where
  the code counts; bit sets and hashes use words of 64 and 32 bits; a checked history has less
  than 2 ^ 64 operations, the range of the indices of a bit set.

  \<^bold>\<open>Not modelled.\<close> \<open>encoding/gob\<close>, which \<open>labgob\<close> wraps, is replaced by streams of typed
  values in \<open>Raft_Log\<close> and by parameters in \<open>LabRPC\<close> and \<open>LabGob\<close>.
  The page template of \<open>porcupine/visualization.go\<close>
  and writing it out. \<open>shardctrler_original/config.go\<close>: the
  same text as that of \<open>shardctrler\<close>. The Unicode
  tables above Latin-1 are parameters (\<open>GoUnicode\<close>). The main programs of \<open>main\<close> except
  \<open>mrsequential.go\<close> (start-up, plugins, sockets) and debug output are left out. The handlers of
  the server of \<open>shardkv\<close> are empty in the source.
\<close>

end
